(* ===== verification/Prelude.thy ===== *)
theory Prelude
  imports Main "HOL-Library.Word" "HOL-Library.Sublist"
begin

unbundle bit_operations_syntax

section \<open>Shared types, the result type of fallible code, and little-endian fields\<close>

text \<open>
  What every component of the model uses: the machine integers at their width, the outcome of
  a call that may return an error or panic (crates/df-core/src/error.rs), byte slices with the
  bounds checks Rust performs, and the \<open>to_le_bytes\<close> / \<open>from_le_bytes\<close> conversions of the
  standard library. A \<open>usize\<close> that counts elements of a buffer in memory is a \<open>nat\<close>; a field
  stored in a file is a word of its own width. An \<open>i64\<close> is a 64-bit word read with \<open>sint\<close>.
\<close>

type_synonym u8 = "8 word"
type_synonym u16 = "16 word"
type_synonym u32 = "32 word"
type_synonym u64 = "64 word"
type_synonym i64 = "64 word"
type_synonym bytes = "u8 list"

subsection \<open>Errors and outcomes\<close>

text \<open>
  The error enum of df-core. The message of a variant is the text up to the part that another
  library words (zstd, std::io); numbers formatted into a message are formatted here too.
\<close>

datatype core_error =
    DbFormat string
  | Codec string
  | Query string
  | Io string

text \<open>
  A call returns a value, returns an error, or panics (an index or slice out of bounds, an
  \<open>unwrap\<close> of an error). Panics are kept apart from errors: \<open>unwrap_or_default\<close> and \<open>?\<close>
  treat an error, and neither stops a panic.
\<close>

datatype (dead 'e, 'a) outcome = Ok 'a | Err 'e | Panic

type_synonym 'a res = "(core_error, 'a) outcome"

named_theorems outcome_simps

primrec bind_o :: "('e, 'a) outcome \<Rightarrow> ('a \<Rightarrow> ('e, 'b) outcome) \<Rightarrow> ('e, 'b) outcome" where
  "bind_o (Ok x) f = f x"
| "bind_o (Err e) f = Err e"
| "bind_o Panic f = Panic"

lemma bind_o_eq_Ok [outcome_simps]: "bind_o m f = Ok y \<longleftrightarrow> (\<exists>x. m = Ok x \<and> f x = Ok y)"
  by (cases m) auto

lemma bind_o_assoc [outcome_simps]: "bind_o (bind_o m f) g = bind_o m (\<lambda>x. bind_o (f x) g)"
  by (cases m) auto

lemma bind_o_cong [fundef_cong]:
  "m = m' \<Longrightarrow> (\<And>x. m' = Ok x \<Longrightarrow> f x = g x) \<Longrightarrow> bind_o m f = bind_o m' g"
  by (cases m') auto

text \<open>\<open>Result::unwrap_or_default\<close> and \<open>Result::unwrap_or\<close>: an error becomes the default.\<close>

primrec unwrap_or :: "'a \<Rightarrow> ('e, 'a) outcome \<Rightarrow> ('e, 'a) outcome" where
  "unwrap_or d (Ok x) = Ok x"
| "unwrap_or d (Err e) = Ok d"
| "unwrap_or d Panic = Panic"

text \<open>\<open>Option::ok_or_else\<close>.\<close>

primrec ok_or :: "'e \<Rightarrow> 'a option \<Rightarrow> ('e, 'a) outcome" where
  "ok_or e None = Err e"
| "ok_or e (Some x) = Ok x"

text \<open>A loop that may stop early on \<open>?\<close>: left to right, stopping at the first failure.\<close>

fun fold_o :: "('a \<Rightarrow> 's \<Rightarrow> ('e, 's) outcome) \<Rightarrow> 'a list \<Rightarrow> 's \<Rightarrow> ('e, 's) outcome" where
  "fold_o f [] s = Ok s"
| "fold_o f (x # xs) s = bind_o (f x s) (fold_o f xs)"

lemma fold_o_append: "fold_o f (xs @ ys) s = bind_o (fold_o f xs s) (fold_o f ys)"
proof (induction xs arbitrary: s)
  case (Cons x xs)
  then show ?case by (cases "f x s") auto
qed simp

lemma fold_o_Ok: "(\<And>x s. x \<in> set xs \<Longrightarrow> f x s = Ok (g x s)) \<Longrightarrow> fold_o f xs s = Ok (fold g xs s)"
  by (induction xs arbitrary: s) auto

fun map_o :: "('a \<Rightarrow> ('e, 'b) outcome) \<Rightarrow> 'a list \<Rightarrow> ('e, 'b list) outcome" where
  "map_o f [] = Ok []"
| "map_o f (x # xs) = bind_o (f x) (\<lambda>y. bind_o (map_o f xs) (\<lambda>ys. Ok (y # ys)))"

lemma map_o_Ok: "(\<And>x. x \<in> set xs \<Longrightarrow> f x = Ok (g x)) \<Longrightarrow> map_o f xs = Ok (map g xs)"
  by (induction xs) auto

text \<open>Decimal formatting of a number in a message.\<close>

fun show_nat :: "nat \<Rightarrow> string" where
  "show_nat n = (if n < 10 then [char_of (48 + n)]
     else show_nat (n div 10) @ [char_of (48 + n mod 10)])"

declare show_nat.simps [simp del]

subsection \<open>Slices\<close>

text \<open>\<open>&buf[lo..hi]\<close> and \<open>buf[i]\<close> panic out of bounds.\<close>

definition slice :: "'a list \<Rightarrow> nat \<Rightarrow> nat \<Rightarrow> ('e, 'a list) outcome" where
  "slice b lo hi = (if lo \<le> hi \<and> hi \<le> length b then Ok (take (hi - lo) (drop lo b)) else Panic)"

definition index_o :: "'a list \<Rightarrow> nat \<Rightarrow> ('e, 'a) outcome" where
  "index_o b i = (if i < length b then Ok (b ! i) else Panic)"

lemma slice_prefix [simp]: "hi = length x \<Longrightarrow> slice (x @ c) 0 hi = Ok x"
  by (simp add: slice_def)

lemma index_append [simp]: "i = length a \<Longrightarrow> index_o (a @ x # c) i = Ok x"
  by (simp add: index_o_def nth_append)

subsection \<open>Little-endian integers\<close>

primrec le_nat :: "nat \<Rightarrow> nat \<Rightarrow> bytes" where
  "le_nat 0 x = []"
| "le_nat (Suc n) x = of_nat x # le_nat n (x div 256)"

primrec of_le :: "bytes \<Rightarrow> nat" where
  "of_le [] = 0"
| "of_le (b # bs) = unat b + 256 * of_le bs"

lemma length_le_nat [simp]: "length (le_nat n x) = n"
  by (induction n arbitrary: x) auto

lemma of_le_le_nat: "of_le (le_nat n x) = x mod 256 ^ n"
proof (induction n arbitrary: x)
  case 0
  show ?case by simp
next
  case (Suc n)
  have "x mod (256 * 256 ^ n) = x mod 256 + 256 * (x div 256 mod 256 ^ n)"
    by (simp add: mod_mult2_eq add.commute)
  moreover have "unat (of_nat x :: u8) = x mod 256"
    by (simp add: unat_of_nat)
  ultimately show ?case by (simp add: Suc)
qed

text \<open>\<open>uN::to_le_bytes\<close> and \<open>uN::from_le_bytes\<close> at the width of the word type.\<close>

definition to_le :: "'a::len word \<Rightarrow> bytes" where
  "to_le w = le_nat (LENGTH('a) div 8) (unat w)"

definition from_le :: "bytes \<Rightarrow> 'a::len word" where
  "from_le bs = of_nat (of_le bs)"

lemma length_to_le [simp]: "length (to_le (w :: 'a::len word)) = LENGTH('a) div 8"
  by (simp add: to_le_def)

lemma from_le_to_le:
  assumes "LENGTH('a) mod 8 = 0"
  shows "from_le (to_le w) = (w :: 'a::len word)"
proof -
  have "(256::nat) ^ (LENGTH('a) div 8) = 2 ^ (8 * (LENGTH('a) div 8))"
    by (simp add: power_mult)
  also have "8 * (LENGTH('a) div 8) = LENGTH('a)"
    using assms by presburger
  finally have "of_le (to_le w) = unat w"
    by (simp add: to_le_def of_le_le_nat)
  then show ?thesis by (simp add: from_le_def)
qed

lemma from_le_to_le_widths [simp]:
  "from_le (to_le (w2 :: u16)) = w2"
  "from_le (to_le (w4 :: u32)) = w4"
  "from_le (to_le (w8 :: u64)) = w8"
  by (simp_all add: from_le_to_le)

text \<open>Reading an integer field: the slice \<open>buf[at..at + n]\<close>, then \<open>from_le_bytes\<close>.\<close>

definition rd_le :: "bytes \<Rightarrow> nat \<Rightarrow> ('e, 'a::len word) outcome" where
  "rd_le b at = bind_o (slice b at (at + LENGTH('a) div 8)) (\<lambda>x. Ok (from_le x))"

lemma rd_le_here:
  assumes "LENGTH('a) mod 8 = 0"
  shows "rd_le (to_le (w :: 'a::len word) @ c) 0 = Ok w"
  using assms by (simp add: rd_le_def from_le_to_le)

lemma rd_le_here_widths [simp]:
  "rd_le (to_le (w2 :: u16) @ c) 0 = Ok w2"
  "rd_le (to_le (w4 :: u32) @ c) 0 = Ok w4"
  "rd_le (to_le (w8 :: u64) @ c) 0 = Ok w8"
  by (simp_all add: rd_le_here)

lemma rd_le_here_end [simp]:
  "rd_le (to_le (w2 :: u16)) 0 = Ok w2"
  "rd_le (to_le (w4 :: u32)) 0 = Ok w4"
  "rd_le (to_le (w8 :: u64)) 0 = Ok w8"
  using rd_le_here_widths [of _ "[]"] by simp_all

text \<open>
  A record laid out as a concatenation is read field by field: a read past the first part is
  a read of the rest.
\<close>

lemma slice_skip [simp]:
  "length x \<le> lo \<Longrightarrow> lo \<le> hi \<Longrightarrow> slice (x @ y) lo hi = slice y (lo - length x) (hi - length x)"
  by (auto simp: slice_def)

lemma rd_le_skip [simp]:
  "length x \<le> at \<Longrightarrow> rd_le (x @ y) at = rd_le y (at - length x)"
  by (simp add: rd_le_def)

lemma slice_skip_Cons [simp]:
  "0 < lo \<Longrightarrow> lo \<le> hi \<Longrightarrow> slice (x # y) lo hi = slice y (lo - 1) (hi - 1)"
  using slice_skip [of "[x]" lo hi y] by simp

lemma rd_le_skip_Cons [simp]: "0 < at \<Longrightarrow> rd_le (x # y) at = rd_le y (at - 1)"
  using rd_le_skip [of "[x]" at y] by simp

lemma slice_all [simp]: "hi = length x \<Longrightarrow> slice x 0 hi = Ok x"
  by (simp add: slice_def)

lemma unat_of_nat_small:
  "n < 2 ^ LENGTH('a) \<Longrightarrow> unat (of_nat n :: 'a::len word) = n"
  by (simp add: unat_of_nat)

lemma unat_of_nat_u32 [simp]: "n < 4294967296 \<Longrightarrow> unat (of_nat n :: u32) = n"
  by (simp add: unat_of_nat)

lemma unat_of_nat_u64 [simp]: "n < 18446744073709551616 \<Longrightarrow> unat (of_nat n :: u64) = n"
  by (simp add: unat_of_nat)

lemma unat_of_nat_u16 [simp]: "n < 65536 \<Longrightarrow> unat (of_nat n :: u16) = n"
  by (simp add: unat_of_nat)

lemma unat_u8_less [simp]: "unat (b :: u8) < 256"
  using unsigned_less [of b] by simp

lemma unat_u32_less [simp]: "unat (w :: u32) < 4294967296"
  using unsigned_less [of w] by simp

lemma unat_u32_not_ge [simp]: "\<not> 4294967296 \<le> unat (w :: u32)"
  by (simp add: not_le)

lemma unat_u64_less [simp]: "unat (w :: u64) < 18446744073709551616"
  using unsigned_less [of w] by simp

lemma unat_ucast_u64 [simp]: "unat (ucast (w :: u32) :: u64) = unat w"
  by (simp add: unsigned_ucast_eq take_bit_nat_eq_self less_trans [OF unsigned_less])

lemma unat_drop_bit: "unat (drop_bit n v) = unat v div 2 ^ n"
  unfolding unat_drop_bit_eq by (rule drop_bit_eq_div)

lemma bit_word_128 [simp]: "bit (0x80 :: 'a::len word) n \<longleftrightarrow> n = 7 \<and> 7 < LENGTH('a)"
proof -
  have "(0x80 :: 'a word) = 2 ^ 7" by simp
  then show ?thesis by (simp only: bit_exp_iff) (auto simp: exp_eq_zero_iff)
qed

lemma bit_int_128 [simp]: "bit (0x80 :: int) n \<longleftrightarrow> n = 7"
proof -
  have "(0x80 :: int) = 2 ^ 7" by simp
  then show ?thesis by (simp only: bit_exp_iff) auto
qed

lemma mask7: "(0x7F :: 'a::len word) = mask 7"
  by (simp add: mask_eq_exp_minus_1)

subsection \<open>Substring search on byte slices\<close>

text \<open>
  \<open>hay.windows(n).any(|w| w == needle)\<close> for a non-empty needle, and \<open>str::contains\<close>, both
  decide whether the needle is a contiguous sublist of the haystack.
\<close>

definition windows :: "nat \<Rightarrow> 'a list \<Rightarrow> 'a list list" where
  "windows n xs = map (\<lambda>i. take n (drop i xs)) [0..<Suc (length xs) - n]"

lemma windows_iff_sublist:
  assumes "needle \<noteq> []"
  shows "needle \<in> set (windows (length needle) hay) \<longleftrightarrow> sublist needle hay"
proof
  assume "needle \<in> set (windows (length needle) hay)"
  then obtain i where "i < Suc (length hay) - length needle" and "needle = take (length needle) (drop i hay)"
    by (auto simp: windows_def)
  then show "sublist needle hay"
    by (metis sublist_drop sublist_order.order_trans sublist_take)
next
  assume "sublist needle hay"
  then obtain a c where h: "hay = a @ needle @ c"
    by (auto simp: sublist_def)
  have "needle = take (length needle) (drop (length a) hay)"
    and "length a < Suc (length hay) - length needle"
    by (simp_all add: h)
  then show "needle \<in> set (windows (length needle) hay)"
    unfolding windows_def by force
qed

subsection \<open>Bit lengths and powers of two\<close>

text \<open>
  The number of significant bits (\<open>BITS - leading_zeros\<close>), \<open>next_power_of_two\<close> and
  \<open>trailing_zeros\<close> of the standard library.
\<close>

fun bit_len :: "nat \<Rightarrow> nat" where
  "bit_len n = (if n = 0 then 0 else Suc (bit_len (n div 2)))"

declare bit_len.simps [simp del]

lemma bit_len_le: "n < 2 ^ k \<Longrightarrow> bit_len n \<le> k"
proof (induction n arbitrary: k rule: bit_len.induct)
  case (1 n)
  show ?case
  proof (cases "n = 0")
    case False
    then obtain k' where k: "k = Suc k'" using 1(2) by (cases k) auto
    then have "n div 2 < 2 ^ k'" using 1(2) by auto
    then show ?thesis using 1(1) False k by (simp add: bit_len.simps [of n])
  qed (simp add: bit_len.simps)
qed

lemma bit_len_bound: "n < 2 ^ bit_len n"
proof (induction n rule: bit_len.induct)
  case (1 n)
  show ?case
  proof (cases "n = 0")
    case False
    then have "n div 2 < 2 ^ bit_len (n div 2)" using 1 by simp
    then show ?thesis using False by (simp add: bit_len.simps [of n])
  qed (simp add: bit_len.simps)
qed

definition next_power_of_two :: "nat \<Rightarrow> nat" where
  "next_power_of_two n = (if n \<le> 1 then 1 else 2 ^ bit_len (n - 1))"

fun trailing_zeros :: "nat \<Rightarrow> nat" where
  "trailing_zeros n = (if n = 0 then 64 else if odd n then 0 else Suc (trailing_zeros (n div 2)))"

declare trailing_zeros.simps [simp del]

lemma trailing_zeros_power [simp]: "trailing_zeros (2 ^ k) = k"
  by (induction k) (auto simp: trailing_zeros.simps)

lemma next_power_of_two_ge: "n \<le> next_power_of_two n"
  using bit_len_bound [of "n - 1"] by (auto simp: next_power_of_two_def)

lemma next_power_of_two_power: "\<exists>k. next_power_of_two n = 2 ^ k"
  by (metis next_power_of_two_def power_0)

lemma next_power_of_two_least:
  assumes "n \<le> 2 ^ k"
  shows "next_power_of_two n \<le> 2 ^ k"
proof (cases "n \<le> 1")
  case False
  then have "n - 1 < 2 ^ k" using assms by simp
  then show ?thesis using False bit_len_le by (simp add: next_power_of_two_def)
qed (simp add: next_power_of_two_def)

lemma and_mod: "n = 2 ^ k \<Longrightarrow> x AND (n - 1) = x mod (n :: nat)"
  by (metis mask_eq_exp_minus_1 take_bit_eq_mask take_bit_eq_mod)

end
