(* ===== verification/Unicode.thy ===== *)
theory Unicode
  imports Prelude
begin

section \<open>Rust strings: UTF-8, characters, lowercasing\<close>

text \<open>
  A Rust \<open>str\<close> is a byte slice that holds valid UTF-8; here it is its bytes, and \<open>valid_utf8\<close>
  is the type's invariant. This theory models what the repository uses of \<open>str\<close> from the
  standard library: \<open>from_utf8\<close>, \<open>chars\<close>, \<open>char::is_whitespace\<close>, \<open>to_lowercase\<close>. The case
  mapping and the two character classes that \<open>to_lowercase\<close> consults are data of the Unicode
  Character Database, so they are a parameter; the algorithm around them (the final-sigma rule
  of \<open>str::to_lowercase\<close>) is written out.
\<close>

type_synonym str = bytes

subsection \<open>Encoding and decoding one character\<close>

definition scalar :: "nat \<Rightarrow> bool" where
  "scalar c \<longleftrightarrow> c < 0xD800 \<or> 0xE000 \<le> c \<and> c < 0x110000"

definition byte :: "nat \<Rightarrow> u8" where
  "byte n = of_nat n"

lemma unat_byte [simp]: "n < 256 \<Longrightarrow> unat (byte n) = n"
  by (simp add: byte_def unat_of_nat)

lemma byte_unat [simp]: "byte (unat b) = b"
  by (simp add: byte_def)

definition encode_char :: "nat \<Rightarrow> bytes" where
  "encode_char c =
     (if c < 0x80 then [byte c]
      else if c < 0x800 then [byte (0xC0 + c div 64), byte (0x80 + c mod 64)]
      else if c < 0x10000 then
        [byte (0xE0 + c div 4096), byte (0x80 + c div 64 mod 64), byte (0x80 + c mod 64)]
      else
        [byte (0xF0 + c div 262144), byte (0x80 + c div 4096 mod 64),
         byte (0x80 + c div 64 mod 64), byte (0x80 + c mod 64)])"

definition cont_byte :: "u8 \<Rightarrow> bool" where
  "cont_byte b \<longleftrightarrow> 0x80 \<le> unat b \<and> unat b < 0xC0"

text \<open>One step of the UTF-8 validation of \<open>core::str\<close>: overlong forms, surrogates and values
  above U+10FFFF are refused.\<close>

fun decode_char :: "bytes \<Rightarrow> (nat \<times> bytes) option" where
  "decode_char [] = None"
| "decode_char (b # bs) =
     (let n = unat b in
      if n < 0x80 then Some (n, bs)
      else if 0xC2 \<le> n \<and> n < 0xE0 then
        (case bs of
           b1 # r \<Rightarrow>
             if cont_byte b1 then Some ((n - 0xC0) * 64 + (unat b1 - 0x80), r) else None
         | _ \<Rightarrow> None)
      else if 0xE0 \<le> n \<and> n < 0xF0 then
        (case bs of
           b1 # b2 # r \<Rightarrow>
             (let c = (n - 0xE0) * 4096 + (unat b1 - 0x80) * 64 + (unat b2 - 0x80) in
              if cont_byte b1 \<and> cont_byte b2 \<and> 0x800 \<le> c \<and> scalar c then Some (c, r) else None)
         | _ \<Rightarrow> None)
      else if 0xF0 \<le> n \<and> n < 0xF5 then
        (case bs of
           b1 # b2 # b3 # r \<Rightarrow>
             (let c = (n - 0xF0) * 262144 + (unat b1 - 0x80) * 4096 + (unat b2 - 0x80) * 64
                        + (unat b3 - 0x80) in
              if cont_byte b1 \<and> cont_byte b2 \<and> cont_byte b3 \<and> 0x10000 \<le> c \<and> c < 0x110000
              then Some (c, r) else None)
         | _ \<Rightarrow> None)
      else None)"

lemma split_div:
  fixes c :: nat
  shows "c div 4096 * 4096 + c div 64 mod 64 * 64 + c mod 64 = c"
    and "c div 262144 * 262144 + c div 4096 mod 64 * 4096 + c div 64 mod 64 * 64 + c mod 64 = c"
proof -
  have a: "c div 64 * 64 + c mod 64 = c" by simp
  have b: "c div 4096 * 64 + c div 64 mod 64 = c div 64"
    using div_mult_mod_eq [of "c div 64" 64] by (simp add: div_mult2_eq [symmetric])
  have d: "c div 262144 * 64 + c div 4096 mod 64 = c div 4096"
    using div_mult_mod_eq [of "c div 4096" 64] by (simp add: div_mult2_eq [symmetric])
  show e: "c div 4096 * 4096 + c div 64 mod 64 * 64 + c mod 64 = c"
    using a b by linarith
  show "c div 262144 * 262144 + c div 4096 mod 64 * 4096 + c div 64 mod 64 * 64 + c mod 64 = c"
    using d e by linarith
qed

lemma unsplit_div:
  fixes w x y z :: nat
  assumes "y < 64" "z < 64" "w < 64"
  shows "(x * 4096 + y * 64 + z) div 4096 = x"
    and "(x * 4096 + y * 64 + z) div 64 mod 64 = y"
    and "(x * 4096 + y * 64 + z) mod 64 = z"
    and "(x * 262144 + y * 4096 + z * 64 + w) div 262144 = x"
    and "(x * 262144 + y * 4096 + z * 64 + w) div 4096 mod 64 = y"
    and "(x * 262144 + y * 4096 + z * 64 + w) div 64 mod 64 = z"
    and "(x * 262144 + y * 4096 + z * 64 + w) mod 64 = w"
proof -
  have d1: "(a * 64 + b) div 64 = a" "(a * 64 + b) mod 64 = b" if "b < 64" for a b :: nat
    using that by auto
  let ?c = "x * 4096 + y * 64 + z" and ?d = "x * 262144 + y * 4096 + z * 64 + w"
  have c: "?c = (x * 64 + y) * 64 + z" and d: "?d = ((x * 64 + y) * 64 + z) * 64 + w" by simp_all
  have c1: "?c div 64 = x * 64 + y" unfolding c by (rule d1) fact
  have d2: "?d div 64 = (x * 64 + y) * 64 + z" unfolding d by (rule d1) fact
  have d3: "?d div 4096 = x * 64 + y"
    using d2 d1(1) [OF assms(2), of "x * 64 + y"] by (simp add: div_mult2_eq [of _ 64 64, simplified])
  show "?c div 4096 = x"
    using c1 d1(1) [OF assms(1), of x] by (simp add: div_mult2_eq [of _ 64 64, simplified])
  show "?c div 64 mod 64 = y" unfolding c1 by (rule d1(2)) fact
  show "?c mod 64 = z" unfolding c by (rule d1(2)) fact
  show "?d div 262144 = x"
    using d3 d1(1) [OF assms(1), of x] by (simp add: div_mult2_eq [of _ 4096 64, simplified])
  show "?d div 4096 mod 64 = y" unfolding d3 by (rule d1(2)) fact
  show "?d div 64 mod 64 = z" unfolding d2 by (rule d1(2)) fact
  show "?d mod 64 = w" unfolding d by (rule d1(2)) fact
qed

lemma decode_encode_char:
  assumes "scalar c"
  shows "decode_char (encode_char c @ r) = Some (c, r)"
proof -
  have c: "c < 0x110000" using assms by (auto simp: scalar_def)
  consider "c < 0x80" | "0x80 \<le> c" "c < 0x800" | "0x800 \<le> c" "c < 0x10000" | "0x10000 \<le> c"
    by linarith
  then show ?thesis
  proof cases
    case 1
    then show ?thesis by (simp add: encode_char_def)
  next
    case 2
    then have "0xC2 \<le> 0xC0 + c div 64" "0xC0 + c div 64 < 0xE0" by linarith+
    then show ?thesis using 2
      by (simp add: encode_char_def cont_byte_def Let_def)
  next
    case 3
    have "0xE0 + c div 4096 < 0xF0" using 3 by linarith
    then show ?thesis using 3 assms
      by (simp add: encode_char_def cont_byte_def Let_def split_div)
  next
    case 4
    have "0xF0 + c div 262144 < 0xF5" using c by linarith
    then show ?thesis using 4 c
      by (simp add: encode_char_def cont_byte_def Let_def split_div)
  qed
qed

lemma div_mod_64 [simp]: "y < 64 \<Longrightarrow> (x * 64 + y) div 64 = x" "y < 64 \<Longrightarrow> (x * 64 + y) mod 64 = (y::nat)"
  by auto

lemma cont_byte_val: "cont_byte b \<Longrightarrow> \<exists>y<64. unat b = 128 + y \<and> b = byte (128 + y)"
  by (rule exI [where x = "unat b - 128"]) (auto simp: cont_byte_def)

lemma encode_decode_char:
  assumes "decode_char bs = Some (c, r)"
  shows "scalar c \<and> bs = encode_char c @ r"
proof -
  obtain b bt where bs: "bs = b # bt" using assms by (cases bs) auto
  consider (one) "unat b < 128" | (two) "0xC2 \<le> unat b" "unat b < 0xE0"
    | (three) "0xE0 \<le> unat b" "unat b < 0xF0" | (four) "0xF0 \<le> unat b" "unat b < 0xF5"
    using assms bs by (auto simp: Let_def split: if_splits)
  then show ?thesis
  proof cases
    case one
    then show ?thesis using assms by (auto simp: bs scalar_def encode_char_def)
  next
    case two
    then obtain b1 where bt: "bt = b1 # r" and cb: "cont_byte b1"
      and c: "c = (unat b - 192) * 64 + (unat b1 - 128)"
      using assms by (auto simp: bs Let_def split: list.splits if_splits)
    obtain y where y: "y < 64" "unat b1 = 128 + y" "b1 = byte (128 + y)"
      using cont_byte_val [OF cb] by auto
    define x where "x = unat b - 192"
    have x: "unat b = 192 + x" "b = byte (192 + x)" "2 \<le> x" "x < 32"
      using two by (auto simp: x_def)
    have c': "c = x * 64 + y" using c y x by simp
    then have "c div 64 = x" "c mod 64 = y" "128 \<le> c" "c < 2048" using x y by auto
    then show ?thesis by (simp add: scalar_def encode_char_def bs bt x y)
  next
    case three
    then obtain b1 b2 where bt: "bt = b1 # b2 # r" and cb: "cont_byte b1" "cont_byte b2"
      and c: "c = (unat b - 224) * 4096 + (unat b1 - 128) * 64 + (unat b2 - 128)"
      and low: "2048 \<le> c" "scalar c"
      using assms by (auto simp: bs Let_def split: list.splits if_splits)
    obtain y where y: "y < 64" "unat b1 = 128 + y" "b1 = byte (128 + y)"
      using cont_byte_val [OF cb(1)] by auto
    obtain z where z: "z < 64" "unat b2 = 128 + z" "b2 = byte (128 + z)"
      using cont_byte_val [OF cb(2)] by auto
    define x where "x = unat b - 224"
    have x: "unat b = 224 + x" "b = byte (224 + x)" "x < 16"
      using three by (auto simp: x_def)
    have c': "c = x * 4096 + y * 64 + z" using c y z x by simp
    then have "c div 4096 = x" "c div 64 mod 64 = y" "c mod 64 = z"
      using unsplit_div(1-3) [OF y(1) z(1) y(1)] by simp_all
    moreover have "c < 65536" using c' x(3) y(1) z(1) by linarith
    ultimately show ?thesis using low by (simp add: encode_char_def bs bt x y z)
  next
    case four
    then obtain b1 b2 b3 where bt: "bt = b1 # b2 # b3 # r"
      and cb: "cont_byte b1" "cont_byte b2" "cont_byte b3"
      and c: "c = (unat b - 240) * 262144 + (unat b1 - 128) * 4096 + (unat b2 - 128) * 64
                    + (unat b3 - 128)"
      and low: "65536 \<le> c" "c < 1114112"
      using assms by (auto simp: bs Let_def split: list.splits if_splits)
    obtain y where y: "y < 64" "unat b1 = 128 + y" "b1 = byte (128 + y)"
      using cont_byte_val [OF cb(1)] by auto
    obtain z where z: "z < 64" "unat b2 = 128 + z" "b2 = byte (128 + z)"
      using cont_byte_val [OF cb(2)] by auto
    obtain w where w: "w < 64" "unat b3 = 128 + w" "b3 = byte (128 + w)"
      using cont_byte_val [OF cb(3)] by auto
    define x where "x = unat b - 240"
    have x: "unat b = 240 + x" "b = byte (240 + x)"
      using four by (auto simp: x_def)
    have c': "c = x * 262144 + y * 4096 + z * 64 + w" using c y z x w by simp
    have "c div 262144 = x" "c mod 64 = w" "c div 4096 mod 64 = y" "c div 64 mod 64 = z"
      unfolding c' by (simp_all add: unsplit_div y z w)
    then show ?thesis using low by (simp add: scalar_def encode_char_def bs bt x y z w)
  qed
qed

lemma decode_char_shorter: "decode_char bs = Some (c, r) \<Longrightarrow> length r < length bs"
  by (cases bs) (auto simp: Let_def split: list.splits if_splits)

subsection \<open>Strings\<close>

definition encode_str :: "nat list \<Rightarrow> bytes" where
  "encode_str cs = concat (map encode_char cs)"

text \<open>The characters of a string, and whether a byte slice is one (\<open>str::from_utf8\<close>).\<close>

function chars :: "bytes \<Rightarrow> nat list" where
  "chars bs = (case decode_char bs of None \<Rightarrow> [] | Some (c, r) \<Rightarrow> c # chars r)"
  by pat_completeness auto
termination
  by (relation "measure length") (auto dest: decode_char_shorter)

function valid_utf8 :: "bytes \<Rightarrow> bool" where
  "valid_utf8 bs = (if bs = [] then True
     else case decode_char bs of None \<Rightarrow> False | Some (c, r) \<Rightarrow> valid_utf8 r)"
  by pat_completeness auto
termination
  by (relation "measure length") (auto dest: decode_char_shorter)

declare chars.simps [simp del] valid_utf8.simps [simp del]

definition from_utf8 :: "bytes \<Rightarrow> str option" where
  "from_utf8 bs = (if valid_utf8 bs then Some bs else None)"

lemma encode_str_simps [simp]:
  "encode_str [] = []"
  "encode_str (c # cs) = encode_char c @ encode_str cs"
  "encode_str (cs @ ds) = encode_str cs @ encode_str ds"
  by (simp_all add: encode_str_def)

lemma chars_Nil [simp]: "chars [] = []"
  by (simp add: chars.simps)

lemma valid_Nil [simp]: "valid_utf8 []"
  by (simp add: valid_utf8.simps)

lemma encode_char_nonempty [simp]: "encode_char c \<noteq> []"
  by (simp add: encode_char_def)

lemma encode_str_eq_Nil [simp]: "encode_str cs = [] \<longleftrightarrow> cs = []"
  by (cases cs) auto

lemma chars_encode_append: "\<forall>c\<in>set cs. scalar c \<Longrightarrow> chars (encode_str cs @ r) = cs @ chars r"
proof (induction cs)
  case (Cons c cs)
  then show ?case by (subst chars.simps) (simp add: decode_encode_char)
qed simp

lemma chars_encode [simp]: "\<forall>c\<in>set cs. scalar c \<Longrightarrow> chars (encode_str cs) = cs"
  using chars_encode_append [of cs "[]"] by simp

lemma valid_encode_append: "\<forall>c\<in>set cs. scalar c \<Longrightarrow> valid_utf8 (encode_str cs @ r) = valid_utf8 r"
proof (induction cs)
  case (Cons c cs)
  then show ?case by (subst valid_utf8.simps) (simp add: decode_encode_char)
qed simp

lemma valid_encode [simp]: "\<forall>c\<in>set cs. scalar c \<Longrightarrow> valid_utf8 (encode_str cs)"
  using valid_encode_append [of cs "[]"] by simp

lemma valid_utf8_chars: "valid_utf8 bs \<Longrightarrow> bs = encode_str (chars bs) \<and> (\<forall>c\<in>set (chars bs). scalar c)"
proof (induction bs rule: valid_utf8.induct)
  case (1 bs)
  show ?case
  proof (cases "bs = []")
    case False
    with "1.prems" obtain c r where d: "decode_char bs = Some (c, r)" and v: "valid_utf8 r"
      by (subst (asm) valid_utf8.simps) (auto split: option.splits)
    have ch: "chars bs = c # chars r" by (subst chars.simps) (simp add: d)
    have "r = encode_str (chars r)" "\<forall>c\<in>set (chars r). scalar c"
      using "1.IH" [OF False d refl v] by auto
    moreover have "scalar c" "bs = encode_char c @ r" using encode_decode_char [OF d] by auto
    ultimately show ?thesis unfolding ch by (metis encode_str_simps(2) set_ConsD)
  qed simp
qed

lemma encode_chars [simp]: "valid_utf8 bs \<Longrightarrow> encode_str (chars bs) = bs"
  using valid_utf8_chars by metis

lemma scalar_chars: "valid_utf8 bs \<Longrightarrow> c \<in> set (chars bs) \<Longrightarrow> scalar c"
  using valid_utf8_chars by blast

subsection \<open>Substrings of strings are substrings of their characters\<close>

lemma encode_char_tail: "b \<in> set (tl (encode_char c)) \<Longrightarrow> cont_byte b"
  by (auto simp: encode_char_def cont_byte_def split: if_splits)

lemma encode_char_lead: "scalar c \<Longrightarrow> \<not> cont_byte (hd (encode_char c))"
  by (auto simp: encode_char_def cont_byte_def scalar_def)

lemma split_at_lead:
  assumes "encode_str cs = x @ r" and "r = [] \<or> \<not> cont_byte (hd r)"
  shows "\<exists>as bs. cs = as @ bs \<and> x = encode_str as \<and> r = encode_str bs"
  using assms
proof (induction cs arbitrary: x)
  case Nil
  then show ?case by auto
next
  case (Cons c cs)
  then consider (inside) u where "encode_char c = x @ u" "u @ encode_str cs = r"
    | (beyond) u where "x = encode_char c @ u" "encode_str cs = u @ r"
    by (auto simp: append_eq_append_conv2)
  then show ?case
  proof cases
    case inside
    consider "x = []" | "u = []" | "x \<noteq> []" "u \<noteq> []" by blast
    then show ?thesis
    proof cases
      case 1
      then show ?thesis using Cons.prems(1) by (intro exI [of _ "[]"] exI [of _ "c # cs"]) simp
    next
      case 2
      then show ?thesis using inside by (intro exI [of _ "[c]"] exI [of _ cs]) simp
    next
      case 3
      then have "hd u \<in> set (tl (encode_char c))"
        using inside by (cases x) auto
      then have "cont_byte (hd u)" by (rule encode_char_tail)
      then show ?thesis using inside 3 Cons.prems(2) by auto
    qed
  next
    case beyond
    then obtain as bs where "cs = as @ bs" "u = encode_str as" "r = encode_str bs"
      using Cons.IH Cons.prems(2) by blast
    then show ?thesis using beyond by (intro exI [of _ "c # as"] exI [of _ bs]) simp
  qed
qed

lemma sublist_chars:
  assumes h: "valid_utf8 hay" and n: "valid_utf8 needle"
  shows "sublist needle hay \<longleftrightarrow> sublist (chars needle) (chars hay)"
proof
  assume "sublist (chars needle) (chars hay)"
  then obtain as bs where "chars hay = as @ chars needle @ bs" by (auto simp: sublist_def)
  then have "hay = encode_str as @ needle @ encode_str bs"
    using encode_chars [OF h] encode_chars [OF n] by (metis encode_str_simps(3))
  then show "sublist needle hay" by (auto simp: sublist_def)
next
  assume "sublist needle hay"
  then obtain x y where xy: "hay = x @ needle @ y" by (auto simp: sublist_def)
  show "sublist (chars needle) (chars hay)"
  proof (cases "needle = []")
    case False
    let ?ns = "chars needle"
    have ns: "needle = encode_str ?ns" "\<forall>c\<in>set ?ns. scalar c"
      using valid_utf8_chars [OF n] by auto
    then obtain c cs where c: "?ns = c # cs" using False by (cases ?ns) auto
    have "hd needle = hd (encode_char c)" using ns(1) c by (metis encode_char_nonempty encode_str_simps(2) hd_append2)
    then have lead: "\<not> cont_byte (hd (needle @ y))"
      using encode_char_lead [of c] ns(2) c False by simp
    have "encode_str (chars hay) = x @ (needle @ y)" using h xy by simp
    then obtain as bs where as: "chars hay = as @ bs" "needle @ y = encode_str bs"
      using split_at_lead lead by blast
    have "\<forall>c\<in>set bs. scalar c" using as scalar_chars [OF h] by auto
    then have "bs = chars (encode_str ?ns @ y)" using as(2) ns(1) by (metis chars_encode)
    also have "\<dots> = ?ns @ chars y" using ns(2) by (rule chars_encode_append)
    finally show ?thesis using as(1) by (auto simp: sublist_def)
  qed simp
qed

subsection \<open>\<open>char::is_whitespace\<close> and \<open>str::to_lowercase\<close>\<close>

text \<open>The code points with the Unicode property White\_Space.\<close>

definition is_whitespace :: "nat \<Rightarrow> bool" where
  "is_whitespace c \<longleftrightarrow> 0x9 \<le> c \<and> c \<le> 0xD \<or> c \<in> {0x20, 0x85, 0xA0, 0x1680} \<or>
     0x2000 \<le> c \<and> c \<le> 0x200A \<or> c \<in> {0x2028, 0x2029, 0x202F, 0x205F, 0x3000}"

text \<open>For evaluation on ASCII characters.\<close>

lemma is_whitespace_code [code]:
  "is_whitespace c =
     (if c < 0x80 then 9 \<le> c \<and> c \<le> 13 \<or> c = 32
      else c \<in> {0x85, 0xA0, 0x1680} \<or> 0x2000 \<le> c \<and> c \<le> 0x200A \<or>
        c \<in> {0x2028, 0x2029, 0x202F, 0x205F, 0x3000})"
  by (auto simp: is_whitespace_def)

record unicode =
  lower_map :: "nat \<Rightarrow> nat list"
  cased :: "nat \<Rightarrow> bool"
  case_ignorable :: "nat \<Rightarrow> bool"

text \<open>
  \<open>to_lowercase\<close> maps each character by the table, except that a capital sigma becomes a final
  small sigma when it ends a word: some cased character comes before it (skipping case-ignorable
  ones) and none comes after it.
\<close>

definition ignorable_then_cased :: "unicode \<Rightarrow> nat list \<Rightarrow> bool" where
  "ignorable_then_cased U cs =
     (case dropWhile (case_ignorable U) cs of [] \<Rightarrow> False | c # _ \<Rightarrow> cased U c)"

definition lower_at :: "unicode \<Rightarrow> nat list \<Rightarrow> nat \<Rightarrow> nat list" where
  "lower_at U cs i =
     (if cs ! i = 0x3A3 then
        (if ignorable_then_cased U (rev (take i cs)) \<and> \<not> ignorable_then_cased U (drop (Suc i) cs)
         then [0x3C2] else [0x3C3])
      else lower_map U (cs ! i))"

definition lower_chars :: "unicode \<Rightarrow> nat list \<Rightarrow> nat list" where
  "lower_chars U cs = concat (map (lower_at U cs) [0..<length cs])"

definition to_lowercase :: "unicode \<Rightarrow> str \<Rightarrow> str" where
  "to_lowercase U s = encode_str (lower_chars U (chars s))"

text \<open>The table maps characters to characters.\<close>

definition unicode_ok :: "unicode \<Rightarrow> bool" where
  "unicode_ok U \<longleftrightarrow> (\<forall>c. scalar c \<longrightarrow> (\<forall>d\<in>set (lower_map U c). scalar d))"

definition has_sigma :: "str \<Rightarrow> bool" where
  "has_sigma s \<longleftrightarrow> 0x3A3 \<in> set (chars s)"

lemma lower_chars_no_sigma:
  assumes "0x3A3 \<notin> set cs"
  shows "lower_chars U cs = concat (map (lower_map U) cs)"
proof -
  have "map (lower_at U cs) [0..<length cs] = map (\<lambda>i. lower_map U (cs ! i)) [0..<length cs]"
    using assms nth_mem by (fastforce simp: lower_at_def)
  also have "\<dots> = map (lower_map U) cs"
    by (rule nth_equalityI) simp_all
  finally show ?thesis by (simp add: lower_chars_def)
qed

lemma to_lowercase_Nil [simp]: "to_lowercase U [] = []"
  by (simp add: to_lowercase_def lower_chars_def)

lemma scalar_lower_chars:
  assumes "unicode_ok U" "\<forall>c\<in>set cs. scalar c" "d \<in> set (lower_chars U cs)"
  shows "scalar d"
proof -
  obtain i where i: "i < length cs" "d \<in> set (lower_at U cs i)"
    using assms(3) by (auto simp: lower_chars_def)
  then have "scalar (cs ! i)" using assms(2) by simp
  then show ?thesis
    using assms(1) i(2) by (auto simp: lower_at_def unicode_ok_def scalar_def split: if_splits)
qed

lemma valid_to_lowercase [simp]: "unicode_ok U \<Longrightarrow> valid_utf8 s \<Longrightarrow> valid_utf8 (to_lowercase U s)"
  unfolding to_lowercase_def using scalar_lower_chars scalar_chars by (metis valid_encode)

text \<open>Lowercasing keeps substrings, in strings without a capital sigma.\<close>

lemma sublist_to_lowercase:
  assumes "valid_utf8 hay" "valid_utf8 needle" "\<not> has_sigma hay" "sublist needle hay"
  shows "sublist (to_lowercase U needle) (to_lowercase U hay)"
proof -
  obtain as bs where h: "chars hay = as @ chars needle @ bs"
    using assms sublist_chars by (auto simp: sublist_def)
  have "0x3A3 \<notin> set as \<union> set (chars needle) \<union> set bs"
    using assms(3) h by (auto simp: has_sigma_def)
  then have "to_lowercase U hay = encode_str (concat (map (lower_map U) as)) @ to_lowercase U needle
      @ encode_str (concat (map (lower_map U) bs))"
    by (simp add: to_lowercase_def h lower_chars_no_sigma)
  then show ?thesis by (auto simp: sublist_def)
qed

text \<open>ASCII strings, and string literals.\<close>

definition lit :: "string \<Rightarrow> str" where
  "lit s = map (\<lambda>c. of_nat (of_char c)) s"

lemma length_lit [simp]: "length (lit s) = length s"
  by (simp add: lit_def)

lemma lit_inject [simp]: "lit s = lit t \<longleftrightarrow> s = t"
proof -
  have "inj (\<lambda>c. of_nat (of_char c) :: u8)"
  proof (rule injI)
    fix c d :: char
    assume "(of_nat (of_char c) :: u8) = of_nat (of_char d)"
    then have "unat (of_nat (of_char c) :: u8) = unat (of_nat (of_char d) :: u8)" by simp
    then have "(of_char c :: nat) = of_char d" by (simp add: unat_of_nat)
    then show "c = d" by simp
  qed
  then show ?thesis by (simp add: lit_def inj_map_eq_map)
qed

lemma encode_str_ascii: "\<forall>b\<in>set bs. unat b < 128 \<Longrightarrow> encode_str (map unat bs) = bs"
  by (induction bs) (auto simp: encode_char_def)

lemma valid_ascii: "\<forall>b\<in>set bs. unat b < 128 \<Longrightarrow> valid_utf8 bs"
  using valid_encode [of "map unat bs"] encode_str_ascii [of bs] by (force simp: scalar_def)

lemma chars_ascii: "\<forall>b\<in>set bs. unat b < 128 \<Longrightarrow> chars bs = map unat bs"
  using chars_encode [of "map unat bs"] encode_str_ascii [of bs] by (force simp: scalar_def)

text \<open>The ASCII part of the tables: enough to evaluate on ASCII strings and to show that the
  hypotheses about the tables can hold.\<close>

definition ascii_tables :: unicode where
  "ascii_tables = \<lparr>lower_map = (\<lambda>c. if 65 \<le> c \<and> c \<le> 90 then [c + 32] else [c]),
     cased = (\<lambda>c. 65 \<le> c \<and> c \<le> 90 \<or> 97 \<le> c \<and> c \<le> 122), case_ignorable = (\<lambda>c. c \<in> {39, 46, 58, 94, 96})\<rparr>"

lemma ascii_tables_ok [simp]: "unicode_ok ascii_tables"
  by (auto simp: unicode_ok_def ascii_tables_def scalar_def)

end
