(* ===== verification/Trigram.thy ===== *)
theory Trigram
  imports Prelude
begin

section \<open>Byte trigrams (crates/df-core/src/trigram.rs)\<close>

text \<open>
  A trigram is a window of three bytes packed into the low 24 bits of a \<open>u32\<close>. The lemmas say
  that the packing is injective, that no key is the empty-slot marker of the hash tables, and
  that a text has the trigrams of every text it contains.
\<close>

definition trigram_key :: "u8 \<Rightarrow> u8 \<Rightarrow> u8 \<Rightarrow> u32" where
  "trigram_key a b c = push_bit 16 (ucast a) OR push_bit 8 (ucast b) OR ucast c"

definition trigrams :: "bytes \<Rightarrow> u32 list" where
  "trigrams lowercased =
     (if length lowercased < 3 then []
      else remdups_adj (sort
        (map (\<lambda>w. trigram_key (w ! 0) (w ! 1) (w ! 2)) (windows 3 lowercased))))"

lemma trigram_key_bits:
  "bit (trigram_key a b c) n \<longleftrightarrow>
     (if n < 8 then bit c n else if n < 16 then bit b (n - 8) else n < 24 \<and> bit a (n - 16))"
proof -
  have out: "\<not> bit x k" if "8 \<le> k" for x :: u8 and k
    using that bit_imp_le_length [of x k] by auto
  consider "n < 8" | "8 \<le> n" "n < 16" | "16 \<le> n" "n < 24" | "24 \<le> n" by linarith
  then show ?thesis
    by cases (auto simp: trigram_key_def bit_simps out)
qed

lemma trigram_key_inject [simp]:
  "trigram_key a b c = trigram_key a' b' c' \<longleftrightarrow> a = a' \<and> b = b' \<and> c = c'"
proof
  assume eq: "trigram_key a b c = trigram_key a' b' c'"
  have "bit (trigram_key a b c) n = bit (trigram_key a' b' c') n" for n by (simp add: eq)
  then have *: "(if n < 8 then bit c n else if n < 16 then bit b (n - 8) else n < 24 \<and> bit a (n - 16)) =
    (if n < 8 then bit c' n else if n < 16 then bit b' (n - 8) else n < 24 \<and> bit a' (n - 16))" for n
    unfolding trigram_key_bits by blast
  have "a = a'"
  proof (rule bit_word_eqI)
    fix n assume "n < LENGTH(8)"
    then show "bit a n = bit a' n" using * [of "n + 16"] by simp
  qed
  moreover have "b = b'"
  proof (rule bit_word_eqI)
    fix n assume "n < LENGTH(8)"
    then show "bit b n = bit b' n" using * [of "n + 8"] by simp
  qed
  moreover have "c = c'"
  proof (rule bit_word_eqI)
    fix n assume "n < LENGTH(8)"
    then show "bit c n = bit c' n" using * [of n] by simp
  qed
  ultimately show "a = a' \<and> b = b' \<and> c = c'" by blast
qed simp

text \<open>The marker of an empty hash slot is \<open>0xFFFFFFFF\<close>, out of the range of keys.\<close>

lemma trigram_key_not_empty: "trigram_key a b c \<noteq> 0xFFFFFFFF"
proof
  assume "trigram_key a b c = 0xFFFFFFFF"
  moreover have "(0xFFFFFFFF :: u32) = mask 32" by (simp add: mask_eq_exp_minus_1)
  then have "bit (0xFFFFFFFF :: u32) 31" by (simp only: bit_mask_iff) simp
  ultimately have "bit (trigram_key a b c) 31" by simp
  then show False by (simp only: trigram_key_bits) simp
qed

lemma distinct_remdups_adj_sorted: "sorted xs \<Longrightarrow> distinct (remdups_adj (xs :: 'a::linorder list))"
  by (induction xs rule: remdups_adj.induct) (auto simp: order_antisym_conv)

lemma sorted_trigrams [simp]: "sorted (trigrams s)"
  by (simp add: trigrams_def)

lemma distinct_trigrams [simp]: "distinct (trigrams s)"
  by (simp add: trigrams_def distinct_remdups_adj_sorted)

lemma trigrams_short: "length s < 3 \<Longrightarrow> trigrams s = []"
  by (simp add: trigrams_def)

lemma in_trigrams_iff:
  "t \<in> set (trigrams s) \<longleftrightarrow> (\<exists>a b c. t = trigram_key a b c \<and> sublist [a, b, c] s)"
proof -
  have *: "w \<in> set (windows 3 s) \<longleftrightarrow> (\<exists>a b c. w = [a, b, c] \<and> sublist [a, b, c] s)" for w
  proof
    assume "w \<in> set (windows 3 s)"
    then obtain i where i: "i < Suc (length s) - 3" "w = take 3 (drop i s)" by (auto simp: windows_def)
    then have "length w = 3" by simp
    then obtain a b c where w: "w = [a, b, c]"
      by (auto simp: numeral_3_eq_3 length_Suc_conv)
    moreover have "sublist w s" using i by (metis sublist_drop sublist_order.order_trans sublist_take)
    ultimately show "\<exists>a b c. w = [a, b, c] \<and> sublist [a, b, c] s" by auto
  next
    assume "\<exists>a b c. w = [a, b, c] \<and> sublist [a, b, c] s"
    then show "w \<in> set (windows 3 s)" using windows_iff_sublist [of w s]
      by (auto simp: numeral_3_eq_3)
  qed
  show ?thesis
  proof (cases "length s < 3")
    case True
    then have none: "\<not> sublist [a, b, c] s" for a b c
      using sublist_length_le [of "[a, b, c]" s] by auto
    have "trigrams s = []" using True by (simp add: trigrams_def)
    then show ?thesis using none by simp
  next
    case False
    let ?f = "\<lambda>w :: bytes. trigram_key (w ! 0) (w ! 1) (w ! 2)"
    have "set (trigrams s) = ?f ` set (windows 3 s)" using False by (simp add: trigrams_def)
    also have "\<dots> = ?f ` {[a, b, c] |a b c. sublist [a, b, c] s}"
      by (rule arg_cong [where f = "image ?f"]) (simp only: set_eq_iff mem_Collect_eq *, blast)
    also have "\<dots> = {trigram_key a b c |a b c. sublist [a, b, c] s}"
      by (fastforce simp: image_iff)
    finally show ?thesis by blast
  qed
qed

lemma trigrams_mono: "sublist n h \<Longrightarrow> set (trigrams n) \<subseteq> set (trigrams h)"
  by (auto simp: in_trigrams_iff intro: sublist_order.order_trans)

lemma trigrams_nonempty: "3 \<le> length s \<Longrightarrow> trigrams s \<noteq> []"
  by (simp add: trigrams_def windows_def flip: length_greater_0_conv)

lemma trigrams_not_empty_key: "t \<in> set (trigrams s) \<Longrightarrow> t \<noteq> 0xFFFFFFFF"
  by (auto simp: in_trigrams_iff trigram_key_not_empty)

end
