(* ===== verification/Candidate.thy ===== *)
theory Candidate
  imports Trigram
begin

section \<open>Rarest-trigram candidate generation (crates/df-core/src/candidate.rs)\<close>

text \<open>
  \<open>candidates\<close> runs over any source that implements \<open>CandidateSource\<close>; here the three methods
  of the trait are arguments. The locale states what an implementation promises: a posting
  list names exactly the documents whose folded text has the trigram, and a verification
  decides a relation \<open>hit\<close>. Inside it the result of \<open>candidates\<close> is computed: the documents
  that are hits, in order, cut at the limit, with no candidate lost on the way.
\<close>

type_synonym posting_fn = "u32 \<Rightarrow> u32 list option res"
type_synonym verify_fn = "u32 \<Rightarrow> bytes \<Rightarrow> bool \<Rightarrow> bool res"

text \<open>\<open>out.len() >= cap\<close>, where no limit is \<open>usize::MAX\<close>.\<close>

definition at_cap :: "u32 option \<Rightarrow> nat \<Rightarrow> bool" where
  "at_cap limit n = (case limit of None \<Rightarrow> False | Some l \<Rightarrow> n \<ge> unat l)"

fun verify_loop :: "(u32 \<Rightarrow> bool res) \<Rightarrow> u32 option \<Rightarrow> u32 list \<Rightarrow> u32 list \<Rightarrow> u32 list res" where
  "verify_loop v limit [] out = Ok out"
| "verify_loop v limit (d # ds) out =
     (if at_cap limit (length out) then Ok out
      else bind_o (v d) (\<lambda>b. verify_loop v limit ds (if b then out @ [d] else out)))"

text \<open>The shortest posting of the query's trigrams, the first of equally short ones; \<open>None\<close> as
  soon as a trigram has no posting.\<close>

fun rarest :: "posting_fn \<Rightarrow> u32 list \<Rightarrow> u32 list option \<Rightarrow> u32 list option res" where
  "rarest posting [] best = Ok best"
| "rarest posting (t # ts) best =
     bind_o (posting t) (\<lambda>p. case p of
       Some post \<Rightarrow>
         rarest posting ts (Some (case best of
           None \<Rightarrow> post
         | Some b \<Rightarrow> if length post < length b then post else b))
     | None \<Rightarrow> Ok None)"

definition all_docids :: "u32 \<Rightarrow> u32 list" where
  "all_docids n = map of_nat [0..<unat n]"

definition candidates ::
  "posting_fn \<Rightarrow> verify_fn \<Rightarrow> u32 \<Rightarrow> bytes \<Rightarrow> bytes \<Rightarrow> bool \<Rightarrow> u32 option \<Rightarrow> u32 list res" where
  "candidates cs_posting cs_verify cs_num_docs folded original case_sensitive limit =
     (let needle = (if case_sensitive then original else folded) in
      if length folded < 3 then
        verify_loop (\<lambda>d. cs_verify d needle case_sensitive) limit (all_docids cs_num_docs) []
      else
        bind_o (rarest cs_posting (trigrams folded) None) (\<lambda>best. case best of
          None \<Rightarrow> Ok []
        | Some cands \<Rightarrow> verify_loop (\<lambda>d. cs_verify d needle case_sensitive) limit cands []))"

subsection \<open>What the loops compute\<close>

definition take_limit :: "u32 option \<Rightarrow> 'a list \<Rightarrow> 'a list" where
  "take_limit limit xs = (case limit of None \<Rightarrow> xs | Some l \<Rightarrow> take (unat l) xs)"

lemma verify_loop_filter:
  assumes "\<And>d. d \<in> set ds \<Longrightarrow> v d = Ok (h d)"
    and "case limit of None \<Rightarrow> True | Some l \<Rightarrow> length out \<le> unat l"
  shows "verify_loop v limit ds out = Ok (take_limit limit (out @ filter h ds))"
  using assms
proof (induction ds arbitrary: out)
  case Nil
  then show ?case by (auto simp: take_limit_def split: option.splits)
next
  case (Cons d ds)
  show ?case
  proof (cases "at_cap limit (length out)")
    case True
    then obtain l where "limit = Some l" "length out = unat l"
      using Cons.prems(2) by (auto simp: at_cap_def split: option.splits)
    then show ?thesis using True by (simp add: take_limit_def)
  next
    case False
    have "case limit of None \<Rightarrow> True | Some l \<Rightarrow> length (if h d then out @ [d] else out) \<le> unat l"
      using False Cons.prems(2) by (auto simp: at_cap_def split: option.splits)
    from Cons.IH [OF Cons.prems(1) this] show ?thesis using False Cons.prems(1) by simp
  qed
qed

lemma verify_loop_hits:
  "(\<And>d. d \<in> set ds \<Longrightarrow> v d = Ok (h d)) \<Longrightarrow>
   verify_loop v limit ds [] = Ok (take_limit limit (filter h ds))"
  using verify_loop_filter [where ds = ds and v = v and h = h and limit = limit and out = "[]"]
  by (auto split: option.splits)

lemma unat_of_nat_docs: "i < unat (n :: u32) \<Longrightarrow> unat (of_nat i :: u32) = i"
  by (rule unat_of_nat_u32) (erule less_trans [OF _ unat_u32_less])

lemma of_nat_less_docs: "i < unat n \<Longrightarrow> (of_nat i :: u32) < n"
  by (simp add: word_less_nat_alt unat_of_nat_docs)

lemma set_all_docids: "set (all_docids n) = {d. d < n}"
proof
  show "set (all_docids n) \<subseteq> {d. d < n}" by (auto simp: all_docids_def of_nat_less_docs)
  show "{d. d < n} \<subseteq> set (all_docids n)"
  proof
    fix d assume "d \<in> {d. d < n}"
    then have "unat d \<in> {0..<unat n}" by (simp add: word_less_nat_alt)
    then have "of_nat (unat d) \<in> set (all_docids n)" unfolding all_docids_def set_map set_upt by (rule imageI)
    then show "d \<in> set (all_docids n)" by simp
  qed
qed

lemma length_all_docids [simp]: "length (all_docids n) = unat n"
  by (simp add: all_docids_def)

lemma nth_all_docids: "i < unat n \<Longrightarrow> all_docids n ! i = of_nat i"
  by (simp add: all_docids_def)

lemma distinct_all_docids: "distinct (all_docids n)"
proof -
  have "inj_on (of_nat :: nat \<Rightarrow> u32) {0..<unat n}"
  proof (rule inj_onI)
    fix i j assume ij: "i \<in> {0..<unat n}" "j \<in> {0..<unat n}" "(of_nat i :: u32) = of_nat j"
    have "unat (of_nat i :: u32) = i" "unat (of_nat j :: u32) = j"
      using ij(1,2) unat_of_nat_docs [of i n] unat_of_nat_docs [of j n] by simp_all
    then show "i = j" using ij(3) by metis
  qed
  then show ?thesis by (simp add: all_docids_def distinct_map)
qed

lemma sorted_all_docids: "sorted (all_docids n)"
proof -
  have "all_docids n ! i \<le> all_docids n ! j" if "i \<le> j" "j < length (all_docids n)" for i j
  proof -
    have "j < unat n" "i < unat n" using that by simp_all
    moreover have "unat (of_nat i :: u32) = i" "unat (of_nat j :: u32) = j"
      using calculation unat_of_nat_docs [of i n] unat_of_nat_docs [of j n] by simp_all
    ultimately show ?thesis using that(1) by (simp add: nth_all_docids word_le_nat_alt)
  qed
  then show ?thesis by (simp add: sorted_iff_nth_mono)
qed

text \<open>The rarest posting is one of the postings.\<close>

lemma rarest_Some:
  assumes "rarest posting ts best = Ok (Some c)" "best = None \<or> ts = [] \<or> True"
  shows "best = Some c \<or> (\<exists>t\<in>set ts. posting t = Ok (Some c))"
  using assms
proof (induction ts arbitrary: best)
  case (Cons t ts)
  then obtain p where p: "posting t = Ok (Some p)"
    "rarest posting ts (Some (case best of None \<Rightarrow> p
         | Some b \<Rightarrow> if length p < length b then p else b)) = Ok (Some c)"
    by (auto simp: outcome_simps split: option.splits)
  from Cons.IH [OF p(2)] show ?case using p(1)
    by (auto split: option.splits if_splits)
qed simp

lemma rarest_total:
  assumes "\<And>t. t \<in> set ts \<Longrightarrow> \<exists>p. posting t = Ok p"
  shows "\<exists>c. rarest posting ts best = Ok c \<and>
    (c = None \<longrightarrow> (best = None \<and> ts = []) \<or> (\<exists>t\<in>set ts. posting t = Ok None))"
  using assms
proof (induction ts arbitrary: best)
  case (Cons t ts)
  obtain p where p: "posting t = Ok p" using Cons.prems by auto
  show ?case
  proof (cases p)
    case (Some post)
    let ?best = "Some (case best of None \<Rightarrow> post | Some b \<Rightarrow> if length post < length b then post else b)"
    obtain c where c: "rarest posting ts ?best = Ok c"
      "c = None \<longrightarrow> (?best = None \<and> ts = []) \<or> (\<exists>t\<in>set ts. posting t = Ok None)"
      using Cons.IH [of ?best] Cons.prems by auto
    then show ?thesis using p Some by auto
  qed (use p in auto)
qed auto

text \<open>No shorter posting exists among the query's trigrams.\<close>

lemma rarest_least:
  assumes "rarest posting ts best = Ok (Some c)"
  shows "(\<forall>b. best = Some b \<longrightarrow> length c \<le> length b) \<and>
    (\<forall>t\<in>set ts. \<exists>p. posting t = Ok (Some p) \<and> length c \<le> length p)"
  using assms
proof (induction ts arbitrary: best)
  case (Cons t ts)
  then obtain p where p: "posting t = Ok (Some p)"
    "rarest posting ts (Some (case best of None \<Rightarrow> p
         | Some b \<Rightarrow> if length p < length b then p else b)) = Ok (Some c)"
    by (auto simp: outcome_simps split: option.splits)
  from Cons.IH [OF p(2)] show ?case using p(1)
    by (auto split: option.splits if_splits)
qed simp

subsection \<open>The interfaces\<close>

text \<open>
  A source \<open>s\<close> in a good state (\<open>good s\<close>). Its documents are \<open>0..num_docs s\<close>; \<open>has s d t\<close> says
  that the index has the trigram \<open>t\<close> for the document \<open>d\<close>. The first interface promises the
  postings as sets, which is what an index that is updated in place can keep; the second, below,
  promises them in document order.
\<close>

locale candidate_index =
  fixes posting :: "'s \<Rightarrow> posting_fn"
    and verify :: "'s \<Rightarrow> verify_fn"
    and num_docs :: "'s \<Rightarrow> u32"
    and good :: "'s \<Rightarrow> bool"
    and has :: "'s \<Rightarrow> u32 \<Rightarrow> u32 \<Rightarrow> bool"
    and hit :: "'s \<Rightarrow> u32 \<Rightarrow> bytes \<Rightarrow> bool \<Rightarrow> bool"
  assumes posting_set: "good s \<Longrightarrow> \<exists>p. posting s t = Ok p \<and>
      (case p of None \<Rightarrow> \<forall>d<num_docs s. \<not> has s d t
       | Some ds \<Rightarrow> distinct ds \<and> set ds = {d. d < num_docs s \<and> has s d t})"
    and verify_hit: "good s \<Longrightarrow> d < num_docs s \<Longrightarrow>
      verify s d needle case_sensitive = Ok (hit s d needle case_sensitive)"
begin

text \<open>What is left to verify after the choice of the rarest posting loses no hit.\<close>

lemma rarest_keeps_hits:
  assumes "good s" "3 \<le> length folded"
    and "\<And>d. d < num_docs s \<Longrightarrow> P d \<Longrightarrow> \<forall>t\<in>set (trigrams folded). has s d t"
  shows "\<exists>c. rarest (posting s) (trigrams folded) None = Ok c \<and>
    (case c of
       None \<Rightarrow> \<forall>d<num_docs s. \<not> P d
     | Some ds \<Rightarrow> distinct ds \<and> (\<forall>d\<in>set ds. d < num_docs s) \<and> (\<forall>d<num_docs s. P d \<longrightarrow> d \<in> set ds))"
proof -
  have "\<exists>p. posting s t = Ok p" for t using posting_set [OF assms(1)] by blast
  then obtain c where c: "rarest (posting s) (trigrams folded) None = Ok c"
    "c = None \<longrightarrow> trigrams folded = [] \<or> (\<exists>t\<in>set (trigrams folded). posting s t = Ok None)"
    using rarest_total [of "trigrams folded" "posting s" None] by auto
  show ?thesis
  proof (cases c)
    case None
    then obtain t where "t \<in> set (trigrams folded)" "posting s t = Ok None"
      using c trigrams_nonempty [OF assms(2)] by auto
    then show ?thesis using posting_set [OF assms(1), of t] assms(3) c None by auto
  next
    case (Some ds)
    then obtain t where "t \<in> set (trigrams folded)" "posting s t = Ok (Some ds)"
      using rarest_Some [of "posting s" "trigrams folded" None ds] c by auto
    then show ?thesis using posting_set [OF assms(1), of t] assms(3) c Some by auto
  qed
qed

text \<open>The main law of the first interface: the hits, each once, up to the limit.\<close>

lemma candidates_set:
  assumes "good s"
    and over: "\<And>d. d < num_docs s \<Longrightarrow> 3 \<le> length folded \<Longrightarrow>
      hit s d (if case_sensitive then original else folded) case_sensitive \<Longrightarrow>
      \<forall>t\<in>set (trigrams folded). has s d t"
  shows "\<exists>ds. candidates (posting s) (verify s) (num_docs s) folded original case_sensitive limit =
      Ok (take_limit limit ds) \<and> distinct ds \<and>
    set ds = {d. d < num_docs s \<and> hit s d (if case_sensitive then original else folded) case_sensitive}"
proof -
  let ?needle = "if case_sensitive then original else folded"
  let ?hit = "\<lambda>d. hit s d ?needle case_sensitive"
  have v: "verify_loop (\<lambda>d. verify s d ?needle case_sensitive) limit ds [] = Ok (take_limit limit (filter ?hit ds))"
    if "\<forall>d\<in>set ds. d < num_docs s" for ds
    using verify_hit [OF assms(1)] that by (intro verify_loop_hits) auto
  show ?thesis
  proof (cases "length folded < 3")
    case True
    then have "candidates (posting s) (verify s) (num_docs s) folded original case_sensitive limit =
        Ok (take_limit limit (filter ?hit (all_docids (num_docs s))))"
      using v by (simp add: candidates_def Let_def set_all_docids)
    then show ?thesis using distinct_all_docids [of "num_docs s"] set_all_docids [of "num_docs s"]
      by (intro exI [of _ "filter ?hit (all_docids (num_docs s))"]) auto
  next
    case False
    then have f: "3 \<le> length folded" by simp
    obtain c where c: "rarest (posting s) (trigrams folded) None = Ok c"
      and cc: "case c of None \<Rightarrow> \<forall>d<num_docs s. \<not> ?hit d
       | Some ds \<Rightarrow> distinct ds \<and> (\<forall>d\<in>set ds. d < num_docs s) \<and> (\<forall>d<num_docs s. ?hit d \<longrightarrow> d \<in> set ds)"
      using rarest_keeps_hits [OF assms(1) f, of ?hit] over [OF _ f] by blast
    show ?thesis
    proof (cases c)
      case None
      then show ?thesis using c cc False
        by (intro exI [of _ "[]"]) (simp add: candidates_def Let_def take_limit_def split: option.split)
    next
      case (Some ds)
      then have "candidates (posting s) (verify s) (num_docs s) folded original case_sensitive limit =
          Ok (take_limit limit (filter ?hit ds))"
        using c cc v [of ds] False by (simp add: candidates_def Let_def)
      then show ?thesis using cc Some by (intro exI [of _ "filter ?hit ds"]) auto
    qed
  qed
qed

end

text \<open>
  The second interface: \<open>text_of s d\<close> is the folded text the index was built from, and a posting
  lists the documents that have the trigram in ascending order. Its main law gives the order
  of the result too.
\<close>

locale candidate_source =
  fixes posting :: "'s \<Rightarrow> posting_fn"
    and verify :: "'s \<Rightarrow> verify_fn"
    and num_docs :: "'s \<Rightarrow> u32"
    and good :: "'s \<Rightarrow> bool"
    and text_of :: "'s \<Rightarrow> u32 \<Rightarrow> bytes"
    and hit :: "'s \<Rightarrow> u32 \<Rightarrow> bytes \<Rightarrow> bool \<Rightarrow> bool"
  assumes posting_law: "good s \<Longrightarrow> posting s t =
      Ok (let ds = filter (\<lambda>d. t \<in> set (trigrams (text_of s d))) (all_docids (num_docs s)) in
          if ds = [] then None else Some ds)"
    and verify_law: "good s \<Longrightarrow> d < num_docs s \<Longrightarrow>
      verify s d needle case_sensitive = Ok (hit s d needle case_sensitive)"
begin

lemma rarest_posting:
  assumes "good s" "3 \<le> length folded"
  shows "\<exists>c. rarest (posting s) (trigrams folded) None = Ok c \<and>
    (case c of
       None \<Rightarrow> \<forall>d<num_docs s. \<not> set (trigrams folded) \<subseteq> set (trigrams (text_of s d))
     | Some ds \<Rightarrow> \<exists>t\<in>set (trigrams folded).
         ds = filter (\<lambda>d. t \<in> set (trigrams (text_of s d))) (all_docids (num_docs s)))"
proof -
  have "\<exists>p. posting s t = Ok p" for t using posting_law [OF assms(1)] by blast
  then obtain c where c: "rarest (posting s) (trigrams folded) None = Ok c"
    "c = None \<longrightarrow> trigrams folded = [] \<or> (\<exists>t\<in>set (trigrams folded). posting s t = Ok None)"
    using rarest_total [of "trigrams folded" "posting s" None] by auto
  show ?thesis
  proof (cases c)
    case None
    then obtain t where "t \<in> set (trigrams folded)" "posting s t = Ok None"
      using c trigrams_nonempty [OF assms(2)] by auto
    then have "\<forall>d<num_docs s. \<not> set (trigrams folded) \<subseteq> set (trigrams (text_of s d))"
      using posting_law [OF assms(1), of t]
      by (auto simp: Let_def filter_empty_conv set_all_docids split: if_splits)
    then show ?thesis using c None by simp
  next
    case (Some ds)
    then obtain t where "t \<in> set (trigrams folded)" "posting s t = Ok (Some ds)"
      using rarest_Some [of "posting s" "trigrams folded" None ds] c by auto
    then show ?thesis using posting_law [OF assms(1), of t] c Some
      by (auto simp: Let_def split: if_splits)
  qed
qed

text \<open>The main law: exactly the hits, in document order, up to the limit.\<close>

lemma candidates_exact:
  assumes "good s"
    and over: "\<And>d. d < num_docs s \<Longrightarrow> 3 \<le> length folded \<Longrightarrow>
      hit s d (if case_sensitive then original else folded) case_sensitive \<Longrightarrow>
      set (trigrams folded) \<subseteq> set (trigrams (text_of s d))"
  shows "candidates (posting s) (verify s) (num_docs s) folded original case_sensitive limit =
    Ok (take_limit limit (filter
      (\<lambda>d. hit s d (if case_sensitive then original else folded) case_sensitive)
      (all_docids (num_docs s))))"
proof -
  let ?needle = "if case_sensitive then original else folded"
  let ?hit = "\<lambda>d. hit s d ?needle case_sensitive"
  have v: "verify s d ?needle case_sensitive = Ok (?hit d)" if "d \<in> set (all_docids (num_docs s))" for d
    using verify_law [OF assms(1)] that by (simp add: set_all_docids)
  show ?thesis
  proof (cases "length folded < 3")
    case True
    then show ?thesis using v by (simp add: candidates_def Let_def verify_loop_hits)
  next
    case False
    then have f: "3 \<le> length folded" by simp
    obtain c where c: "rarest (posting s) (trigrams folded) None = Ok c"
      and cc: "case c of
         None \<Rightarrow> \<forall>d<num_docs s. \<not> set (trigrams folded) \<subseteq> set (trigrams (text_of s d))
       | Some ds \<Rightarrow> \<exists>t\<in>set (trigrams folded).
           ds = filter (\<lambda>d. t \<in> set (trigrams (text_of s d))) (all_docids (num_docs s))"
      using rarest_posting [OF assms(1) f] by blast
    show ?thesis
    proof (cases c)
      case None
      then have "filter ?hit (all_docids (num_docs s)) = []"
        using cc over f by (auto simp: filter_empty_conv set_all_docids)
      then show ?thesis using c None False
        by (simp add: candidates_def Let_def take_limit_def split: option.split)
    next
      case (Some ds)
      then obtain t where t: "t \<in> set (trigrams folded)"
        "ds = filter (\<lambda>d. t \<in> set (trigrams (text_of s d))) (all_docids (num_docs s))"
        using cc by auto
      have "filter ?hit ds = filter ?hit (all_docids (num_docs s))"
        unfolding t(2) filter_filter
      proof (rule filter_cong [OF refl])
        fix d assume "d \<in> set (all_docids (num_docs s))"
        then show "(t \<in> set (trigrams (text_of s d)) \<and> ?hit d) = ?hit d"
          using over [of d] f t(1) by (auto simp only: set_all_docids mem_Collect_eq)
      qed
      moreover have "verify s d ?needle case_sensitive = Ok (?hit d)" if "d \<in> set ds" for d
        using t(2) that by (intro v) auto
      ultimately have "verify_loop (\<lambda>d. verify s d ?needle case_sensitive) limit ds [] =
          Ok (take_limit limit (filter ?hit (all_docids (num_docs s))))"
        by (subst verify_loop_hits [where h = ?hit]) simp_all
      then show ?thesis using c Some False by (simp add: candidates_def Let_def)
    qed
  qed
qed

end

lemma posting_from_list:
  assumes "p = Ok (if ds = [] then None else Some ds)" "distinct ds" "set ds = {d. d < n \<and> Q d}"
  shows "\<exists>q. p = Ok q \<and> (case q of None \<Rightarrow> \<forall>d<n. \<not> Q d
    | Some ds \<Rightarrow> distinct ds \<and> set ds = {d. d < n \<and> Q d})"
proof (cases "ds = []")
  case True
  then have "\<forall>d<n. \<not> Q d" using assms(3) by auto
  then show ?thesis using assms(1) True by simp
qed (use assms in simp)

sublocale candidate_source \<subseteq> candidate_index posting verify num_docs good
  "\<lambda>s d t. t \<in> set (trigrams (text_of s d))" hit
proof
  fix s t
  assume "good s"
  then show "\<exists>p. posting s t = Ok p \<and>
      (case p of None \<Rightarrow> \<forall>d<num_docs s. t \<notin> set (trigrams (text_of s d))
       | Some ds \<Rightarrow> distinct ds \<and> set ds = {d. d < num_docs s \<and> t \<in> set (trigrams (text_of s d))})"
    by (intro posting_from_list [OF posting_law [unfolded Let_def]])
      (auto simp: distinct_all_docids set_all_docids)
qed (rule verify_law)

end
