(* ===== verification/TurboPFor.thy ===== *)
theory TurboPFor
  imports Prelude
begin

section \<open>The posting codec (crates/df-core/src/turbopfor.rs)\<close>

text \<open>
  A list of deltas is cut into blocks of 128. A block chooses a bit width, stores the low bits
  of every value plane by plane (bit \<open>p\<close> of value \<open>i\<close> is bit \<open>p * n + i\<close> of the frame), and
  lists the values that do not fit as exceptions. The lemmas follow the frame bit by bit, and
  give the round trip for every list of \<open>u32\<close> values, the choice of a cheapest width and the
  size of a block.
\<close>

definition BLOCK :: nat where "BLOCK = 128"

definition VERSION_PFOR :: u8 where "VERSION_PFOR = 1"

definition leading_zeros :: "u32 \<Rightarrow> nat" where
  "leading_zeros v = 32 - bit_len (unat v)"

subsection \<open>Encoding\<close>

text \<open>The guarded test \<open>b < 32 && (v >> b) != 0\<close>: the value does not fit in \<open>b\<close> bits.\<close>

definition needs_more :: "nat \<Rightarrow> u32 \<Rightarrow> bool" where
  "needs_more b v \<longleftrightarrow> b < 32 \<and> drop_bit b v \<noteq> 0"

definition max_bits :: "u32 list \<Rightarrow> nat" where
  "max_bits vals = fold (\<lambda>v m.
     let bits = (if v = 0 then 1 else 32 - leading_zeros v) in
     if bits > m then bits else m) vals 1"

definition exc_of :: "u32 list \<Rightarrow> nat \<Rightarrow> nat" where
  "exc_of vals b = fold (\<lambda>v exc. if needs_more b v then exc + 1 else exc) vals 0"

definition cost_of :: "u32 list \<Rightarrow> nat \<Rightarrow> nat" where
  "cost_of vals b = length vals * b + exc_of vals b * 32"

definition candidate_widths :: "u32 list \<Rightarrow> nat list" where
  "candidate_widths vals =
     (let bs = [1..<Suc (max_bits vals)] in if 32 \<in> set bs then bs else bs @ [32])"

definition best_width :: "u32 list \<Rightarrow> nat \<times> nat \<times> nat" where
  "best_width vals = fold (\<lambda>b (best_b, best_cost, best_exc).
     if cost_of vals b < best_cost then (b, cost_of vals b, exc_of vals b)
     else (best_b, best_cost, best_exc))
     (candidate_widths vals) (32, 2 ^ 64 - 1, 0)"

text \<open>\<open>out[at + k / 8] |= 1 << (k % 8)\<close>\<close>

definition set_frame_bit :: "nat \<Rightarrow> nat \<Rightarrow> bytes \<Rightarrow> bytes" where
  "set_frame_bit at k out = out[at + k div 8 := (out ! (at + k div 8)) OR push_bit (k mod 8) 1]"

definition pack_frame :: "nat \<Rightarrow> nat \<Rightarrow> u32 list \<Rightarrow> bytes \<Rightarrow> bytes" where
  "pack_frame frame_start b vals out =
     (let n = length vals in
      fold (\<lambda>p. fold (\<lambda>i out.
        if drop_bit p (vals ! i) AND 1 = 1 then set_frame_bit frame_start (p * n + i) out else out)
        [0..<n]) [0..<b] out)"

definition div_ceil :: "nat \<Rightarrow> nat \<Rightarrow> nat" where
  "div_ceil x y = (x + y - 1) div y"

definition encode_block :: "u32 list \<Rightarrow> bytes \<Rightarrow> bytes" where
  "encode_block vals out =
     (let n = length vals;
          (b, _, exc_count) = best_width vals;
          out = out @ [of_nat b] @ to_le (of_nat exc_count :: u16);
          frame_bytes = div_ceil (n * b) 8;
          frame_start = length out;
          out = out @ replicate frame_bytes 0;
          out = pack_frame frame_start b vals out in
      fold (\<lambda>(i, v) out.
        if needs_more b v then out @ to_le (of_nat i :: u16) @ to_le v else out)
        (enumerate 0 vals) out)"

text \<open>\<open>slice::chunks\<close>.\<close>

function chunks :: "nat \<Rightarrow> 'a list \<Rightarrow> 'a list list" where
  "chunks k xs = (if xs = [] \<or> k = 0 then [] else take k xs # chunks k (drop k xs))"
  by pat_completeness auto
termination by (relation "measure (\<lambda>(k, xs). length xs)") auto

declare chunks.simps [simp del]

definition encode :: "u32 list \<Rightarrow> bytes" where
  "encode deltas =
     fold encode_block (chunks BLOCK deltas)
       ([VERSION_PFOR] @ to_le (of_nat (length deltas) :: u32))"

subsection \<open>Decoding\<close>

definition unpack_frame :: "bytes \<Rightarrow> nat \<Rightarrow> nat \<Rightarrow> u32 list \<Rightarrow> u32 list" where
  "unpack_frame frame b n vals =
     fold (\<lambda>p. fold (\<lambda>i vals.
       let bit_index = p * n + i in
       if drop_bit (bit_index mod 8) (frame ! (bit_index div 8)) AND 1 = 1
       then vals[i := (vals ! i) OR push_bit (p mod 32) 1] else vals)
       [0..<n]) [0..<b] vals"

fun apply_exceptions :: "bytes \<Rightarrow> nat \<Rightarrow> nat \<Rightarrow> u32 list \<Rightarrow> (nat \<times> u32 list) res" where
  "apply_exceptions buf pos 0 vals = Ok (pos, vals)"
| "apply_exceptions buf pos (Suc k) vals =
     bind_o (rd_le buf pos) (\<lambda>p :: u16.
     bind_o (rd_le buf (pos + 2)) (\<lambda>v :: u32.
     if unat p < length vals then apply_exceptions buf (pos + 6) k (vals[unat p := v])
     else Panic))"

definition decode_block ::
  "bytes \<Rightarrow> nat \<Rightarrow> nat \<Rightarrow> u32 list \<Rightarrow> (nat \<times> u32 list) res" where
  "decode_block buf pos n out =
     bind_o (index_o buf pos) (\<lambda>b.
     bind_o (rd_le buf (pos + 1)) (\<lambda>exc_count :: u16.
     let pos = pos + 3;
         frame_bytes = div_ceil (n * unat b) 8 in
     bind_o (slice buf pos (pos + frame_bytes)) (\<lambda>frame.
     bind_o (apply_exceptions buf (pos + frame_bytes) (unat exc_count)
       (unpack_frame frame (unat b) n (replicate n 0))) (\<lambda>(pos, vals).
     Ok (pos, out @ vals)))))"

function decode_blocks :: "bytes \<Rightarrow> nat \<Rightarrow> nat \<Rightarrow> u32 list \<Rightarrow> u32 list res" where
  "decode_blocks buf pos remaining out =
     (if remaining > 0 then
        let n = min remaining BLOCK in
        bind_o (decode_block buf pos n out) (\<lambda>(pos, out).
        decode_blocks buf pos (remaining - n) out)
      else Ok out)"
  by pat_completeness auto
termination
  by (relation "measure (\<lambda>(buf, pos, remaining, out). remaining)") (auto simp: BLOCK_def)

declare decode_blocks.simps [simp del]

definition decode :: "bytes \<Rightarrow> nat \<Rightarrow> u32 list res" where
  "decode buf count = (if count = 0 then Ok [] else decode_blocks buf 5 count [])"

subsection \<open>The width search\<close>

lemma bit_len_u32: "bit_len (unat (v :: u32)) \<le> 32"
  using bit_len_le [of "unat v" 32] by simp

lemma max_bits_fold:
  fixes f :: "u32 \<Rightarrow> nat"
  assumes "\<And>v. f v \<le> 32" "m \<le> 32"
  shows "m \<le> fold (\<lambda>v m. let bits = f v in if bits > m then bits else m) vals m"
    and "fold (\<lambda>v m. let bits = f v in if bits > m then bits else m) vals m \<le> 32"
    and "v \<in> set vals \<Longrightarrow> f v \<le> fold (\<lambda>v m. let bits = f v in if bits > m then bits else m) vals m"
proof -
  have "m \<le> fold (\<lambda>v m. let bits = f v in if bits > m then bits else m) vals m \<and>
    fold (\<lambda>v m. let bits = f v in if bits > m then bits else m) vals m \<le> 32 \<and>
    (\<forall>v\<in>set vals. f v \<le> fold (\<lambda>v m. let bits = f v in if bits > m then bits else m) vals m)"
    using assms
  proof (induction vals arbitrary: m)
    case (Cons a vals)
    show ?case
      using Cons.IH [OF Cons.prems(1), of m] Cons.IH [OF Cons.prems(1), of "f a"] Cons.prems
      by (auto simp: Let_def intro: order_trans)
  qed simp
  then show "m \<le> fold (\<lambda>v m. let bits = f v in if bits > m then bits else m) vals m"
    and "fold (\<lambda>v m. let bits = f v in if bits > m then bits else m) vals m \<le> 32"
    and "v \<in> set vals \<Longrightarrow> f v \<le> fold (\<lambda>v m. let bits = f v in if bits > m then bits else m) vals m"
    by auto
qed

lemma max_bits_range: "1 \<le> max_bits vals" "max_bits vals \<le> 32"
  unfolding max_bits_def
  using max_bits_fold(1,2) [where f = "\<lambda>v. if v = 0 then 1 else 32 - leading_zeros v" and m = 1]
  by (auto simp: leading_zeros_def)

lemma max_bits_fits: "v \<in> set vals \<Longrightarrow> unat v < 2 ^ max_bits vals"
proof -
  assume v: "v \<in> set vals"
  have "bit_len (unat v) \<le> (if v = 0 then 1 else 32 - leading_zeros v)"
    using bit_len_u32 [of v] by (simp add: leading_zeros_def bit_len.simps [of 0])
  also have "\<dots> \<le> max_bits vals" unfolding max_bits_def
    using max_bits_fold(3) [where f = "\<lambda>v. if v = 0 then 1 else 32 - leading_zeros v" and m = 1] v
    by (auto simp: leading_zeros_def)
  finally show ?thesis using bit_len_bound [of "unat v"]
    by (meson less_le_trans one_le_numeral power_increasing)
qed

lemma exc_of_filter: "exc_of vals b = length (filter (needs_more b) vals)"
proof -
  have "fold (\<lambda>v exc. if needs_more b v then exc + 1 else exc) vals k
    = k + length (filter (needs_more b) vals)" for k
    by (induction vals arbitrary: k) auto
  then show ?thesis by (simp add: exc_of_def)
qed

lemma candidate_widths_range: "b \<in> set (candidate_widths vals) \<Longrightarrow> 1 \<le> b \<and> b \<le> 32"
  using max_bits_range [of vals] by (auto simp: candidate_widths_def Let_def split: if_splits)

lemma best_fold:
  assumes "\<forall>b\<in>set bs. cost_of vals b < c0" "bs \<noteq> []"
  shows "\<exists>b\<in>set bs. fold (\<lambda>b (best_b, best_cost, best_exc).
       if cost_of vals b < best_cost then (b, cost_of vals b, exc_of vals b)
       else (best_b, best_cost, best_exc)) bs (b0, c0, e0) = (b, cost_of vals b, exc_of vals b) \<and>
     (\<forall>b'\<in>set bs. cost_of vals b \<le> cost_of vals b')"
  using assms
proof (induction bs rule: rev_induct)
  case (snoc x bs)
  show ?case
  proof (cases "bs = []")
    case False
    then obtain b where b: "b \<in> set bs" "\<forall>b'\<in>set bs. cost_of vals b \<le> cost_of vals b'"
      "fold (\<lambda>b (best_b, best_cost, best_exc).
       if cost_of vals b < best_cost then (b, cost_of vals b, exc_of vals b)
       else (best_b, best_cost, best_exc)) bs (b0, c0, e0) = (b, cost_of vals b, exc_of vals b)"
      using snoc by auto
    show ?thesis
    proof (cases "cost_of vals x < cost_of vals b")
      case True
      then show ?thesis using b by (intro bexI [of _ x]) (auto intro: less_imp_le order_trans)
    next
      case F: False
      then show ?thesis using b by (intro bexI [of _ b]) auto
    qed
  qed (use snoc in auto)
qed simp

lemma cost_of_bound: "length vals \<le> BLOCK \<Longrightarrow> b \<le> 32 \<Longrightarrow> cost_of vals b \<le> 8192"
proof -
  assume "length vals \<le> BLOCK" "b \<le> 32"
  then have "length vals * b \<le> 128 * 32" unfolding BLOCK_def by (rule mult_le_mono)
  moreover have "exc_of vals b \<le> 128" unfolding exc_of_filter
    using le_trans [OF length_filter_le \<open>length vals \<le> BLOCK\<close>] by (simp add: BLOCK_def)
  ultimately show ?thesis by (simp add: cost_of_def)
qed

lemma best_width_candidate:
  assumes "length vals \<le> BLOCK"
  obtains b where "best_width vals = (b, cost_of vals b, exc_of vals b)"
    and "b \<in> set (candidate_widths vals)"
    and "\<forall>b'\<in>set (candidate_widths vals). cost_of vals b \<le> cost_of vals b'"
proof -
  have "\<forall>b\<in>set (candidate_widths vals). cost_of vals b < 2 ^ 64 - 1"
    using cost_of_bound [OF assms] candidate_widths_range
    by (intro ballI) (rule le_less_trans [of _ 8192], blast, simp)
  moreover have "candidate_widths vals \<noteq> []" using max_bits_range [of vals]
    by (auto simp: candidate_widths_def Let_def)
  ultimately show ?thesis using best_fold [of "candidate_widths vals" vals "2 ^ 64 - 1" 32 0] that
    unfolding best_width_def by blast
qed

subsection \<open>The frame, bit by bit\<close>

definition frame_bit :: "bytes \<Rightarrow> nat \<Rightarrow> bool" where
  "frame_bit f k = bit (f ! (k div 8)) (k mod 8)"

lemma and_one_bit: "drop_bit p v AND 1 = 1 \<longleftrightarrow> bit v p" for v :: "'a::len word"
  by (simp add: and_one_eq bit_iff_odd_drop_bit odd_iff_mod_2_eq_one)

lemma frame_bit_set:
  assumes "k < 8 * length f" "j < 8 * length f"
  shows "frame_bit (set_frame_bit 0 k f) j \<longleftrightarrow> j = k \<or> frame_bit f j"
proof -
  have l: "k div 8 < length f" "j div 8 < length f" using assms by auto
  have eq: "j = k \<longleftrightarrow> j div 8 = k div 8 \<and> j mod 8 = k mod 8" by (metis div_mult_mod_eq)
  have "bit (push_bit (k mod 8) 1 :: u8) m \<longleftrightarrow> m = k mod 8" for m
    by (auto simp: bit_simps)
  then show ?thesis using l
    by (auto simp: frame_bit_def set_frame_bit_def nth_list_update bit_simps eq)
qed

lemma length_set_frame_bit [simp]: "length (set_frame_bit at k f) = length f"
  by (simp add: set_frame_bit_def)

lemma set_frame_bit_append:
  "set_frame_bit (length pre) k (pre @ f) = pre @ set_frame_bit 0 k f"
  by (simp add: set_frame_bit_def list_update_append)

text \<open>The positions of the frame in the order the two nested loops visit them.\<close>

definition positions :: "nat \<Rightarrow> nat \<Rightarrow> (nat \<times> nat) list" where
  "positions b n = concat (map (\<lambda>p. map (Pair p) [0..<n]) [0..<b])"

lemma set_positions [simp]: "set (positions b n) = {0..<b} \<times> {0..<n}"
  by (auto simp: positions_def)

lemma fold_nested:
  "fold (\<lambda>p. fold (g p) is) ps s = fold (\<lambda>(p, i). g p i) (concat (map (\<lambda>p. map (Pair p) is) ps)) s"
  by (induction ps arbitrary: s) (auto simp: fold_map comp_def)

lemma fold_positions: "fold (\<lambda>p. fold (g p) [0..<n]) [0..<b] s = fold (\<lambda>(p, i). g p i) (positions b n) s"
  unfolding positions_def by (rule fold_nested)

lemma pack_positions:
  fixes vals :: "u32 list"
  assumes "\<forall>(p, i)\<in>set ps. p * n + i < 8 * length f"
  shows "\<exists>f'. fold (\<lambda>(p, i) out. if drop_bit p (vals ! i) AND 1 = 1
        then set_frame_bit (length pre) (p * n + i) out else out) ps (pre @ f) = pre @ f' \<and>
      length f' = length f \<and>
      (\<forall>k<8 * length f. frame_bit f' k \<longleftrightarrow>
        frame_bit f k \<or> (\<exists>(p, i)\<in>set ps. k = p * n + i \<and> bit (vals ! i) p))"
  using assms
proof (induction ps arbitrary: f)
  case (Cons pi ps)
  obtain p i where pi: "pi = (p, i)" by (cases pi)
  define f1 where "f1 = (if bit (vals ! i) p then set_frame_bit 0 (p * n + i) f else f)"
  have l: "length f1 = length f" by (simp add: f1_def)
  have k: "p * n + i < 8 * length f" using Cons.prems pi by auto
  have f1: "frame_bit f1 k \<longleftrightarrow> frame_bit f k \<or> k = p * n + i \<and> bit (vals ! i) p"
    if "k < 8 * length f" for k
    using that k by (auto simp: f1_def frame_bit_set)
  have step: "(if drop_bit p (vals ! i) AND 1 = 1
      then set_frame_bit (length pre) (p * n + i) (pre @ f) else pre @ f) = pre @ f1"
    by (simp add: f1_def and_one_bit set_frame_bit_append)
  have "\<forall>(p, i)\<in>set ps. p * n + i < 8 * length f1" using Cons.prems l by auto
  from Cons.IH [OF this] obtain f' where f': "fold (\<lambda>(p, i) out. if drop_bit p (vals ! i) AND 1 = 1
        then set_frame_bit (length pre) (p * n + i) out else out) ps (pre @ f1) = pre @ f'"
    "length f' = length f"
    "\<forall>k<8 * length f. frame_bit f' k \<longleftrightarrow>
        frame_bit f1 k \<or> (\<exists>(p, i)\<in>set ps. k = p * n + i \<and> bit (vals ! i) p)"
    unfolding l by blast
  show ?case
  proof (intro exI [of _ f'] conjI)
    show "fold (\<lambda>(p, i) out. if drop_bit p (vals ! i) AND 1 = 1
        then set_frame_bit (length pre) (p * n + i) out else out) (pi # ps) (pre @ f) = pre @ f'"
      using f'(1) step by (simp add: pi)
    show "length f' = length f" by (rule f')
    show "\<forall>k<8 * length f. frame_bit f' k \<longleftrightarrow>
        frame_bit f k \<or> (\<exists>(p, i)\<in>set (pi # ps). k = p * n + i \<and> bit (vals ! i) p)"
      using f'(3) f1 by (auto simp: pi)
  qed
qed simp

lemma unpack_positions:
  assumes "\<forall>(p, i)\<in>set ps. p < 32 \<and> i < length vals"
  shows "length (fold (\<lambda>(p, i) vals.
       let bit_index = p * n + i in
       if drop_bit (bit_index mod 8) (frame ! (bit_index div 8)) AND 1 = 1
       then vals[i := (vals ! i) OR push_bit (p mod 32) 1] else vals) ps vals) = length vals \<and>
    (\<forall>i<length vals. \<forall>q<32. bit (fold (\<lambda>(p, i) vals.
       let bit_index = p * n + i in
       if drop_bit (bit_index mod 8) (frame ! (bit_index div 8)) AND 1 = 1
       then vals[i := (vals ! i) OR push_bit (p mod 32) (1 :: u32)] else vals) ps vals ! i) q \<longleftrightarrow>
     bit (vals ! i) q \<or> (q, i) \<in> set ps \<and> frame_bit frame (q * n + i))"
  using assms
proof (induction ps arbitrary: vals)
  case (Cons pi ps)
  obtain p i where pi: "pi = (p, i)" by (cases pi)
  define vals1 where "vals1 = (if frame_bit frame (p * n + i)
    then vals[i := (vals ! i) OR push_bit (p mod 32) 1] else vals)"
  have l: "length vals1 = length vals" by (simp add: vals1_def)
  have p: "p < 32" "i < length vals" using Cons.prems by (auto simp: pi)
  have sh: "bit (push_bit p 1 :: u32) q \<longleftrightarrow> q = p" for q using p by (auto simp: bit_simps)
  have v1: "bit (vals1 ! j) q \<longleftrightarrow> bit (vals ! j) q \<or> (q, j) = (p, i) \<and> frame_bit frame (q * n + j)"
    if "j < length vals" "q < 32" for j q
    using that p sh by (auto simp: vals1_def nth_list_update bit_or_iff)
  have st: "fold (\<lambda>(p, i) vals.
       let bit_index = p * n + i in
       if drop_bit (bit_index mod 8) (frame ! (bit_index div 8)) AND 1 = 1
       then vals[i := (vals ! i) OR push_bit (p mod 32) (1 :: u32)] else vals) (pi # ps) vals
     = fold (\<lambda>(p, i) vals.
       let bit_index = p * n + i in
       if drop_bit (bit_index mod 8) (frame ! (bit_index div 8)) AND 1 = 1
       then vals[i := (vals ! i) OR push_bit (p mod 32) (1 :: u32)] else vals) ps vals1"
    by (simp add: pi vals1_def Let_def and_one_bit frame_bit_def)
  have pre: "\<forall>(p, i)\<in>set ps. p < 32 \<and> i < length vals1" using Cons.prems l by auto
  show ?case unfolding st using Cons.IH [OF pre] v1 by (auto simp: l pi)
qed simp

lemma frame_in_range: "p < b \<Longrightarrow> i < n \<Longrightarrow> p * n + i < 8 * div_ceil (n * b) 8"
proof -
  assume "p < b" "i < n"
  then have "Suc p * n \<le> b * n" by (intro mult_le_mono1) simp
  then have "p * n + i < n * b" using \<open>i < n\<close> by (simp add: mult.commute)
  then show ?thesis by (simp add: div_ceil_def)
qed

lemma position_unique: "q * n + i = p * n + j \<Longrightarrow> i < n \<Longrightarrow> j < (n::nat) \<Longrightarrow> q = p \<and> i = j"
  by (metis add.commute div_mult_self1 div_less gr_implies_not0 add_0 add_right_cancel mult.commute)

lemma pack_frame_spec:
  fixes vals :: "u32 list" and b :: nat
  defines "L \<equiv> div_ceil (length vals * b) 8"
  shows "\<exists>f. pack_frame (length pre) b vals (pre @ replicate L 0) = pre @ f \<and>
    length f = L \<and>
    (\<forall>k<8 * L. frame_bit f k \<longleftrightarrow>
       (\<exists>p<b. \<exists>i<length vals. k = p * length vals + i \<and> bit (vals ! i) p))"
proof -
  have r: "\<forall>(p, i)\<in>set (positions b (length vals)). p * length vals + i < 8 * length (replicate L (0::u8))"
    using frame_in_range by (auto simp: L_def)
  have z: "\<not> frame_bit (replicate L 0) k" if "k < 8 * L" for k
    using that by (simp add: frame_bit_def less_mult_imp_div_less mult.commute)
  obtain f where "fold (\<lambda>(p, i) out. if drop_bit p (vals ! i) AND 1 = 1
        then set_frame_bit (length pre) (p * length vals + i) out else out)
        (positions b (length vals)) (pre @ replicate L 0) = pre @ f"
    and "length f = L"
    and "\<forall>k<8 * L. frame_bit f k \<longleftrightarrow> frame_bit (replicate L 0) k \<or>
      (\<exists>(p, i)\<in>set (positions b (length vals)). k = p * length vals + i \<and> bit (vals ! i) p)"
    using pack_positions [OF r, of vals pre] by auto
  then show ?thesis using z
    by (intro exI [of _ f]) (fastforce simp: pack_frame_def Let_def fold_positions)
qed

lemma unpack_pack:
  assumes f: "\<forall>k<8 * div_ceil (n * b) 8. frame_bit f k \<longleftrightarrow>
      (\<exists>p<b. \<exists>i<n. k = p * n + i \<and> bit (vals ! i) p)"
    and "n = length vals" "b \<le> 32"
  shows "unpack_frame f b n (replicate n 0) = map (take_bit b) vals"
proof (rule nth_equalityI)
  have pre: "\<forall>(p, i)\<in>set (positions b n). p < 32 \<and> i < length (replicate n (0 :: u32))"
    using assms by auto
  note U = unpack_positions [OF pre, of n f]
  then show l: "length (unpack_frame f b n (replicate n 0)) = length (map (take_bit b) vals)"
    by (simp add: unpack_frame_def fold_positions assms)
  fix i assume "i < length (unpack_frame f b n (replicate n 0))"
  then have i: "i < n" using l assms by simp
  show "unpack_frame f b n (replicate n 0) ! i = map (take_bit b) vals ! i"
  proof (rule bit_word_eqI)
    fix q assume q: "q < LENGTH(32)"
    have "bit (unpack_frame f b n (replicate n 0) ! i) q \<longleftrightarrow> q < b \<and> frame_bit f (q * n + i)"
      using U i q by (simp add: unpack_frame_def fold_positions)
    also have "\<dots> \<longleftrightarrow> q < b \<and> bit (vals ! i) q"
      using f frame_in_range [of q b i n] i position_unique by blast
    finally show "bit (unpack_frame f b n (replicate n 0) ! i) q = bit (map (take_bit b) vals ! i) q"
      using i assms by (simp add: bit_take_bit_iff)
  qed
qed

subsection \<open>Blocks and buffers\<close>

definition exc_bytes :: "(nat \<times> u32) list \<Rightarrow> bytes" where
  "exc_bytes es = concat (map (\<lambda>(i, v). to_le (of_nat i :: u16) @ to_le v) es)"

lemma fold_exceptions:
  "fold (\<lambda>(i, v) out. if needs_more b v then out @ to_le (of_nat i :: u16) @ to_le v else out) es out
   = out @ exc_bytes (filter (\<lambda>(i, v). needs_more b v) es)"
  by (induction es arbitrary: out) (auto simp: exc_bytes_def)

lemma length_exc_bytes: "length (exc_bytes es) = 6 * length es"
  by (induction es) (auto simp: exc_bytes_def)

lemma apply_exceptions_bytes:
  assumes "\<forall>(i, v)\<in>set es. i < length base" "length base \<le> BLOCK"
  shows "apply_exceptions (pre @ exc_bytes es @ post) (length pre) (length es) base =
    Ok (length pre + length (exc_bytes es), fold (\<lambda>(i, v) vals. vals[i := v]) es base)"
  using assms
proof (induction es arbitrary: pre base)
  case Nil
  show ?case by (simp add: exc_bytes_def)
next
  case (Cons iv es)
  obtain i v where iv: "iv = (i, v)" by (cases iv)
  have i: "i < length base" "i < 65536" using Cons.prems by (auto simp: iv BLOCK_def)
  let ?pre = "pre @ to_le (of_nat i :: u16) @ to_le v"
  have eq: "pre @ exc_bytes (iv # es) @ post = ?pre @ exc_bytes es @ post"
    by (simp add: exc_bytes_def iv)
  have "rd_le (pre @ exc_bytes (iv # es) @ post) (length pre) = (Ok (of_nat i) :: u16 res)"
    and "rd_le (pre @ exc_bytes (iv # es) @ post) (length pre + 2) = (Ok v :: u32 res)"
    unfolding eq by simp_all
  then have "apply_exceptions (pre @ exc_bytes (iv # es) @ post) (length pre) (length (iv # es)) base
    = (apply_exceptions (?pre @ exc_bytes es @ post) (length ?pre) (length es) (base[i := v])
        :: (nat \<times> u32 list) res)"
    using i by (simp add: eq [symmetric]) (simp add: eq)
  then show ?case using Cons.IH [of "base[i := v]" ?pre] Cons.prems
    by (auto simp: iv exc_bytes_def)
qed

lemma fold_overrides:
  assumes "\<forall>(i, v)\<in>set es. v = vals ! i" "\<forall>(i, v)\<in>set es. i < length base"
  shows "length (fold (\<lambda>(i, v) vals. vals[i := v]) es base) = length base"
    and "j < length base \<Longrightarrow> fold (\<lambda>(i, v) vals. vals[i := v]) es base ! j =
      (if j \<in> fst ` set es then vals ! j else base ! j)"
  using assms by (induction es arbitrary: base) (auto simp: nth_list_update split: prod.splits)

definition block_bytes :: "u32 list \<Rightarrow> bytes" where
  "block_bytes vals = encode_block vals []"

text \<open>What a block consists of.\<close>

lemma encode_block_parts:
  assumes "length vals \<le> BLOCK"
  obtains b f where "\<And>out. encode_block vals out = out @ [of_nat b] @
      to_le (of_nat (exc_of vals b) :: u16) @ f @
      exc_bytes (filter (\<lambda>(i, v). needs_more b v) (enumerate 0 vals))"
    and "1 \<le> b" "b \<le> 32" "length f = div_ceil (length vals * b) 8"
    and "b \<in> set (candidate_widths vals)"
    and "\<forall>b'\<in>set (candidate_widths vals). cost_of vals b \<le> cost_of vals b'"
    and "unpack_frame f b (length vals) (replicate (length vals) 0) = map (take_bit b) vals"
proof -
  obtain b where b: "best_width vals = (b, cost_of vals b, exc_of vals b)"
    "b \<in> set (candidate_widths vals)"
    "\<forall>b'\<in>set (candidate_widths vals). cost_of vals b \<le> cost_of vals b'"
    by (rule best_width_candidate [OF assms])
  let ?L = "div_ceil (length vals * b) 8"
  define f where "f = pack_frame 0 b vals (replicate ?L 0)"
  have F: "length f = ?L \<and> (\<forall>k<8 * ?L. frame_bit f k \<longleftrightarrow>
       (\<exists>p<b. \<exists>i<length vals. k = p * length vals + i \<and> bit (vals ! i) p))"
    using pack_frame_spec [of "[]" b vals] by (auto simp: f_def)
  have "pack_frame (length pre) b vals (pre @ replicate ?L 0) = pre @ f" for pre
  proof -
    obtain g where g: "pack_frame (length pre) b vals (pre @ replicate ?L 0) = pre @ g"
      "length g = ?L" "\<forall>k<8 * ?L. frame_bit g k \<longleftrightarrow>
       (\<exists>p<b. \<exists>i<length vals. k = p * length vals + i \<and> bit (vals ! i) p)"
      using pack_frame_spec [of pre b vals] by blast
    have "g = f"
    proof (rule nth_equalityI)
      fix m assume "m < length g"
      then have m: "m < ?L" using g by simp
      show "g ! m = f ! m"
      proof (rule bit_word_eqI)
        fix q assume "q < LENGTH(8)"
        then have "(8 * m + q) div 8 = m" "(8 * m + q) mod 8 = q" "8 * m + q < 8 * ?L" using m by auto
        then show "bit (g ! m) q = bit (f ! m) q"
          using g(3) F unfolding frame_bit_def by metis
      qed
    qed (simp add: g F)
    then show ?thesis using g by simp
  qed
  from this [of "_ @ [of_nat b] @ to_le (of_nat (exc_of vals b) :: u16)"]
  have "encode_block vals out = out @ [of_nat b] @ to_le (of_nat (exc_of vals b) :: u16) @ f @
      exc_bytes (filter (\<lambda>(i, v). needs_more b v) (enumerate 0 vals))" for out
    by (simp add: encode_block_def b Let_def fold_exceptions)
  moreover have "unpack_frame f b (length vals) (replicate (length vals) 0) = map (take_bit b) vals"
    using F candidate_widths_range [OF b(2)] by (intro unpack_pack) auto
  ultimately show ?thesis using that b F candidate_widths_range [OF b(2)] by blast
qed

lemma encode_block_append: "length vals \<le> BLOCK \<Longrightarrow> encode_block vals out = out @ block_bytes vals"
  unfolding block_bytes_def by (rule encode_block_parts [of vals]) auto

lemma exceptions_restore:
  assumes "b \<le> 32"
  shows "fold (\<lambda>(i, v) vals. vals[i := v])
     (filter (\<lambda>(i, v). needs_more b v) (enumerate 0 vals)) (map (take_bit b) vals) = vals"
proof -
  let ?es = "filter (\<lambda>(i, v). needs_more b v) (enumerate 0 vals)"
  have es: "\<forall>(i, v)\<in>set ?es. v = vals ! i" "\<forall>(i, v)\<in>set ?es. i < length (map (take_bit b) vals)"
    by (auto simp: in_set_enumerate_eq)
  show ?thesis
  proof (rule nth_equalityI)
    show "length (fold (\<lambda>(i, v) vals. vals[i := v]) ?es (map (take_bit b) vals)) = length vals"
      using fold_overrides(1) [OF es] by simp
    fix j assume "j < length (fold (\<lambda>(i, v) vals. vals[i := v]) ?es (map (take_bit b) vals))"
    then have j: "j < length vals" using fold_overrides(1) [OF es] by simp
    have fits: "take_bit b v = v" if "\<not> needs_more b v" for v :: u32
    proof (cases "b = 32")
      case False
      then have "drop_bit b v = 0" using that assms by (simp add: needs_more_def)
      then show ?thesis using bits_ident [of b v] by simp
    qed (simp add: take_bit_length_eq [where 'a = 32, simplified])
    have "j \<notin> fst ` set ?es \<longleftrightarrow> \<not> needs_more b (vals ! j)"
      using j by (force simp: in_set_enumerate_eq image_iff)
    then show "fold (\<lambda>(i, v) vals. vals[i := v]) ?es (map (take_bit b) vals) ! j = vals ! j"
      using fold_overrides(2) [OF es, of j] j fits by auto
  qed
qed

lemma length_filter_enumerate:
  "length (filter (\<lambda>(i, v). P v) (enumerate k vs)) = length (filter P vs)"
  by (induction vs arbitrary: k) auto

lemma decode_block_bytes:
  assumes "length vals \<le> BLOCK" "p = length pre" "n = length vals"
  shows "(decode_block (pre @ block_bytes vals @ post) p n out :: (nat \<times> u32 list) res)
    = Ok (length pre + length (block_bytes vals), out @ vals)"
proof -
  obtain b f where e: "block_bytes vals = [of_nat b] @ to_le (of_nat (exc_of vals b) :: u16) @ f @
      exc_bytes (filter (\<lambda>(i, v). needs_more b v) (enumerate 0 vals))"
    and b: "1 \<le> b" "b \<le> 32" and f: "length f = div_ceil (length vals * b) 8"
    and u: "unpack_frame f b (length vals) (replicate (length vals) 0) = map (take_bit b) vals"
    unfolding block_bytes_def by (rule encode_block_parts [OF assms(1)]) (metis append_Nil)
  let ?es = "filter (\<lambda>(i, v). needs_more b v) (enumerate 0 vals)"
  have ub: "unat (of_nat b :: u8) = b" using b by (simp add: unat_of_nat)
  have les: "length ?es = exc_of vals b" by (simp add: exc_of_filter length_filter_enumerate)
  have "exc_of vals b \<le> BLOCK" unfolding exc_of_filter
    by (rule le_trans [OF length_filter_le assms(1)])
  then have uc: "unat (of_nat (exc_of vals b) :: u16) = exc_of vals b" by (simp add: BLOCK_def)
  let ?head = "pre @ [of_nat b] @ to_le (of_nat (exc_of vals b) :: u16) @ f"
  have buf: "pre @ block_bytes vals @ post = ?head @ exc_bytes ?es @ post"
    and len: "length pre + length (block_bytes vals) = length ?head + length (exc_bytes ?es)"
    and at: "length pre + 3 + length f = length ?head"
    by (simp_all add: e)
  have "\<forall>(i, v)\<in>set ?es. i < length (map (take_bit b) vals)" by (auto simp: in_set_enumerate_eq)
  from apply_exceptions_bytes [OF this, of ?head post]
  have ae: "apply_exceptions (pre @ block_bytes vals @ post) (length pre + 3 + length f)
      (exc_of vals b) (map (take_bit b) vals)
    = (Ok (length pre + length (block_bytes vals), vals) :: (nat \<times> u32 list) res)"
    unfolding buf len at les using assms(1) exceptions_restore [OF b(2), of vals] by simp
  have rd: "index_o (pre @ block_bytes vals @ post) (length pre) = (Ok (of_nat b) :: u8 res)"
    "rd_le (pre @ block_bytes vals @ post) (length pre + 1)
      = (Ok (of_nat (exc_of vals b)) :: u16 res)"
    "slice (pre @ block_bytes vals @ post) (length pre + 3) (length pre + 3 + length f)
      = (Ok f :: bytes res)"
    by (simp_all add: e)
  show ?thesis
    using rd ae u by (simp add: decode_block_def assms Let_def ub uc f)
qed

lemma concat_chunks [simp]: "0 < k \<Longrightarrow> concat (chunks k xs) = xs"
  by (induction k xs rule: chunks.induct) (subst chunks.simps, auto)

lemma chunks_length: "c \<in> set (chunks k xs) \<Longrightarrow> length c \<le> k"
  by (induction k xs rule: chunks.induct) (subst (asm) (2) chunks.simps, auto split: if_splits)

lemma encode_bytes:
  "encode deltas = VERSION_PFOR # to_le (of_nat (length deltas) :: u32) @
     concat (map block_bytes (chunks BLOCK deltas))"
proof -
  have "fold encode_block cs out = out @ concat (map block_bytes cs)"
    if "\<forall>c\<in>set cs. length c \<le> BLOCK" for cs out
    using that by (induction cs arbitrary: out) (auto simp: encode_block_append)
  from this [of "chunks BLOCK deltas"] show ?thesis
    using chunks_length [of _ BLOCK deltas] by (simp add: encode_def)
qed

text \<open>A bound on the size of an encoding.\<close>

lemma length_block_bytes:
  assumes "length vals \<le> BLOCK"
  shows "length (block_bytes vals) \<le> 1283"
proof -
  obtain b f where e: "block_bytes vals = [of_nat b] @ to_le (of_nat (exc_of vals b) :: u16) @ f @
      exc_bytes (filter (\<lambda>(i, v). needs_more b v) (enumerate 0 vals))"
    and b: "b \<le> 32" and f: "length f = div_ceil (length vals * b) 8"
    unfolding block_bytes_def by (rule encode_block_parts [OF assms(1)]) (metis append_Nil)
  have "length vals * b \<le> 128 * 32" using assms b unfolding BLOCK_def by (rule mult_le_mono)
  then have "length f \<le> 512" unfolding f div_ceil_def by linarith
  moreover have "length (filter (needs_more b) vals) \<le> 128"
    using le_trans [OF length_filter_le assms] by (simp add: BLOCK_def)
  ultimately show ?thesis by (simp add: e length_exc_bytes length_filter_enumerate)
qed

lemma length_encode: "length (encode deltas) \<le> 5 + 1283 * length deltas"
proof -
  have "length (concat (map block_bytes (chunks BLOCK vals))) \<le> 1283 * length vals" for vals
  proof (induction vals rule: length_induct)
    case (1 vals)
    show ?case
    proof (cases "vals = []")
      case False
      have u: "chunks BLOCK vals = take BLOCK vals # chunks BLOCK (drop BLOCK vals)"
        using False by (subst chunks.simps) (simp add: BLOCK_def)
      have "length (concat (map block_bytes (chunks BLOCK (drop BLOCK vals)))) \<le> 1283 * length (drop BLOCK vals)"
        using 1 False by (metis BLOCK_def diff_less length_drop length_greater_0_conv zero_less_numeral)
      moreover have "length (drop BLOCK vals) + 1 \<le> length vals" using False by (cases vals) (auto simp: BLOCK_def)
      ultimately show ?thesis using length_block_bytes [of "take BLOCK vals"] by (simp add: u)
    qed (simp add: chunks.simps)
  qed
  then show ?thesis by (simp add: encode_bytes)
qed

lemma decode_blocks_bytes:
  "decode_blocks (pre @ concat (map block_bytes (chunks BLOCK vals)) @ post) (length pre)
     (length vals) out = Ok (out @ vals)"
proof (induction vals arbitrary: pre out rule: length_induct)
  case (1 vals)
  show ?case
  proof (cases "vals = []")
    case True
    then show ?thesis by (subst decode_blocks.simps) simp
  next
    case False
    let ?c = "take BLOCK vals" and ?r = "drop BLOCK vals"
    have ch: "chunks BLOCK vals = ?c # chunks BLOCK ?r"
      using False by (subst chunks.simps) (simp add: BLOCK_def)
    have r: "length ?r < length vals" using False by (simp add: BLOCK_def)
    have m: "min (length vals) BLOCK = length ?c" "length vals - length ?c = length ?r" by simp_all
    have c: "length ?c \<le> BLOCK" by simp
    note block = decode_block_bytes [OF c refl refl, of pre
        "concat (map block_bytes (chunks BLOCK ?r)) @ post" out]
    have "decode_blocks (pre @ concat (map block_bytes (chunks BLOCK vals)) @ post)
        (length pre) (length vals) out =
      decode_blocks ((pre @ block_bytes ?c) @ concat (map block_bytes (chunks BLOCK ?r)) @ post)
        (length (pre @ block_bytes ?c)) (length ?r) (out @ ?c)"
      using False by (subst decode_blocks.simps) (simp add: m Let_def ch block del: length_take)
    also have "\<dots> = Ok ((out @ ?c) @ ?r)" using 1 r by blast
    finally show ?thesis by simp
  qed
qed

lemma decode_encode: "decode (encode deltas @ post) (length deltas) = Ok deltas"
proof -
  have "decode_blocks ((VERSION_PFOR # to_le (of_nat (length deltas) :: u32)) @
      concat (map block_bytes (chunks BLOCK deltas)) @ post)
      (length (VERSION_PFOR # to_le (of_nat (length deltas) :: u32))) (length deltas) [] = Ok ([] @ deltas)"
    by (rule decode_blocks_bytes)
  then have "decode_blocks (encode deltas @ post) 5 (length deltas) [] = (Ok deltas :: u32 list res)"
    by (simp add: encode_bytes)
  then show ?thesis by (simp add: decode_def)
qed

subsection \<open>Properties\<close>

text \<open>
  C19. Decoding what was encoded gives the deltas back, for every list of \<open>u32\<close> values: any
  number of blocks, any widths and exceptions, and whatever bytes follow the encoding.
\<close>

theorem turbopfor_roundtrip: "decode (encode deltas @ post) (length deltas) = Ok deltas"
  by (rule decode_encode)

lemma cost_above_max:
  assumes "max_bits vals \<le> b"
  shows "length vals * max_bits vals \<le> cost_of vals b"
  using assms by (simp add: cost_of_def trans_le_add1)

lemma no_exceptions_at_max: "exc_of vals (max_bits vals) = 0"
proof -
  have "\<not> needs_more (max_bits vals) v" if "v \<in> set vals" for v
  proof -
    have "unat (drop_bit (max_bits vals) v) = 0"
      using max_bits_fits [OF that] by (simp add: unat_drop_bit)
    then show ?thesis by (simp add: needs_more_def unat_eq_0)
  qed
  then show ?thesis by (simp add: exc_of_filter)
qed

text \<open>
  The width search tries only the widths up to the widest value and 32; the width it takes
  is nevertheless a cheapest of all widths from 1 to 32, and the exception count it writes is
  the number of values that do not fit.
\<close>

theorem best_width_cheapest:
  assumes "length vals \<le> BLOCK" and "best_width vals = (b, c, e)"
  shows "b \<in> {1..32} \<and> c = cost_of vals b \<and> e = length (filter (needs_more b) vals) \<and>
    (\<forall>b'\<in>{1..32}. cost_of vals b \<le> cost_of vals b')"
proof -
  obtain w where w: "best_width vals = (w, cost_of vals w, exc_of vals w)"
    and cand: "w \<in> set (candidate_widths vals)"
    and least: "\<forall>b'\<in>set (candidate_widths vals). cost_of vals w \<le> cost_of vals b'"
    by (rule best_width_candidate [OF assms(1)])
  have eq: "b = w" "c = cost_of vals w" "e = exc_of vals w" using w assms(2) by auto
  have "max_bits vals \<in> set (candidate_widths vals)"
    using max_bits_range [of vals] by (auto simp: candidate_widths_def Let_def)
  then have top: "cost_of vals w \<le> length vals * max_bits vals"
    using least no_exceptions_at_max [of vals] by (fastforce simp: cost_of_def)
  have "cost_of vals w \<le> cost_of vals b'" if "b' \<in> {1..32}" for b'
  proof (cases "b' \<le> max_bits vals")
    case True
    then have "b' \<in> set (candidate_widths vals)"
      using that by (auto simp: candidate_widths_def Let_def simp del: upt_Suc)
    then show ?thesis using least by blast
  next
    case False
    then show ?thesis using top cost_above_max [of vals b'] by linarith
  qed
  then show ?thesis using candidate_widths_range [OF cand] by (simp add: eq exc_of_filter)
qed

theorem best_width_cheapest_witness:
  "\<exists>b c e. best_width [1, 2, 3, 1000000] = (b, c, e) \<and>
     (\<forall>b'\<in>{1..32}. cost_of [1, 2, 3, 1000000] b \<le> cost_of [1, 2, 3, 1000000] b')"
proof -
  obtain b c e where w: "best_width [1, 2, 3, 1000000] = (b, c, e)" by (rule prod_cases3)
  have "length [1, 2, 3, 1000000 :: u32] \<le> BLOCK" by (simp add: BLOCK_def)
  from best_width_cheapest [OF this w] show ?thesis using w by blast
qed

end
