(* ===== verification/RobinHood.thy ===== *)
theory RobinHood
  imports Prelude
begin

section \<open>The Robin Hood table of postings (crates/df-core/src/db.rs)\<close>

text \<open>
  Trigram keys are found through an open-addressed table of 20-byte slots. The insertion loop
  of \<open>build_robin_hood\<close> runs on the bytes of the table; it may run forever on a full table, so
  it is a partial function. The lookup loop is the one both readers run (\<open>DbReader::posting\<close>,
  \<open>ShardReader::posting\<close>), over a function that reads one slot.

  The lemmas: writing a slot changes that slot only; the Robin Hood order (a slot that is
  away from its home follows a slot at least as far from its own, less one) is kept by every
  insertion; an insertion ends while a slot is empty; the lookup finds exactly what was inserted.
\<close>

definition EMPTY_KEY :: u32 where "EMPTY_KEY = 0xFFFFFFFF"

definition SLOT_LEN :: nat where "SLOT_LEN = 20"

definition hash :: "u32 \<Rightarrow> u32" where
  "hash x =
     (let z = x + 0x9E3779B9;
          z = (z XOR drop_bit 16 z) * 0x85ebca6b;
          z = (z XOR drop_bit 13 z) * 0xc2b2ae35 in
      z XOR drop_bit 16 z)"

text \<open>Key, number of documents, offset and length of the encoded posting.\<close>

type_synonym slot = "u32 \<times> u32 \<times> u64 \<times> u32"

text \<open>\<open>buf[at..at + n].copy_from_slice(bs)\<close>, and integer reads, inside the table.\<close>

definition blit :: "nat \<Rightarrow> bytes \<Rightarrow> bytes \<Rightarrow> bytes" where
  "blit at bs buf = take at buf @ bs @ drop (at + length bs) buf"

definition le_u32 :: "bytes \<Rightarrow> nat \<Rightarrow> u32" where
  "le_u32 buf at = from_le (take 4 (drop at buf))"

definition le_u64 :: "bytes \<Rightarrow> nat \<Rightarrow> u64" where
  "le_u64 buf at = from_le (take 8 (drop at buf))"

fun write_slot :: "bytes \<Rightarrow> nat \<Rightarrow> slot \<Rightarrow> bytes" where
  "write_slot table idx (key, count, off, len) =
     (let b = idx * SLOT_LEN in
      blit (b + 16) (to_le len) (blit (b + 8) (to_le off) (blit (b + 4) (to_le count)
        (blit b (to_le key) table))))"

definition read_slot :: "bytes \<Rightarrow> nat \<Rightarrow> slot" where
  "read_slot table idx =
     (let b = idx * SLOT_LEN in
      (le_u32 table b, le_u32 table (b + 4), le_u64 table (b + 8), le_u32 table (b + 16)))"

subsection \<open>Insertion\<close>

partial_function (option) insert_loop ::
  "nat \<Rightarrow> bytes \<Rightarrow> nat \<Rightarrow> slot \<Rightarrow> nat \<Rightarrow> bytes option" where
  "insert_loop slots table idx e e_probe =
     (let slot_key = le_u32 table (idx * SLOT_LEN) in
      if slot_key = EMPTY_KEY then Some (write_slot table idx e)
      else
        let ideal = unat (hash slot_key) AND (slots - 1);
            their_probe = (idx + slots - ideal) AND (slots - 1) in
        if e_probe > their_probe then
          insert_loop slots (write_slot table idx e) ((idx + 1) AND (slots - 1))
            (read_slot table idx) (their_probe + 1)
        else insert_loop slots table ((idx + 1) AND (slots - 1)) e (e_probe + 1))"

fun insert_entries :: "nat \<Rightarrow> slot list \<Rightarrow> bytes \<Rightarrow> bytes option" where
  "insert_entries slots [] table = Some table"
| "insert_entries slots (e # es) table =
     Option.bind (insert_loop slots table (unat (hash (fst e)) AND (slots - 1)) e 0)
       (insert_entries slots es)"

definition build_robin_hood :: "slot list \<Rightarrow> nat \<Rightarrow> bytes option" where
  "build_robin_hood entries slots =
     (if slots = 0 then Some []
      else
        let table = replicate (slots * SLOT_LEN) 0;
            table = fold (\<lambda>i table. write_slot table i (EMPTY_KEY, 0, 0, 0)) [0..<slots] table in
        insert_entries slots entries table)"

subsection \<open>Lookup\<close>

lemma nat_and_le: "(x :: nat) AND y \<le> y"
proof -
  have "int x AND int y \<le> int y" by (rule AND_upper2) simp
  then show ?thesis by (metis of_nat_and_eq of_nat_le_iff)
qed

function find_slot ::
  "(nat \<Rightarrow> slot res) \<Rightarrow> nat \<Rightarrow> u32 \<Rightarrow> nat \<Rightarrow> nat \<Rightarrow> slot option res" where
  "find_slot slot slots trig idx probe =
     bind_o (slot idx) (\<lambda>(key, count, off, len).
     if key = EMPTY_KEY then Ok None
     else
       let ideal = unat (hash key) AND (slots - 1);
           their_probe = (idx + slots - ideal) AND (slots - 1) in
       if probe > their_probe then Ok None
       else if key = trig then Ok (Some (key, count, off, len))
       else find_slot slot slots trig ((idx + 1) AND (slots - 1)) (probe + 1))"
  by pat_completeness auto
termination
proof (relation "measure (\<lambda>(slot, slots, trig, idx, probe). Suc slots - probe)")
  fix slots probe idx ideal their_probe :: nat
    and slot :: "nat \<Rightarrow> slot res" and trig :: u32 and x y ya yb k
  assume "their_probe = (idx + slots - ideal) AND (slots - 1)" "\<not> probe > their_probe"
  then have "probe \<le> slots" using nat_and_le [of "idx + slots - ideal" "slots - 1"] by linarith
  then show "((slot, slots, trig, (idx + 1) AND (slots - 1), probe + 1), slot, slots, trig, idx, probe)
    \<in> measure (\<lambda>(slot, slots, trig, idx, probe). Suc slots - probe)" by simp
qed simp

declare find_slot.simps [simp del]

subsection \<open>Slots of the byte table\<close>

definition slot_bytes :: "slot \<Rightarrow> bytes" where
  "slot_bytes s = (case s of (key, count, off, len) \<Rightarrow> to_le key @ to_le count @ to_le off @ to_le len)"

lemma length_slot_bytes [simp]: "length (slot_bytes s) = SLOT_LEN"
  by (simp add: slot_bytes_def SLOT_LEN_def split: prod.split)

lemma blit_part: "length m = length bs \<Longrightarrow> blit (length a) bs (a @ m @ c) = a @ bs @ c"
  by (simp add: blit_def)

lemma split_parts:
  assumes "b + i + j + k + l \<le> length t"
  obtains m1 m2 m3 m4 where "t = take b t @ m1 @ m2 @ m3 @ m4 @ drop (b + i + j + k + l) t"
    "length m1 = i" "length m2 = j" "length m3 = k" "length m4 = l"
proof
  have s: "drop p t = take q (drop p t) @ drop (p + q) t" for p q
    by (metis append_take_drop_id drop_drop add.commute)
  show "t = take b t @ take i (drop b t) @ take j (drop (b + i) t) @ take k (drop (b + i + j) t) @
      take l (drop (b + i + j + k) t) @ drop (b + i + j + k + l) t"
    by (metis append_take_drop_id s)
qed (use assms in simp_all)

lemma write_slot_blit:
  assumes "b = idx * SLOT_LEN" "b + SLOT_LEN \<le> length table"
  shows "write_slot table idx s = take b table @ slot_bytes s @ drop (b + SLOT_LEN) table"
proof -
  obtain key count off len where s: "s = (key, count, off, len)" by (cases s)
  obtain m1 m2 m3 m4 where t: "table = take b table @ m1 @ m2 @ m3 @ m4 @ drop (b + 4 + 4 + 8 + 4) table"
    and m: "length m1 = 4" "length m2 = 4" "length m3 = 8" "length m4 = 4"
    by (rule split_parts [of b 4 4 8 4 table]) (use assms(2) in \<open>simp_all add: SLOT_LEN_def\<close>)
  let ?a = "take b table" and ?c = "drop (b + 4 + 4 + 8 + 4) table"
  have b: "length ?a = b" using assms(2) by simp
  have 1: "blit b (to_le key) table = ?a @ to_le key @ m2 @ m3 @ m4 @ ?c"
  proof -
    have "blit b (to_le key) table = blit b (to_le key) (?a @ m1 @ m2 @ m3 @ m4 @ ?c)"
      by (rule arg_cong [OF t])
    also have "\<dots> = ?a @ to_le key @ m2 @ m3 @ m4 @ ?c"
      using blit_part [of m1 "to_le key" ?a] m b by simp
    finally show ?thesis .
  qed
  have 2: "blit (b + 4) (to_le count) \<dots> = ?a @ to_le key @ to_le count @ m3 @ m4 @ ?c"
    using blit_part [of m2 "to_le count" "?a @ to_le key"] m b by simp
  have 3: "blit (b + 8) (to_le off) \<dots> = ?a @ to_le key @ to_le count @ to_le off @ m4 @ ?c"
    using blit_part [of m3 "to_le off" "?a @ to_le key @ to_le count"] m b by simp
  have 4: "blit (b + 16) (to_le len) \<dots> = ?a @ to_le key @ to_le count @ to_le off @ to_le len @ ?c"
    using blit_part [of m4 "to_le len" "?a @ to_le key @ to_le count @ to_le off"] m b by simp
  have "write_slot table idx s = ?a @ to_le key @ to_le count @ to_le off @ to_le len @ ?c"
    unfolding s write_slot.simps Let_def assms(1) [symmetric] 1 2 3 4 ..
  moreover have "b + 4 + 4 + 8 + 4 = b + SLOT_LEN" by (simp add: SLOT_LEN_def)
  ultimately show ?thesis by (simp only: s slot_bytes_def prod.case append_assoc)
qed

declare write_slot.simps [simp del]

lemma length_write_slot [simp]:
  assumes "length table = n * SLOT_LEN" "idx < n"
  shows "length (write_slot table idx s) = n * SLOT_LEN"
proof -
  have "Suc idx * SLOT_LEN \<le> n * SLOT_LEN" using assms by (intro mult_le_mono1) simp
  then have "idx * SLOT_LEN + SLOT_LEN \<le> length table" using assms by simp
  then show ?thesis using assms by (simp add: write_slot_blit [OF refl])
qed

lemma le_u32_within: "k + 4 \<le> m \<Longrightarrow> le_u32 (take m (drop b table)) k = le_u32 table (b + k)"
  by (simp add: le_u32_def drop_take min_def add.commute)

lemma le_u64_within: "k + 8 \<le> m \<Longrightarrow> le_u64 (take m (drop b table)) k = le_u64 table (b + k)"
  by (simp add: le_u64_def drop_take min_def add.commute)

lemma read_slot_bytes:
  "read_slot table i = read_slot (take SLOT_LEN (drop (i * SLOT_LEN) table)) 0"
  by (simp add: read_slot_def Let_def le_u32_within le_u64_within) (simp add: SLOT_LEN_def le_u32_within le_u64_within)

lemma read_slot_slot_bytes [simp]: "read_slot (slot_bytes s) 0 = s"
  by (cases s) (simp add: read_slot_def le_u32_def le_u64_def slot_bytes_def Let_def)

lemma read_write_slot:
  assumes "length table = n * SLOT_LEN" "i < n" "j < n"
  shows "read_slot (write_slot table i s) j = (if j = i then s else read_slot table j)"
proof -
  have *: "Suc i * SLOT_LEN \<le> n * SLOT_LEN" "Suc j * SLOT_LEN \<le> n * SLOT_LEN"
    using assms by (intro mult_le_mono1; simp)+
  then have w: "write_slot table i s = take (i * SLOT_LEN) table @ slot_bytes s @
      drop (i * SLOT_LEN + SLOT_LEN) table"
    using assms by (intro write_slot_blit) auto
  have l: "length (take (i * SLOT_LEN) table) = i * SLOT_LEN" using * assms by simp
  consider "j = i" | "j < i" | "i < j" by linarith
  then have "take SLOT_LEN (drop (j * SLOT_LEN) (write_slot table i s)) =
    (if j = i then slot_bytes s else take SLOT_LEN (drop (j * SLOT_LEN) table))"
  proof cases
    case 1
    then show ?thesis using l by (simp add: w)
  next
    case 2
    then have "Suc j * SLOT_LEN \<le> i * SLOT_LEN" by (intro mult_le_mono1) simp
    then show ?thesis using 2 l by (simp add: w drop_take)
  next
    case 3
    then have "Suc i * SLOT_LEN \<le> j * SLOT_LEN" by (intro mult_le_mono1) simp
    then show ?thesis using 3 l by (simp add: w)
  qed
  then show ?thesis unfolding read_slot_bytes [of _ j] by simp
qed

lemma le_u32_read_slot: "le_u32 table (idx * SLOT_LEN) = fst (read_slot table idx)"
  by (simp add: read_slot_def Let_def)

subsection \<open>The Robin Hood order\<close>

definition occupied :: "slot \<Rightarrow> bool" where
  "occupied s \<longleftrightarrow> fst s \<noteq> EMPTY_KEY"

definition home :: "nat \<Rightarrow> u32 \<Rightarrow> nat" where
  "home n key = unat (hash key) mod n"

definition dist :: "nat \<Rightarrow> nat \<Rightarrow> u32 \<Rightarrow> nat" where
  "dist n i key = (i + n - home n key) mod n"

definition pred_slot :: "nat \<Rightarrow> nat \<Rightarrow> nat" where
  "pred_slot n i = (i + n - 1) mod n"

definition rh_order :: "nat \<Rightarrow> (nat \<Rightarrow> slot) \<Rightarrow> bool" where
  "rh_order n S \<longleftrightarrow> (\<forall>i<n. occupied (S i) \<and> 0 < dist n i (fst (S i)) \<longrightarrow>
     occupied (S (pred_slot n i)) \<and>
     dist n i (fst (S i)) \<le> Suc (dist n (pred_slot n i) (fst (S (pred_slot n i)))))"

definition rh_distinct :: "nat \<Rightarrow> (nat \<Rightarrow> slot) \<Rightarrow> bool" where
  "rh_distinct n S \<longleftrightarrow> (\<forall>i<n. \<forall>j<n. occupied (S i) \<and> fst (S i) = fst (S j) \<longrightarrow> i = j)"

definition contents :: "nat \<Rightarrow> (nat \<Rightarrow> slot) \<Rightarrow> slot set" where
  "contents n S = {S i |i. i < n \<and> occupied (S i)}"

lemma mod_pred: "0 < n \<Longrightarrow> 0 < x \<Longrightarrow> (x mod n + n - 1) mod n = (x - 1) mod (n :: nat)"
proof -
  assume "0 < n" "0 < x"
  then have "(x mod n + n - 1) mod n = (x mod n + (n - 1)) mod n" by simp
  also have "\<dots> = (x + (n - 1)) mod n" by (rule mod_add_left_eq)
  also have "x + (n - 1) = (x - 1) + n" using \<open>0 < n\<close> \<open>0 < x\<close> by simp
  finally show ?thesis by simp
qed

lemma home_less: "0 < n \<Longrightarrow> home n key < n"
  by (simp add: home_def)

lemma dist_less: "0 < n \<Longrightarrow> dist n i key < n"
  by (simp add: dist_def)

lemma dist_at: "0 < n \<Longrightarrow> p < n \<Longrightarrow> dist n ((home n key + p) mod n) key = p"
proof -
  assume n: "0 < n" "p < n"
  let ?h = "home n key"
  have "((?h + p) mod n + n - ?h) mod n = ((?h + p) mod n + (n - ?h)) mod n"
    using home_less [OF n(1), of key] by simp
  also have "\<dots> = (?h + p + (n - ?h)) mod n" by (rule mod_add_left_eq)
  also have "?h + p + (n - ?h) = p + n" using home_less [OF n(1), of key] by simp
  finally show ?thesis using n by (simp add: dist_def)
qed

lemma at_dist: "i < n \<Longrightarrow> (home n key + dist n i key) mod n = i"
proof -
  assume i: "i < n"
  let ?h = "home n key"
  have "(?h + (i + n - ?h) mod n) mod n = (?h + (i + n - ?h)) mod n" by (rule mod_add_right_eq)
  also have "?h + (i + n - ?h) = i + n" using home_less [of n key] i by simp
  finally show ?thesis using i by (simp add: dist_def)
qed

text \<open>A slot away from its home has a run of occupied slots before it.\<close>

lemma rh_chain:
  assumes "rh_order n S" "i < n" "occupied (S i)" "m \<le> dist n i (fst (S i))"
  shows "occupied (S ((i + n - m) mod n)) \<and>
    dist n i (fst (S i)) \<le> dist n ((i + n - m) mod n) (fst (S ((i + n - m) mod n))) + m"
  using assms(4)
proof (induction m)
  case 0
  then show ?case using assms by simp
next
  case (Suc m)
  let ?j = "(i + n - m) mod n"
  have "dist n i (fst (S i)) < n" using assms by (intro dist_less) simp
  then have m: "Suc m < n" "0 < n" using Suc.prems by auto
  have j: "?j < n" using m by simp
  have IH: "occupied (S ?j)" "dist n i (fst (S i)) \<le> dist n ?j (fst (S ?j)) + m"
    using Suc by simp_all
  then have "0 < dist n ?j (fst (S ?j))" using Suc.prems by linarith
  then have "occupied (S (pred_slot n ?j))"
    "dist n ?j (fst (S ?j)) \<le> Suc (dist n (pred_slot n ?j) (fst (S (pred_slot n ?j))))"
    using assms(1) j IH by (auto simp: rh_order_def)
  moreover have "pred_slot n ?j = (i + n - Suc m) mod n"
    using mod_pred [of n "i + n - m"] m by (simp add: pred_slot_def)
  ultimately show ?case using IH by simp
qed

lemma rh_dist_bound:
  assumes "rh_order n S" "i < n" "occupied (S i)" "z < n" "\<not> occupied (S z)"
  shows "Suc (dist n i (fst (S i))) < n"
proof (rule ccontr)
  assume "\<not> ?thesis"
  then have d: "dist n i (fst (S i)) = n - 1"
    using dist_less [of n i] assms(2) by (metis Suc_lessI diff_Suc_1 gr_implies_not0 not_gr_zero)
  define m where "m = (i + n - z) mod n"
  have "m \<le> dist n i (fst (S i))" using assms d by (simp add: m_def)
      (metis Suc_pred mod_less_divisor gr_implies_not0 less_Suc_eq_le not_gr_zero)
  from rh_chain [OF assms(1-3) this] have "occupied (S ((i + n - m) mod n))" ..
  moreover have "(i + n - m) mod n = z"
  proof (cases "z \<le> i")
    case True
    then have e: "i + n - z = (i - z) + n" by simp
    have "((i - z) + n) mod n = i - z" using assms(2) by simp
    then have "m = i - z" unfolding m_def e .
    then have "i + n - m = z + n" using True by simp
    then show ?thesis using assms by simp
  next
    case False
    then have "i + n - z < n" using assms(2) by linarith
    then have "m = i + n - z" unfolding m_def by (rule mod_less)
    then have "i + n - m = z" using False assms by linarith
    then show ?thesis using assms by simp
  qed
  ultimately show False using assms by simp
qed

text \<open>What the insertion loop maintains, the entry in hand included.\<close>

definition carried :: "nat \<Rightarrow> (nat \<Rightarrow> slot) \<Rightarrow> nat \<Rightarrow> slot \<Rightarrow> nat \<Rightarrow> bool" where
  "carried n S idx e p \<longleftrightarrow> idx < n \<and> p < n \<and> occupied e \<and> (\<forall>i<n. fst (S i) \<noteq> fst e) \<and>
     idx = (home n (fst e) + p) mod n \<and>
     (0 < p \<longrightarrow> occupied (S (pred_slot n idx)) \<and>
       p \<le> Suc (dist n (pred_slot n idx) (fst (S (pred_slot n idx)))))"

lemma pred_slot_next: "i < n \<Longrightarrow> pred_slot n ((i + 1) mod n) = i"
  using mod_pred [of n "i + 1"] by (simp add: pred_slot_def)

lemma pred_slot_less: "0 < n \<Longrightarrow> pred_slot n i < n"
  by (simp add: pred_slot_def)

lemma pred_slot_neq: "1 < n \<Longrightarrow> i < n \<Longrightarrow> pred_slot n i \<noteq> i"
proof
  assume n: "1 < n" "i < n" "pred_slot n i = i"
  show False
  proof (cases i)
    case 0
    then show False using n by (simp add: pred_slot_def)
  next
    case (Suc j)
    then have "pred_slot n i = j" using n by (simp add: pred_slot_def)
    then show False using n Suc by simp
  qed
qed

text \<open>Putting the entry in hand into a slot it may take keeps the order.\<close>

lemma rh_place:
  assumes S: "rh_order n S" "rh_distinct n S" and c: "carried n S idx e p" and n: "1 < n"
    and take: "occupied (S idx) \<Longrightarrow> dist n idx (fst (S idx)) < p"
  shows "rh_order n (S(idx := e)) \<and> rh_distinct n (S(idx := e))"
proof
  have idx: "idx < n" and d: "dist n idx (fst e) = p" and occ: "occupied e"
    and new: "\<forall>i<n. fst (S i) \<noteq> fst e"
    using c dist_at [of n p "fst e"] by (auto simp: carried_def)
  show "rh_distinct n (S(idx := e))"
    using S(2) new by (fastforce simp: rh_distinct_def)
  show "rh_order n (S(idx := e))"
    unfolding rh_order_def
  proof (intro allI impI)
    fix i
    let ?S = "S(idx := e)" and ?j = "pred_slot n i"
    assume i: "i < n" "occupied (?S i) \<and> 0 < dist n i (fst (?S i))"
    have ji: "?j \<noteq> i" "?j < n" using pred_slot_neq [OF n i(1)] pred_slot_less n by auto
    show "occupied (?S ?j) \<and> dist n i (fst (?S i)) \<le> Suc (dist n ?j (fst (?S ?j)))"
    proof (cases "i = idx")
      case True
      then have "0 < p" using i d by simp
      moreover have "0 < p \<longrightarrow> occupied (S (pred_slot n idx)) \<and>
          p \<le> Suc (dist n (pred_slot n idx) (fst (S (pred_slot n idx))))"
        using c unfolding carried_def by blast
      ultimately show ?thesis using d ji True by (simp only: fun_upd_apply if_True if_False refl)
    next
      case False
      then have old: "occupied (S ?j)" "dist n i (fst (S i)) \<le> Suc (dist n ?j (fst (S ?j)))"
        using S(1) i by (auto simp: rh_order_def)
      show ?thesis
      proof (cases "?j = idx")
        case True
        then have "dist n idx (fst (S idx)) < p" using take old by simp
        then show ?thesis using old True False occ d by simp
      qed (use old False in simp)
    qed
  qed
qed

lemma contents_update:
  "idx < n \<Longrightarrow> occupied e \<Longrightarrow>
   contents n (S(idx := e)) = insert e {S i |i. i < n \<and> occupied (S i) \<and> i \<noteq> idx}"
  by (auto simp: contents_def)

declare insert_loop.simps [simp del]

lemma slot_update:
  assumes "length t = n * SLOT_LEN" "idx < n"
  shows "j < n \<Longrightarrow> read_slot (write_slot t idx e) j = ((read_slot t)(idx := e)) j"
  using read_write_slot [OF assms(1,2), of j e] by simp

lemma rh_cong:
  assumes "\<And>i. i < n \<Longrightarrow> S i = S' i" "0 < n"
  shows "rh_order n S = rh_order n S'" "rh_distinct n S = rh_distinct n S'"
    "contents n S = contents n S'"
proof -
  show "rh_order n S = rh_order n S'" "rh_distinct n S = rh_distinct n S'"
    using assms pred_slot_less [of n] by (auto simp: rh_order_def rh_distinct_def)
  show "contents n S = contents n S'"
    unfolding contents_def using assms(1) by (intro Collect_cong) metis
qed

lemma place_table:
  assumes "length t = n * SLOT_LEN" "1 < n" "rh_order n (read_slot t)" "rh_distinct n (read_slot t)"
    and c: "carried n (read_slot t) idx e p"
    and "occupied (read_slot t idx) \<Longrightarrow> dist n idx (fst (read_slot t idx)) < p"
  shows "rh_order n (read_slot (write_slot t idx e))" "rh_distinct n (read_slot (write_slot t idx e))"
    "contents n (read_slot (write_slot t idx e)) =
       insert e {read_slot t i |i. i < n \<and> occupied (read_slot t i) \<and> i \<noteq> idx}"
proof -
  have idx: "idx < n" "occupied e" "0 < n" using c by (auto simp: carried_def)
  have eq: "read_slot (write_slot t idx e) i = ((read_slot t)(idx := e)) i" if "i < n" for i
    using slot_update [OF assms(1) idx(1) that] .
  note rh_cong [of n "read_slot (write_slot t idx e)" "(read_slot t)(idx := e)", OF eq idx(3)]
  then show "rh_order n (read_slot (write_slot t idx e))" "rh_distinct n (read_slot (write_slot t idx e))"
    "contents n (read_slot (write_slot t idx e)) =
       insert e {read_slot t i |i. i < n \<and> occupied (read_slot t i) \<and> i \<noteq> idx}"
    using rh_place [OF assms(3,4) c assms(2,6)] contents_update [OF idx(1,2)] by simp_all
qed

definition inserted :: "nat \<Rightarrow> bytes \<Rightarrow> slot \<Rightarrow> bytes \<Rightarrow> bool" where
  "inserted n t e t' \<longleftrightarrow> length t' = n * SLOT_LEN \<and>
    rh_order n (read_slot t') \<and> rh_distinct n (read_slot t') \<and>
    contents n (read_slot t') = insert e (contents n (read_slot t))"

lemma insert_loop_place:
  assumes "length t = n * SLOT_LEN" "1 < n" "rh_order n (read_slot t)" "rh_distinct n (read_slot t)"
    and c: "carried n (read_slot t) idx e p" and "\<not> occupied (read_slot t idx)"
  shows "\<exists>t'. insert_loop n t idx e p = Some t' \<and> inserted n t e t'"
proof -
  have "insert_loop n t idx e p = Some (write_slot t idx e)"
    using assms(6) by (subst insert_loop.simps) (simp add: le_u32_read_slot occupied_def)
  moreover have "{read_slot t i |i. i < n \<and> occupied (read_slot t i) \<and> i \<noteq> idx} = contents n (read_slot t)"
    using assms(6) by (auto simp: contents_def)
  moreover have "idx < n" using c by (simp add: carried_def)
  ultimately show ?thesis
    using place_table [OF assms(1-5)] assms(1,6) by (simp add: inserted_def)
qed

lemma carry_next:
  assumes "idx < n" "home n key = h" "idx = (h + p) mod n"
  shows "(idx + 1) mod n = (h + (p + 1)) mod n"
  using assms by (simp add: mod_Suc_eq)

text \<open>One insertion, by induction on the distance to an empty slot.\<close>

lemma insert_loop_ok:
  assumes "length t = n * SLOT_LEN" "n = 2 ^ k" "1 < n"
    and "rh_order n (read_slot t)" "rh_distinct n (read_slot t)"
    and "carried n (read_slot t) idx e p"
    and "\<not> occupied (read_slot t ((idx + s) mod n))"
  shows "\<exists>t'. insert_loop n t idx e p = Some t' \<and> inserted n t e t'"
  using assms
proof (induction s arbitrary: t idx e p)
  case 0
  then have "\<not> occupied (read_slot t idx)" by (simp add: carried_def)
  then show ?case using 0 by (intro insert_loop_place) auto
next
  case (Suc s)
  let ?S = "read_slot t" and ?next = "(idx + 1) mod n" and ?t = "write_slot t idx e"
  have idx: "idx < n" and occ: "occupied e" and p: "p < n"
    and new: "\<forall>i<n. fst (?S i) \<noteq> fst e"
    and at: "idx = (home n (fst e) + p) mod n"
    using Suc.prems by (auto simp: carried_def)
  have n: "0 < n" using Suc.prems by simp
  have "(idx + 1 + s) mod n = (idx + Suc s) mod n" by simp
  then have shift: "(?next + s) mod n = (idx + Suc s) mod n" by (simp add: mod_add_left_eq)
  show ?case
  proof (cases "occupied (?S idx)")
    case False
    then show ?thesis using Suc.prems by (intro insert_loop_place) auto
  next
    case True
    let ?r = "?S idx"
    define d where "d = dist n idx (fst ?r)"
    have loop: "insert_loop n t idx e p =
      (if p > d then insert_loop n ?t ?next ?r (d + 1) else insert_loop n t ?next e (p + 1))"
      using True
      by (subst insert_loop.simps)
        (simp add: le_u32_read_slot occupied_def Let_def home_def
          and_mod [OF Suc.prems(2), simplified] d_def dist_def)
    have d: "Suc d < n" unfolding d_def
      using rh_dist_bound [OF Suc.prems(4) idx True _ Suc.prems(7)] n by simp
    have pn: "pred_slot n ?next = idx" by (rule pred_slot_next [OF idx])
    show ?thesis
    proof (cases "p > d")
      case steal: True
      note place = place_table [OF Suc.prems(1,3,4,5,6)] 
      have t: "length ?t = n * SLOT_LEN" "rh_order n (read_slot ?t)" "rh_distinct n (read_slot ?t)"
        "contents n (read_slot ?t) = insert e {?S i |i. i < n \<and> occupied (?S i) \<and> i \<noteq> idx}"
        using place steal Suc.prems(1) idx by (simp_all add: d_def)
      have upd: "read_slot ?t j = (if j = idx then e else ?S j)" if "j < n" for j
        by (rule read_write_slot [OF Suc.prems(1) idx that])
      have "carried n (read_slot ?t) ?next ?r (d + 1)"
        unfolding carried_def pn
      proof (intro conjI)
        show "\<forall>i<n. fst (read_slot ?t i) \<noteq> fst ?r"
          using upd new idx Suc.prems(5) True unfolding rh_distinct_def by metis
        show "?next = (home n (fst ?r) + (d + 1)) mod n"
          using at_dist [OF idx, of "fst ?r"] by (intro carry_next [OF idx refl]) (simp add: d_def)
        have "dist n idx (fst e) = p" using dist_at [OF n p] at by simp
        then show "0 < d + 1 \<longrightarrow> occupied (read_slot ?t idx) \<and>
            d + 1 \<le> Suc (dist n idx (fst (read_slot ?t idx)))"
          using upd [OF idx] occ steal by simp
      qed (use n d True in auto)
      moreover have "\<not> occupied (read_slot ?t ((?next + s) mod n))"
        using Suc.prems(7) True upd n unfolding shift by (metis mod_less_divisor)
      ultimately obtain t' where "insert_loop n ?t ?next ?r (d + 1) = Some t'" "inserted n ?t ?r t'"
        using Suc.IH [OF t(1) Suc.prems(2,3) t(2,3)] by blast
      moreover have "insert ?r (contents n (read_slot ?t)) = insert e (contents n ?S)"
        using t(4) True idx by (auto simp: contents_def)
      ultimately show ?thesis using loop steal by (simp add: inserted_def)
    next
      case False
      have "carried n ?S ?next e (p + 1)"
        unfolding carried_def pn
        using False d n occ new True carry_next [OF idx refl at] by (auto simp: d_def)
      then obtain t' where "insert_loop n t ?next e (p + 1) = Some t'" "inserted n t e t'"
        using Suc.IH [OF Suc.prems(1-5), of ?next e "p + 1"] Suc.prems(7) shift by auto
      then show ?thesis using loop False by simp
    qed
  qed
qed

lemma card_contents:
  assumes "rh_distinct n S" "\<forall>i<n. occupied (S i)"
  shows "card (contents n S) = n"
proof -
  have "inj_on S {0..<n}"
    using assms by (auto simp: inj_on_def rh_distinct_def)
  moreover have "contents n S = S ` {0..<n}" using assms(2) by (auto simp: contents_def)
  ultimately show ?thesis by (simp add: card_image)
qed

lemma empty_slot_exists:
  assumes "rh_distinct n S" "card (contents n S) < n"
  obtains z where "z < n" "\<not> occupied (S z)"
  using card_contents [OF assms(1)] assms(2) by fastforce

definition table_ok :: "nat \<Rightarrow> bytes \<Rightarrow> bool" where
  "table_ok n t \<longleftrightarrow> length t = n * SLOT_LEN \<and> rh_order n (read_slot t) \<and> rh_distinct n (read_slot t)"

lemma insert_entries_ok:
  assumes "table_ok n t" "n = 2 ^ k" "1 < n"
    and "distinct (map fst es)" "\<forall>e\<in>set es. occupied e"
    and "fst ` set es \<inter> fst ` contents n (read_slot t) = {}"
    and "card (contents n (read_slot t)) + length es < n"
  shows "\<exists>t'. insert_entries n es t = Some t' \<and> table_ok n t' \<and>
    contents n (read_slot t') = set es \<union> contents n (read_slot t)"
  using assms
proof (induction es arbitrary: t)
  case (Cons e es)
  let ?S = "read_slot t" and ?h = "unat (hash (fst e)) AND (n - 1)"
  have h: "?h = home n (fst e)" by (simp only: home_def and_mod [OF Cons.prems(2)])
  have hn: "home n (fst e) < n" using Cons.prems by (intro home_less) simp
  have "fst (?S i) \<noteq> fst e" if "i < n" for i
  proof (cases "occupied (?S i)")
    case True
    then have "fst (?S i) \<in> fst ` contents n ?S" using that by (auto simp: contents_def)
    moreover have "fst e \<notin> fst ` contents n ?S" using Cons.prems(6) by simp
    ultimately show ?thesis by metis
  qed (use Cons.prems(5) in \<open>auto simp: occupied_def\<close>)
  then have c: "carried n ?S ?h e 0"
    using Cons.prems hn unfolding h by (simp add: carried_def)
  obtain z where z: "z < n" "\<not> occupied (?S z)"
    using empty_slot_exists [of n ?S] Cons.prems by (auto simp: table_ok_def)
  have "(?h + (z + n - ?h)) mod n = z" using z hn unfolding h by simp
  then have "\<not> occupied (?S ((?h + (z + n - ?h)) mod n))" using z by simp
  then obtain t1 where t1: "insert_loop n t ?h e 0 = Some t1" "inserted n t e t1"
    using insert_loop_ok [OF _ Cons.prems(2,3) _ _ c] Cons.prems(1) by (auto simp: table_ok_def)
  have c1: "contents n (read_slot t1) = insert e (contents n ?S)" "table_ok n t1"
    using t1(2) by (auto simp: inserted_def table_ok_def)
  have "card (insert e (contents n ?S)) \<le> Suc (card (contents n ?S))" by (rule card_insert_le_m1) simp_all
  then have "card (contents n (read_slot t1)) + length es < n"
    using Cons.prems(7) by (simp add: c1)
  moreover have "fst ` set es \<inter> fst ` contents n (read_slot t1) = {}"
    using Cons.prems(4,6) by (auto simp: c1)
  ultimately obtain t' where "insert_entries n es t1 = Some t'" "table_ok n t'"
    "contents n (read_slot t') = set es \<union> contents n (read_slot t1)"
    using Cons.IH [OF c1(2) Cons.prems(2,3)] Cons.prems by auto
  then show ?case using t1 c1 by auto
qed simp

definition empty_table :: "nat \<Rightarrow> bytes" where
  "empty_table n = fold (\<lambda>i table. write_slot table i (EMPTY_KEY, 0, 0, 0)) [0..<n]
     (replicate (n * SLOT_LEN) 0)"

lemma empty_table_slots:
  assumes "m \<le> n" "length t = n * SLOT_LEN"
  shows "length (fold (\<lambda>i table. write_slot table i (EMPTY_KEY, 0, 0, 0)) [0..<m] t) = n * SLOT_LEN \<and>
    (\<forall>j<m. read_slot (fold (\<lambda>i table. write_slot table i (EMPTY_KEY, 0, 0, 0)) [0..<m] t) j
      = (EMPTY_KEY, 0, 0, 0))"
  using assms(1)
proof (induction m)
  case (Suc m)
  let ?t = "fold (\<lambda>i table. write_slot table i (EMPTY_KEY, 0, 0, 0)) [0..<m] t"
  have l: "length ?t = n * SLOT_LEN" and m: "m < n" using Suc by auto
  show ?case using Suc length_write_slot [OF l m] read_write_slot [OF l m] by (auto simp: less_Suc_eq)
qed (simp add: assms)

lemma empty_table_ok: "table_ok n (empty_table n)" "contents n (read_slot (empty_table n)) = {}"
proof -
  have "length (empty_table n) = n * SLOT_LEN" "\<forall>j<n. read_slot (empty_table n) j = (EMPTY_KEY, 0, 0, 0)"
    using empty_table_slots [of n n "replicate (n * SLOT_LEN) 0"] by (auto simp: empty_table_def)
  then show "table_ok n (empty_table n)" "contents n (read_slot (empty_table n)) = {}"
    by (auto simp: table_ok_def contents_def rh_order_def rh_distinct_def occupied_def)
qed

lemma build_robin_hood_ok:
  assumes "n = 2 ^ k" "1 < n" "distinct (map fst es)" "\<forall>e\<in>set es. occupied e" "length es < n"
  shows "\<exists>t. build_robin_hood es n = Some t \<and> table_ok n t \<and> contents n (read_slot t) = set es"
  using insert_entries_ok [OF empty_table_ok(1) assms(1-4)] assms(2,5)
  by (auto simp: build_robin_hood_def empty_table_ok(2) simp flip: empty_table_def)

subsection \<open>The lookup finds what the table holds\<close>

lemma find_slot_step:
  assumes "slot i = Ok s" "n = 2 ^ k"
  shows "find_slot slot n key i p =
    (if fst s = EMPTY_KEY \<or> p > dist n i (fst s) then Ok None
     else if fst s = key then Ok (Some s) else find_slot slot n key ((i + 1) mod n) (p + 1))"
  using assms(1)
  by (subst find_slot.simps)
    (cases s, simp add: Let_def and_mod [OF assms(2), simplified] dist_def home_def)

lemma find_slot_present:
  assumes "table_ok n t" "n = 2 ^ k" "\<And>i. i < n \<Longrightarrow> slot i = Ok (read_slot t i)"
    and "j < n" "occupied (read_slot t j)" "fst (read_slot t j) = key"
    and "p + m = dist n j key"
  shows "find_slot slot n key ((home n key + p) mod n) p = Ok (Some (read_slot t j))"
  using assms(7)
proof (induction m arbitrary: p)
  case 0
  let ?S = "read_slot t"
  have "(home n key + p) mod n = j" using at_dist [OF assms(4)] 0 by simp
  then show ?case using find_slot_step [of slot j, OF assms(3) [OF assms(4)] assms(2), of key p] assms(5,6) 0
    by (simp add: occupied_def)
next
  case (Suc m)
  let ?S = "read_slot t" and ?i = "(home n key + p) mod n"
  have n: "0 < n" using assms(4) by simp
  have d: "dist n j key < n" using n by (rule dist_less)
  have i: "?i = (j + n - Suc m) mod n"
  proof -
    have "(home n key + p) mod n = (home n key + p + n) mod n" by simp
    also have "\<dots> = ((home n key + dist n j key) mod n + (n - Suc m)) mod n"
      unfolding mod_add_left_eq using Suc.prems d by (intro arg_cong [where f = "\<lambda>x. x mod n"]) simp
    also have "(home n key + dist n j key) mod n = j" by (rule at_dist [OF assms(4)])
    finally show ?thesis using Suc.prems d by simp
  qed
  have "occupied (?S ?i)" and far: "dist n j key \<le> dist n ?i (fst (?S ?i)) + Suc m"
    using rh_chain [of n ?S j "Suc m"] assms Suc.prems unfolding i by (auto simp: table_ok_def)
  moreover have "fst (?S ?i) \<noteq> key"
  proof
    assume "fst (?S ?i) = key"
    moreover have "rh_distinct n ?S" "?i < n" using assms(1) n by (simp_all add: table_ok_def)
    ultimately have "?i = j"
      using assms(4,6) \<open>occupied (?S ?i)\<close> unfolding rh_distinct_def by metis
    moreover have "dist n ?i key = p" using dist_at [OF n, of p key] Suc.prems d by simp
    ultimately show False using Suc.prems by simp
  qed
  moreover have "(?i + 1) mod n = (home n key + (p + 1)) mod n" by (simp add: mod_Suc_eq)
  moreover have "?i < n" using n by simp
  ultimately show ?case
    using find_slot_step [of slot ?i, OF assms(3) [OF \<open>?i < n\<close>] assms(2), of key p] Suc.IH [of "p + 1"] Suc.prems
    by (simp add: occupied_def)
qed

lemma find_slot_absent:
  assumes "n = 2 ^ k" "\<And>i. i < n \<Longrightarrow> slot i = Ok (S i)"
    and "\<And>i. i < n \<Longrightarrow> fst (S i) = key \<Longrightarrow> key = EMPTY_KEY"
  shows "idx < n \<Longrightarrow> find_slot slot n key idx p = Ok None"
proof (induction "Suc n - p" arbitrary: p idx rule: less_induct)
  case less
  have n: "0 < n" using less.prems by simp
  have nxt: "(idx + 1) mod n < n" using n by simp
  show ?case
  proof (cases "p > dist n idx (fst (S idx)) \<or> fst (S idx) = EMPTY_KEY")
    case True
    then show ?thesis using find_slot_step [of slot idx, OF assms(2) [OF less.prems] assms(1), of key p] by auto
  next
    case False
    then have "p < n" using dist_less [OF n, of idx "fst (S idx)"] by simp
    then have "find_slot slot n key ((idx + 1) mod n) (p + 1) = Ok None"
      by (intro less.hyps nxt) simp
    then show ?thesis
      using find_slot_step [of slot idx, OF assms(2) [OF less.prems] assms(1), of key p] assms(3) [OF less.prems] False
      by auto
  qed
qed

lemma find_slot_contents:
  assumes "table_ok n t" "n = 2 ^ k" "\<And>i. i < n \<Longrightarrow> slot i = Ok (read_slot t i)"
    and "contents n (read_slot t) = set es" "distinct (map fst es)" "\<forall>e\<in>set es. occupied e"
  shows "find_slot slot n key (unat (hash key) AND (n - 1)) 0 = Ok (find (\<lambda>e. fst e = key) es)"
proof -
  have n: "0 < n" using assms(2) by simp
  have h: "unat (hash key) AND (n - 1) = (home n key + 0) mod n"
    using home_less [OF n, of key] by (simp only: home_def and_mod [OF assms(2)]) simp
  show ?thesis
  proof (cases "find (\<lambda>e. fst e = key) es")
    case None
    have "key = EMPTY_KEY" if "i < n" "fst (read_slot t i) = key" for i
    proof (rule ccontr)
      assume "key \<noteq> EMPTY_KEY"
      then have "read_slot t i \<in> contents n (read_slot t)" using that by (auto simp: contents_def occupied_def)
      then show False using None [unfolded find_None_iff] that(2) assms(4) by blast
    qed
    then show ?thesis using find_slot_absent [OF assms(2,3)] n None unfolding h by simp
  next
    case (Some e)
    then have e: "e \<in> set es" "fst e = key" by (auto simp: find_Some_iff)
    then have "e \<in> contents n (read_slot t)" using assms(4) by simp
    then obtain j where "j < n" "read_slot t j = e" "occupied e"
      unfolding contents_def by blast
    then show ?thesis
      using find_slot_present [OF assms(1-3), of j key 0 "dist n j key"] e Some unfolding h by simp
  qed
qed

subsection \<open>The size of a table\<close>

text \<open>\<open>(n_entries * 2).next_power_of_two().max(1)\<close>, or no table when there is no entry.\<close>

definition table_slots :: "nat \<Rightarrow> nat" where
  "table_slots n_entries =
     (if n_entries = 0 then 0 else max (next_power_of_two (n_entries * 2)) 1)"

definition slots_log2 :: "nat \<Rightarrow> nat" where
  "slots_log2 slots = (if slots = 0 then 0 else trailing_zeros slots)"

text \<open>A reader's \<open>slots\<close> field: \<open>1u64 << slots_log2\<close>, the shift taken modulo 64.\<close>

definition slots_of_log2 :: "nat \<Rightarrow> nat" where
  "slots_of_log2 l = (if l = 0 then 0 else 2 ^ (l mod 64))"

lemma table_slots_power:
  assumes "0 < m"
  obtains k where "table_slots m = 2 ^ k" "0 < k" "2 * m \<le> 2 ^ k"
proof -
  obtain k where k: "next_power_of_two (m * 2) = 2 ^ k" using next_power_of_two_power by auto
  then have "2 * m \<le> 2 ^ k" using next_power_of_two_ge [of "m * 2"] by simp
  moreover from this have "0 < k" using assms by (cases k) auto
  ultimately show ?thesis using that k assms by (simp add: table_slots_def)
qed

lemma table_slots_le: "m \<le> 2 ^ j \<Longrightarrow> table_slots m \<le> 2 ^ Suc j"
  using next_power_of_two_least [of "m * 2" "Suc j"] by (simp add: table_slots_def)

lemma slots_of_log2_table:
  assumes "m \<le> 2 ^ 32"
  shows "slots_of_log2 (slots_log2 (table_slots m)) = table_slots m" "slots_log2 (table_slots m) < 34"
proof -
  have "slots_of_log2 (slots_log2 (table_slots m)) = table_slots m \<and> slots_log2 (table_slots m) < 34"
  proof (cases "m = 0")
    case False
    then obtain k where k: "table_slots m = 2 ^ k" "0 < k" by (auto elim: table_slots_power)
    then have "(2::nat) ^ k \<le> 2 ^ 33" using table_slots_le [of m 32] assms by simp
    then have "k \<le> 33" by (rule power_le_imp_le_exp [rotated]) simp
    then show ?thesis using k by (simp add: slots_log2_def slots_of_log2_def)
  qed (simp add: table_slots_def slots_log2_def slots_of_log2_def)
  then show "slots_of_log2 (slots_log2 (table_slots m)) = table_slots m" "slots_log2 (table_slots m) < 34"
    by auto
qed

subsection \<open>Properties\<close>

text \<open>
  C18. The construction ends, and the table it returns answers every lookup: a key that was
  inserted is found with its own entry, any other key is reported absent. The table is the
  size the builders give it, for a list of entries with distinct keys, none of them the
  marker of an empty slot.
\<close>

theorem robin_hood_correct:
  assumes "distinct (map fst es)" and "EMPTY_KEY \<notin> fst ` set es" and "es \<noteq> []"
  shows "\<exists>t. build_robin_hood es (table_slots (length es)) = Some t \<and>
    length t = table_slots (length es) * SLOT_LEN \<and>
    (\<forall>key. find_slot (\<lambda>i. Ok (read_slot t i)) (table_slots (length es)) key
       (unat (hash key) AND (table_slots (length es) - 1)) 0 = Ok (find (\<lambda>e. fst e = key) es))"
proof -
  obtain k where k: "table_slots (length es) = 2 ^ k" "0 < k" "2 * length es \<le> 2 ^ k"
    using table_slots_power [of "length es"] assms(3) by auto
  have occ: "\<forall>e\<in>set es. occupied e" using assms(2) by (auto simp: occupied_def image_iff)
  have "0 < length es" using assms(3) by simp
  then have "1 < (2::nat) ^ k" "length es < 2 ^ k" using k(3) by linarith+
  then obtain t where "build_robin_hood es (2 ^ k) = Some t" "table_ok (2 ^ k) t"
    "contents (2 ^ k) (read_slot t) = set es"
    using build_robin_hood_ok [OF refl _ assms(1) occ] by blast
  then show ?thesis
    using find_slot_contents [OF _ refl _ _ assms(1) occ] k(1) by (auto simp: table_ok_def)
qed

theorem robin_hood_correct_witness:
  "\<exists>t. build_robin_hood [(5, 1, 0, 8), (7, 2, 8, 9), (6, 1, 17, 8)] (table_slots 3) = Some t \<and>
     find_slot (\<lambda>i. Ok (read_slot t i)) (table_slots 3) 7 (unat (hash 7) AND (table_slots 3 - 1)) 0
       = Ok (Some (7, 2, 8, 9)) \<and>
     find_slot (\<lambda>i. Ok (read_slot t i)) (table_slots 3) 9 (unat (hash 9) AND (table_slots 3 - 1)) 0
       = Ok None"
  using robin_hood_correct [of "[(5, 1, 0, 8), (7, 2, 8, 9), (6, 1, 17, 8)]"]
  by (auto simp: EMPTY_KEY_def numeral_3_eq_3)

end
