(* ===== verification/Postings.thy ===== *)
theory Postings
  imports Trigram TurboPFor RobinHood
begin

section \<open>The inverted map and its encoded postings\<close>

text \<open>
  What the two builders (\<open>DbBuilder\<close> in crates/df-core/src/db.rs, \<open>ShardBuilder\<close> in
  crates/df-content/src/shard.rs) share: the ordered map from a trigram to the documents that
  have it, its serialisation into entries and one run of TurboPFor blobs, and the decoding of a
  posting. A \<open>BTreeMap\<close> is an association list with strictly increasing keys.
\<close>

subsection \<open>Ordered maps\<close>

fun bt_upd :: "'k::linorder \<Rightarrow> ('v option \<Rightarrow> 'v) \<Rightarrow> ('k \<times> 'v) list \<Rightarrow> ('k \<times> 'v) list" where
  "bt_upd k f [] = [(k, f None)]"
| "bt_upd k f ((k', v) # m) =
     (if k < k' then (k, f None) # (k', v) # m
      else if k = k' then (k, f (Some v)) # m
      else (k', v) # bt_upd k f m)"

definition bt_ok :: "('k::linorder \<times> 'v) list \<Rightarrow> bool" where
  "bt_ok m \<longleftrightarrow> sorted (map fst m) \<and> distinct (map fst m)"

lemma bt_ok_Nil [simp]: "bt_ok []"
  by (simp add: bt_ok_def)

lemma bt_ok_Cons: "bt_ok ((k, v) # m) \<longleftrightarrow> bt_ok m \<and> (\<forall>k'\<in>fst ` set m. k < k')"
  by (auto simp: bt_ok_def less_le)

lemma fst_bt_upd: "fst ` set (bt_upd k f m) = insert k (fst ` set m)"
  by (induction k f m rule: bt_upd.induct) auto

lemma bt_ok_upd: "bt_ok m \<Longrightarrow> bt_ok (bt_upd k f m)"
proof (induction k f m rule: bt_upd.induct)
  case (2 k f k' v m)
  then show ?case by (auto simp: bt_ok_Cons fst_bt_upd)
qed (simp add: bt_ok_Cons)

lemma map_of_bt_upd: "bt_ok m \<Longrightarrow> map_of (bt_upd k f m) = (map_of m)(k \<mapsto> f (map_of m k))"
proof (induction k f m rule: bt_upd.induct)
  case (2 k f k' v m)
  have "map_of m k = None" if "k < k'"
    using 2(2) that by (force simp: bt_ok_Cons map_of_eq_None_iff)
  then show ?case using 2 by (auto simp: bt_ok_Cons fun_eq_iff)
qed simp

subsection \<open>Documents of a trigram\<close>

definition push_docid :: "u32 \<Rightarrow> u32 list option \<Rightarrow> u32 list" where
  "push_docid docid v = (let v = (case v of None \<Rightarrow> [] | Some v \<Rightarrow> v) in
     if v \<noteq> [] \<and> last v = docid then v else v @ [docid])"

definition index_text :: "u32 list \<Rightarrow> u32 \<Rightarrow> (u32 \<times> u32 list) list \<Rightarrow> (u32 \<times> u32 list) list" where
  "index_text ts docid try_map = fold (\<lambda>t. bt_upd t (push_docid docid)) ts try_map"

lemma index_text_ok:
  assumes "bt_ok m" "distinct ts"
  shows "bt_ok (index_text ts docid m) \<and>
    map_of (index_text ts docid m) t = (if t \<in> set ts then Some (push_docid docid (map_of m t)) else map_of m t)"
  using assms
proof (induction ts arbitrary: m)
  case (Cons a ts)
  then show ?case
    using Cons.IH [of "bt_upd a (push_docid docid) m"] bt_ok_upd [of m a "push_docid docid"]
    by (auto simp: index_text_def map_of_bt_upd)
qed (simp add: index_text_def)

text \<open>The map lists, for each trigram, the documents that have it in ascending order.\<close>

definition docs_with :: "bytes list \<Rightarrow> u32 \<Rightarrow> u32 list" where
  "docs_with texts t = map of_nat (filter (\<lambda>d. t \<in> set (trigrams (texts ! d))) [0..<length texts])"

definition inverts :: "(u32 \<times> u32 list) list \<Rightarrow> bytes list \<Rightarrow> bool" where
  "inverts m texts \<longleftrightarrow> bt_ok m \<and> (\<forall>t. map_of m t =
     (if docs_with texts t = [] then None else Some (docs_with texts t)))"

lemma inverts_Nil [simp]: "inverts [] []"
  by (simp add: inverts_def docs_with_def)

lemma docs_with_snoc:
  "docs_with (texts @ [s]) t =
     docs_with texts t @ (if t \<in> set (trigrams s) then [of_nat (length texts)] else [])"
proof -
  have "filter (\<lambda>d. t \<in> set (trigrams ((texts @ [s]) ! d))) [0..<length texts] =
      filter (\<lambda>d. t \<in> set (trigrams (texts ! d))) [0..<length texts]"
    by (rule filter_cong) (simp_all add: nth_append)
  then show ?thesis by (simp add: docs_with_def)
qed

lemma docs_with_last:
  assumes "length texts < 2 ^ 32" "docs_with texts t \<noteq> []"
  shows "last (docs_with texts t) \<noteq> of_nat (length texts)"
proof -
  have "last (docs_with texts t) \<in> set (docs_with texts t)" using assms(2) by (rule last_in_set)
  then obtain d where "d < length texts" "last (docs_with texts t) = of_nat d"
    by (auto simp: docs_with_def)
  then have "unat (last (docs_with texts t)) = d" "unat (of_nat (length texts) :: u32) = length texts"
    using assms(1) by simp_all
  then show ?thesis using \<open>d < length texts\<close> by auto
qed

lemma inverts_snoc:
  assumes "inverts m texts" "length texts < 2 ^ 32"
  shows "inverts (index_text (trigrams s) (of_nat (length texts)) m) (texts @ [s])"
proof -
  let ?id = "of_nat (length texts) :: u32"
  have m: "bt_ok m" "map_of m t = (if docs_with texts t = [] then None else Some (docs_with texts t))" for t
    using assms(1) by (simp_all add: inverts_def)
  have "push_docid ?id (map_of m t) = docs_with texts t @ [?id]" for t
    using docs_with_last [OF assms(2), of t] by (simp add: m(2) push_docid_def)
  then show ?thesis
    using index_text_ok [OF m(1) distinct_trigrams, of s ?id] by (auto simp: inverts_def docs_with_snoc m(2))
qed

lemma sorted_docs_with:
  assumes "length texts \<le> 2 ^ 32"
  shows "sorted (docs_with texts t)"
proof -
  have "sorted (map (of_nat :: nat \<Rightarrow> u32) ds)" if "sorted ds" "\<forall>d\<in>set ds. d < 2 ^ 32" for ds
    using that by (induction ds) (auto simp: word_le_nat_alt)
  then show ?thesis using assms by (auto simp: docs_with_def sorted_wrt_filter)
qed

subsection \<open>Serialised postings\<close>

fun deltas_of :: "u32 \<Rightarrow> u32 list \<Rightarrow> u32 list" where
  "deltas_of prev [] = []"
| "deltas_of prev (d # ds) = (d - prev) # deltas_of d ds"

definition posting_section :: "u64 \<Rightarrow> (u32 \<times> u32 list) list \<Rightarrow> slot list \<times> bytes" where
  "posting_section post_off try_map =
     fold (\<lambda>(key, post) (entries, post_sec).
       let enc = encode (deltas_of 0 post);
           abs_off = post_off + of_nat (length post_sec) in
       (entries @ [(key, of_nat (length post), abs_off, of_nat (length enc))], post_sec @ enc))
     try_map ([], [])"

fun prefix_sums :: "u32 \<Rightarrow> u32 list \<Rightarrow> u32 list res" where
  "prefix_sums prev [] = Ok []"
| "prefix_sums prev (d # ds) =
     (if unat prev + unat d \<ge> 2 ^ 32 then Err (Codec ''docid overflow'')
      else bind_o (prefix_sums (prev + d) ds) (\<lambda>post. Ok ((prev + d) # post)))"

definition decode_posting :: "bytes \<Rightarrow> u32 \<Rightarrow> u32 list res" where
  "decode_posting enc count = bind_o (decode enc (unat count)) (prefix_sums 0)"

lemma length_deltas_of [simp]: "length (deltas_of prev post) = length post"
  by (induction post arbitrary: prev) auto

lemma prefix_sums_deltas: "sorted (prev # post) \<Longrightarrow> prefix_sums prev (deltas_of prev post) = Ok post"
proof (induction post arbitrary: prev)
  case (Cons d ds)
  then have "prev \<le> d" by simp
  then have "unat prev + unat (d - prev) = unat d" by (simp add: unat_sub word_le_nat_alt)
  then have "\<not> unat prev + unat (d - prev) \<ge> 2 ^ 32" using unat_u32_less [of d] by simp
  then show ?case using Cons by simp
qed simp

definition enc_posting :: "u32 list \<Rightarrow> bytes" where
  "enc_posting post = encode (deltas_of 0 post)"

lemma decode_posting_enc:
  assumes "sorted post" "length post < 2 ^ 32"
  shows "decode_posting (enc_posting post) (of_nat (length post)) = Ok post"
proof -
  have "decode (enc_posting post) (length post) = Ok (deltas_of 0 post)"
    using decode_encode [of "deltas_of 0 post" "[]"] by (simp add: enc_posting_def)
  then show ?thesis using assms by (simp add: decode_posting_def prefix_sums_deltas)
qed

text \<open>Entries and blobs as functions of the map, with the offset carried along.\<close>

fun entries_from :: "u64 \<Rightarrow> nat \<Rightarrow> (u32 \<times> u32 list) list \<Rightarrow> slot list" where
  "entries_from base off [] = []"
| "entries_from base off ((key, post) # m) =
     (key, of_nat (length post), base + of_nat off, of_nat (length (enc_posting post)))
       # entries_from base (off + length (enc_posting post)) m"

definition blobs :: "(u32 \<times> u32 list) list \<Rightarrow> bytes" where
  "blobs m = concat (map (enc_posting \<circ> snd) m)"

lemma posting_section_eq: "posting_section base m = (entries_from base 0 m, blobs m)"
proof -
  have "fold (\<lambda>(key, post) (entries, post_sec).
       let enc = encode (deltas_of 0 post);
           abs_off = base + of_nat (length post_sec) in
       (entries @ [(key, of_nat (length post), abs_off, of_nat (length enc))], post_sec @ enc))
     m (es, sec) = (es @ entries_from base (length sec) m, sec @ blobs m)" for es sec
    by (induction m arbitrary: es sec) (auto simp: blobs_def enc_posting_def Let_def)
  then show ?thesis by (simp add: posting_section_def)
qed

lemma fst_entries_from [simp]: "map fst (entries_from base off m) = map fst m"
  by (induction base off m rule: entries_from.induct) auto

lemma length_entries_from [simp]: "length (entries_from base off m) = length m"
  by (induction base off m rule: entries_from.induct) auto

lemma find_entries_from:
  "(case map_of m key of
      None \<Rightarrow> find (\<lambda>e. fst e = key) (entries_from base off m) = None
    | Some post \<Rightarrow> \<exists>a c. blobs m = a @ enc_posting post @ c \<and>
        find (\<lambda>e. fst e = key) (entries_from base off m) =
          Some (key, of_nat (length post), base + of_nat (off + length a),
            of_nat (length (enc_posting post))))"
proof (induction base off m rule: entries_from.induct)
  case (2 base off k post m)
  show ?case
  proof (cases "k = key")
    case True
    then show ?thesis by (auto simp: blobs_def intro: exI [of _ "[]"])
  next
    case False
    show ?thesis
    proof (cases "map_of m key")
      case None
      then show ?thesis using 2 False by simp
    next
      case (Some p)
      then obtain a c where "blobs m = a @ enc_posting p @ c"
        "find (\<lambda>e. fst e = key) (entries_from base (off + length (enc_posting post)) m) =
          Some (key, of_nat (length p), base + of_nat (off + length (enc_posting post) + length a),
            of_nat (length (enc_posting p)))"
        using 2 by auto
      then show ?thesis using Some False
        by (intro exI [of _ "enc_posting post @ a"] exI [of _ c]
            | simp add: blobs_def add.assoc)+
    qed
  qed
qed simp

lemma keys_not_empty: "inverts m texts \<Longrightarrow> EMPTY_KEY \<notin> fst ` set m"
proof
  assume m: "inverts m texts" and "EMPTY_KEY \<in> fst ` set m"
  then have "map_of m EMPTY_KEY \<noteq> None" by (simp add: map_of_eq_None_iff)
  then have "docs_with texts EMPTY_KEY \<noteq> []" using m by (auto simp: inverts_def)
  then obtain d where "EMPTY_KEY \<in> set (trigrams (texts ! d))"
    by (auto simp: docs_with_def filter_empty_conv)
  then show False using trigrams_not_empty_key by (auto simp: EMPTY_KEY_def)
qed

text \<open>
  The table over a map and its blobs: a reader that can read every slot of the table finds,
  for each trigram, the place of its posting.
\<close>

lemma posting_table:
  assumes "inverts m texts" "m \<noteq> []"
  shows "\<exists>t. build_robin_hood (entries_from base 0 m) (table_slots (length m)) = Some t \<and>
    length t = table_slots (length m) * SLOT_LEN \<and>
    (\<forall>slot. (\<forall>i<table_slots (length m). slot i = Ok (read_slot t i)) \<longrightarrow>
      (\<forall>key. find_slot slot (table_slots (length m)) key
         (unat (hash key) AND (table_slots (length m) - 1)) 0 =
       Ok (find (\<lambda>e. fst e = key) (entries_from base 0 m))))"
proof -
  let ?es = "entries_from base 0 m"
  obtain k where k: "table_slots (length m) = 2 ^ k" "0 < k" "2 * length m \<le> 2 ^ k"
    using table_slots_power [of "length m"] assms(2) by auto
  have d: "distinct (map fst ?es)" using assms(1) by (simp add: inverts_def bt_ok_def)
  have "fst ` set ?es = fst ` set m" by (metis fst_entries_from set_map)
  then have occ: "\<forall>e\<in>set ?es. occupied e"
    using keys_not_empty [OF assms(1)] by (force simp: occupied_def)
  have "0 < length m" using assms(2) by simp
  then have "1 < (2::nat) ^ k" "length ?es < 2 ^ k" unfolding length_entries_from using k(3) by linarith+
  then obtain t where "build_robin_hood ?es (2 ^ k) = Some t" "table_ok (2 ^ k) t"
    "contents (2 ^ k) (read_slot t) = set ?es"
    using build_robin_hood_ok [OF refl _ d occ] by blast
  then show ?thesis
    using find_slot_contents [OF _ refl _ _ d occ] k(1) by (auto simp: table_ok_def)
qed

end
