(* ===== verification/Db.thy ===== *)
theory Db
  imports Unicode Candidate Postings
begin

section \<open>The filename database (crates/df-core/src/db.rs, db_source.rs)\<close>

text \<open>
  The builder collects paths, metadata and the trigram map; \<open>finish\<close> lays them out as one file
  (header, compressed filename blocks, metadata, hash table, postings). The reader opens such
  a file through a \<open>DbSource\<close> and serves paths, metadata and postings. zstd is a parameter.

  The lemmas follow the layout field by field, up to the facts that a reader opened on a
  finished file returns the paths, the metadata and the postings the builder was given, and
  that the one-block cache of \<open>doc_path\<close> cannot be observed.
\<close>

subsection \<open>The byte source\<close>

text \<open>\<open>impl DbSource for &[u8]\<close>. The error of \<open>std::io\<close> becomes \<open>CoreError::Io\<close> through \<open>?\<close>.\<close>

definition read_at :: "bytes \<Rightarrow> u64 \<Rightarrow> nat \<Rightarrow> bytes res" where
  "read_at src off len =
     (let start = unat off in
      if start + len \<ge> 2 ^ 64 then Err (Io ''len overflow'')
      else if start + len > length src then Err (Io ''read beyond DB end'')
      else slice src start (start + len))"

subsection \<open>zstd\<close>

text \<open>
  The calls of the zstd crate: \<open>encode_all\<close>, an encoder and a decoder with a dictionary (the
  encoder's construction and its \<open>finish\<close> may each fail), \<open>decode_all\<close> and the dictionary
  trainer. A failed decoding carries the message of the library.
\<close>

record zstd =
  encode_all :: "bytes \<Rightarrow> bytes option"
  encoder_with_dictionary :: "bytes \<Rightarrow> bytes \<Rightarrow> bytes option option"
  decode_all :: "bytes \<Rightarrow> string + bytes"
  decoder_with_dictionary :: "bytes \<Rightarrow> bytes \<Rightarrow> string + bytes"
  from_continuous :: "bytes \<Rightarrow> nat list \<Rightarrow> nat \<Rightarrow> bytes option"

definition option_default :: "'a list option \<Rightarrow> 'a list" where
  "option_default v = (case v of None \<Rightarrow> [] | Some x \<Rightarrow> x)"

definition zstd_encode :: "zstd \<Rightarrow> bytes \<Rightarrow> bytes \<Rightarrow> bytes" where
  "zstd_encode Z data dict =
     (if dict = [] then option_default (encode_all Z data)
      else case encoder_with_dictionary Z dict data of
        Some enc \<Rightarrow> option_default enc
      | None \<Rightarrow> option_default (encode_all Z data))"

definition zstd_decode :: "zstd \<Rightarrow> bytes \<Rightarrow> bytes \<Rightarrow> bytes res" where
  "zstd_decode Z packed dict =
     (case (if dict = [] then decode_all Z packed else decoder_with_dictionary Z dict packed) of
        Inl e \<Rightarrow> Err (Codec e)
      | Inr out \<Rightarrow> Ok out)"

text \<open>What the code relies on: compression succeeds and decompression with the same dictionary
  gives the data back.\<close>

definition zstd_ok :: "zstd \<Rightarrow> bool" where
  "zstd_ok Z \<longleftrightarrow>
     (\<forall>data. \<exists>c. encode_all Z data = Some c \<and> decode_all Z c = Inr data) \<and>
     (\<forall>dict data. dict \<noteq> [] \<longrightarrow> (\<exists>c. encoder_with_dictionary Z dict data = Some (Some c) \<and>
        decoder_with_dictionary Z dict c = Inr data))"

lemma zstd_roundtrip: "zstd_ok Z \<Longrightarrow> zstd_decode Z (zstd_encode Z data dict) dict = Ok data"
proof -
  assume Z: "zstd_ok Z"
  show ?thesis
  proof (cases "dict = []")
    case True
    obtain c where "encode_all Z data = Some c" "decode_all Z c = Inr data"
      using Z unfolding zstd_ok_def by blast
    then show ?thesis using True by (simp add: zstd_encode_def zstd_decode_def option_default_def)
  next
    case False
    then obtain c where "encoder_with_dictionary Z dict data = Some (Some c)"
      "decoder_with_dictionary Z dict c = Inr data"
      using Z unfolding zstd_ok_def by blast
    then show ?thesis using False by (simp add: zstd_encode_def zstd_decode_def option_default_def)
  qed
qed

text \<open>A codec that stores its input, to evaluate the model with.\<close>

definition stored_zstd :: zstd where
  "stored_zstd = \<lparr>encode_all = Some, encoder_with_dictionary = (\<lambda>dict data. Some (Some data)),
     decode_all = Inr, decoder_with_dictionary = (\<lambda>dict. Inr),
     from_continuous = (\<lambda>buf sizes n. None)\<rparr>"

lemma stored_zstd_ok [simp]: "zstd_ok stored_zstd"
  by (simp add: zstd_ok_def stored_zstd_def)

subsection \<open>Constants and metadata\<close>

definition MAGIC :: bytes where "MAGIC = [0x44, 0x46, 0x44, 0x42]"
definition VERSION :: u32 where "VERSION = 2"
definition HEADER_LEN :: nat where "HEADER_LEN = 64"
definition META_REC_LEN :: nat where "META_REC_LEN = 17"
definition BLOCK_PATHS :: nat where "BLOCK_PATHS = 256"
definition MIN_DICT_CORPUS :: nat where "MIN_DICT_CORPUS = 8192"
definition DICT_SIZE :: nat where "DICT_SIZE = 112640"

text \<open>\<open>LiteMeta\<close> (crates/df-core/src/meta.rs).\<close>

record lite_meta =
  is_dir :: bool
  file_size :: i64
  mtime :: i64

definition train_dict :: "zstd \<Rightarrow> str list \<Rightarrow> bytes" where
  "train_dict Z paths =
     (let total = sum_list (map (\<lambda>p. length p + 4) paths) in
      if total < MIN_DICT_CORPUS then []
      else option_default (from_continuous Z (concat paths) (map length paths) DICT_SIZE))"

text \<open>The loop of \<open>extract_path\<close>, from the entry at \<open>p\<close> on, with the entries still to skip. The shard
  reader has the same loop with messages of its own.\<close>

fun extract_from :: "string \<Rightarrow> string \<Rightarrow> bytes \<Rightarrow> nat \<Rightarrow> nat \<Rightarrow> str res" where
  "extract_from truncated overruns block p skip =
     (if p + 4 > length block then Err (DbFormat truncated)
      else bind_o (rd_le block p) (\<lambda>plen :: u32.
        let p = p + 4 in
        if p + unat plen > length block then Err (DbFormat overruns)
        else case skip of
          0 \<Rightarrow> bind_o (slice block p (p + unat plen)) (\<lambda>bs.
                ok_or (DbFormat ''non-utf8 path: '') (from_utf8 bs))
        | Suc k \<Rightarrow> extract_from truncated overruns block (p + unat plen) k))"

declare extract_from.simps [simp del]

definition extract_path :: "bytes \<Rightarrow> u32 \<Rightarrow> str res" where
  "extract_path block local =
     extract_from ''truncated filename block'' ''path overruns filename block'' block 0 (unat local)"

subsection \<open>The builder\<close>

record db_builder =
  b_paths :: "str list"
  b_meta :: "(u8 \<times> i64 \<times> i64) list"
  b_try_map :: "(u32 \<times> u32 list) list"
  b_build_time :: u64

definition new_builder :: db_builder where
  "new_builder = \<lparr>b_paths = [], b_meta = [], b_try_map = [], b_build_time = 0\<rparr>"

definition insert_with ::
  "unicode \<Rightarrow> str \<Rightarrow> bool \<Rightarrow> i64 \<Rightarrow> i64 \<Rightarrow> db_builder \<Rightarrow> db_builder \<times> u32" where
  "insert_with U path dir sz mt B =
     (let docid = of_nat (length (b_paths B)) :: u32;
          lower = to_lowercase U path in
      (B\<lparr>b_paths := b_paths B @ [path],
         b_meta := b_meta B @ [(if dir then 1 else 0, sz, mt)],
         b_try_map := index_text (trigrams lower) docid (b_try_map B)\<rparr>, docid))"

definition insert_path :: "unicode \<Rightarrow> str \<Rightarrow> db_builder \<Rightarrow> db_builder \<times> u32" where
  "insert_path U path B = insert_with U path False 0 0 B"

definition set_build_time :: "u64 \<Rightarrow> db_builder \<Rightarrow> db_builder" where
  "set_build_time secs B = B\<lparr>b_build_time := secs\<rparr>"

definition doc_count :: "db_builder \<Rightarrow> u32" where
  "doc_count B = of_nat (length (b_paths B))"

type_synonym block_entry = "u64 \<times> u32 \<times> u32"

definition path_entry :: "str \<Rightarrow> bytes" where
  "path_entry p = to_le (of_nat (length p) :: u32) @ p"

definition path_blocks ::
  "zstd \<Rightarrow> bytes \<Rightarrow> u64 \<Rightarrow> str list list \<Rightarrow> block_entry list \<times> bytes" where
  "path_blocks Z dict blocks_base cs =
     fold (\<lambda>chunk (index, blocks_bytes).
       let blk = fold (\<lambda>p blk. blk @ path_entry p) chunk [];
           packed = zstd_encode Z blk dict;
           off = blocks_base + of_nat (length blocks_bytes) in
       (index @ [(off, of_nat (length packed), of_nat (length chunk))], blocks_bytes @ packed))
     cs ([], [])"

definition index_bytes :: "block_entry \<Rightarrow> bytes" where
  "index_bytes e = (case e of (off, clen, count) \<Rightarrow> to_le off @ to_le clen @ to_le count)"

definition meta_bytes :: "u8 \<times> i64 \<times> i64 \<Rightarrow> bytes" where
  "meta_bytes m = (case m of (d, sz, mt) \<Rightarrow> d # to_le sz @ to_le mt)"

definition header :: "u32 \<Rightarrow> u64 \<Rightarrow> u64 \<Rightarrow> u64 \<Rightarrow> u64 \<Rightarrow> u64 \<Rightarrow> u32 \<Rightarrow> bytes" where
  "header num_docs build_time docs_off meta_off try_off post_off log2 =
     MAGIC @ to_le VERSION @ to_le num_docs @ to_le build_time @ to_le docs_off @ to_le meta_off @
     to_le (0 :: u64) @ to_le try_off @ to_le post_off @ to_le log2"

definition finish :: "zstd \<Rightarrow> db_builder \<Rightarrow> bytes option" where
  "finish Z B =
     (let num_docs = of_nat (length (b_paths B)) :: u32;
          docs_off = of_nat HEADER_LEN :: u64;
          dict = train_dict Z (b_paths B);
          num_blocks = div_ceil (length (b_paths B)) BLOCK_PATHS;
          front_len = 4 + length dict + 4 + num_blocks * 16;
          blocks_base = docs_off + of_nat front_len;
          (index, blocks_bytes) = path_blocks Z dict blocks_base (chunks BLOCK_PATHS (b_paths B));
          docs = to_le (of_nat (length dict) :: u32) @ dict @ to_le (of_nat num_blocks :: u32) @
            concat (map index_bytes index) @ blocks_bytes;
          meta_off = docs_off + of_nat (length docs);
          meta_sec = concat (map meta_bytes (b_meta B));
          try_off = meta_off + of_nat (length meta_sec);
          slots = table_slots (length (b_try_map B));
          post_off = try_off + of_nat (slots * SLOT_LEN);
          (entries, post_sec) = posting_section post_off (b_try_map B) in
      case build_robin_hood entries slots of
        None \<Rightarrow> None
      | Some table \<Rightarrow>
          Some (header num_docs (b_build_time B) docs_off meta_off try_off post_off
              (of_nat (slots_log2 slots)) @ docs @ meta_sec @ table @ post_sec))"

subsection \<open>The reader\<close>

record db_reader =
  r_src :: bytes
  r_num_docs :: u32
  r_build_time :: u64
  r_meta_off :: u64
  r_try_off :: u64
  r_slots :: nat
  r_dict :: bytes
  r_blocks :: "block_entry list"
  r_block_start :: "u32 list"

fun parse_index :: "bytes \<Rightarrow> nat list \<Rightarrow> u32 \<Rightarrow> (block_entry list \<times> u32 list) res" where
  "parse_index idx_bytes [] start = Ok ([], [])"
| "parse_index idx_bytes (i # is) start =
     (let b = i * 16 in
      bind_o (rd_le idx_bytes b) (\<lambda>off.
      bind_o (rd_le idx_bytes (b + 8)) (\<lambda>clen.
      bind_o (rd_le idx_bytes (b + 12)) (\<lambda>count.
      bind_o (parse_index idx_bytes is (start + count)) (\<lambda>(blocks, starts).
      Ok ((off, clen, count) # blocks, start # starts))))))"

definition open_db :: "bytes \<Rightarrow> db_reader res" where
  "open_db src =
     bind_o (read_at src 0 HEADER_LEN) (\<lambda>hdr.
     if length hdr < HEADER_LEN \<or> take 4 hdr \<noteq> MAGIC then Err (DbFormat ''bad magic / short header'')
     else
     bind_o (rd_le hdr 4) (\<lambda>version :: u32.
     if version \<noteq> VERSION then Err (DbFormat (''unsupported version '' @ show_nat (unat version)))
     else
     bind_o (rd_le hdr 8) (\<lambda>num_docs.
     bind_o (rd_le hdr 12) (\<lambda>build_time.
     bind_o (rd_le hdr 20) (\<lambda>docs_off :: u64.
     bind_o (rd_le hdr 28) (\<lambda>meta_off.
     bind_o (rd_le hdr 44) (\<lambda>try_off.
     bind_o (rd_le hdr 60) (\<lambda>log2 :: u32.
     bind_o (read_at src docs_off 4) (\<lambda>b.
     bind_o (rd_le b 0) (\<lambda>dict_len :: u32.
     bind_o (read_at src (docs_off + 4) (unat dict_len)) (\<lambda>dict.
     let idx_base = docs_off + 4 + ucast dict_len in
     bind_o (read_at src idx_base 4) (\<lambda>b.
     bind_o (rd_le b 0) (\<lambda>num_blocks :: u32.
     bind_o (read_at src (idx_base + 4) (unat num_blocks * 16)) (\<lambda>idx_bytes.
     bind_o (parse_index idx_bytes [0..<unat num_blocks] 0) (\<lambda>(blocks, block_start).
     Ok \<lparr>r_src = src, r_num_docs = num_docs, r_build_time = build_time, r_meta_off = meta_off,
         r_try_off = try_off, r_slots = slots_of_log2 (unat log2), r_dict = dict,
         r_blocks = blocks, r_block_start = block_start\<rparr>)))))))))))))))"

definition out_of_range :: "u32 \<Rightarrow> core_error" where
  "out_of_range docid = Query (''docid '' @ show_nat (unat docid) @ '' out of range'')"

definition doc_meta :: "db_reader \<Rightarrow> u32 \<Rightarrow> lite_meta res" where
  "doc_meta r docid =
     (if docid \<ge> r_num_docs r then Err (out_of_range docid)
      else
        bind_o (read_at (r_src r) (r_meta_off r + ucast docid * of_nat META_REC_LEN) META_REC_LEN) (\<lambda>rec.
        bind_o (index_o rec 0) (\<lambda>d.
        bind_o (rd_le rec 1) (\<lambda>sz.
        bind_o (rd_le rec 9) (\<lambda>mt.
        Ok \<lparr>is_dir = (d \<noteq> 0), file_size = sz, mtime = mt\<rparr>)))))"

text \<open>\<open>slice::partition_point\<close>: the number of leading elements that satisfy the predicate.\<close>

definition partition_point :: "('a \<Rightarrow> bool) \<Rightarrow> 'a list \<Rightarrow> nat" where
  "partition_point P xs = length (takeWhile P xs)"

definition block_of :: "db_reader \<Rightarrow> u32 \<Rightarrow> nat" where
  "block_of r docid =
     (let i = partition_point (\<lambda>s. s \<le> docid) (r_block_start r) in if i = 0 then 0 else i - 1)"

definition saturating_sub :: "u32 \<Rightarrow> u32 \<Rightarrow> u32" where
  "saturating_sub a b = (if a \<ge> b then a - b else 0)"

definition read_block :: "zstd \<Rightarrow> db_reader \<Rightarrow> nat \<Rightarrow> bytes res" where
  "read_block Z r i =
     (case r_blocks r ! i of (off, clen, _) \<Rightarrow>
        bind_o (read_at (r_src r) off (unat clen)) (\<lambda>packed. zstd_decode Z packed (r_dict r)))"

text \<open>\<open>cached_block\<close>: the index and the bytes of the block read last.\<close>

type_synonym block_cache = "(nat \<times> bytes) option"

definition doc_path_cached ::
  "zstd \<Rightarrow> db_reader \<Rightarrow> u32 \<Rightarrow> block_cache \<Rightarrow> str res \<times> block_cache" where
  "doc_path_cached Z r docid cache =
     (if r_block_start r = [] then (Err (Query ''no docs indexed''), cache)
      else
        let i = block_of r docid;
            (_, _, count) = r_blocks r ! i;
            local = saturating_sub docid (r_block_start r ! i) in
        if local \<ge> count then (Err (out_of_range docid), cache)
        else
          let miss = (case read_block Z r i of
                Ok block \<Rightarrow>
                  (case extract_path block local of
                     Ok path \<Rightarrow> (Ok path, Some (i, block))
                   | Err e \<Rightarrow> (Err e, cache)
                   | Panic \<Rightarrow> (Panic, cache))
              | Err e \<Rightarrow> (Err e, cache)
              | Panic \<Rightarrow> (Panic, cache)) in
          case cache of
            Some (idx, bytes) \<Rightarrow> if idx = i then (extract_path bytes local, cache) else miss
          | None \<Rightarrow> miss)"

text \<open>The path as a function of the docid, which the cache does not change (below).\<close>

definition doc_path :: "zstd \<Rightarrow> db_reader \<Rightarrow> u32 \<Rightarrow> str res" where
  "doc_path Z r docid = fst (doc_path_cached Z r docid None)"

definition db_slot :: "db_reader \<Rightarrow> nat \<Rightarrow> slot res" where
  "db_slot r idx =
     bind_o (read_at (r_src r) (r_try_off r + of_nat idx * of_nat SLOT_LEN) SLOT_LEN) (\<lambda>b.
     Ok (read_slot b 0))"

definition db_posting :: "db_reader \<Rightarrow> u32 \<Rightarrow> u32 list option res" where
  "db_posting r trig =
     (if r_slots r = 0 then Ok None
      else
        bind_o (find_slot (db_slot r) (r_slots r) trig (unat (hash trig) AND (r_slots r - 1)) 0) (\<lambda>s.
        case s of
          None \<Rightarrow> Ok None
        | Some (_, count, off, len) \<Rightarrow>
            bind_o (read_at (r_src r) off (unat len)) (\<lambda>enc.
            bind_o (decode_posting enc count) (\<lambda>post. Ok (Some post)))))"

definition db_verify :: "zstd \<Rightarrow> unicode \<Rightarrow> db_reader \<Rightarrow> u32 \<Rightarrow> bytes \<Rightarrow> bool \<Rightarrow> bool res" where
  "db_verify Z U r docid needle case_sensitive =
     (if needle = [] then Ok True
      else
        bind_o (doc_path Z r docid) (\<lambda>p.
        let hay = (if case_sensitive then p else to_lowercase U p) in
        Ok (list_ex (\<lambda>w. w = needle) (windows (length needle) hay))))"

subsection \<open>The cache cannot be observed\<close>

definition cache_ok :: "zstd \<Rightarrow> db_reader \<Rightarrow> block_cache \<Rightarrow> bool" where
  "cache_ok Z r cache \<longleftrightarrow> (\<forall>i block. cache = Some (i, block) \<longrightarrow> read_block Z r i = Ok block)"

lemma doc_path_cache:
  assumes "cache_ok Z r cache"
  shows "fst (doc_path_cached Z r docid cache) = doc_path Z r docid \<and>
    cache_ok Z r (snd (doc_path_cached Z r docid cache))"
proof -
  obtain off clen count where blk: "r_blocks r ! block_of r docid = (off, clen, count)"
    by (cases "r_blocks r ! block_of r docid") auto
  show ?thesis
    using assms
    by (cases "read_block Z r (block_of r docid)")
      (auto simp: doc_path_def doc_path_cached_def Let_def blk cache_ok_def
        split: option.splits outcome.splits)
qed

subsection \<open>Reading the parts of a file\<close>

lemma read_at_part:
  assumes "src = a @ x @ c" "length src < 2 ^ 64" "unat off = length a" "n = length x"
  shows "read_at src off n = Ok x"
  using assms by (simp add: read_at_def slice_def)

lemma ucast_of_nat_u32: "n < 2 ^ 32 \<Longrightarrow> (ucast (of_nat n :: u32) :: u64) = of_nat n"
  by (rule word_unat_eq_iff [THEN iffD2]) simp

lemma take_drop_parts: "take (length x) (drop (length a) (a @ x @ c)) = x"
  by simp

subsection \<open>The filename blocks\<close>

definition pack :: "zstd \<Rightarrow> bytes \<Rightarrow> str list \<Rightarrow> bytes" where
  "pack Z dict chunk = zstd_encode Z (concat (map path_entry chunk)) dict"

fun index_from :: "zstd \<Rightarrow> bytes \<Rightarrow> u64 \<Rightarrow> nat \<Rightarrow> str list list \<Rightarrow> block_entry list" where
  "index_from Z dict base off [] = []"
| "index_from Z dict base off (c # cs) =
     (base + of_nat off, of_nat (length (pack Z dict c)), of_nat (length c))
       # index_from Z dict base (off + length (pack Z dict c)) cs"

lemma fold_path_entry: "fold (\<lambda>p blk. blk @ path_entry p) chunk blk = blk @ concat (map path_entry chunk)"
  by (induction chunk arbitrary: blk) auto

lemma path_blocks_eq:
  "path_blocks Z dict base cs = (index_from Z dict base 0 cs, concat (map (pack Z dict) cs))"
proof -
  have "fold (\<lambda>chunk (index, blocks_bytes).
       let blk = fold (\<lambda>p blk. blk @ path_entry p) chunk [];
           packed = zstd_encode Z blk dict;
           off = base + of_nat (length blocks_bytes) in
       (index @ [(off, of_nat (length packed), of_nat (length chunk))], blocks_bytes @ packed))
     cs (ix, bb) = (ix @ index_from Z dict base (length bb) cs, bb @ concat (map (pack Z dict) cs))" for ix bb
    by (induction cs arbitrary: ix bb) (auto simp: Let_def fold_path_entry pack_def)
  then show ?thesis by (simp add: path_blocks_def)
qed

lemma length_index_from [simp]: "length (index_from Z dict base off cs) = length cs"
  by (induction cs arbitrary: off) auto

lemma nth_index_from:
  "j < length cs \<Longrightarrow> index_from Z dict base off cs ! j =
     (base + of_nat (off + length (concat (map (pack Z dict) (take j cs)))),
      of_nat (length (pack Z dict (cs ! j))), of_nat (length (cs ! j)))"
proof (induction cs arbitrary: off j)
  case (Cons c cs)
  then show ?case by (cases j) (simp_all add: add.assoc)
qed simp

lemma length_index_bytes [simp]: "length (index_bytes e) = 16"
  by (simp add: index_bytes_def split: prod.split)

lemma length_concat_index_bytes [simp]: "length (concat (map index_bytes es)) = 16 * length es"
  by (induction es) auto

fun starts :: "u32 \<Rightarrow> block_entry list \<Rightarrow> u32 list" where
  "starts s [] = []"
| "starts s ((off, clen, count) # es) = s # starts (s + count) es"

lemma parse_index_bytes:
  assumes "length pre = 16 * k"
  shows "parse_index (pre @ concat (map index_bytes es)) [k..<k + length es] s = Ok (es, starts s es)"
  using assms
proof (induction es arbitrary: pre k s)
  case (Cons e es)
  obtain off clen count where e: "e = (off, clen, count)" by (cases e)
  let ?buf = "pre @ concat (map index_bytes (e # es))"
  have buf: "?buf = (pre @ index_bytes e) @ concat (map index_bytes es)" by simp
  have r: "rd_le ?buf (k * 16) = (Ok off :: u64 res)" "rd_le ?buf (k * 16 + 8) = (Ok clen :: u32 res)"
    "rd_le ?buf (k * 16 + 12) = (Ok count :: u32 res)"
    using Cons.prems by (simp_all add: e index_bytes_def mult.commute)
  have rest: "parse_index ?buf [Suc k..<Suc k + length es] (s + count) = Ok (es, starts (s + count) es)"
    unfolding buf by (rule Cons.IH) (simp add: Cons.prems)
  have upt: "[k..<k + length (e # es)] = k # [Suc k..<Suc k + length es]"
    using upt_conv_Cons [of k "k + Suc (length es)"] by (simp del: upt_Suc)
  note reads = r [unfolded e] rest [unfolded e]
  show ?case unfolding e upt [unfolded e]
    by (simp only: parse_index.simps Let_def reads bind_o.simps prod.case starts.simps)
qed simp

lemma length_starts [simp]: "length (starts s es) = length es"
  by (induction s es rule: starts.induct) auto

text \<open>The chunks of the path list.\<close>

lemma chunks_Nil [simp]: "chunks k [] = []"
  by (simp add: chunks.simps)

lemma div_ceil_step:
  assumes "0 < k" "0 < n"
  shows "div_ceil n k = Suc (div_ceil (n - k) k)"
proof (cases "n \<le> k")
  case True
  have e: "n + k - 1 = (n - 1) + k" and "n - 1 < k" using True assms by linarith+
  then have "((n - 1) + k) div k = Suc 0" using assms by (simp only: div_add_self2) simp
  then have "(n + k - 1) div k = Suc 0" unfolding e .
  moreover have "(n - k + k - 1) div k = 0" using True assms by simp
  ultimately show ?thesis by (simp add: div_ceil_def)
next
  case False
  then have "n + k - 1 = (n - k + k - 1) + k" using assms by linarith
  then show ?thesis unfolding div_ceil_def using assms(1) by (metis Suc_eq_plus1 div_add_self2 gr_implies_not0)
qed

lemma length_chunks: "0 < k \<Longrightarrow> length (chunks k xs) = div_ceil (length xs) k"
proof (induction k xs rule: chunks.induct)
  case (1 k xs)
  show ?case
  proof (cases "xs = []")
    case True
    then show ?thesis using \<open>0 < k\<close> by (simp add: div_ceil_def)
  next
    case False
    then have "length (chunks k (drop k xs)) = div_ceil (length xs - k) k" using 1 by simp
    then show ?thesis using False \<open>0 < k\<close> div_ceil_step [of k "length xs"]
      by (subst chunks.simps) simp
  qed
qed

lemma nth_chunks:
  "0 < k \<Longrightarrow> j < length (chunks k xs) \<Longrightarrow> chunks k xs ! j = take k (drop (j * k) xs)"
proof (induction k xs arbitrary: j rule: chunks.induct)
  case (1 k xs)
  show ?case
  proof (cases "xs = []")
    case False
    have u: "chunks k xs = take k xs # chunks k (drop k xs)"
      using False 1(2) by (subst chunks.simps) simp
    show ?thesis
    proof (cases j)
      case (Suc i)
      then have "chunks k (drop k xs) ! i = take k (drop (i * k) (drop k xs))"
        using 1 False u by auto
      then show ?thesis using Suc by (simp add: u add.commute)
    qed (simp add: u)
  qed (use 1 in simp)
qed

lemma div_ceil_less: "0 < k \<Longrightarrow> j < div_ceil n k \<longleftrightarrow> j * k < n"
  by (simp add: div_ceil_def less_eq_Suc_le [of j] less_eq_div_iff_mult_less_eq) (auto simp: Suc_le_eq)

lemma starts_chunks:
  assumes "j < length (chunks k xs)" "0 < k"
  shows "starts s (index_from Z dict base off (chunks k xs)) ! j = s + of_nat (j * k)"
  using assms
proof (induction k xs arbitrary: j s off rule: chunks.induct)
  case (1 k xs)
  show ?case
  proof (cases "xs = []")
    case False
    have u: "chunks k xs = take k xs # chunks k (drop k xs)"
      using False 1(3) by (subst chunks.simps) simp
    show ?thesis
    proof (cases j)
      case (Suc i)
      then have i: "i < length (chunks k (drop k xs))" using 1(2) u by simp
      then have "i * k < length (drop k xs)" using 1(3) by (simp add: length_chunks div_ceil_less)
      then have full: "length (take k xs) = k" by simp
      show ?thesis using 1(1) [OF _ i] False 1(3) Suc full by (simp add: u algebra_simps)
    qed (simp add: u)
  qed (use 1 in simp)
qed

subsection \<open>The file that finish writes\<close>

definition db_dict :: "zstd \<Rightarrow> db_builder \<Rightarrow> bytes" where
  "db_dict Z B = train_dict Z (b_paths B)"

definition db_chunks :: "db_builder \<Rightarrow> str list list" where
  "db_chunks B = chunks BLOCK_PATHS (b_paths B)"

definition db_front_len :: "zstd \<Rightarrow> db_builder \<Rightarrow> nat" where
  "db_front_len Z B = 4 + length (db_dict Z B) + 4 + length (db_chunks B) * 16"

definition db_index :: "zstd \<Rightarrow> db_builder \<Rightarrow> block_entry list" where
  "db_index Z B = index_from Z (db_dict Z B) (of_nat (HEADER_LEN + db_front_len Z B)) 0 (db_chunks B)"

definition db_blocks :: "zstd \<Rightarrow> db_builder \<Rightarrow> bytes" where
  "db_blocks Z B = concat (map (pack Z (db_dict Z B)) (db_chunks B))"

definition db_docs :: "zstd \<Rightarrow> db_builder \<Rightarrow> bytes" where
  "db_docs Z B = to_le (of_nat (length (db_dict Z B)) :: u32) @ db_dict Z B @
     to_le (of_nat (length (db_chunks B)) :: u32) @ concat (map index_bytes (db_index Z B)) @ db_blocks Z B"

definition db_meta_sec :: "db_builder \<Rightarrow> bytes" where
  "db_meta_sec B = concat (map meta_bytes (b_meta B))"

definition db_meta_off :: "zstd \<Rightarrow> db_builder \<Rightarrow> nat" where
  "db_meta_off Z B = HEADER_LEN + length (db_docs Z B)"

definition db_try_off :: "zstd \<Rightarrow> db_builder \<Rightarrow> nat" where
  "db_try_off Z B = db_meta_off Z B + length (db_meta_sec B)"

definition db_slots :: "db_builder \<Rightarrow> nat" where
  "db_slots B = table_slots (length (b_try_map B))"

definition db_post_off :: "zstd \<Rightarrow> db_builder \<Rightarrow> nat" where
  "db_post_off Z B = db_try_off Z B + db_slots B * SLOT_LEN"

definition db_header :: "zstd \<Rightarrow> db_builder \<Rightarrow> bytes" where
  "db_header Z B = header (of_nat (length (b_paths B))) (b_build_time B) (of_nat HEADER_LEN)
     (of_nat (db_meta_off Z B)) (of_nat (db_try_off Z B)) (of_nat (db_post_off Z B))
     (of_nat (slots_log2 (db_slots B)))"

definition db_entries :: "zstd \<Rightarrow> db_builder \<Rightarrow> slot list" where
  "db_entries Z B = entries_from (of_nat (db_post_off Z B)) 0 (b_try_map B)"

lemma num_blocks_chunks: "div_ceil (length (b_paths B)) BLOCK_PATHS = length (db_chunks B)"
  by (simp add: db_chunks_def length_chunks BLOCK_PATHS_def)

lemma finish_eq:
  "finish Z B = (case build_robin_hood (db_entries Z B) (db_slots B) of
     None \<Rightarrow> None
   | Some table \<Rightarrow> Some (db_header Z B @ db_docs Z B @ db_meta_sec B @ table @ blobs (b_try_map B)))"
proof -
  have docs: "of_nat HEADER_LEN + of_nat (length (db_docs Z B)) = (of_nat (db_meta_off Z B) :: u64)"
    by (simp only: db_meta_off_def of_nat_add)
  have tr: "of_nat (db_meta_off Z B) + of_nat (length (db_meta_sec B)) = (of_nat (db_try_off Z B) :: u64)"
    by (simp only: db_try_off_def of_nat_add)
  have po: "of_nat (db_try_off Z B) + of_nat (db_slots B * SLOT_LEN) = (of_nat (db_post_off Z B) :: u64)"
    by (simp only: db_post_off_def of_nat_add)
  have ix: "path_blocks Z (db_dict Z B) (of_nat HEADER_LEN + of_nat (db_front_len Z B)) (db_chunks B)
      = (db_index Z B, db_blocks Z B)"
    by (simp only: path_blocks_eq db_index_def db_blocks_def of_nat_add)
  have fl: "4 + length (db_dict Z B) + 4 + length (db_chunks B) * 16 = db_front_len Z B"
    by (simp only: db_front_len_def)
  show ?thesis
    unfolding finish_def Let_def num_blocks_chunks db_dict_def [symmetric] db_chunks_def [symmetric]
      fl ix prod.case db_docs_def [symmetric] docs db_meta_sec_def [symmetric] tr
      db_slots_def [symmetric] po posting_section_eq db_entries_def [symmetric]
      db_header_def [symmetric] ..
qed

lemma length_header [simp]: "length (db_header Z B) = HEADER_LEN"
  by (simp add: db_header_def header_def MAGIC_def HEADER_LEN_def)

definition wf_builder :: "unicode \<Rightarrow> db_builder \<Rightarrow> bool" where
  "wf_builder U B \<longleftrightarrow> length (b_meta B) = length (b_paths B) \<and> length (b_paths B) < 2 ^ 32 \<and>
     inverts (b_try_map B) (map (to_lowercase U) (b_paths B)) \<and> (\<forall>p\<in>set (b_paths B). valid_utf8 p \<and> length p < 2 ^ 32)"

lemma wf_new [simp]: "wf_builder U new_builder"
  by (simp add: wf_builder_def new_builder_def)

lemma wf_insert:
  assumes "wf_builder U B" "valid_utf8 path" "length path < 2 ^ 32" "length (b_paths B) + 1 < 2 ^ 32"
  shows "wf_builder U (fst (insert_with U path dir sz mt B))"
proof -
  have "inverts (index_text (trigrams (to_lowercase U path)) (of_nat (length (map (to_lowercase U) (b_paths B))))
      (b_try_map B)) (map (to_lowercase U) (b_paths B) @ [to_lowercase U path])"
    using assms by (intro inverts_snoc) (simp_all add: wf_builder_def)
  then show ?thesis using assms by (simp add: wf_builder_def insert_with_def Let_def)
qed

lemma wf_set_build_time [simp]: "wf_builder U (set_build_time secs B) = wf_builder U B"
  by (simp add: wf_builder_def set_build_time_def)

text \<open>A finished file that fits in the 32-bit length fields, and its table.\<close>

definition finished :: "zstd \<Rightarrow> unicode \<Rightarrow> db_builder \<Rightarrow> bytes \<Rightarrow> bytes \<Rightarrow> bool" where
  "finished Z U B table F \<longleftrightarrow> wf_builder U B \<and>
     F = db_header Z B @ db_docs Z B @ db_meta_sec B @ table @ blobs (b_try_map B) \<and>
     length F < 2 ^ 32 \<and> length table = db_slots B * SLOT_LEN \<and>
     (\<forall>slot. 0 < db_slots B \<longrightarrow> (\<forall>i<db_slots B. slot i = Ok (read_slot table i)) \<longrightarrow>
       (\<forall>key. find_slot slot (db_slots B) key (unat (hash key) AND (db_slots B - 1)) 0 =
         Ok (find (\<lambda>e. fst e = key) (db_entries Z B))))"

lemma finish_parts:
  assumes "wf_builder U B"
  shows "\<exists>F table. finish Z B = Some F \<and>
    F = db_header Z B @ db_docs Z B @ db_meta_sec B @ table @ blobs (b_try_map B) \<and>
    length table = db_slots B * SLOT_LEN \<and> (length F < 2 ^ 32 \<longrightarrow> finished Z U B table F)"
proof (cases "b_try_map B = []")
  case True
  then have "db_slots B = 0" by (simp add: db_slots_def table_slots_def)
  then show ?thesis using assms
    by (auto simp: finish_eq build_robin_hood_def finished_def intro!: exI [of _ "[]"])
next
  case False
  have inv: "inverts (b_try_map B) (map (to_lowercase U) (b_paths B))"
    using assms by (simp add: wf_builder_def)
  obtain t where "build_robin_hood (db_entries Z B) (db_slots B) = Some t"
    "length t = db_slots B * SLOT_LEN"
    "\<forall>slot. (\<forall>i<db_slots B. slot i = Ok (read_slot t i)) \<longrightarrow>
      (\<forall>key. find_slot slot (db_slots B) key (unat (hash key) AND (db_slots B - 1)) 0 =
       Ok (find (\<lambda>e. fst e = key) (db_entries Z B)))"
    using posting_table [OF inv False, of "of_nat (db_post_off Z B)"]
    unfolding db_slots_def [symmetric] db_entries_def [symmetric] by blast
  then show ?thesis using assms by (auto simp: finish_eq finished_def)
qed

lemma finish_finished:
  "wf_builder U B \<Longrightarrow> \<exists>F table. finish Z B = Some F \<and> (length F < 2 ^ 32 \<longrightarrow> finished Z U B table F)"
  using finish_parts [of U B Z] by blast

lemma finish_Some_finished:
  "wf_builder U B \<Longrightarrow> finish Z B = Some F \<Longrightarrow> length F < 2 ^ 32 \<Longrightarrow> \<exists>table. finished Z U B table F"
  using finish_finished [of U B Z] by auto

subsection \<open>Opening a finished file\<close>

definition db_opened :: "zstd \<Rightarrow> db_builder \<Rightarrow> bytes \<Rightarrow> db_reader" where
  "db_opened Z B F =
     \<lparr>r_src = F, r_num_docs = of_nat (length (b_paths B)), r_build_time = b_build_time B,
      r_meta_off = of_nat (db_meta_off Z B), r_try_off = of_nat (db_try_off Z B),
      r_slots = db_slots B, r_dict = db_dict Z B, r_blocks = db_index Z B,
      r_block_start = starts 0 (db_index Z B)\<rparr>"

lemma finished_lengths:
  assumes "finished Z U B table F"
  shows "length F = db_post_off Z B + length (blobs (b_try_map B))"
    and "db_post_off Z B = HEADER_LEN + length (db_docs Z B) + length (db_meta_sec B) + db_slots B * SLOT_LEN"
    and "length (db_docs Z B) = db_front_len Z B + length (db_blocks Z B)"
    and "length F < 2 ^ 32"
proof -
  have F: "F = db_header Z B @ db_docs Z B @ db_meta_sec B @ table @ blobs (b_try_map B)"
    and t: "length table = db_slots B * SLOT_LEN"
    using assms by (simp_all add: finished_def)
  show "length F = db_post_off Z B + length (blobs (b_try_map B))"
    unfolding F by (simp add: t db_post_off_def db_try_off_def db_meta_off_def)
  show "length F < 2 ^ 32" using assms unfolding finished_def by blast
qed (simp_all add: db_post_off_def db_try_off_def db_meta_off_def db_docs_def db_front_len_def db_index_def)

lemma table_slots_ge: "m \<le> table_slots m"
proof (cases "m = 0")
  case False
  then show ?thesis by (metis neq0_conv table_slots_power mult_2 le_add1 order.trans)
qed simp

lemma db_slots_log2:
  assumes "finished Z U B table F"
  shows "slots_of_log2 (unat (of_nat (slots_log2 (db_slots B)) :: u32)) = db_slots B"
proof -
  have "db_slots B * SLOT_LEN < 2 ^ 32" using finished_lengths [OF assms] by simp
  then have "db_slots B < 2 ^ 32" by (simp add: SLOT_LEN_def)
  moreover have "length (b_try_map B) \<le> db_slots B"
    unfolding db_slots_def by (rule table_slots_ge)
  ultimately have l: "length (b_try_map B) \<le> 2 ^ 32" by simp
  have "slots_log2 (db_slots B) < 34" unfolding db_slots_def by (rule slots_of_log2_table(2) [OF l])
  then have "unat (of_nat (slots_log2 (db_slots B)) :: u32) = slots_log2 (db_slots B)" by simp
  then show ?thesis using slots_of_log2_table(1) [OF l] by (simp add: db_slots_def)
qed

lemma header_fields:
  assumes "h = header n bt d m t p l"
  shows "take 4 h = MAGIC" "rd_le h 4 = Ok VERSION" "rd_le h 8 = Ok n" "rd_le h 12 = Ok bt"
    "rd_le h 20 = Ok d" "rd_le h 28 = Ok m" "rd_le h 44 = Ok t" "rd_le h 60 = Ok l"
  by (simp_all add: assms header_def MAGIC_def)

text \<open>The reads of \<open>open\<close>, each a part of the file.\<close>

lemma docs_reads:
  assumes "finished Z U B table F"
  shows "read_at F 0 HEADER_LEN = Ok (db_header Z B)"
    and "read_at F (of_nat HEADER_LEN) 4 = Ok (to_le (of_nat (length (db_dict Z B)) :: u32))"
    and "read_at F (of_nat HEADER_LEN + 4) (length (db_dict Z B)) = Ok (db_dict Z B)"
    and "read_at F (of_nat HEADER_LEN + 4 + of_nat (length (db_dict Z B))) 4
      = Ok (to_le (of_nat (length (db_chunks B)) :: u32))"
    and "read_at F (of_nat HEADER_LEN + 4 + of_nat (length (db_dict Z B)) + 4) (length (db_chunks B) * 16)
      = Ok (concat (map index_bytes (db_index Z B)))"
proof -
  let ?H = "db_header Z B" and ?d = "db_dict Z B" and ?n = "to_le (of_nat (length (db_chunks B)) :: u32)"
  let ?l = "to_le (of_nat (length (db_dict Z B)) :: u32)" and ?I = "concat (map index_bytes (db_index Z B))"
  define R where "R = db_blocks Z B @ db_meta_sec B @ table @ blobs (b_try_map B)"
  have F: "F = ?H @ ?l @ ?d @ ?n @ ?I @ R"
    using assms by (simp add: finished_def db_docs_def R_def)
  have len: "length F < 2 ^ 32" using finished_lengths [OF assms] by simp
  then have u: "unat (of_nat k :: u64) = k" if "k \<le> length F" for k using that by simp
  have len64: "length F < 2 ^ 64" using len by simp
  have I: "length ?I = length (db_chunks B) * 16" by (simp add: db_index_def)
  have part: "read_at F (of_nat (length a)) (length x) = Ok x" if "F = a @ x @ c" for a x c
    by (rule read_at_part [OF that len64 _ refl]) (rule u, simp add: that)
  show "read_at F 0 HEADER_LEN = Ok ?H"
    using part [of "[]" ?H] F by simp
  show "read_at F (of_nat HEADER_LEN) 4 = Ok ?l"
    using part [OF F] by simp
  show "read_at F (of_nat HEADER_LEN + 4) (length ?d) = Ok ?d"
    using part [of "?H @ ?l" ?d] F by (simp add: add.commute)
  show "read_at F (of_nat HEADER_LEN + 4 + of_nat (length ?d)) 4 = Ok ?n"
    using part [of "?H @ ?l @ ?d" ?n] F by (simp add: ac_simps)
  show "read_at F (of_nat HEADER_LEN + 4 + of_nat (length ?d) + 4) (length (db_chunks B) * 16) = Ok ?I"
    using part [of "?H @ ?l @ ?d @ ?n" ?I] F I by (simp add: ac_simps)
qed

lemma open_finished:
  assumes "finished Z U B table F"
  shows "open_db F = Ok (db_opened Z B F)"
proof -
  note reads = docs_reads [OF assms]
  let ?d = "length (db_dict Z B)" and ?n = "length (db_chunks B)"
  have small: "?d < 2 ^ 32" "?n < 2 ^ 32"
    using finished_lengths [OF assms] by (simp_all add: db_front_len_def)
  then have u: "unat (of_nat ?d :: u32) = ?d" "unat (of_nat ?n :: u32) = ?n"
    "(ucast (of_nat ?d :: u32) :: u64) = of_nat ?d"
    by (simp_all add: ucast_of_nat_u32)
  have ix: "parse_index (concat (map index_bytes (db_index Z B))) [0..<?n] 0
      = Ok (db_index Z B, starts 0 (db_index Z B))"
    using parse_index_bytes [of "[]" 0 "db_index Z B" 0] by (simp add: db_index_def)
  note hdr = header_fields [of "db_header Z B" "of_nat (length (b_paths B))" "b_build_time B" "of_nat HEADER_LEN"
      "of_nat (db_meta_off Z B)" "of_nat (db_try_off Z B)" "of_nat (db_post_off Z B)"
      "of_nat (slots_log2 (db_slots B))", OF db_header_def]
  show ?thesis
    unfolding open_db_def
    by (simp only: reads hdr bind_o.simps length_header less_irrefl simp_thms if_False if_True
        rd_le_here_end u Let_def ix prod.case db_slots_log2 [OF assms] db_opened_def)
qed

subsection \<open>What the reader of a finished file serves\<close>

lemma length_meta_bytes [simp]: "length (meta_bytes m) = META_REC_LEN"
  by (simp add: meta_bytes_def META_REC_LEN_def split: prod.split)

lemma concat_fixed:
  assumes "\<And>x. length (f x) = w" "d < length xs"
  shows "concat (map f xs) = concat (map f (take d xs)) @ f (xs ! d) @ concat (map f (drop (Suc d) xs))"
    "length (concat (map f (take d xs))) = d * w"
proof -
  have "concat (map f xs) = concat (map f (take d xs @ xs ! d # drop (Suc d) xs))"
    by (simp only: id_take_nth_drop [OF assms(2), symmetric])
  then show "concat (map f xs) = concat (map f (take d xs)) @ f (xs ! d) @ concat (map f (drop (Suc d) xs))"
    by simp
  have "length (concat (map f ys)) = length ys * w" for ys by (induction ys) (simp_all add: assms(1))
  then show "length (concat (map f (take d xs))) = d * w" using assms(2) by simp
qed

lemma doc_meta_finished:
  assumes "finished Z U B table F" "d < length (b_paths B)" "b_meta B ! d = (k, sz, mt)"
  shows "doc_meta (db_opened Z B F) (of_nat d) = Ok \<lparr>is_dir = (k \<noteq> 0), file_size = sz, mtime = mt\<rparr>"
proof -
  have wf: "length (b_meta B) = length (b_paths B)" "length (b_paths B) < 2 ^ 32"
    and F: "F = db_header Z B @ db_docs Z B @ db_meta_sec B @ table @ blobs (b_try_map B)"
    using assms(1) by (auto simp: finished_def wf_builder_def)
  have d: "d < 2 ^ 32" "d < length (b_meta B)" using wf assms(2) by simp_all
  let ?pre = "concat (map meta_bytes (take d (b_meta B)))"
    and ?post = "concat (map meta_bytes (drop (Suc d) (b_meta B)))"
  note sec = concat_fixed [of meta_bytes META_REC_LEN d "b_meta B", OF length_meta_bytes d(2)]
  have le: "db_meta_off Z B + d * META_REC_LEN \<le> length F"
    using sec(2) finished_lengths [OF assms(1)] arg_cong [OF sec(1), of length]
    by (simp add: db_meta_off_def db_meta_sec_def)
  have off: "of_nat (db_meta_off Z B) + ucast (of_nat d :: u32) * of_nat META_REC_LEN
      = (of_nat (db_meta_off Z B + d * META_REC_LEN) :: u64)"
    using d by (simp add: ucast_of_nat_u32)
  have "read_at F (of_nat (db_meta_off Z B) + ucast (of_nat d :: u32) * of_nat META_REC_LEN) META_REC_LEN
      = Ok (meta_bytes (b_meta B ! d))"
  proof (rule read_at_part)
    show "F = (db_header Z B @ db_docs Z B @ ?pre) @ meta_bytes (b_meta B ! d) @
        (?post @ table @ blobs (b_try_map B))"
      using F sec(1) by (simp add: db_meta_sec_def)
    show "unat (of_nat (db_meta_off Z B) + ucast (of_nat d :: u32) * of_nat META_REC_LEN :: u64)
        = length (db_header Z B @ db_docs Z B @ ?pre)"
      unfolding off using unat_of_nat_u64 [of "db_meta_off Z B + d * META_REC_LEN"] le
        finished_lengths(4) [OF assms(1)] sec(2)
      by (simp only: length_append length_header db_meta_off_def) simp
  qed (use finished_lengths(4) [OF assms(1)] in simp_all)
  moreover have "(of_nat d :: u32) < of_nat (length (b_paths B))"
    using wf assms(2) d by (simp add: word_less_nat_alt)
  ultimately show ?thesis
    by (simp add: doc_meta_def db_opened_def not_le assms(3)) (simp add: meta_bytes_def index_o_def)
qed

lemma extract_from_entries:
  assumes "k < length ps" "\<forall>p\<in>set ps. valid_utf8 p \<and> length p < 2 ^ 32"
  shows "extract_from e1 e2 (pre @ concat (map path_entry ps)) (length pre) k = Ok (ps ! k)"
  using assms
proof (induction ps arbitrary: pre k)
  case (Cons p ps)
  let ?buf = "pre @ concat (map path_entry (p # ps))"
  have len: "unat (of_nat (length p) :: u32) = length p" using Cons.prems(2) by simp
  have rd: "rd_le ?buf (length pre) = (Ok (of_nat (length p)) :: u32 res)"
    "slice ?buf (length pre + 4) (length pre + 4 + length p) = (Ok p :: bytes res)"
    by (simp_all add: path_entry_def)
  have fits: "\<not> length pre + 4 > length ?buf" "\<not> length pre + 4 + length p > length ?buf"
    by (simp_all add: path_entry_def)
  show ?case
  proof (cases k)
    case 0
    then show ?thesis
      by (subst extract_from.simps)
        (use Cons.prems(2) in \<open>simp only: fits rd bind_o.simps Let_def len if_False nat.case\<close>,
         simp add: from_utf8_def Cons.prems)
  next
    case (Suc j)
    have "extract_from e1 e2 ((pre @ path_entry p) @ concat (map path_entry ps)) (length (pre @ path_entry p)) j
        = Ok (ps ! j)"
      using Cons.prems Suc by (intro Cons.IH) simp_all
    then have "extract_from e1 e2 ?buf (length pre + 4 + length p) j = Ok (ps ! j)"
      by (simp add: path_entry_def add.assoc)
    then show ?thesis
      by (subst extract_from.simps) (simp only: fits rd bind_o.simps Let_def len if_False Suc nat.case, simp)
  qed
qed simp

lemma of_nat_le_u32: "a < 2 ^ 32 \<Longrightarrow> b < 2 ^ 32 \<Longrightarrow> (of_nat a :: u32) \<le> of_nat b \<longleftrightarrow> a \<le> b"
  by (simp add: word_le_nat_alt)

lemma nth_starts:
  assumes "j < length (db_chunks B)"
  shows "starts 0 (db_index Z B) ! j = of_nat (j * BLOCK_PATHS)"
  using starts_chunks [of j BLOCK_PATHS "b_paths B" 0] assms
  by (simp add: db_index_def db_chunks_def BLOCK_PATHS_def)

lemma block_of_finished:
  assumes "d < length (b_paths B)" "length (b_paths B) < 2 ^ 32"
  shows "block_of (db_opened Z B F) (of_nat d) = d div BLOCK_PATHS"
    and "d div BLOCK_PATHS < length (db_chunks B)"
proof -
  let ?S = "starts 0 (db_index Z B)" and ?m = "Suc (d div BLOCK_PATHS)"
  have div: "j < length (db_chunks B) \<longleftrightarrow> j * BLOCK_PATHS < length (b_paths B)" for j
    unfolding num_blocks_chunks [symmetric] by (rule div_ceil_less) (simp add: BLOCK_PATHS_def)
  have "d div BLOCK_PATHS * BLOCK_PATHS \<le> d" by simp
  then show i: "d div BLOCK_PATHS < length (db_chunks B)" unfolding div using assms(1) by linarith
  have l: "length ?S = length (db_chunks B)" by (simp add: db_index_def)
  have le: "?S ! j \<le> of_nat d \<longleftrightarrow> j * BLOCK_PATHS \<le> d" if "j < length ?S" for j
  proof -
    have "j * BLOCK_PATHS < 2 ^ 32" using that assms(2) unfolding l div by linarith
    moreover have "j < length (db_chunks B)" using that unfolding l .
    ultimately show ?thesis using nth_starts [of j B Z] of_nat_le_u32 [of "j * BLOCK_PATHS" d] assms
      by simp
  qed
  have "takeWhile (\<lambda>s. s \<le> of_nat d) ?S = take ?m ?S"
  proof (rule takeWhile_eq_take_P_nth)
    fix j assume "j < ?m" "j < length ?S"
    then have "j * BLOCK_PATHS \<le> d div BLOCK_PATHS * BLOCK_PATHS" by (intro mult_le_mono1) simp
    also have "\<dots> \<le> d" by simp
    finally show "?S ! j \<le> of_nat d" using le [OF \<open>j < length ?S\<close>] by simp
  next
    assume "?m < length ?S"
    have "d < ?m * BLOCK_PATHS" using dividend_less_div_times [of BLOCK_PATHS d]
      by (simp add: BLOCK_PATHS_def)
    then show "\<not> ?S ! ?m \<le> of_nat d" using le [OF \<open>?m < length ?S\<close>] by simp
  qed
  then have "partition_point (\<lambda>s. s \<le> of_nat d) ?S = ?m"
    unfolding partition_point_def using i l by simp
  then show "block_of (db_opened Z B F) (of_nat d) = d div BLOCK_PATHS"
    by (simp add: block_of_def db_opened_def Let_def)
qed

lemma read_block_finished:
  assumes "finished Z U B table F" "zstd_ok Z" "i < length (db_chunks B)"
  shows "read_block Z (db_opened Z B F) i = Ok (concat (map path_entry (db_chunks B ! i)))"
proof -
  let ?cs = "db_chunks B" and ?p = "pack Z (db_dict Z B)"
  let ?pre = "concat (map ?p (take i ?cs))"
  define P where "P = to_le (of_nat (length (db_dict Z B)) :: u32) @ db_dict Z B @
     to_le (of_nat (length ?cs) :: u32) @ concat (map index_bytes (db_index Z B))"
  have lP: "length P = db_front_len Z B" by (simp add: P_def db_front_len_def db_index_def)
  have blocks: "db_blocks Z B = ?pre @ ?p (?cs ! i) @ concat (map ?p (drop (Suc i) ?cs))"
    unfolding db_blocks_def by (subst id_take_nth_drop [OF assms(3)]) simp
  have F: "F = (db_header Z B @ P @ ?pre) @ ?p (?cs ! i) @
      (concat (map ?p (drop (Suc i) ?cs)) @ db_meta_sec B @ table @ blobs (b_try_map B))"
    using assms(1) blocks by (simp add: finished_def db_docs_def P_def)
  have len: "length F < 2 ^ 32" by (rule finished_lengths [OF assms(1)])
  have le: "HEADER_LEN + db_front_len Z B + length ?pre + length (?p (?cs ! i)) \<le> length F"
    using arg_cong [OF F, of length] lP by simp
  then have clen: "unat (of_nat (length (?p (?cs ! i))) :: u32) = length (?p (?cs ! i))"
    using len by simp
  have ix: "db_index Z B ! i = (of_nat (HEADER_LEN + db_front_len Z B + length ?pre),
      of_nat (length (?p (?cs ! i))), of_nat (length (?cs ! i)))"
    using nth_index_from [OF assms(3), of Z "db_dict Z B" "of_nat (HEADER_LEN + db_front_len Z B)" 0]
    by (simp add: db_index_def)
  have "read_at F (of_nat (HEADER_LEN + db_front_len Z B + length ?pre)) (length (?p (?cs ! i)))
      = Ok (?p (?cs ! i))"
  proof (rule read_at_part [OF F])
    have "HEADER_LEN + db_front_len Z B + length ?pre < 2 ^ 64" using le len by simp
    then show "unat (of_nat (HEADER_LEN + db_front_len Z B + length ?pre) :: u64)
        = length (db_header Z B @ P @ ?pre)"
      using unat_of_nat_u64 [of "HEADER_LEN + db_front_len Z B + length ?pre"] lP by simp
  qed (use len in simp_all)
  then show ?thesis
    using zstd_roundtrip [OF assms(2), of "concat (map path_entry (?cs ! i))" "db_dict Z B"] ix clen
    by (simp add: read_block_def db_opened_def pack_def del: of_nat_add)
qed

lemma doc_path_finished:
  assumes "finished Z U B table F" "zstd_ok Z" "d < length (b_paths B)"
  shows "doc_path Z (db_opened Z B F) (of_nat d) = Ok (b_paths B ! d)"
proof -
  let ?r = "db_opened Z B F" and ?i = "d div BLOCK_PATHS" and ?k = "d mod BLOCK_PATHS"
  let ?chunk = "db_chunks B ! (d div BLOCK_PATHS)"
  have wf: "length (b_paths B) < 2 ^ 32" "\<forall>p\<in>set (b_paths B). valid_utf8 p \<and> length p < 2 ^ 32"
    using assms(1) by (auto simp: finished_def wf_builder_def)
  note bl = block_of_finished [OF assms(3) wf(1)]
  have dm: "?i * BLOCK_PATHS + ?k = d" by simp
  have chunk: "?chunk = take BLOCK_PATHS (drop (?i * BLOCK_PATHS) (b_paths B))"
    using nth_chunks [of BLOCK_PATHS ?i "b_paths B"] bl(2) by (simp add: db_chunks_def BLOCK_PATHS_def)
  have k: "?k < BLOCK_PATHS" by (simp add: BLOCK_PATHS_def)
  have lc: "?k < length ?chunk" "length ?chunk < 2 ^ 32" "?chunk ! ?k = b_paths B ! d"
  proof -
    have len: "length ?chunk = min BLOCK_PATHS (length (b_paths B) - ?i * BLOCK_PATHS)"
      unfolding chunk by simp
    have "?k < length (b_paths B) - ?i * BLOCK_PATHS" using assms(3) dm by linarith
    then show "?k < length ?chunk" using k by (simp add: len)
    show "length ?chunk < 2 ^ 32" using wf(1) by (simp add: len)
    have "?chunk ! ?k = b_paths B ! (?i * BLOCK_PATHS + ?k)"
      unfolding chunk nth_take [OF k] by (rule nth_drop) (use assms(3) dm in linarith)
    then show "?chunk ! ?k = b_paths B ! d" by simp
  qed
  have sub: "set ?chunk \<subseteq> set (b_paths B)" unfolding chunk by (meson set_take_subset set_drop_subset subset_trans)
  have st: "r_block_start ?r ! ?i = of_nat (?i * BLOCK_PATHS)"
    using nth_starts [OF bl(2), of Z] by (simp add: db_opened_def)
  have ge: "(of_nat (?i * BLOCK_PATHS) :: u32) \<le> of_nat d"
    using of_nat_le_u32 [of "?i * BLOCK_PATHS" d] assms(3) wf(1) dm by simp
  have "(of_nat d :: u32) = of_nat (?i * BLOCK_PATHS) + of_nat ?k" by (metis dm of_nat_add)
  then have loc: "saturating_sub (of_nat d) (r_block_start ?r ! ?i) = of_nat ?k"
    using ge by (simp add: saturating_sub_def st del: of_nat_mult)
  have uk: "unat (of_nat ?k :: u32) = ?k" using k by (simp add: BLOCK_PATHS_def)
  obtain off clen where ix: "r_blocks ?r ! ?i = (off, clen, of_nat (length ?chunk))"
    using nth_index_from [OF bl(2), of Z "db_dict Z B" "of_nat (HEADER_LEN + db_front_len Z B)" 0]
    by (auto simp: db_opened_def db_index_def)
  have lt: "\<not> (of_nat ?k :: u32) \<ge> of_nat (length ?chunk)"
    using lc by (simp add: word_le_nat_alt uk)
  have ne: "r_block_start ?r \<noteq> []" using bl(2) by (auto simp: db_opened_def db_index_def simp flip: length_0_conv)
  have ep: "extract_path (concat (map path_entry ?chunk)) (of_nat ?k) = Ok (?chunk ! ?k)"
    using extract_from_entries [where pre = "[]", OF lc(1)] sub wf(2) by (auto simp: extract_path_def uk)
  show ?thesis
    unfolding doc_path_def doc_path_cached_def Let_def bl(1) ix prod.case loc
    using ne lt read_block_finished [OF assms(1,2) bl(2)] ep lc(3) by simp
qed

lemma num_docs_opened [simp]: "r_num_docs (db_opened Z B F) = of_nat (length (b_paths B))"
  by (simp add: db_opened_def)

lemma db_slot_finished:
  assumes "finished Z U B table F" "i < db_slots B"
  shows "db_slot (db_opened Z B F) i = Ok (read_slot table i)"
proof -
  let ?o = "i * SLOT_LEN"
  have F: "F = (db_header Z B @ db_docs Z B @ db_meta_sec B) @ table @ blobs (b_try_map B)"
    and t: "length table = db_slots B * SLOT_LEN"
    using assms(1) by (simp_all add: finished_def)
  have "Suc i * SLOT_LEN \<le> db_slots B * SLOT_LEN" using assms(2) by (intro mult_le_mono1) simp
  then have o: "?o + SLOT_LEN \<le> length table" by (simp add: t)
  then have tb: "table = take ?o table @ take SLOT_LEN (drop ?o table) @ drop (?o + SLOT_LEN) table"
    by (metis append_take_drop_id drop_drop add.commute)
  have "read_at F (of_nat (db_try_off Z B) + of_nat i * of_nat SLOT_LEN) SLOT_LEN
      = Ok (take SLOT_LEN (drop ?o table))"
  proof (rule read_at_part)
    show "F = (db_header Z B @ db_docs Z B @ db_meta_sec B @ take ?o table) @
        take SLOT_LEN (drop ?o table) @ (drop (?o + SLOT_LEN) table @ blobs (b_try_map B))"
      unfolding F by (subst tb) (simp only: append_assoc)
    have "db_try_off Z B + ?o < 2 ^ 64" using finished_lengths [OF assms(1)] o t
      by (simp add: db_post_off_def)
    then show "unat (of_nat (db_try_off Z B) + of_nat i * of_nat SLOT_LEN :: u64)
        = length (db_header Z B @ db_docs Z B @ db_meta_sec B @ take ?o table)"
      using unat_of_nat_u64 [of "db_try_off Z B + ?o"] o
      by (simp add: db_try_off_def db_meta_off_def min_def)
  qed (use finished_lengths(4) [OF assms(1)] o in simp_all)
  then show ?thesis
    by (simp add: db_slot_def db_opened_def read_slot_bytes [of table i])
qed

lemma db_posting_finished:
  assumes "finished Z U B table F"
  shows "db_posting (db_opened Z B F) t =
    Ok (if docs_with (map (to_lowercase U) (b_paths B)) t = [] then None
        else Some (docs_with (map (to_lowercase U) (b_paths B)) t))"
proof -
  let ?T = "map (to_lowercase U) (b_paths B)" and ?m = "b_try_map B"
  have inv: "inverts ?m ?T" and n: "length ?T < 2 ^ 32"
    and F: "F = db_header Z B @ db_docs Z B @ db_meta_sec B @ table @ blobs ?m"
    and look: "0 < db_slots B \<Longrightarrow> (\<forall>i<db_slots B. slot i = Ok (read_slot table i)) \<Longrightarrow>
        find_slot slot (db_slots B) key (unat (hash key) AND (db_slots B - 1)) 0 =
         Ok (find (\<lambda>e. fst e = key) (db_entries Z B))" for slot key
    using assms by (auto simp: finished_def wf_builder_def)
  have mt: "map_of ?m t = (if docs_with ?T t = [] then None else Some (docs_with ?T t))"
    using inv by (simp add: inverts_def)
  have sl: "r_slots (db_opened Z B F) = db_slots B" by (simp add: db_opened_def)
  show ?thesis
  proof (cases "db_slots B = 0")
    case True
    then have "?m = []" using table_slots_ge [of "length ?m"] by (simp add: db_slots_def)
    then show ?thesis using mt True by (simp add: db_posting_def sl split: if_splits)
  next
    case False
    then have find: "find_slot (db_slot (db_opened Z B F)) (db_slots B) t (unat (hash t) AND (db_slots B - 1)) 0
        = Ok (find (\<lambda>e. fst e = t) (db_entries Z B))"
      using db_slot_finished [OF assms] by (intro look) simp_all
    show ?thesis
    proof (cases "docs_with ?T t = []")
      case True
      then have "find (\<lambda>e. fst e = t) (db_entries Z B) = None"
        using find_entries_from [where m = ?m and key = t] mt by (simp add: db_entries_def)
      then show ?thesis using find False True by (simp add: db_posting_def sl)
    next
      case ne: False
      let ?ds = "docs_with ?T t"
      obtain a c where blob: "blobs ?m = a @ enc_posting ?ds @ c"
        and hit: "find (\<lambda>e. fst e = t) (db_entries Z B) =
          Some (t, of_nat (length ?ds), of_nat (db_post_off Z B + length a), of_nat (length (enc_posting ?ds)))"
        using find_entries_from [where m = ?m and key = t and base = "of_nat (db_post_off Z B)" and off = 0] mt ne by (auto simp: db_entries_def)
      have len: "length F = db_post_off Z B + length (blobs ?m)" "length F < 2 ^ 32"
        using finished_lengths [OF assms] by simp_all
      then have small: "length (enc_posting ?ds) < 2 ^ 32" "db_post_off Z B + length a < 2 ^ 64"
        by (simp_all add: blob)
      have "length ?ds \<le> length ?T" unfolding docs_with_def
        using length_filter_le [of _ "[0..<length ?T]"] by simp
      then have lds: "length ?ds < 2 ^ 32" using n by simp
      have "read_at F (of_nat (db_post_off Z B + length a)) (length (enc_posting ?ds)) = Ok (enc_posting ?ds)"
      proof (rule read_at_part)
        show "F = (db_header Z B @ db_docs Z B @ db_meta_sec B @ table @ a) @ enc_posting ?ds @ c"
          by (simp add: F blob)
        have "length table = db_slots B * SLOT_LEN" using assms by (simp add: finished_def)
        then show "unat (of_nat (db_post_off Z B + length a) :: u64)
            = length (db_header Z B @ db_docs Z B @ db_meta_sec B @ table @ a)"
          using unat_of_nat_u64 [of "db_post_off Z B + length a"] small(2)
          by (simp add: db_post_off_def db_try_off_def db_meta_off_def)
      qed (use len in simp_all)
      then show ?thesis
        using find False ne hit small(1) decode_posting_enc [of ?ds] sorted_docs_with [of ?T t] n lds
        by (simp add: db_posting_def sl) (simp add: db_opened_def)
    qed
  qed
qed

subsection \<open>The reader as a candidate source\<close>

definition db_good :: "zstd \<Rightarrow> unicode \<Rightarrow> db_reader \<Rightarrow> bool" where
  "db_good Z U r \<longleftrightarrow> (\<exists>B table F. finished Z U B table F \<and> zstd_ok Z \<and> r = db_opened Z B F)"

definition path_of :: "zstd \<Rightarrow> db_reader \<Rightarrow> u32 \<Rightarrow> str" where
  "path_of Z r d = (case doc_path Z r d of Ok p \<Rightarrow> p | _ \<Rightarrow> [])"

definition path_hit :: "unicode \<Rightarrow> str \<Rightarrow> bytes \<Rightarrow> bool \<Rightarrow> bool" where
  "path_hit U p needle case_sensitive \<longleftrightarrow> sublist needle (if case_sensitive then p else to_lowercase U p)"

lemma docid_of_nat:
  assumes "d < of_nat n" "n < 2 ^ 32"
  obtains i where "i < n" "d = (of_nat i :: u32)"
proof
  show "d = of_nat (unat d)" by simp
  show "unat d < n" using assms by (simp add: word_less_nat_alt)
qed

lemma good_doc_path:
  assumes "db_good Z U r" "d < r_num_docs r"
  shows "doc_path Z r d = Ok (path_of Z r d)" "valid_utf8 (path_of Z r d)"
proof -
  obtain B table F where F: "finished Z U B table F" "zstd_ok Z" "r = db_opened Z B F"
    using assms(1) by (auto simp: db_good_def)
  have wf: "length (b_paths B) < 2 ^ 32" "\<forall>p\<in>set (b_paths B). valid_utf8 p"
    using F(1) by (auto simp: finished_def wf_builder_def)
  have "d < of_nat (length (b_paths B))" using assms(2) F(3) by simp
  then obtain i where i: "i < length (b_paths B)" "d = of_nat i" using wf(1) by (rule docid_of_nat)
  then have "doc_path Z r d = Ok (b_paths B ! i)" using doc_path_finished [OF F(1,2) i(1)] F(3) by simp
  then show "doc_path Z r d = Ok (path_of Z r d)" "valid_utf8 (path_of Z r d)"
    using wf(2) i(1) by (simp_all add: path_of_def)
qed

lemma good_posting:
  assumes "db_good Z U r"
  shows "db_posting r t =
    Ok (let ds = filter (\<lambda>d. t \<in> set (trigrams (to_lowercase U (path_of Z r d)))) (all_docids (r_num_docs r)) in
        if ds = [] then None else Some ds)"
proof -
  obtain B table F where F: "finished Z U B table F" "zstd_ok Z" "r = db_opened Z B F"
    using assms(1) by (auto simp: db_good_def)
  let ?T = "map (to_lowercase U) (b_paths B)" and ?n = "length (b_paths B)"
  have n: "?n < 2 ^ 32" using F(1) by (simp add: finished_def wf_builder_def)
  have "docs_with ?T t = map of_nat (filter (\<lambda>i. t \<in> set (trigrams (to_lowercase U (b_paths B ! i)))) [0..<?n])"
    unfolding docs_with_def length_map
    by (intro arg_cong [where f = "map of_nat"] filter_cong refl) simp
  also have "\<dots> = map of_nat (filter (\<lambda>i. t \<in> set (trigrams (to_lowercase U (path_of Z r (of_nat i))))) [0..<?n])"
    by (intro arg_cong [where f = "map of_nat"] filter_cong refl)
      (simp add: path_of_def F(3) doc_path_finished [OF F(1,2)])
  also have "\<dots> = filter (\<lambda>d. t \<in> set (trigrams (to_lowercase U (path_of Z r d)))) (all_docids (r_num_docs r))"
    using n by (simp add: all_docids_def F(3) filter_map comp_def)
  finally show ?thesis using db_posting_finished [OF F(1), of t] by (simp add: F(3) Let_def)
qed

interpretation db: candidate_source
  db_posting "db_verify Z U" r_num_docs "db_good Z U"
  "\<lambda>r d. to_lowercase U (path_of Z r d)" "\<lambda>r d. path_hit U (path_of Z r d)" for Z U
proof
  fix r t
  show "db_good Z U r \<Longrightarrow> db_posting r t =
    Ok (let ds = filter (\<lambda>d. t \<in> set (trigrams (to_lowercase U (path_of Z r d)))) (all_docids (r_num_docs r)) in
        if ds = [] then None else Some ds)"
    by (rule good_posting)
next
  fix r d needle case_sensitive
  assume "db_good Z U r" "d < r_num_docs r"
  then show "db_verify Z U r d needle case_sensitive = Ok (path_hit U (path_of Z r d) needle case_sensitive)"
    using good_doc_path [of Z U r d]
    by (auto simp: db_verify_def path_hit_def Let_def list_ex_iff simp flip: windows_iff_sublist)
qed

text \<open>
  The over-approximation that candidate generation needs. Case-insensitively the lowercased
  path contains the lowercased query. Case-sensitively it follows for a path without a capital
  sigma, the one letter that \<open>to_lowercase\<close> maps by its context.
\<close>

lemma path_hit_trigrams:
  assumes "path_hit U p (if cs then q else to_lowercase U q) cs"
    and "cs \<Longrightarrow> unicode_ok U \<and> valid_utf8 p \<and> valid_utf8 q \<and> \<not> has_sigma p"
  shows "set (trigrams (to_lowercase U q)) \<subseteq> set (trigrams (to_lowercase U p))"
proof (cases cs)
  case True
  then have "sublist (to_lowercase U q) (to_lowercase U p)"
    using assms by (intro sublist_to_lowercase) (auto simp: path_hit_def)
  then show ?thesis by (rule trigrams_mono)
qed (use assms in \<open>simp add: path_hit_def trigrams_mono\<close>)

subsection \<open>Properties\<close>

text \<open>
  C20. A finished database serves what was inserted. If the file stays below the 4 GiB its
  32-bit length fields can describe, \<open>open\<close> succeeds and every docid has the path and the
  metadata it was inserted with, through the dictionary, the compressed blocks, the block
  index and the fixed-width records.
\<close>

theorem db_roundtrip:
  assumes "wf_builder U B" and "zstd_ok Z" and "finish Z B = Some F" and "length F < 2 ^ 32"
  shows "\<exists>r. open_db F = Ok r \<and> r_num_docs r = of_nat (length (b_paths B)) \<and>
    r_build_time r = b_build_time B \<and>
    (\<forall>d<length (b_paths B). doc_path Z r (of_nat d) = Ok (b_paths B ! d) \<and>
       (case b_meta B ! d of (k, sz, mt) \<Rightarrow>
          doc_meta r (of_nat d) = Ok \<lparr>is_dir = (k \<noteq> 0), file_size = sz, mtime = mt\<rparr>))"
proof -
  obtain table where fin: "finished Z U B table F" using finish_Some_finished [OF assms(1,3,4)] by auto
  show ?thesis
    using open_finished [OF fin] doc_path_finished [OF fin assms(2)] doc_meta_finished [OF fin]
    by (intro exI [of _ "db_opened Z B F"]) (auto simp: db_opened_def split: prod.split)
qed

text \<open>
  Building always ends with a file: for every builder the insertions can produce, the
  Robin Hood construction inside \<open>finish\<close> stops, since the table has twice as many slots as
  trigrams.
\<close>

theorem finish_total: "wf_builder U B \<Longrightarrow> \<exists>F. finish Z B = Some F"
  using finish_finished by blast

definition demo_builder :: db_builder where
  "demo_builder = fst (insert_with ascii_tables [0x61, 0x62, 0x63] True 7 9
     (fst (insert_path ascii_tables [0x41, 0x62, 0x63, 0x64] new_builder)))"

lemma demo_wf: "wf_builder ascii_tables demo_builder"
  unfolding demo_builder_def insert_path_def
  by (intro wf_insert wf_new) (simp_all add: new_builder_def insert_with_def Let_def valid_ascii)

lemma demo_paths: "b_paths demo_builder = [[0x41, 0x62, 0x63, 0x64], [0x61, 0x62, 0x63]]"
  "b_meta demo_builder = [(0, 0, 0), (1, 7, 9)]"
  by (simp_all add: demo_builder_def insert_path_def insert_with_def Let_def new_builder_def)

lemma demo_try_map: "b_try_map demo_builder = [(0x616263, [0, 1]), (0x626364, [0])]"
  by code_simp

lemma demo_length:
  assumes "finish stored_zstd demo_builder = Some F"
  shows "length F < 2 ^ 32"
proof -
  let ?Z = stored_zstd and ?B = demo_builder
  obtain F' table where F': "finish ?Z ?B = Some F'"
    and F: "F' = db_header ?Z ?B @ db_docs ?Z ?B @ db_meta_sec ?B @ table @ blobs (b_try_map ?B)"
    and t: "length table = db_slots ?B * SLOT_LEN"
    using finish_parts [OF demo_wf, of ?Z] by blast
  have slots: "db_slots ?B = 4" by (simp add: db_slots_def demo_try_map) code_simp
  have dict: "db_dict ?Z ?B = []"
    by (simp add: db_dict_def train_dict_def demo_paths MIN_DICT_CORPUS_def)
  have ch: "db_chunks ?B = [b_paths ?B]"
    by (simp add: db_chunks_def demo_paths chunks.simps BLOCK_PATHS_def)
  have "length (blobs (b_try_map ?B)) \<le> 4000"
    using length_encode [of "deltas_of 0 [0, 1]"] length_encode [of "deltas_of 0 [0]"]
    by (simp add: demo_try_map blobs_def enc_posting_def)
  moreover have "length (db_docs ?Z ?B) = 39"
    unfolding db_docs_def db_index_def db_blocks_def dict ch
    by (simp add: pack_def zstd_encode_def stored_zstd_def option_default_def demo_paths path_entry_def)
  moreover have "length (db_meta_sec ?B) = 34"
    by (simp add: db_meta_sec_def demo_paths META_REC_LEN_def)
  ultimately have "length F' < 2 ^ 32" by (simp add: F t slots SLOT_LEN_def HEADER_LEN_def)
  then show ?thesis using F' assms by simp
qed

theorem finish_total_witness: "\<exists>F. finish stored_zstd demo_builder = Some F"
  by (rule finish_total [OF demo_wf])

theorem db_roundtrip_witness:
  "\<exists>F r. finish stored_zstd demo_builder = Some F \<and> open_db F = Ok r \<and>
     doc_path stored_zstd r 1 = Ok [0x61, 0x62, 0x63] \<and>
     doc_meta r 1 = Ok \<lparr>is_dir = True, file_size = 7, mtime = 9\<rparr>"
proof -
  obtain F where F: "finish stored_zstd demo_builder = Some F" using finish_finished [OF demo_wf] by blast
  then show ?thesis
    using db_roundtrip [OF demo_wf stored_zstd_ok F demo_length [OF F]] by (fastforce simp: demo_paths)
qed

text \<open>
  The trigram index of a finished database is exact: the posting of a trigram, found through
  the Robin Hood table and decoded from its blob, lists exactly the documents whose lowercased
  path has the trigram, in ascending order, and is absent when there is none.
\<close>

theorem db_posting_exact:
  assumes "wf_builder U B" and "finish Z B = Some F" and "length F < 2 ^ 32"
  shows "\<exists>r. open_db F = Ok r \<and> (\<forall>t. db_posting r t =
    Ok (let ds = map of_nat (filter (\<lambda>d. t \<in> set (trigrams (to_lowercase U (b_paths B ! d))))
                   [0..<length (b_paths B)]) in
        if ds = [] then None else Some ds))"
proof -
  obtain table where fin: "finished Z U B table F" using finish_Some_finished [OF assms] by auto
  have "docs_with (map (to_lowercase U) (b_paths B)) t =
      map of_nat (filter (\<lambda>d. t \<in> set (trigrams (to_lowercase U (b_paths B ! d)))) [0..<length (b_paths B)])" for t
    unfolding docs_with_def length_map
    by (intro arg_cong [where f = "map of_nat"] filter_cong refl) simp
  then show ?thesis using open_finished [OF fin] db_posting_finished [OF fin] by (simp add: Let_def)
qed

theorem db_posting_exact_witness:
  "\<exists>F r. finish stored_zstd demo_builder = Some F \<and> open_db F = Ok r \<and>
     db_posting r 0x616263 = Ok (Some [0, 1])"
proof -
  obtain F where F: "finish stored_zstd demo_builder = Some F" using finish_finished [OF demo_wf] by blast
  have "filter (\<lambda>d. 0x616263 \<in> set (trigrams (to_lowercase ascii_tables (b_paths demo_builder ! d))))
      [0..<length (b_paths demo_builder)] = [0, 1]"
    by code_simp
  then show ?thesis using db_posting_exact [OF demo_wf F demo_length [OF F]] F by (auto simp: Let_def)
qed

text \<open>
  The block cache is not observable: from any cache that holds blocks of this file, looking
  up a path returns what the lookup without a cache returns, and leaves such a cache.
\<close>

theorem block_cache_transparent:
  assumes "cache_ok Z r cache"
  shows "fst (doc_path_cached Z r docid cache) = fst (doc_path_cached Z r docid None) \<and>
    cache_ok Z r (snd (doc_path_cached Z r docid cache))"
  using doc_path_cache [OF assms] by (simp add: doc_path_def)

theorem block_cache_transparent_witness:
  "fst (doc_path_cached stored_zstd (db_opened stored_zstd demo_builder []) 1
     (snd (doc_path_cached stored_zstd (db_opened stored_zstd demo_builder []) 0 None))) =
   fst (doc_path_cached stored_zstd (db_opened stored_zstd demo_builder []) 1 None)"
  by (intro block_cache_transparent [THEN conjunct1] block_cache_transparent [THEN conjunct2])
    (simp add: cache_ok_def)

end
