(* ===== verification/BoolQuery.thy ===== *)
theory BoolQuery
  imports Db
begin

section \<open>Boolean queries (crates/df-core/src/boolquery.rs, query.rs)\<close>

text \<open>
  A query string is cut into tokens, parsed by recursive descent (NOT over AND over OR, an AND
  may be left out), and evaluated by combining sets of document ids; a query that is one term
  takes the fast path through \<open>candidates\<close>.

  The parser's methods call each other through the nesting of the query and loop over its
  operators, so the model gives them fuel and \<open>parse\<close> four units per token and four more; the
  lemmas show that this never runs out, and that the parser accepts exactly a grammar. The
  evaluator computes the set of documents that satisfy the query.
\<close>

subsection \<open>Tokens\<close>

datatype tok = TWord str | TAnd | TOr | TNot | LParen | RParen

datatype node = Term str | And node node | Or node node | Not node

definition flush :: "str \<times> tok list \<Rightarrow> str \<times> tok list" where
  "flush s = (case s of (cur, toks) \<Rightarrow>
     if cur = [] then (cur, toks)
     else ([], toks @ [if cur = lit ''AND'' then TAnd else if cur = lit ''OR'' then TOr
                       else if cur = lit ''NOT'' then TNot else TWord cur]))"

definition token_step :: "nat \<Rightarrow> str \<times> tok list \<Rightarrow> str \<times> tok list" where
  "token_step c s =
     (if c = 0x28 then (let (cur, toks) = flush s in (cur, toks @ [LParen]))
      else if c = 0x29 then (let (cur, toks) = flush s in (cur, toks @ [RParen]))
      else if is_whitespace c then flush s
      else (let (cur, toks) = s in (cur @ encode_char c, toks)))"

definition tokenize :: "str \<Rightarrow> tok list" where
  "tokenize s = snd (flush (fold token_step (chars s) ([], [])))"

subsection \<open>The parser\<close>

text \<open>
  A method of \<open>Parser\<close> on the tokens from \<open>pos\<close> on. The result: out of fuel (\<open>None\<close>),
  malformed (\<open>Some None\<close>), or a node with the tokens that are left.
\<close>

type_synonym parsed = "(node \<times> tok list) option option"

definition then_parse :: "parsed \<Rightarrow> (node \<Rightarrow> tok list \<Rightarrow> parsed) \<Rightarrow> parsed" where
  "then_parse p f = (case p of
     None \<Rightarrow> None | Some None \<Rightarrow> Some None | Some (Some (n, ts)) \<Rightarrow> f n ts)"

fun starts_factor :: "tok list \<Rightarrow> bool" where
  "starts_factor (TWord w # ts) = True"
| "starts_factor (TNot # ts) = True"
| "starts_factor (LParen # ts) = True"
| "starts_factor ts = False"

fun at_and :: "tok list \<Rightarrow> bool" where
  "at_and (TAnd # ts) = True"
| "at_and ts = False"

lemma at_and_iff: "at_and ts \<longleftrightarrow> (\<exists>us. ts = TAnd # us)"
  by (cases ts rule: at_and.cases) auto

fun parse_or :: "nat \<Rightarrow> tok list \<Rightarrow> parsed"
  and or_loop :: "nat \<Rightarrow> node \<Rightarrow> tok list \<Rightarrow> parsed"
  and parse_and :: "nat \<Rightarrow> tok list \<Rightarrow> parsed"
  and and_loop :: "nat \<Rightarrow> node \<Rightarrow> tok list \<Rightarrow> parsed"
  and parse_factor :: "nat \<Rightarrow> tok list \<Rightarrow> parsed" where
  "parse_or 0 ts = None"
| "parse_or (Suc k) ts = then_parse (parse_and k ts) (or_loop k)"
| "or_loop 0 left ts = None"
| "or_loop (Suc k) left ts = (case ts of
     TOr # ts \<Rightarrow> then_parse (parse_and k ts) (\<lambda>right. or_loop k (Or left right))
   | _ \<Rightarrow> Some (Some (left, ts)))"
| "parse_and 0 ts = None"
| "parse_and (Suc k) ts = then_parse (parse_factor k ts) (and_loop k)"
| "and_loop 0 left ts = None"
| "and_loop (Suc k) left ts =
     (if at_and ts then
        then_parse (parse_factor k (tl ts)) (\<lambda>right. and_loop k (And left right))
      else if starts_factor ts then
        then_parse (parse_factor k ts) (\<lambda>right. and_loop k (And left right))
      else Some (Some (left, ts)))"
| "parse_factor 0 ts = None"
| "parse_factor (Suc k) ts = (case ts of
     TNot # ts \<Rightarrow> then_parse (parse_factor k ts) (\<lambda>f ts. Some (Some (Not f, ts)))
   | LParen # ts \<Rightarrow> then_parse (parse_or k ts) (\<lambda>e ts.
       case ts of RParen # ts \<Rightarrow> Some (Some (e, ts)) | _ \<Rightarrow> Some None)
   | TWord w # ts \<Rightarrow> Some (Some (Term w, ts))
   | _ \<Rightarrow> Some None)"

definition parse_toks :: "tok list \<Rightarrow> node option" where
  "parse_toks ts = (case parse_or (4 * length ts + 4) ts of
     Some (Some (n, [])) \<Rightarrow> Some n | _ \<Rightarrow> None)"

definition parse :: "str \<Rightarrow> node option" where
  "parse s = parse_toks (tokenize s)"

subsection \<open>The evaluator\<close>

text \<open>A \<open>BTreeSet<u32>\<close> is a set; iterating it is ascending.\<close>

definition term_matches :: "unicode \<Rightarrow> str \<Rightarrow> bool \<Rightarrow> str \<Rightarrow> bool" where
  "term_matches U term case_sensitive p \<longleftrightarrow>
     (if case_sensitive then sublist term p else sublist (to_lowercase U term) (to_lowercase U p))"

definition collect_matching ::
  "zstd \<Rightarrow> unicode \<Rightarrow> db_reader \<Rightarrow> str \<Rightarrow> bool \<Rightarrow> u32 list \<Rightarrow> u32 set res" where
  "collect_matching Z U db term case_sensitive ds =
     fold_o (\<lambda>d s. bind_o (doc_path Z db d) (\<lambda>p.
       Ok (if term_matches U term case_sensitive p then insert d s else s))) ds {}"

definition term_docids :: "zstd \<Rightarrow> unicode \<Rightarrow> db_reader \<Rightarrow> str \<Rightarrow> bool \<Rightarrow> u32 set res" where
  "term_docids Z U db term case_sensitive =
     (let lower = to_lowercase U term in
      if term = [] then Ok {}
      else if length lower < 3 then
        collect_matching Z U db term case_sensitive (all_docids (r_num_docs db))
      else bind_o (rarest (db_posting db) (trigrams lower) None) (\<lambda>best. case best of
        None \<Rightarrow> Ok {}
      | Some cands \<Rightarrow> collect_matching Z U db term case_sensitive cands))"

fun evaluate :: "zstd \<Rightarrow> unicode \<Rightarrow> db_reader \<Rightarrow> node \<Rightarrow> bool \<Rightarrow> u32 set res" where
  "evaluate Z U db (Term t) case_sensitive = term_docids Z U db t case_sensitive"
| "evaluate Z U db (Not inner) case_sensitive =
     bind_o (evaluate Z U db inner case_sensitive) (\<lambda>excl.
     Ok (Set.filter (\<lambda>d. d \<notin> excl) (set (all_docids (r_num_docs db)))))"
| "evaluate Z U db (And a b) case_sensitive =
     bind_o (evaluate Z U db a case_sensitive) (\<lambda>sa.
     bind_o (evaluate Z U db b case_sensitive) (\<lambda>sb. Ok (sa \<inter> sb)))"
| "evaluate Z U db (Or a b) case_sensitive =
     bind_o (evaluate Z U db a case_sensitive) (\<lambda>sa.
     bind_o (evaluate Z U db b case_sensitive) (\<lambda>sb. Ok (sa \<union> sb)))"

definition boolean_docids ::
  "zstd \<Rightarrow> unicode \<Rightarrow> db_reader \<Rightarrow> node \<Rightarrow> bool \<Rightarrow> u32 option \<Rightarrow> u32 list res" where
  "boolean_docids Z U db parsed case_sensitive limit =
     bind_o (evaluate Z U db parsed case_sensitive) (\<lambda>docids.
     Ok (take_limit limit (sorted_list_of_set docids)))"

definition paths_of_docids :: "zstd \<Rightarrow> db_reader \<Rightarrow> u32 list \<Rightarrow> str list res" where
  "paths_of_docids Z db docids = map_o (doc_path Z db) docids"

definition boolean_query ::
  "zstd \<Rightarrow> unicode \<Rightarrow> db_reader \<Rightarrow> node \<Rightarrow> u32 option \<Rightarrow> str list res" where
  "boolean_query Z U db parsed limit =
     bind_o (boolean_docids Z U db parsed False limit) (paths_of_docids Z db)"

subsection \<open>The query entry points\<close>

definition single_docids ::
  "zstd \<Rightarrow> unicode \<Rightarrow> db_reader \<Rightarrow> str \<Rightarrow> bool \<Rightarrow> u32 option \<Rightarrow> u32 list res" where
  "single_docids Z U db q case_sensitive limit =
     (let folded = to_lowercase U q in
      candidates (db_posting db) (db_verify Z U db) (r_num_docs db) folded q case_sensitive limit)"

definition query_docids ::
  "zstd \<Rightarrow> unicode \<Rightarrow> db_reader \<Rightarrow> str \<Rightarrow> bool \<Rightarrow> u32 option \<Rightarrow> u32 list res" where
  "query_docids Z U db q case_sensitive limit =
     (if q = [] then Ok []
      else case parse q of
        Some (Term _) \<Rightarrow> single_docids Z U db q case_sensitive limit
      | Some n \<Rightarrow> boolean_docids Z U db n case_sensitive limit
      | None \<Rightarrow> single_docids Z U db q case_sensitive limit)"

definition query :: "zstd \<Rightarrow> unicode \<Rightarrow> db_reader \<Rightarrow> str \<Rightarrow> u32 option \<Rightarrow> str list res" where
  "query Z U db q limit =
     bind_o (query_docids Z U db q False limit) (paths_of_docids Z db)"

subsection \<open>The parser never runs out of fuel\<close>

lemma then_parse_simps [simp]:
  "then_parse None f = None" "then_parse (Some None) f = Some None"
  "then_parse (Some (Some (n, ts))) f = f n ts"
  by (simp_all add: then_parse_def)

lemma then_parse_Some:
  "then_parse p f = Some r \<Longrightarrow>
   (p = Some None \<and> r = None) \<or> (\<exists>n ts. p = Some (Some (n, ts)) \<and> f n ts = Some r)"
  by (auto simp: then_parse_def split: option.splits)

text \<open>\<open>Some\<close> result that consumes at least \<open>m\<close> tokens.\<close>

definition done_within :: "nat \<Rightarrow> tok list \<Rightarrow> parsed \<Rightarrow> bool" where
  "done_within m ts p \<longleftrightarrow> p = Some None \<or> (\<exists>n us. p = Some (Some (n, us)) \<and> length us + m \<le> length ts)"

lemma done_then:
  assumes "done_within m ts p"
    and "\<And>n us. length us + m \<le> length ts \<Longrightarrow> done_within m' ts (f n us)"
  shows "done_within m' ts (then_parse p f)"
proof (cases "p = Some None")
  case True
  then show ?thesis by (simp add: done_within_def)
next
  case False
  then obtain n us where "p = Some (Some (n, us))" "length us + m \<le> length ts"
    using assms(1) by (auto simp: done_within_def)
  then show ?thesis using assms(2) by simp
qed

lemma done_shift: "done_within i us p \<Longrightarrow> length us + m \<le> length ts + i \<Longrightarrow> done_within m ts p"
  by (auto simp: done_within_def)

lemma done_return [simp]: "done_within m ts (Some (Some (n, us))) \<longleftrightarrow> length us + m \<le> length ts"
  "done_within m ts (Some None)"
  by (auto simp: done_within_def)

lemma parser_done:
  "4 * length ts + 4 \<le> k \<Longrightarrow> done_within 1 ts (parse_or k ts)"
  "4 * length ts + 2 \<le> k \<Longrightarrow> done_within 0 ts (or_loop k left ts)"
  "4 * length ts + 3 \<le> k \<Longrightarrow> done_within 1 ts (parse_and k ts)"
  "4 * length ts + 2 \<le> k \<Longrightarrow> done_within 0 ts (and_loop k left ts)"
  "4 * length ts + 1 \<le> k \<Longrightarrow> done_within 1 ts (parse_factor k ts)"
proof (induction k ts and k left ts and k ts and k left ts and k ts
    rule: parse_or_or_loop_parse_and_and_loop_parse_factor.induct)
  case (2 k ts)
  have "done_within 1 ts (then_parse (parse_and k ts) (or_loop k))"
  proof (rule done_then)
    show "done_within 1 ts (parse_and k ts)" using 2 by simp
    fix n and us :: "tok list" assume "length us + 1 \<le> length ts"
    then show "done_within 1 ts (or_loop k n us)" using 2(3) by (intro done_shift [OF 2(2), where m = 1]) simp_all
  qed
  then show ?case by simp
next
  case (4 k left ts)
  have "done_within 0 ts (then_parse (parse_and k us) (\<lambda>right. or_loop k (Or left right)))" if ts: "ts = TOr # us" for us
  proof (rule done_then)
    show "done_within 2 ts (parse_and k us)" using 4(3) ts by (intro done_shift [OF 4(1) [OF ts refl], where m = 2]) simp_all
    fix n and vs :: "tok list" assume "length vs + 2 \<le> length ts"
    then show "done_within 0 ts (or_loop k (Or left n) vs)" using 4(3) ts by (intro done_shift [OF 4(2) [OF ts refl], where m = 0]) simp_all
  qed
  then show ?case by (auto split: list.split tok.split)
next
  case (6 k ts)
  have "done_within 1 ts (then_parse (parse_factor k ts) (and_loop k))"
  proof (rule done_then)
    show "done_within 1 ts (parse_factor k ts)" using 6 by simp
    fix n and us :: "tok list" assume "length us + 1 \<le> length ts"
    then show "done_within 1 ts (and_loop k n us)" using 6(3) by (intro done_shift [OF 6(2), where m = 1]) simp_all
  qed
  then show ?case by simp
next
  case (8 k left ts)
  have ih: "4 * length vs + 2 \<le> k \<Longrightarrow> done_within 0 vs (and_loop k (And left n) vs)"
    if "(\<exists>us. ts = TAnd # us) \<or> starts_factor ts" for n and vs :: "tok list"
    using 8(2) 8(4) that unfolding at_and_iff by blast
  have loop: "done_within 0 ts (and_loop k (And left n) vs)"
    if "(\<exists>us. ts = TAnd # us) \<or> starts_factor ts" "length vs + 1 \<le> length ts" for n and vs :: "tok list"
    using that(2) 8(5) by (intro done_shift [OF ih [OF that(1)], where m = 0]) simp_all
  have a: "done_within 0 ts (then_parse (parse_factor k (tl ts)) (\<lambda>right. and_loop k (And left right)))"
    if "ts = TAnd # us" for us
  proof (rule done_then)
    show "done_within 1 ts (parse_factor k (tl ts))"
    proof (rule done_shift)
      show "done_within 1 (tl ts) (parse_factor k (tl ts))"
        by (rule 8(1)) (use that 8(5) in \<open>simp_all add: at_and_iff\<close>)
    qed (simp add: that)
  qed (use that loop in blast)
  have b: "done_within 0 ts (then_parse (parse_factor k ts) (\<lambda>right. and_loop k (And left right)))"
    if "starts_factor ts" "\<nexists>us. ts = TAnd # us"
  proof (rule done_then)
    show "done_within 1 ts (parse_factor k ts)" by (rule 8(3)) (use that 8(5) in \<open>simp_all add: at_and_iff\<close>)
  qed (use that loop in blast)
  show ?case using a b by (auto simp: at_and_iff)
next
  case (10 k ts)
  have n: "done_within 1 ts (then_parse (parse_factor k us) (\<lambda>f ts. Some (Some (Not f, ts))))"
    if "ts = TNot # us" for us
  proof (rule done_then)
    show "done_within 2 ts (parse_factor k us)"
      using 10(3) that by (intro done_shift [OF 10(1) [OF that refl], where m = 2]) simp_all
  qed (simp add: that)
  have p: "done_within 1 ts (then_parse (parse_or k us) (\<lambda>e ts.
       case ts of RParen # ts \<Rightarrow> Some (Some (e, ts)) | _ \<Rightarrow> Some None))"
    if "ts = LParen # us" for us
  proof (rule done_then)
    show "done_within 2 ts (parse_or k us)"
      using 10(3) that by (intro done_shift [OF 10(2) [OF that refl], where m = 2]) simp_all
  qed (auto simp: that split: list.split tok.split)
  show ?case using n p by (auto split: list.split tok.split)
qed (simp_all add: done_within_def)

text \<open>More fuel gives the same result.\<close>

lemma then_parse_mono:
  assumes "then_parse p f = Some r" "\<And>x. p = Some x \<Longrightarrow> p' = Some x"
    and "\<And>n us x. f n us = Some x \<Longrightarrow> g n us = Some x"
  shows "then_parse p' g = Some r"
  using then_parse_Some [OF assms(1)] assms(2,3) by (metis then_parse_simps(2,3))

lemma more_fuel:
  "parse_or k ts = Some r \<Longrightarrow> parse_or (Suc k) ts = Some r"
  "or_loop k left ts = Some r \<Longrightarrow> or_loop (Suc k) left ts = Some r"
  "parse_and k ts = Some r \<Longrightarrow> parse_and (Suc k) ts = Some r"
  "and_loop k left ts = Some r \<Longrightarrow> and_loop (Suc k) left ts = Some r"
  "parse_factor k ts = Some r \<Longrightarrow> parse_factor (Suc k) ts = Some r"
proof (induction k arbitrary: ts left r and ts left r and ts left r and ts left r and ts left r)
  case (Suc k)
  note IH = Suc.IH
  {
    case 1
    then have "then_parse (parse_and k ts) (or_loop k) = Some r" by simp
    then have "then_parse (parse_and (Suc k) ts) (or_loop (Suc k)) = Some r"
      by (rule then_parse_mono) (fact IH)+
    then show ?case by (subst parse_or.simps)
  next
    case 2
    have "then_parse (parse_and (Suc k) us) (\<lambda>right. or_loop (Suc k) (Or left right)) = Some r"
      if "then_parse (parse_and k us) (\<lambda>right. or_loop k (Or left right)) = Some r" for us
      using that by (rule then_parse_mono) (fact IH)+
    then show ?case using 2
      unfolding or_loop.simps(2) [of k left ts] or_loop.simps(2) [of "Suc k" left ts]
      by (auto simp del: or_loop.simps(2) parse_and.simps(2) split: list.splits tok.splits)
  next
    case 3
    then have "then_parse (parse_factor k ts) (and_loop k) = Some r" by simp
    then have "then_parse (parse_factor (Suc k) ts) (and_loop (Suc k)) = Some r"
      by (rule then_parse_mono) (fact IH)+
    then show ?case by (subst parse_and.simps)
  next
    case 4
    have "then_parse (parse_factor (Suc k) us) (\<lambda>right. and_loop (Suc k) (And left right)) = Some r"
      if "then_parse (parse_factor k us) (\<lambda>right. and_loop k (And left right)) = Some r" for us
      using that by (rule then_parse_mono) (fact IH)+
    then show ?case using 4
      unfolding and_loop.simps(2) [of k left ts] and_loop.simps(2) [of "Suc k" left ts]
      by (auto simp del: and_loop.simps(2) parse_factor.simps(2) split: if_splits)
  next
    case 5
    have n: "then_parse (parse_factor (Suc k) us) (\<lambda>f ts. Some (Some (Not f, ts))) = Some r"
      if "then_parse (parse_factor k us) (\<lambda>f ts. Some (Some (Not f, ts))) = Some r" for us
      using that by (rule then_parse_mono) (auto intro: IH simp del: parse_factor.simps)
    have p: "then_parse (parse_or (Suc k) us) (\<lambda>e ts.
       case ts of RParen # ts \<Rightarrow> Some (Some (e, ts)) | _ \<Rightarrow> Some None) = Some r"
      if "then_parse (parse_or k us) (\<lambda>e ts.
       case ts of RParen # ts \<Rightarrow> Some (Some (e, ts)) | _ \<Rightarrow> Some None) = Some r" for us
      using that by (rule then_parse_mono) (auto intro: IH simp del: parse_or.simps)
    show ?case using 5 n p
      unfolding parse_factor.simps(2) [of k ts] parse_factor.simps(2) [of "Suc k" ts]
      by (auto simp del: parse_factor.simps(2) parse_or.simps(2) split: list.splits tok.splits)
  }
qed simp_all

subsection \<open>The parser without fuel\<close>

lemma fuel_mono:
  assumes "k \<le> k'"
  shows "parse_or k ts = Some r \<Longrightarrow> parse_or k' ts = Some r"
    and "or_loop k left ts = Some r \<Longrightarrow> or_loop k' left ts = Some r"
    and "parse_and k ts = Some r \<Longrightarrow> parse_and k' ts = Some r"
    and "and_loop k left ts = Some r \<Longrightarrow> and_loop k' left ts = Some r"
    and "parse_factor k ts = Some r \<Longrightarrow> parse_factor k' ts = Some r"
  using assms by (induction k' rule: dec_induct; blast intro: more_fuel)+

definition por :: "tok list \<Rightarrow> (node \<times> tok list) option" where
  "por ts = the (parse_or (4 * length ts + 4) ts)"

definition orl :: "node \<Rightarrow> tok list \<Rightarrow> (node \<times> tok list) option" where
  "orl left ts = the (or_loop (4 * length ts + 2) left ts)"

definition pand :: "tok list \<Rightarrow> (node \<times> tok list) option" where
  "pand ts = the (parse_and (4 * length ts + 3) ts)"

definition andl :: "node \<Rightarrow> tok list \<Rightarrow> (node \<times> tok list) option" where
  "andl left ts = the (and_loop (4 * length ts + 2) left ts)"

definition pfac :: "tok list \<Rightarrow> (node \<times> tok list) option" where
  "pfac ts = the (parse_factor (4 * length ts + 1) ts)"

lemma done_Some: "done_within m ts p \<Longrightarrow> p = Some (the p)"
  by (auto simp: done_within_def)

lemma run:
  "4 * length ts + 4 \<le> k \<Longrightarrow> parse_or k ts = Some (por ts)"
  "4 * length ts + 2 \<le> k \<Longrightarrow> or_loop k left ts = Some (orl left ts)"
  "4 * length ts + 3 \<le> k \<Longrightarrow> parse_and k ts = Some (pand ts)"
  "4 * length ts + 2 \<le> k \<Longrightarrow> and_loop k left ts = Some (andl left ts)"
  "4 * length ts + 1 \<le> k \<Longrightarrow> parse_factor k ts = Some (pfac ts)"
  unfolding por_def orl_def pand_def andl_def pfac_def
  by (erule fuel_mono, rule done_Some, rule parser_done, rule order_refl)+

lemma rest_shorter:
  "por ts = Some (n, us) \<Longrightarrow> length us < length ts"
  "pand ts = Some (n, us) \<Longrightarrow> length us < length ts"
  "pfac ts = Some (n, us) \<Longrightarrow> length us < length ts"
  using parser_done(1) [of ts "4 * length ts + 4"] parser_done(3) [of ts "4 * length ts + 3"]
    parser_done(5) [of ts "4 * length ts + 1"]
    run(1) [of ts "4 * length ts + 4"] run(3) [of ts "4 * length ts + 3"] run(5) [of ts "4 * length ts + 1"]
  by (auto simp: done_within_def)

definition andthen :: "(node \<times> tok list) option \<Rightarrow> (node \<Rightarrow> tok list \<Rightarrow> (node \<times> tok list) option) \<Rightarrow>
    (node \<times> tok list) option" where
  "andthen p f = (case p of None \<Rightarrow> None | Some (n, us) \<Rightarrow> f n us)"

lemma andthen_simps [simp]: "andthen None f = None" "andthen (Some (n, us)) f = f n us"
  by (simp_all add: andthen_def)

lemma then_parse_andthen:
  assumes "\<And>n us. p = Some (n, us) \<Longrightarrow> f n us = Some (g n us)"
  shows "then_parse (Some p) f = Some (andthen p g)"
  using assms by (cases p) auto

declare parse_or.simps [simp del] or_loop.simps [simp del] parse_and.simps [simp del]
  and_loop.simps [simp del] parse_factor.simps [simp del]

lemma por_unfold: "por ts = andthen (pand ts) orl"
proof -
  let ?k = "4 * length ts + 3"
  have "Some (por ts) = parse_or (Suc ?k) ts" by (rule run(1) [symmetric]) simp
  also have "\<dots> = then_parse (Some (pand ts)) (or_loop ?k)"
    unfolding parse_or.simps by (subst run(3)) simp_all
  also have "\<dots> = Some (andthen (pand ts) orl)"
    by (intro then_parse_andthen run(2)) (auto dest: rest_shorter)
  finally show ?thesis by simp
qed

lemma pand_unfold: "pand ts = andthen (pfac ts) andl"
proof -
  let ?k = "4 * length ts + 2"
  have "Some (pand ts) = parse_and (Suc ?k) ts" by (rule run(3) [symmetric]) simp
  also have "\<dots> = then_parse (Some (pfac ts)) (and_loop ?k)"
    unfolding parse_and.simps by (subst run(5)) simp_all
  also have "\<dots> = Some (andthen (pfac ts) andl)"
    by (intro then_parse_andthen run(4)) (auto dest: rest_shorter)
  finally show ?thesis by simp
qed

lemma orl_TOr: "orl left (TOr # us) = andthen (pand us) (\<lambda>r. orl (Or left r))"
proof -
  let ?k = "4 * length us + 5"
  have "Some (orl left (TOr # us)) = or_loop (Suc ?k) left (TOr # us)" by (rule run(2) [symmetric]) simp
  also have "\<dots> = then_parse (Some (pand us)) (\<lambda>r. or_loop ?k (Or left r))"
    unfolding or_loop.simps list.case tok.case by (subst run(3)) simp_all
  also have "\<dots> = Some (andthen (pand us) (\<lambda>r. orl (Or left r)))"
    by (intro then_parse_andthen run(2)) (auto dest: rest_shorter)
  finally show ?thesis by simp
qed

lemma orl_stop: "(\<nexists>us. ts = TOr # us) \<Longrightarrow> orl left ts = Some (left, ts)"
  using run(2) [of ts "Suc (4 * length ts + 2)" left] unfolding or_loop.simps by (auto split: list.splits tok.splits)

lemma andl_more:
  assumes "us = (if \<exists>vs. ts = TAnd # vs then tl ts else ts)" "(\<exists>vs. ts = TAnd # vs) \<or> starts_factor ts"
  shows "andl left ts = andthen (pfac us) (\<lambda>r. andl (And left r))"
proof -
  let ?k = "4 * length ts + 2"
  have l: "length us \<le> length ts" using assms(1) by simp
  have "Some (andl left ts) = and_loop (Suc ?k) left ts" by (rule run(4) [symmetric]) simp
  also have "\<dots> = then_parse (Some (pfac us)) (\<lambda>r. and_loop ?k (And left r))"
    unfolding and_loop.simps at_and_iff using assms l by (auto simp: run(5))
  also have "\<dots> = Some (andthen (pfac us) (\<lambda>r. andl (And left r)))"
    using l by (intro then_parse_andthen run(4)) (auto dest!: rest_shorter)
  finally show ?thesis by simp
qed

lemma andl_stop: "(\<nexists>us. ts = TAnd # us) \<Longrightarrow> \<not> starts_factor ts \<Longrightarrow> andl left ts = Some (left, ts)"
  using run(4) [of ts "Suc (4 * length ts + 2)" left] unfolding and_loop.simps at_and_iff by simp

lemma pfac_unfold:
  "pfac (TWord w # ts) = Some (Term w, ts)"
  "pfac (TNot # ts) = andthen (pfac ts) (\<lambda>n us. Some (Not n, us))"
  "pfac (LParen # ts) = andthen (por ts) (\<lambda>n us. case us of RParen # us \<Rightarrow> Some (n, us) | _ \<Rightarrow> None)"
proof -
  let ?k = "4 * length ts + 4"
  have r: "Some (pfac (t # ts)) = parse_factor (Suc ?k) (t # ts)" for t by (rule run(5) [symmetric]) simp
  show "pfac (TWord w # ts) = Some (Term w, ts)"
    using r [of "TWord w"] unfolding parse_factor.simps by simp
  have "parse_factor (Suc ?k) (TNot # ts) = then_parse (Some (pfac ts)) (\<lambda>f ts. Some (Some (Not f, ts)))"
    unfolding parse_factor.simps by (simp add: run(5))
  also have "\<dots> = Some (andthen (pfac ts) (\<lambda>n us. Some (Not n, us)))" by (rule then_parse_andthen) simp
  finally show "pfac (TNot # ts) = andthen (pfac ts) (\<lambda>n us. Some (Not n, us))" using r [of TNot] by simp
  have "parse_factor (Suc ?k) (LParen # ts) = then_parse (Some (por ts)) (\<lambda>e ts.
       case ts of RParen # ts \<Rightarrow> Some (Some (e, ts)) | _ \<Rightarrow> Some None)"
    unfolding parse_factor.simps by (simp add: run(1))
  also have "\<dots> = Some (andthen (por ts) (\<lambda>n us. case us of RParen # us \<Rightarrow> Some (n, us) | _ \<Rightarrow> None))"
    by (rule then_parse_andthen) (simp split: list.split tok.split)
  finally show "pfac (LParen # ts) = andthen (por ts) (\<lambda>n us. case us of RParen # us \<Rightarrow> Some (n, us) | _ \<Rightarrow> None)"
    using r [of LParen] by simp
qed

lemma parse_toks_por: "parse_toks ts = (case por ts of Some (n, []) \<Rightarrow> Some n | _ \<Rightarrow> None)"
  using run(1) [of ts "4 * length ts + 4"]
  by (simp add: parse_toks_def split: option.split prod.split list.split)

subsection \<open>The grammar\<close>

text \<open>
  The language of the comments in the source: a factor is a word, a negated factor or a query
  in parentheses; a conjunction joins factors with \<open>AND\<close> or with nothing, to the left; a query
  joins conjunctions with \<open>OR\<close>, to the left.
\<close>

inductive g_factor :: "tok list \<Rightarrow> node \<Rightarrow> bool"
  and g_and :: "tok list \<Rightarrow> node \<Rightarrow> bool"
  and g_or :: "tok list \<Rightarrow> node \<Rightarrow> bool" where
  word: "g_factor [TWord w] (Term w)"
| negated: "g_factor ts n \<Longrightarrow> g_factor (TNot # ts) (Not n)"
| parens: "g_or ts n \<Longrightarrow> g_factor (LParen # ts @ [RParen]) n"
| one_factor: "g_factor ts n \<Longrightarrow> g_and ts n"
| implicit_and: "g_and ts a \<Longrightarrow> g_factor us b \<Longrightarrow> g_and (ts @ us) (And a b)"
| explicit_and: "g_and ts a \<Longrightarrow> g_factor us b \<Longrightarrow> g_and (ts @ TAnd # us) (And a b)"
| one_and: "g_and ts n \<Longrightarrow> g_or ts n"
| either: "g_or ts a \<Longrightarrow> g_and us b \<Longrightarrow> g_or (ts @ TOr # us) (Or a b)"

lemma then_parse_node:
  "then_parse p f = Some (Some r) \<Longrightarrow> \<exists>n ts. p = Some (Some (n, ts)) \<and> f n ts = Some (Some r)"
  by (drule then_parse_Some) auto

lemma parser_sound:
  "parse_or k ts = Some (Some (n, rest)) \<Longrightarrow> \<exists>us. ts = us @ rest \<and> g_or us n"
  "or_loop k left ts = Some (Some (n, rest)) \<Longrightarrow> g_or pre left \<Longrightarrow> \<exists>us. ts = us @ rest \<and> g_or (pre @ us) n"
  "parse_and k ts = Some (Some (n, rest)) \<Longrightarrow> \<exists>us. ts = us @ rest \<and> g_and us n"
  "and_loop k left ts = Some (Some (n, rest)) \<Longrightarrow> g_and pre left \<Longrightarrow> \<exists>us. ts = us @ rest \<and> g_and (pre @ us) n"
  "parse_factor k ts = Some (Some (n, rest)) \<Longrightarrow> \<exists>us. ts = us @ rest \<and> g_factor us n"
proof (induction k arbitrary: ts n rest left pre and ts n rest left pre and ts n rest left pre
    and ts n rest left pre and ts n rest left pre)
  case (Suc k)
  note IH = Suc.IH
  {
    case 1
    then obtain m us where "parse_and k ts = Some (Some (m, us))" "or_loop k m us = Some (Some (n, rest))"
      unfolding parse_or.simps by (auto dest: then_parse_node)
    moreover from this obtain vs where "ts = vs @ us" "g_and vs m" using IH(3) by blast
    ultimately show ?case using IH(2) [OF _ one_and] by fastforce
  next
    case 2
    show ?case
    proof (cases "\<exists>us. ts = TOr # us")
      case True
      then obtain us where us: "ts = TOr # us" by blast
      have "then_parse (parse_and k us) (\<lambda>right. or_loop k (Or left right)) = Some (Some (n, rest))"
        using 2(1) us unfolding or_loop.simps by simp
      from then_parse_node [OF this] obtain m vs where "ts = TOr # us" "parse_and k us = Some (Some (m, vs))"
        "or_loop k (Or left m) vs = Some (Some (n, rest))" using us by blast
      moreover from this obtain ws where "us = ws @ vs" "g_and ws m" using IH(3) by blast
      ultimately show ?thesis using IH(2) [OF _ either [OF 2(2)]] by fastforce
    next
      case False
      then show ?thesis using 2 unfolding or_loop.simps by (auto split: list.splits tok.splits)
    qed
  next
    case 3
    then obtain m us where "parse_factor k ts = Some (Some (m, us))" "and_loop k m us = Some (Some (n, rest))"
      unfolding parse_and.simps by (auto dest: then_parse_node)
    moreover from this obtain vs where "ts = vs @ us" "g_factor vs m" using IH(5) by blast
    ultimately show ?case using IH(4) [OF _ one_factor] by fastforce
  next
    case 4
    consider us where "ts = TAnd # us" | "\<nexists>us. ts = TAnd # us" "starts_factor ts"
      | "\<nexists>us. ts = TAnd # us" "\<not> starts_factor ts" by blast
    then show ?case
    proof cases
      case 1
      have "then_parse (parse_factor k us) (\<lambda>right. and_loop k (And left right)) = Some (Some (n, rest))"
        using 4(1) 1 unfolding and_loop.simps at_and_iff by simp
      from then_parse_node [OF this] obtain m vs where "parse_factor k us = Some (Some (m, vs))"
        "and_loop k (And left m) vs = Some (Some (n, rest))" by blast
      moreover from this obtain ws where "us = ws @ vs" "g_factor ws m" using IH(5) by blast
      ultimately show ?thesis
        using IH(4) [OF _ explicit_and [OF 4(2)]] 1 by fastforce
    next
      case 2
      have "then_parse (parse_factor k ts) (\<lambda>right. and_loop k (And left right)) = Some (Some (n, rest))"
        using 4(1) 2 unfolding and_loop.simps at_and_iff by simp
      from then_parse_node [OF this] obtain m vs where "parse_factor k ts = Some (Some (m, vs))"
        "and_loop k (And left m) vs = Some (Some (n, rest))" by blast
      moreover from this obtain ws where "ts = ws @ vs" "g_factor ws m" using IH(5) by blast
      ultimately show ?thesis
        using IH(4) [OF _ implicit_and [OF 4(2)]] by fastforce
    qed (use 4 in \<open>auto simp: and_loop.simps at_and_iff\<close>)
  next
    case 5
    consider w us where "ts = TWord w # us" | us where "ts = TNot # us" | us where "ts = LParen # us"
      using 5 unfolding parse_factor.simps by (auto split: list.splits tok.splits)
    then show ?case
    proof cases
      case 1
      then show ?thesis using 5 word by (auto simp: parse_factor.simps)
    next
      case 2
      then obtain m where m: "parse_factor k us = Some (Some (m, rest))" "n = Not m"
        using then_parse_node [of "parse_factor k us" _ "(n, rest)"] 5 unfolding parse_factor.simps by fastforce
      then obtain ws where "us = ws @ rest" "g_factor ws m" using IH(5) by blast
      then show ?thesis using 2 m negated by (intro exI [of _ "TNot # ws"]) auto
    next
      case 3
      then obtain m vs where p: "parse_or k us = Some (Some (m, vs))" "vs = RParen # rest" "n = m"
        using then_parse_node [of "parse_or k us" _ "(n, rest)"] 5 unfolding parse_factor.simps
        by (fastforce split: list.splits tok.splits)
      then obtain ws where "us = ws @ vs" "g_or ws m" using IH(1) by blast
      then show ?thesis using parens 3 p by (intro exI [of _ "LParen # ws @ [RParen]"]) auto
    qed
  }
qed (simp_all add: parse_or.simps or_loop.simps parse_and.simps and_loop.simps parse_factor.simps)

lemma factor_starts: "g_factor us n \<Longrightarrow> starts_factor (us @ rest) \<and> (\<nexists>vs. us @ rest = TAnd # vs)"
  by (cases us n rule: g_factor.cases) auto

lemma parser_complete:
  "g_factor us n \<Longrightarrow> pfac (us @ rest) = Some (n, rest)"
  "g_and us n \<Longrightarrow> pand (us @ rest) = andl n rest"
  "g_or us n \<Longrightarrow> (\<nexists>vs. rest = TAnd # vs) \<Longrightarrow> \<not> starts_factor rest \<Longrightarrow> por (us @ rest) = orl n rest"
proof (induction us n and us n and us n arbitrary: rest and rest and rest rule: g_factor_g_and_g_or.inducts)
  case (parens ts n)
  have "por (ts @ RParen # rest) = orl n (RParen # rest)" by (rule parens.IH) auto
  then show ?case by (simp add: pfac_unfold orl_stop)
next
  case (implicit_and ts a us b)
  have "pand (ts @ us @ rest) = andl a (us @ rest)" by (rule implicit_and.IH)
  also have "\<dots> = andthen (pfac (us @ rest)) (\<lambda>r. andl (And a r))"
    using factor_starts [OF implicit_and.hyps(2), of rest] by (intro andl_more) auto
  finally show ?case using implicit_and.IH(2) by simp
next
  case (explicit_and ts a us b)
  have "pand (ts @ TAnd # us @ rest) = andl a (TAnd # us @ rest)" by (rule explicit_and.IH)
  also have "\<dots> = andthen (pfac (us @ rest)) (\<lambda>r. andl (And a r))" by (rule andl_more) auto
  finally show ?case using explicit_and.IH(2) by simp
next
  case (one_and ts n)
  then show ?case by (simp add: por_unfold andl_stop)
next
  case (either ts a us b)
  have "por (ts @ TOr # us @ rest) = orl a (TOr # us @ rest)" by (rule either.IH) auto
  also have "\<dots> = andthen (pand (us @ rest)) (\<lambda>r. orl (Or a r))" by (rule orl_TOr)
  finally show ?case using either.IH(2) either.prems by (simp add: andl_stop)
qed (simp_all add: pfac_unfold pand_unfold)

lemma parse_toks_iff: "parse_toks ts = Some n \<longleftrightarrow> g_or ts n"
proof
  assume "parse_toks ts = Some n"
  then have "parse_or (4 * length ts + 4) ts = Some (Some (n, []))"
    by (auto simp: parse_toks_def split: option.splits prod.splits list.splits)
  then show "g_or ts n" using parser_sound(1) by fastforce
next
  assume "g_or ts n"
  then have "por ts = Some (n, [])" using parser_complete(3) [of ts n "[]"] by (simp add: orl_stop)
  then show "parse_toks ts = Some n" by (simp add: parse_toks_por)
qed

subsection \<open>The tokens of a string\<close>

fun tok_text :: "tok \<Rightarrow> str" where
  "tok_text (TWord w) = w"
| "tok_text TAnd = lit ''AND''"
| "tok_text TOr = lit ''OR''"
| "tok_text TNot = lit ''NOT''"
| "tok_text LParen = [0x28]"
| "tok_text RParen = [0x29]"

definition word_char :: "nat \<Rightarrow> bool" where
  "word_char c \<longleftrightarrow> scalar c \<and> \<not> is_whitespace c \<and> c \<noteq> 0x28 \<and> c \<noteq> 0x29"

fun tok_ok :: "tok \<Rightarrow> bool" where
  "tok_ok (TWord w) \<longleftrightarrow> w \<noteq> [] \<and> w \<notin> {lit ''AND'', lit ''OR'', lit ''NOT''} \<and>
     (\<exists>cs. w = encode_str cs \<and> (\<forall>c\<in>set cs. word_char c))"
| "tok_ok _ = True"

definition token_state :: "nat list \<Rightarrow> str \<times> tok list \<Rightarrow> bool" where
  "token_state seen s = (case s of (cur, toks) \<Rightarrow>
     concat (map tok_text toks) @ cur = encode_str (filter (\<lambda>c. \<not> is_whitespace c) seen) \<and>
     (\<forall>t\<in>set toks. tok_ok t) \<and> (\<exists>cs. cur = encode_str cs \<and> (\<forall>c\<in>set cs. word_char c)))"

lemma flush_state: "token_state seen s \<Longrightarrow> token_state seen (flush s) \<and> fst (flush s) = []"
  by (auto simp: token_state_def flush_def split: prod.splits intro: exI [of _ "[]"])

lemma encode_str_append: "encode_str (xs @ ys) = encode_str xs @ encode_str ys"
  by (simp add: encode_str_def)

lemma token_step_state:
  assumes "token_state seen s" "scalar c"
  shows "token_state (seen @ [c]) (token_step c s)"
proof -
  obtain cur toks where f: "flush s = (cur, toks)" by (cases "flush s")
  have fl: "token_state seen (cur, toks)" "cur = []" using flush_state [OF assms(1)] f by auto
  have pchar: "encode_char 0x28 = [0x28]" "encode_char 0x29 = [0x29]" "\<not> is_whitespace 0x28" "\<not> is_whitespace 0x29"
    by (simp_all add: encode_char_def byte_def is_whitespace_def)
  show ?thesis
  proof (cases "c = 0x28 \<or> c = 0x29 \<or> is_whitespace c")
    case True
    then show ?thesis using fl pchar
      by (auto simp: token_step_def f token_state_def encode_str_append)
  next
    case False
    obtain cs where cs: "fst s = encode_str cs" "\<forall>c\<in>set cs. word_char c"
      using assms(1) by (auto simp: token_state_def split: prod.splits)
    have "fst s @ encode_char c = encode_str (cs @ [c])" by (simp add: cs encode_str_append)
    moreover have "\<forall>d\<in>set (cs @ [c]). word_char d" using cs False assms(2) by (auto simp: word_char_def)
    ultimately have "\<exists>ds. fst s @ encode_char c = encode_str ds \<and> (\<forall>d\<in>set ds. word_char d)" by blast
    then show ?thesis using False assms(1)
      by (auto simp: token_step_def token_state_def encode_str_append split: prod.splits)
  qed
qed

lemma tokenize_state:
  assumes "\<forall>c\<in>set (chars s). scalar c"
  shows "concat (map tok_text (tokenize s)) = encode_str (filter (\<lambda>c. \<not> is_whitespace c) (chars s)) \<and>
    (\<forall>t\<in>set (tokenize s). tok_ok t)"
proof -
  have "token_state cs (fold token_step cs ([], []))" if "\<forall>c\<in>set cs. scalar c" for cs
    using that
  proof (induction cs rule: rev_induct)
    case Nil
    show ?case by (auto simp: token_state_def intro: exI [of _ "[]"])
  qed (simp add: token_step_state)
  from flush_state [OF this [OF assms]] show ?thesis
    by (auto simp: tokenize_def token_state_def split: prod.splits)
qed

fun terms_of :: "node \<Rightarrow> str set" where
  "terms_of (Term t) = {t}"
| "terms_of (And a b) = terms_of a \<union> terms_of b"
| "terms_of (Or a b) = terms_of a \<union> terms_of b"
| "terms_of (Not a) = terms_of a"

lemma grammar_terms:
  "g_factor ts n \<Longrightarrow> TWord ` terms_of n \<subseteq> set ts"
  "g_and ts n \<Longrightarrow> TWord ` terms_of n \<subseteq> set ts"
  "g_or ts n \<Longrightarrow> TWord ` terms_of n \<subseteq> set ts"
  by (induction rule: g_factor_g_and_g_or.inducts) auto

lemma parse_terms:
  assumes "valid_utf8 q" "parse q = Some n" "t \<in> terms_of n"
  shows "t \<noteq> []" "valid_utf8 t"
proof -
  have "TWord t \<in> set (tokenize q)"
    using grammar_terms(3) assms(2,3) by (auto simp: parse_def parse_toks_iff)
  then have "tok_ok (TWord t)" using tokenize_state [of q] scalar_chars [OF assms(1)] by blast
  then show "t \<noteq> []" "valid_utf8 t" by (auto simp: word_char_def)
qed

subsection \<open>What the evaluator computes\<close>

fun node_sem :: "unicode \<Rightarrow> node \<Rightarrow> bool \<Rightarrow> str \<Rightarrow> bool" where
  "node_sem U (Term t) cs p \<longleftrightarrow> t \<noteq> [] \<and> term_matches U t cs p"
| "node_sem U (And a b) cs p \<longleftrightarrow> node_sem U a cs p \<and> node_sem U b cs p"
| "node_sem U (Or a b) cs p \<longleftrightarrow> node_sem U a cs p \<or> node_sem U b cs p"
| "node_sem U (Not a) cs p \<longleftrightarrow> \<not> node_sem U a cs p"

text \<open>What case-sensitive searches assume of the indexed paths (see \<open>path_hit_trigrams\<close>).\<close>

definition case_ok :: "zstd \<Rightarrow> unicode \<Rightarrow> db_reader \<Rightarrow> bool \<Rightarrow> bool" where
  "case_ok Z U r cs \<longleftrightarrow> (cs \<longrightarrow> unicode_ok U \<and> (\<forall>d<r_num_docs r. \<not> has_sigma (path_of Z r d)))"

lemma collect_matching_set:
  assumes "\<And>d. d \<in> set ds \<Longrightarrow> doc_path Z r d = Ok (f d)"
  shows "collect_matching Z U r t cs ds = Ok {d \<in> set ds. term_matches U t cs (f d)}"
proof -
  have "fold_o (\<lambda>d s. bind_o (doc_path Z r d) (\<lambda>p. Ok (if term_matches U t cs p then insert d s else s))) ds s
    = Ok (s \<union> {d \<in> set ds. term_matches U t cs (f d)})" for s
    using assms by (induction ds arbitrary: s) auto
  then show ?thesis by (simp add: collect_matching_def)
qed

lemma term_matches_hit: "term_matches U t cs p \<longleftrightarrow> path_hit U p (if cs then t else to_lowercase U t) cs"
  by (simp add: term_matches_def path_hit_def)

lemma term_docids_exact:
  assumes "db_good Z U r" "case_ok Z U r cs" "valid_utf8 t"
  shows "term_docids Z U r t cs = Ok {d. d < r_num_docs r \<and> node_sem U (Term t) cs (path_of Z r d)}"
proof -
  note path = good_doc_path [OF assms(1)]
  let ?tri = "\<lambda>d. set (trigrams (to_lowercase U (path_of Z r d)))"
  have over: "set (trigrams (to_lowercase U t)) \<subseteq> ?tri d"
    if "d < r_num_docs r" "term_matches U t cs (path_of Z r d)" for d
    using that assms path by (intro path_hit_trigrams [of U _ cs]) (auto simp: term_matches_hit case_ok_def)
  consider "t = []" | "t \<noteq> []" "length (to_lowercase U t) < 3" | "t \<noteq> []" "3 \<le> length (to_lowercase U t)"
    by linarith
  then show ?thesis
  proof cases
    case 2
    have "collect_matching Z U r t cs (all_docids (r_num_docs r)) =
        Ok {d \<in> set (all_docids (r_num_docs r)). term_matches U t cs (path_of Z r d)}"
      by (rule collect_matching_set) (simp add: set_all_docids path)
    then show ?thesis using 2 by (simp add: term_docids_def Let_def set_all_docids)
  next
    case 3
    obtain c where c: "rarest (db_posting r) (trigrams (to_lowercase U t)) None = Ok c"
      and cc: "case c of
         None \<Rightarrow> \<forall>d<r_num_docs r. \<not> set (trigrams (to_lowercase U t)) \<subseteq> ?tri d
       | Some ds \<Rightarrow> \<exists>k\<in>set (trigrams (to_lowercase U t)).
           ds = filter (\<lambda>d. k \<in> ?tri d) (all_docids (r_num_docs r))"
      using db.rarest_posting [OF assms(1) 3(2)] by blast
    show ?thesis
    proof (cases c)
      case None
      then show ?thesis using c cc over 3 by (auto simp: term_docids_def Let_def)
    next
      case (Some ds)
      then obtain k where k: "k \<in> set (trigrams (to_lowercase U t))"
        "set ds = {d. d < r_num_docs r \<and> k \<in> ?tri d}"
        using cc by (auto simp: set_all_docids)
      have "collect_matching Z U r t cs ds = Ok {d \<in> set ds. term_matches U t cs (path_of Z r d)}"
        by (rule collect_matching_set) (simp add: k path)
      moreover have "{d \<in> set ds. term_matches U t cs (path_of Z r d)} =
          {d. d < r_num_docs r \<and> term_matches U t cs (path_of Z r d)}"
        using k over by auto
      ultimately show ?thesis using c Some 3 by (simp add: term_docids_def Let_def)
    qed
  qed (simp add: term_docids_def)
qed

lemma evaluate_exact:
  assumes "db_good Z U r" "case_ok Z U r cs" "\<And>t. t \<in> terms_of n \<Longrightarrow> valid_utf8 t"
  shows "evaluate Z U r n cs = Ok {d. d < r_num_docs r \<and> node_sem U n cs (path_of Z r d)}"
  using assms(3)
proof (induction n)
  case (Term t)
  then show ?case using term_docids_exact [OF assms(1,2)] by simp
qed (auto simp: set_all_docids)

lemma sorted_docids_filter:
  "sorted_list_of_set {d. d < n \<and> P d} = filter P (all_docids n)"
proof -
  have "{d. d < n \<and> P d} = set (filter P (all_docids n))" by (auto simp: set_all_docids)
  then show ?thesis
    using sorted_all_docids [of n] distinct_all_docids [of n]
    by (simp only: sorted_list_of_set_sort_remdups) (simp add: sorted_wrt_filter sort_key_id_if_sorted distinct_remdups_id)
qed

definition query_matches :: "unicode \<Rightarrow> str \<Rightarrow> bool \<Rightarrow> str \<Rightarrow> bool" where
  "query_matches U q cs p \<longleftrightarrow> q \<noteq> [] \<and>
     (case parse q of
        Some (Term _) \<Rightarrow> path_hit U p (if cs then q else to_lowercase U q) cs
      | Some n \<Rightarrow> node_sem U n cs p
      | None \<Rightarrow> path_hit U p (if cs then q else to_lowercase U q) cs)"

lemma single_docids_exact:
  assumes "db_good Z U r" "case_ok Z U r cs" "valid_utf8 q"
  shows "single_docids Z U r q cs limit = Ok (take_limit limit
    (filter (\<lambda>d. path_hit U (path_of Z r d) (if cs then q else to_lowercase U q) cs) (all_docids (r_num_docs r))))"
  unfolding single_docids_def Let_def
  using assms good_doc_path [OF assms(1)]
  by (intro db.candidates_exact path_hit_trigrams [of U _ cs]) (auto simp: case_ok_def)

lemma boolean_docids_exact:
  assumes "db_good Z U r" "case_ok Z U r cs" "\<And>t. t \<in> terms_of n \<Longrightarrow> valid_utf8 t"
  shows "boolean_docids Z U r n cs limit = Ok (take_limit limit
    (filter (\<lambda>d. node_sem U n cs (path_of Z r d)) (all_docids (r_num_docs r))))"
  using evaluate_exact [OF assms] by (simp add: boolean_docids_def sorted_docids_filter)

lemma query_docids_exact:
  assumes "db_good Z U r" "case_ok Z U r cs" "valid_utf8 q"
  shows "query_docids Z U r q cs limit = Ok (take_limit limit
    (filter (\<lambda>d. query_matches U q cs (path_of Z r d)) (all_docids (r_num_docs r))))"
proof (cases "q = []")
  case True
  then show ?thesis by (simp add: query_docids_def query_matches_def take_limit_def split: option.split)
next
  case False
  show ?thesis
  proof (cases "parse q")
    case None
    then show ?thesis using False single_docids_exact [OF assms] by (simp add: query_docids_def query_matches_def)
  next
    case (Some n)
    have "boolean_docids Z U r n cs limit = Ok (take_limit limit
        (filter (\<lambda>d. node_sem U n cs (path_of Z r d)) (all_docids (r_num_docs r))))"
      using parse_terms [OF assms(3) Some] by (intro boolean_docids_exact assms)
    then show ?thesis using False Some single_docids_exact [OF assms]
      by (cases n) (simp_all add: query_docids_def query_matches_def)
  qed
qed

lemma take_limit_map: "map f (take_limit limit xs) = take_limit limit (map f xs)"
  by (simp add: take_limit_def take_map split: option.split)

lemma set_take_limit: "set (take_limit limit xs) \<subseteq> set xs"
  by (auto simp: take_limit_def split: option.splits dest: in_set_takeD)

lemma paths_of_docids_good:
  assumes "db_good Z U r" "set ds \<subseteq> {d. d < r_num_docs r}"
  shows "paths_of_docids Z r ds = Ok (map (path_of Z r) ds)"
  unfolding paths_of_docids_def by (rule map_o_Ok) (use assms good_doc_path in blast)

lemma query_exact:
  assumes "db_good Z U r" "valid_utf8 q"
  shows "query Z U r q limit = Ok (take_limit limit (filter (query_matches U q False)
    (map (path_of Z r) (all_docids (r_num_docs r)))))"
proof -
  let ?ds = "filter (\<lambda>d. query_matches U q False (path_of Z r d)) (all_docids (r_num_docs r))"
  have "query_docids Z U r q False limit = Ok (take_limit limit ?ds)"
    by (rule query_docids_exact [OF assms(1) _ assms(2)]) (simp add: case_ok_def)
  moreover have "set (take_limit limit ?ds) \<subseteq> {d. d < r_num_docs r}"
    using set_take_limit [of limit ?ds] by (auto simp: set_all_docids)
  ultimately show ?thesis
    using paths_of_docids_good [OF assms(1)] by (simp add: query_def take_limit_map filter_map comp_def)
qed

lemma finished_paths:
  assumes "finished Z U B table F" "zstd_ok Z"
  shows "map (path_of Z (db_opened Z B F)) (all_docids (r_num_docs (db_opened Z B F))) = b_paths B"
proof (rule nth_equalityI)
  have n: "length (b_paths B) < 2 ^ 32" using assms(1) by (simp add: finished_def wf_builder_def)
  then show "length (map (path_of Z (db_opened Z B F)) (all_docids (r_num_docs (db_opened Z B F)))) = length (b_paths B)"
    by simp
  fix i assume "i < length (map (path_of Z (db_opened Z B F)) (all_docids (r_num_docs (db_opened Z B F))))"
  then have "i < length (b_paths B)" using n by simp
  then show "map (path_of Z (db_opened Z B F)) (all_docids (r_num_docs (db_opened Z B F))) ! i = b_paths B ! i"
    using n doc_path_finished [OF assms] by (simp add: nth_all_docids path_of_def)
qed

subsection \<open>Properties\<close>

text \<open>
  C4. A query over a finished database is exact. Build a database, open the file, and run any
  query: the result is the paths that were inserted and satisfy the query, in the order of
  insertion, cut at the limit. No match is lost by the trigram prefilter, by the rarest-posting
  choice or by the boolean evaluation, and nothing else is returned.
\<close>

theorem query_end_to_end:
  assumes "wf_builder U B" and "zstd_ok Z" and "finish Z B = Some F" and "length F < 2 ^ 32"
    and "valid_utf8 q"
  shows "\<exists>r. open_db F = Ok r \<and>
    query Z U r q limit = Ok (take_limit limit (filter (query_matches U q False) (b_paths B)))"
proof -
  obtain table where fin: "finished Z U B table F" using finish_Some_finished [OF assms(1,3,4)] by auto
  then have "db_good Z U (db_opened Z B F)" using assms(2) by (auto simp: db_good_def)
  from query_exact [OF this assms(5), of limit] show ?thesis
    using open_finished [OF fin] finished_paths [OF fin assms(2)] by simp
qed

theorem query_end_to_end_witness:
  "\<exists>F r. finish stored_zstd demo_builder = Some F \<and> open_db F = Ok r \<and>
     query stored_zstd ascii_tables r (lit ''bC NOT d'') None = Ok [lit ''abc'']"
proof -
  obtain F where F: "finish stored_zstd demo_builder = Some F" using finish_finished [OF demo_wf] by blast
  have q: "valid_utf8 (lit ''bC NOT d'')" by (rule valid_ascii) code_simp
  have "filter (query_matches ascii_tables (lit ''bC NOT d'') False) (b_paths demo_builder) = [lit ''abc'']"
    by code_simp
  then show ?thesis
    using query_end_to_end [OF demo_wf stored_zstd_ok F demo_length [OF F] q, of None] F
    by (auto simp: take_limit_def)
qed

text \<open>
  The same for document ids and both case modes. A case-sensitive search is exact for
  indexed paths without a capital sigma, the only letter whose lowercase depends on its
  context; without that the lowercased query need not occur in the lowercased path.
\<close>

theorem query_docids_end_to_end:
  assumes "wf_builder U B" and "zstd_ok Z" and "finish Z B = Some F" and "length F < 2 ^ 32"
    and "valid_utf8 q" and "cs \<longrightarrow> unicode_ok U \<and> (\<forall>p\<in>set (b_paths B). \<not> has_sigma p)"
  shows "\<exists>r. open_db F = Ok r \<and> query_docids Z U r q cs limit = Ok (take_limit limit
    (map of_nat (filter (\<lambda>d. query_matches U q cs (b_paths B ! d)) [0..<length (b_paths B)])))"
proof -
  obtain table where fin: "finished Z U B table F" using finish_Some_finished [OF assms(1,3,4)] by auto
  let ?r = "db_opened Z B F"
  have n: "length (b_paths B) < 2 ^ 32" using assms(1) by (simp add: wf_builder_def)
  have at: "path_of Z ?r (of_nat d) = b_paths B ! d" if "d < length (b_paths B)" for d
    using doc_path_finished [OF fin assms(2) that] by (simp add: path_of_def)
  have "\<not> has_sigma (path_of Z ?r d)" if "d < r_num_docs ?r" cs for d
  proof -
    have "d < of_nat (length (b_paths B))" using that by simp
    then obtain i where "i < length (b_paths B)" "d = of_nat i" using n by (rule docid_of_nat)
    then show ?thesis using assms(6) that(2) at by simp
  qed
  then have "case_ok Z U ?r cs" using assms(6) by (simp add: case_ok_def)
  moreover have "db_good Z U ?r" using fin assms(2) by (auto simp: db_good_def)
  moreover have "filter (\<lambda>d. query_matches U q cs (path_of Z ?r d)) (all_docids (r_num_docs ?r)) =
      map of_nat (filter (\<lambda>d. query_matches U q cs (b_paths B ! d)) [0..<length (b_paths B)])"
  proof -
    have "filter (\<lambda>d. query_matches U q cs (path_of Z ?r (of_nat d))) [0..<length (b_paths B)] =
        filter (\<lambda>d. query_matches U q cs (b_paths B ! d)) [0..<length (b_paths B)]"
      by (rule filter_cong) (simp_all add: at)
    then show ?thesis using n by (simp add: all_docids_def filter_map comp_def)
  qed
  ultimately show ?thesis
    using open_finished [OF fin] query_docids_exact [OF _ _ assms(5), of Z U ?r cs limit] by simp
qed

theorem query_docids_end_to_end_witness:
  "\<exists>F r. finish stored_zstd demo_builder = Some F \<and> open_db F = Ok r \<and>
     query_docids stored_zstd ascii_tables r (lit ''Abc'') True (Some 5) = Ok [0]"
proof -
  obtain F where F: "finish stored_zstd demo_builder = Some F" using finish_finished [OF demo_wf] by blast
  have q: "valid_utf8 (lit ''Abc'')" by (rule valid_ascii) code_simp
  have c: "True \<longrightarrow> unicode_ok ascii_tables \<and> (\<forall>p\<in>set (b_paths demo_builder). \<not> has_sigma p)"
    by (simp add: demo_paths has_sigma_def chars_ascii)
  have "filter (\<lambda>d. query_matches ascii_tables (lit ''Abc'') True (b_paths demo_builder ! d))
      [0..<length (b_paths demo_builder)] = [0]"
    by code_simp
  then show ?thesis
    using query_docids_end_to_end [OF demo_wf stored_zstd_ok F demo_length [OF F] q c, of "Some 5"] F
    by (auto simp: take_limit_def)
qed

text \<open>
  C22. The parser accepts exactly the grammar and builds the tree the grammar assigns: NOT binds
  tighter than AND (written or implied), AND tighter than OR, both to the left. In particular
  a token list has at most one tree.
\<close>

theorem parse_iff_grammar: "parse s = Some n \<longleftrightarrow> g_or (tokenize s) n"
  by (simp add: parse_def parse_toks_iff)

text \<open>
  The recursive descent ends: four calls per token and four more are always enough.\<close>

theorem parser_total: "\<exists>r. parse_or (4 * length ts + 4) ts = Some r"
  using run(1) by blast

fun print_toks :: "node \<Rightarrow> tok list" where
  "print_toks (Term w) = [TWord w]"
| "print_toks (Not a) = TNot # print_toks a"
| "print_toks (And a b) = LParen # (print_toks a @ TAnd # print_toks b) @ [RParen]"
| "print_toks (Or a b) = LParen # (print_toks a @ TOr # print_toks b) @ [RParen]"

lemma print_grammar: "g_factor (print_toks n) n"
proof (induction n)
  case (And a b)
  then have "g_or (print_toks a @ TAnd # print_toks b) (And a b)"
    by (intro one_and explicit_and one_factor)
  then show ?case unfolding print_toks.simps by (rule parens)
next
  case (Or a b)
  then have "g_or (print_toks a @ TOr # print_toks b) (Or a b)"
    by (intro either one_and one_factor)
  then show ?case unfolding print_toks.simps by (rule parens)
qed (auto intro: word negated)

text \<open>
  Printing a tree with full parentheses and parsing the tokens gives the tree back.\<close>

theorem print_parse_roundtrip: "parse_toks (print_toks n) = Some n"
  using print_grammar by (simp add: parse_toks_iff one_and one_factor)

text \<open>
  The tokenizer drops whitespace and nothing else, and a word is never empty, an operator,
  or interrupted by a parenthesis or whitespace.
\<close>

theorem tokenize_preserves:
  assumes "valid_utf8 s"
  shows "concat (map tok_text (tokenize s)) = encode_str (filter (\<lambda>c. \<not> is_whitespace c) (chars s)) \<and>
    (\<forall>t\<in>set (tokenize s). tok_ok t)"
  using tokenize_state scalar_chars [OF assms] by blast

theorem tokenize_preserves_witness:
  "concat (map tok_text (tokenize (lit ''(a OR b) c''))) =
     encode_str (filter (\<lambda>c. \<not> is_whitespace c) (chars (lit ''(a OR b) c'')))"
proof -
  have "valid_utf8 (lit ''(a OR b) c'')" by (rule valid_ascii) code_simp
  from tokenize_preserves [OF this] show ?thesis by blast
qed

text \<open>
  A query that parses to one term is searched as the raw string, parentheses and spaces
  included: \<open>(abc)\<close> parses to the term \<open>abc\<close>, the path \<open>abc\<close> satisfies that term, and the
  query still does not match it.
\<close>

theorem lone_term_is_raw:
  "parse (lit ''(abc)'') = Some (Term (lit ''abc'')) \<and>
   node_sem ascii_tables (Term (lit ''abc'')) False (lit ''abc'') \<and>
   \<not> query_matches ascii_tables (lit ''(abc)'') False (lit ''abc'')"
  by code_simp

end
