(* ===== verification/Varint.thy ===== *)
theory Varint
  imports Prelude
begin

section \<open>The LEB128 codec (crates/df-core/src/varint.rs)\<close>

text \<open>
  \<open>encode_u32\<close> appends the 7-bit groups of a value, low group first, each but the last with its
  high bit set. \<open>decode_u32\<close> takes the buffer and the position behind \<open>*pos\<close> and returns the
  value, if there is one, with the advanced position. The bundle \<open>varint\<close> of the shard and
  manifest theories is the round trip with an arbitrary prefix and suffix.
\<close>

function encode_u32 :: "u32 \<Rightarrow> bytes \<Rightarrow> bytes" where
  "encode_u32 v out =
     (let b = ucast (v AND 0x7F) :: u8; v' = drop_bit 7 v in
      if v' \<noteq> 0 then encode_u32 v' (out @ [b OR 0x80]) else out @ [b])"
  by pat_completeness auto
termination
proof (relation "measure (\<lambda>(v, out). unat v)")
  fix v x :: u32 and out :: bytes and b :: u8
  assume "x = drop_bit 7 v" "x \<noteq> 0"
  then have "unat x = unat v div 128" "unat x \<noteq> 0"
    using unat_eq_0 [of x] by (simp_all add: unat_drop_bit del: unat_eq_zero)
  then have "unat x < unat v" by linarith
  then show "((x, out @ [b OR 0x80]), v, out) \<in> measure (\<lambda>(v, out). unat v)" by simp
qed simp

function decode_loop :: "bytes \<Rightarrow> nat \<Rightarrow> u32 \<Rightarrow> nat \<Rightarrow> u32 option \<times> nat" where
  "decode_loop buf pos result shift =
     (if pos \<ge> length buf then (None, pos)
      else
        let b = buf ! pos;
            result' = result OR push_bit shift (ucast (b AND 0x7F)) in
        if b AND 0x80 = 0 then (Some result', pos + 1)
        else if shift + 7 \<ge> 35 then (None, pos + 1)
        else decode_loop buf (pos + 1) result' (shift + 7))"
  by pat_completeness auto
termination
  by (relation "measure (\<lambda>(buf, pos, result, shift). length buf - pos)") auto

definition decode_u32 :: "bytes \<Rightarrow> nat \<Rightarrow> u32 option \<times> nat" where
  "decode_u32 buf pos = decode_loop buf pos 0 0"

declare encode_u32.simps [simp del] decode_loop.simps [simp del]

subsection \<open>The encoding as a list of groups\<close>

definition varint :: "u32 \<Rightarrow> bytes" where
  "varint v = encode_u32 v []"

lemma encode_u32_append: "encode_u32 v out = out @ varint v"
proof -
  have "encode_u32 v (o1 @ o2) = o1 @ encode_u32 v o2" for o1 o2
  proof (induction v o2 rule: encode_u32.induct)
    case (1 v o2)
    then show ?case by (subst (1 2) encode_u32.simps) (simp add: Let_def)
  qed
  from this [of out "[]"] show ?thesis by (simp add: varint_def)
qed

lemma varint_unfold:
  "varint v = (if drop_bit 7 v \<noteq> 0 then (ucast (v AND 0x7F) OR 0x80) # varint (drop_bit 7 v)
     else [ucast (v AND 0x7F)])"
  unfolding varint_def by (subst encode_u32.simps) (simp add: Let_def encode_u32_append [of _ "[_]"] varint_def)

lemma group_low: "(ucast ((ucast (v AND 0x7F) :: u8) AND 0x7F) :: u32) = v AND 0x7F"
  unfolding mask7 by (rule bit_eqI) (auto simp: bit_simps)

lemma group_low_cont: "(ucast (((ucast (v AND 0x7F) :: u8) OR 0x80) AND 0x7F) :: u32) = v AND 0x7F"
  unfolding mask7 by (rule bit_eqI) (auto simp: bit_simps)

lemma group_last: "(ucast (v AND 0x7F :: u32) :: u8) AND 0x80 = 0"
  unfolding mask7 by (rule bit_eqI) (auto simp: bit_simps)

lemma group_more: "((ucast (v AND 0x7F :: u32) :: u8) OR 0x80) AND 0x80 \<noteq> 0"
proof -
  have "bit (((ucast (v AND 0x7F :: u32) :: u8) OR 0x80) AND 0x80) 7"
    by (simp add: bit_simps)
  then show ?thesis by (metis bit_0_eq bot_apply bot_bool_def)
qed

lemma group_join:
  "push_bit s (v AND 0x7F) OR push_bit (s + 7) (drop_bit 7 v) = push_bit s (v :: u32)"
proof -
  have "n - s < 7 \<or> 7 + (n - (s + 7)) = n - s" if "s \<le> n" for n using that by linarith
  then show ?thesis unfolding mask7 by (intro bit_eqI) (fastforce simp: bit_simps)
qed

lemma decode_loop_varint:
  assumes "unat v < 2 ^ (32 - s)" "s \<in> {0, 7, 14, 21, 28}"
  shows "decode_loop (pre @ varint v @ post) (length pre) r s
    = (Some (r OR push_bit s v), length pre + length (varint v))"
  using assms
proof (induction "unat v" arbitrary: v pre r s rule: less_induct)
  case less
  show ?case
  proof (cases "drop_bit 7 v = 0")
    case True
    then have "v AND 0x7F = v"
      unfolding mask7 by (metis (mono_tags) bits_ident or.right_neutral push_bit_of_0 take_bit_eq_mask xor.commute add.left_neutral)
    with True show ?thesis
      by (subst decode_loop.simps)
        (use group_last [of v] group_low [of v] in \<open>simp add: varint_unfold [of v] Let_def nth_append\<close>)
  next
    case False
    let ?v = "drop_bit 7 v" and ?b = "(ucast (v AND 0x7F) :: u8) OR 0x80"
    have q: "unat ?v = unat v div 128" by (simp add: unat_drop_bit)
    have nz: "unat ?v \<noteq> 0" using False by (simp add: unat_eq_0)
    have lt: "unat ?v < unat v" using q nz by linarith
    have s: "s \<noteq> 28" using less.prems q nz by auto
    then have s7: "s + 7 \<in> {0, 7, 14, 21, 28}" "\<not> s + 7 \<ge> 35" using less.prems by auto
    have bound: "unat ?v < 2 ^ (32 - (s + 7))" using less.prems q s by (auto simp: less_mult_imp_div_less)
    have "decode_loop (pre @ varint v @ post) (length pre) r s =
        decode_loop ((pre @ [?b]) @ varint ?v @ post) (length (pre @ [?b]))
          (r OR push_bit s (v AND 0x7F)) (s + 7)"
      using False s7(2) by (subst decode_loop.simps)
        (use group_more [of v] group_low_cont [of v] in
          \<open>simp add: varint_unfold [of v] Let_def nth_append\<close>)
    also have "\<dots> = (Some ((r OR push_bit s (v AND 0x7F)) OR push_bit (s + 7) ?v),
        length (pre @ [?b]) + length (varint ?v))"
      by (rule less.hyps [OF lt bound s7(1)])
    also have "(r OR push_bit s (v AND 0x7F)) OR push_bit (s + 7) ?v = r OR push_bit s v"
      unfolding or.assoc group_join ..
    also have "length (pre @ [?b]) + length (varint ?v) = length pre + length (varint v)"
      using False by (simp add: varint_unfold [of v])
    finally show ?thesis .
  qed
qed

lemma decode_u32_varint [simp]:
  "p = length pre \<Longrightarrow>
   decode_u32 (pre @ varint v @ post) p = (Some v, length pre + length (varint v))"
  using decode_loop_varint [of v 0 pre post 0] unat_u32_less [of v] by (simp add: decode_u32_def)

lemma varint_nonempty [simp]: "varint v \<noteq> []"
  by (simp add: varint_unfold [of v])

lemma length_varint_le: "unat v < 2 ^ (7 * k) \<Longrightarrow> 0 < k \<Longrightarrow> length (varint v) \<le> k"
proof (induction k arbitrary: v)
  case (Suc k)
  show ?case
  proof (cases "drop_bit 7 v = 0")
    case False
    have q: "unat (drop_bit 7 v) = unat v div 128" by (simp add: unat_drop_bit)
    with False have "128 \<le> unat v" by (metis div_less linorder_not_le unat_eq_0)
    then have "0 < k" using Suc.prems by (cases k) auto
    moreover have "unat (drop_bit 7 v) < 2 ^ (7 * k)"
      using Suc.prems q by (simp add: less_mult_imp_div_less power_add mult.commute)
    ultimately show ?thesis using Suc.IH False by (simp add: varint_unfold [of v])
  qed (simp add: varint_unfold [of v])
qed simp

lemma length_varint: "length (varint v) \<le> 5"
proof -
  have "unat v < 2 ^ (7 * 5)" using unat_u32_less [of v] by (rule less_trans) simp
  then show ?thesis by (rule length_varint_le) simp
qed

subsection \<open>Properties\<close>

text \<open>
  A value encoded at any place of a buffer is read back from there, with the position
  moved past exactly the bytes that were written, of which there are one to five.
\<close>

theorem varint_roundtrip:
  "decode_u32 (encode_u32 v out @ post) (length out) = (Some v, length (encode_u32 v out)) \<and>
   length out < length (encode_u32 v out) \<and> length (encode_u32 v out) \<le> length out + 5"
  using length_varint [of v] decode_u32_varint [of "length out" out v post]
  by (simp add: encode_u32_append)

end
