(* ===== verification/Fold.thy ===== *)
theory Fold
  imports Trigram
begin

section \<open>ASCII case folding and byte search (crates/df-content/src/fold.rs)\<close>

text \<open>
  The content layer folds bytes, not characters: \<open>A\<close> to \<open>Z\<close> get bit 5 set, every other byte is
  kept. Folding is idempotent, keeps the length and commutes with taking parts, so a folded text
  contains the folded form of everything the text contains. The substring search of the memchr
  crate is a parameter, with its documented result.
\<close>

definition is_ascii_uppercase :: "u8 \<Rightarrow> bool" where
  "is_ascii_uppercase b \<longleftrightarrow> 65 \<le> unat b \<and> unat b \<le> 90"

definition fold_byte :: "u8 \<Rightarrow> u8" where
  "fold_byte b = (if is_ascii_uppercase b then b OR 0x20 else b)"

definition fold_in_place :: "bytes \<Rightarrow> bytes" where
  "fold_in_place bs = map fold_byte bs"

definition fold_bytes :: "bytes \<Rightarrow> bytes" where
  "fold_bytes bs = (let out = bs in fold_in_place out)"

lemma length_fold_bytes [simp]: "length (fold_bytes bs) = length bs"
  by (simp add: fold_bytes_def fold_in_place_def)

lemma fold_bytes_append [simp]: "fold_bytes (a @ b) = fold_bytes a @ fold_bytes b"
  by (simp add: fold_bytes_def fold_in_place_def)

lemma sublist_fold_bytes: "sublist a b \<Longrightarrow> sublist (fold_bytes a) (fold_bytes b)"
  unfolding sublist_def by (auto, blast)

lemma fold_byte_upper: "\<forall>n\<in>set [65..<91]. (of_nat n :: u8) OR 0x20 = of_nat (n + 32)"
  by code_simp

lemma fold_byte_val: "unat (fold_byte b) = (if is_ascii_uppercase b then unat b + 32 else unat b)"
proof (cases "is_ascii_uppercase b")
  case True
  then have "unat b \<in> set [65..<91]" unfolding set_upt by (auto simp: is_ascii_uppercase_def)
  then have "(of_nat (unat b) :: u8) OR 0x20 = of_nat (unat b + 32)" using fold_byte_upper by blast
  moreover have "unat (of_nat (unat b + 32) :: u8) = unat b + 32"
    using True by (simp only: unat_of_nat) (simp add: is_ascii_uppercase_def)
  ultimately show ?thesis using True by (simp add: fold_byte_def)
qed (simp add: fold_byte_def)

lemma fold_byte_idem [simp]: "fold_byte (fold_byte b) = fold_byte b"
proof -
  have "\<not> is_ascii_uppercase (fold_byte b)"
    using fold_byte_val [of b] by (auto simp: is_ascii_uppercase_def split: if_splits)
  then show ?thesis by (simp add: fold_byte_def)
qed

lemma fold_bytes_idem [simp]: "fold_bytes (fold_bytes bs) = fold_bytes bs"
  by (simp add: fold_bytes_def fold_in_place_def)

text \<open>\<open>memchr::memmem::find\<close>: the first position of the needle, if it occurs.\<close>

type_synonym finder = "bytes \<Rightarrow> bytes \<Rightarrow> nat option"

definition occurs_at :: "bytes \<Rightarrow> bytes \<Rightarrow> nat \<Rightarrow> bool" where
  "occurs_at hay needle i \<longleftrightarrow> i + length needle \<le> length hay \<and> take (length needle) (drop i hay) = needle"

definition memmem_ok :: "finder \<Rightarrow> bool" where
  "memmem_ok memmem \<longleftrightarrow> (\<forall>hay needle. case memmem hay needle of
     None \<Rightarrow> \<forall>i. \<not> occurs_at hay needle i
   | Some i \<Rightarrow> occurs_at hay needle i \<and> (\<forall>j<i. \<not> occurs_at hay needle j))"

lemma occurs_sublist: "(\<exists>i. occurs_at hay needle i) \<longleftrightarrow> sublist needle hay"
proof
  assume "\<exists>i. occurs_at hay needle i"
  then obtain i where "take (length needle) (drop i hay) = needle" by (auto simp: occurs_at_def)
  then show "sublist needle hay" by (metis sublist_drop sublist_order.order_trans sublist_take)
next
  assume "sublist needle hay"
  then obtain a c where "hay = a @ needle @ c" by (auto simp: sublist_def)
  then have "occurs_at hay needle (length a)" by (simp add: occurs_at_def)
  then show "\<exists>i. occurs_at hay needle i" ..
qed

lemma memmem_iff: "memmem_ok memmem \<Longrightarrow> memmem hay needle \<noteq> None \<longleftrightarrow> sublist needle hay"
  unfolding occurs_sublist [symmetric] memmem_ok_def
  by (metis (mono_tags, lifting) option.case_eq_if)

definition naive_find :: finder where
  "naive_find hay needle = find (\<lambda>i. take (length needle) (drop i hay) = needle)
     [0..<Suc (length hay) - length needle]"

lemma naive_find_ok: "memmem_ok naive_find"
  unfolding memmem_ok_def
proof (intro allI)
  fix hay needle :: bytes
  show "case naive_find hay needle of
     None \<Rightarrow> \<forall>i. \<not> occurs_at hay needle i
   | Some i \<Rightarrow> occurs_at hay needle i \<and> (\<forall>j<i. \<not> occurs_at hay needle j)"
  proof (cases "naive_find hay needle")
    case None
    then have "\<forall>i<Suc (length hay) - length needle. take (length needle) (drop i hay) \<noteq> needle"
      by (auto simp: naive_find_def find_None_iff)
    then show ?thesis unfolding None by (auto simp: occurs_at_def)
  next
    case (Some i)
    then obtain k where "k < Suc (length hay) - length needle" "i = k"
      "take (length needle) (drop k hay) = needle" "\<forall>j<k. take (length needle) (drop j hay) \<noteq> needle"
      by (auto simp: naive_find_def find_Some_iff)
    then show ?thesis using Some by (auto simp: occurs_at_def)
  qed
qed

subsection \<open>Content matches\<close>

text \<open>What both indexes of contents verify: the query in the bytes, or its folded form in the folded bytes.\<close>

definition content_hit :: "bytes \<Rightarrow> bytes \<Rightarrow> bool \<Rightarrow> bool" where
  "content_hit content needle case_sensitive \<longleftrightarrow>
     sublist needle (if case_sensitive then content else fold_bytes content)"

text \<open>Folding is bytewise, so the folded content has the trigrams of the folded query in both case modes.\<close>

lemma content_hit_trigrams:
  assumes "content_hit c (if cs then q else fold_bytes q) cs"
  shows "set (trigrams (fold_bytes q)) \<subseteq> set (trigrams (fold_bytes c))"
proof -
  have "sublist (fold_bytes q) (fold_bytes c)"
    using assms by (cases cs) (auto simp: content_hit_def sublist_fold_bytes)
  then show ?thesis by (rule trigrams_mono)
qed

end
