(* ===== verification/Shard.thy ===== *)
theory Shard
  imports Db Varint Fold
begin

section \<open>Content shards (crates/df-content/src/shard.rs)\<close>

text \<open>
  A shard holds the content index of a run of files: named sections, a table of contents
  (TOC) and a footer. The builder appends each file's path, metadata and bytes and indexes the
  trigrams of the ASCII-folded bytes; \<open>finish\<close> lays the sections out. The reader finds the
  sections by tag, skipping tags it does not know, and serves paths, metadata, contents and
  postings; it is a \<open>CandidateSource\<close>, here an instance of the locale of the same name.

  The first group of lemmas is about sections laid out one after another and the TOC that
  lists them; the second reads each section of a finished shard back; the last makes content
  search exact in both case modes. Offsets and sizes are 32-bit fields, so the results are for
  a finished shard below 4 GiB.
\<close>

subsection \<open>The builder\<close>

definition SHARD_VERSION :: u16 where "SHARD_VERSION = 1"


record shard_builder =
  sb_shard_id :: u32
  sb_base_docid :: u32
  sb_paths :: "str list"
  sb_meta :: "(u8 \<times> i64 \<times> i64) list"
  sb_corpus :: bytes
  sb_offsets :: "(u64 \<times> u32) list"
  sb_try_map :: "(u32 \<times> u32 list) list"

definition new_shard :: "u32 \<Rightarrow> u32 \<Rightarrow> shard_builder" where
  "new_shard shard_id base_docid =
     \<lparr>sb_shard_id = shard_id, sb_base_docid = base_docid, sb_paths = [], sb_meta = [],
      sb_corpus = [], sb_offsets = [], sb_try_map = []\<rparr>"

definition add_file :: "str \<Rightarrow> bool \<Rightarrow> i64 \<Rightarrow> i64 \<Rightarrow> bytes \<Rightarrow> shard_builder \<Rightarrow> shard_builder" where
  "add_file path dir sz mt content B =
     (let docid = of_nat (length (sb_paths B)) :: u32;
          off = of_nat (length (sb_corpus B)) :: u64;
          folded = fold_in_place content in
      B\<lparr>sb_paths := sb_paths B @ [path],
        sb_meta := sb_meta B @ [(if dir then 1 else 0, sz, mt)],
        sb_corpus := sb_corpus B @ content,
        sb_offsets := sb_offsets B @ [(off, of_nat (length content))],
        sb_try_map := index_text (trigrams folded) docid (sb_try_map B)\<rparr>)"

definition shard_doc_count :: "shard_builder \<Rightarrow> u32" where
  "shard_doc_count B = of_nat (length (sb_paths B))"

definition content_bytes :: "shard_builder \<Rightarrow> nat" where
  "content_bytes B = length (sb_corpus B)"

definition offset_bytes :: "u64 \<times> u32 \<Rightarrow> bytes" where
  "offset_bytes e = (case e of (off, len) \<Rightarrow> to_le off @ to_le len)"

definition meta_data :: "u64 \<Rightarrow> u32 \<Rightarrow> u32 \<Rightarrow> u32 \<Rightarrow> u32 \<Rightarrow> bytes" where
  "meta_data build_time shard_id base_docid num_docs log2 =
     to_le SHARD_VERSION @ to_le build_time @ to_le shard_id @ to_le base_docid @ to_le num_docs @ to_le log2"

type_synonym loc = "str \<times> u32 \<times> u32"

definition assemble :: "(str \<times> bytes) list \<Rightarrow> bytes \<times> loc list" where
  "assemble sections =
     fold (\<lambda>(tag, bytes) (out, locs).
       let off = of_nat (length out) in
       (out @ bytes, locs @ [(tag, off, of_nat (length bytes))]))
     sections ([], [])"

definition write_toc :: "loc list \<Rightarrow> bytes \<Rightarrow> bytes" where
  "write_toc locs out =
     fold (\<lambda>(tag, off, sz) out.
       let out = encode_u32 (of_nat (length tag)) out; out = out @ tag; out = out @ [0] in
       (out @ to_le off) @ to_le sz)
     locs (out @ to_le (of_nat (length locs) :: u32))"

definition with_toc :: "bytes \<Rightarrow> loc list \<Rightarrow> bytes" where
  "with_toc out locs =
     (let toc_off = of_nat (length out) :: u32;
          out = write_toc locs out;
          toc_sz = of_nat (length out) - toc_off in
      (out @ to_le toc_off) @ to_le toc_sz)"

definition shard_sections :: "u64 \<Rightarrow> shard_builder \<Rightarrow> bytes \<Rightarrow> bytes \<Rightarrow> (str \<times> bytes) list" where
  "shard_sections build_time B table post_sec =
     [(lit ''metaData'', meta_data build_time (sb_shard_id B) (sb_base_docid B) (of_nat (length (sb_paths B)))
         (of_nat (slots_log2 (table_slots (length (sb_try_map B)))))),
      (lit ''fileNames'', fold (\<lambda>p file_names. file_names @ path_entry p) (sb_paths B) []),
      (lit ''fileMeta'', concat (map meta_bytes (sb_meta B))),
      (lit ''contentOffsets'', concat (map offset_bytes (sb_offsets B))),
      (lit ''contentCorpus'', sb_corpus B),
      (lit ''ctHash'', table),
      (lit ''ctPostings'', post_sec)]"

definition finish_shard :: "u64 \<Rightarrow> shard_builder \<Rightarrow> bytes option" where
  "finish_shard build_time B =
     (let slots = table_slots (length (sb_try_map B));
          (entries, post_sec) = posting_section 0 (sb_try_map B) in
      case build_robin_hood entries slots of
        None \<Rightarrow> None
      | Some table \<Rightarrow>
          (case assemble (shard_sections build_time B table post_sec) of
             (out, locs) \<Rightarrow> Some (with_toc out locs)))"

subsection \<open>The reader\<close>

record shard_reader =
  s_bytes :: bytes
  s_build_time :: u64
  s_shard_id :: u32
  s_num_docs :: u32
  s_base_docid :: u32
  s_slots :: nat
  s_sect :: "(str \<times> u32 \<times> u32) list"

definition known_tags :: "str list" where
  "known_tags = map lit [''metaData'', ''fileNames'', ''fileMeta'', ''contentOffsets'', ''contentCorpus'',
     ''ctHash'', ''ctPostings'']"

text \<open>The loop over the TOC entries; \<open>sect\<close> is the hash map, an insertion goes in front.\<close>

fun read_toc :: "bytes \<Rightarrow> nat \<Rightarrow> nat \<Rightarrow> loc list \<Rightarrow> loc list res" where
  "read_toc toc 0 p sect = Ok sect"
| "read_toc toc (Suc n) p sect =
     (case decode_u32 toc p of
        (None, p) \<Rightarrow> Err (DbFormat ''bad tag varint'')
      | (Some tag_len, p) \<Rightarrow>
          bind_o (slice toc p (p + unat tag_len)) (\<lambda>tag_bytes.
          let p = p + unat tag_len in
          bind_o (index_o toc p) (\<lambda>kind.
          let p = p + 1 in
          bind_o (rd_le toc p) (\<lambda>off :: u32.
          let p = p + 4 in
          bind_o (rd_le toc p) (\<lambda>sz :: u32.
          let p = p + 4 in
          read_toc toc n p
            (if tag_bytes \<in> set known_tags then (tag_bytes, off, sz) # sect else sect))))))"

definition open_shard :: "bytes \<Rightarrow> shard_reader res" where
  "open_shard bytes =
     (if length bytes < 8 then Err (DbFormat ''shard too short'')
      else
      let footer = length bytes - 8 in
      bind_o (rd_le bytes footer) (\<lambda>toc_off :: u32.
      bind_o (rd_le bytes (footer + 4)) (\<lambda>toc_sz :: u32.
      let toc_end = unat toc_off + unat toc_sz in
      if toc_end \<noteq> footer then Err (DbFormat ''shard TOC/end mismatch'')
      else
      bind_o (slice bytes (unat toc_off) toc_end) (\<lambda>toc.
      bind_o (rd_le toc 0) (\<lambda>count :: u32.
      bind_o (read_toc toc (unat count) 4 []) (\<lambda>sect.
      bind_o (ok_or (DbFormat ''missing metaData'') (map_of sect (lit ''metaData''))) (\<lambda>(off, sz).
      bind_o (slice bytes (unat off) (unat (off + sz))) (\<lambda>md.
      bind_o (rd_le md 0) (\<lambda>version :: u16.
      if version \<noteq> SHARD_VERSION
      then Err (DbFormat (''unsupported shard version '' @ show_nat (unat version)))
      else
      bind_o (rd_le md 2) (\<lambda>build_time.
      bind_o (rd_le md 10) (\<lambda>shard_id.
      bind_o (rd_le md 14) (\<lambda>base_docid.
      bind_o (rd_le md 18) (\<lambda>num_docs.
      bind_o (rd_le md 22) (\<lambda>log2 :: u32.
      Ok \<lparr>s_bytes = bytes, s_build_time = build_time, s_shard_id = shard_id,
          s_num_docs = num_docs, s_base_docid = base_docid, s_slots = slots_of_log2 (unat log2),
          s_sect = sect\<rparr>))))))))))))))"

definition section_of :: "shard_reader \<Rightarrow> string \<Rightarrow> bytes res" where
  "section_of r tag =
     bind_o (ok_or (DbFormat (''missing section '' @ tag)) (map_of (s_sect r) (lit tag))) (\<lambda>(off, sz).
     slice (s_bytes r) (unat off) (unat off + unat sz))"

definition shard_path :: "shard_reader \<Rightarrow> u32 \<Rightarrow> str res" where
  "shard_path r local_docid =
     bind_o (section_of r ''fileNames'') (\<lambda>fns.
     extract_from ''fileNames truncated'' ''path overruns fileNames'' fns 0 (unat local_docid))"

definition shard_meta :: "shard_reader \<Rightarrow> u32 \<Rightarrow> lite_meta res" where
  "shard_meta r local_docid =
     bind_o (section_of r ''fileMeta'') (\<lambda>fm.
     let at = unat local_docid * 17 in
     if at + 17 > length fm then Err (Query ''docid out of range'')
     else
       bind_o (index_o fm at) (\<lambda>d.
       bind_o (rd_le fm (at + 1)) (\<lambda>sz.
       bind_o (rd_le fm (at + 9)) (\<lambda>mt.
       Ok \<lparr>is_dir = (d \<noteq> 0), file_size = sz, mtime = mt\<rparr>))))"

text \<open>\<open>off + len\<close> is a \<open>usize\<close> addition of a 64-bit field, which wraps.\<close>

definition shard_content :: "shard_reader \<Rightarrow> u32 \<Rightarrow> bytes res" where
  "shard_content r local_docid =
     bind_o (section_of r ''contentOffsets'') (\<lambda>co.
     let at = unat local_docid * 12 in
     if at + 12 > length co then Err (Query ''docid out of range'')
     else
       bind_o (rd_le co at) (\<lambda>off :: u64.
       bind_o (rd_le co (at + 8)) (\<lambda>len :: u32.
       bind_o (section_of r ''contentCorpus'') (\<lambda>corpus.
       let stop = unat (off + ucast len) in
       if stop > length corpus then Err (DbFormat ''content slice overruns corpus'')
       else slice corpus (unat off) stop))))"

definition shard_slot :: "bytes \<Rightarrow> nat \<Rightarrow> slot res" where
  "shard_slot hash_sec idx =
     (let slot_off = idx * SLOT_LEN mod 2 ^ 64 in
      if (slot_off + SLOT_LEN) mod 2 ^ 64 > length hash_sec then Err (DbFormat ''ctHash truncated'')
      else bind_o (slice hash_sec slot_off (slot_off + SLOT_LEN)) (\<lambda>b. Ok (read_slot b 0)))"

definition shard_posting :: "shard_reader \<Rightarrow> u32 \<Rightarrow> u32 list option res" where
  "shard_posting r trig =
     (if s_slots r = 0 then Ok None
      else
        bind_o (section_of r ''ctHash'') (\<lambda>hash_sec.
        bind_o (section_of r ''ctPostings'') (\<lambda>postings.
        bind_o (find_slot (shard_slot hash_sec) (s_slots r) trig (unat (hash trig) AND (s_slots r - 1)) 0) (\<lambda>s.
        case s of
          None \<Rightarrow> Ok None
        | Some (_, count, off, len) \<Rightarrow>
            let stop = unat (off + ucast len) in
            if stop > length postings then Err (DbFormat ''posting overruns ctPostings'')
            else
              bind_o (slice postings (unat off) stop) (\<lambda>enc.
              bind_o (decode_posting enc count) (\<lambda>post. Ok (Some post)))))))"

definition shard_verify :: "finder \<Rightarrow> shard_reader \<Rightarrow> u32 \<Rightarrow> bytes \<Rightarrow> bool \<Rightarrow> bool res" where
  "shard_verify memmem r local_docid needle case_sensitive =
     (if needle = [] then Ok True
      else
        bind_o (shard_content r local_docid) (\<lambda>content.
        if case_sensitive then Ok (memmem content needle \<noteq> None)
        else let folded = fold_bytes content in Ok (memmem folded needle \<noteq> None)))"


subsection \<open>Sections one after another\<close>

fun locs_from :: "nat \<Rightarrow> (str \<times> bytes) list \<Rightarrow> loc list" where
  "locs_from off [] = []"
| "locs_from off ((tag, bytes) # ss) =
     (tag, of_nat off, of_nat (length bytes)) # locs_from (off + length bytes) ss"

lemma assemble_eq: "assemble ss = (concat (map snd ss), locs_from 0 ss)"
proof -
  have "fold (\<lambda>(tag, bytes) (out, locs).
       let off = of_nat (length out) in
       (out @ bytes, locs @ [(tag, off, of_nat (length bytes))]))
     ss (out, locs) = (out @ concat (map snd ss), locs @ locs_from (length out) ss)" for out locs
    by (induction ss arbitrary: out locs) auto
  then show ?thesis by (simp add: assemble_def)
qed

lemma fst_locs_from [simp]: "map fst (locs_from off ss) = map fst ss"
  by (induction off ss rule: locs_from.induct) auto

lemma length_locs_from [simp]: "length (locs_from off ss) = length ss"
  by (induction off ss rule: locs_from.induct) auto

lemma map_of_locs:
  assumes "(tag, b) \<in> set ss" "distinct (map fst ss)"
  shows "\<exists>a c. concat (map snd ss) = a @ b @ c \<and>
    map_of (locs_from off ss) tag = Some (of_nat (off + length a), of_nat (length b))"
  using assms
proof (induction off ss rule: locs_from.induct)
  case (2 off t x ss)
  show ?case
  proof (cases "t = tag")
    case True
    then have "x = b" using 2(2,3) by (auto simp: rev_image_eqI)
    then show ?thesis using True by (intro exI [of _ "[]"] exI [of _ "concat (map snd ss)"]) simp
  next
    case False
    then obtain a c where "concat (map snd ss) = a @ b @ c"
      "map_of (locs_from (off + length x) ss) tag = Some (of_nat (off + length x + length a), of_nat (length b))"
      using 2 by auto
    then show ?thesis using False
      by (intro exI [of _ "x @ a"] exI [of _ c]) (simp add: add.assoc)
  qed
qed simp

lemma map_of_rev_distinct: "distinct (map fst xs) \<Longrightarrow> map_of (rev xs) = map_of xs"
  by (subst map_of_inject_set) (simp_all add: rev_map [symmetric])

subsection \<open>The table of contents\<close>

definition toc_entry :: "loc \<Rightarrow> bytes" where
  "toc_entry l = (case l of (tag, off, sz) \<Rightarrow>
     varint (of_nat (length tag)) @ tag @ [0] @ to_le off @ to_le sz)"

lemma write_toc_eq:
  "write_toc locs out = out @ to_le (of_nat (length locs) :: u32) @ concat (map toc_entry locs)"
proof -
  have "fold (\<lambda>(tag, off, sz) out.
       let out = encode_u32 (of_nat (length tag)) out; out = out @ tag; out = out @ [0] in
       (out @ to_le off) @ to_le sz) locs out = out @ concat (map toc_entry locs)" for out
    by (induction locs arbitrary: out) (auto simp: toc_entry_def encode_u32_append)
  then show ?thesis by (simp add: write_toc_def)
qed

lemma read_toc_step:
  "decode_u32 toc p = (Some n, q) \<Longrightarrow> slice toc q (q + unat n) = (Ok tag :: bytes res) \<Longrightarrow>
   q' = q + unat n \<Longrightarrow> index_o toc q' = (Ok kind :: u8 res) \<Longrightarrow>
   rd_le toc (Suc q') = (Ok off :: u32 res) \<Longrightarrow> rd_le toc (q' + 5) = (Ok sz :: u32 res) \<Longrightarrow>
   tag \<in> set known_tags \<Longrightarrow>
   read_toc toc (Suc k) p sect = read_toc toc k (q' + 9) ((tag, off, sz) # sect)"
  by (simp add: Let_def add.commute)

lemma read_toc_entries:
  assumes "\<forall>l\<in>set locs. fst l \<in> set known_tags \<and> length (fst l) < 2 ^ 32"
  shows "read_toc (pre @ concat (map toc_entry locs)) (length locs) (length pre) sect = Ok (rev locs @ sect)"
  using assms
proof (induction locs arbitrary: pre sect)
  case (Cons l locs)
  obtain tag off sz where l: "l = (tag, off, sz)" by (cases l)
  let ?v = "varint (of_nat (length tag))" and ?R = "concat (map toc_entry locs)"
  let ?toc = "pre @ concat (map toc_entry (l # locs))" and ?n = "length tag"
  have toc: "?toc = pre @ ?v @ tag @ [0] @ to_le off @ to_le sz @ ?R" by (simp add: l toc_entry_def)
  let ?p = "length pre + length ?v"
  have n: "unat (of_nat ?n :: u32) = ?n" and k: "tag \<in> set known_tags"
    using Cons.prems by (simp_all add: l)
  have i: "index_o ?toc (?p + ?n) = (Ok 0 :: u8 res)"
    unfolding toc using index_append [of "?p + ?n" "pre @ ?v @ tag" 0] by simp
  have "read_toc ?toc (Suc (length locs)) (length pre) sect = read_toc ?toc (length locs) (?p + ?n + 9) (l # sect)"
    unfolding l by (rule read_toc_step [where n = "of_nat ?n", OF _ _ _ i [unfolded l] _ _ k], unfold toc [unfolded l], unfold n) simp_all
  also have "?p + ?n + 9 = length (pre @ toc_entry l)" by (simp add: l toc_entry_def)
  also have "read_toc ?toc (length locs) \<dots> (l # sect) = Ok (rev locs @ l # sect)"
    using Cons.IH [of "pre @ toc_entry l" "l # sect"] Cons.prems by simp
  finally show ?case by simp
qed simp

subsection \<open>What the builder holds\<close>

lemma concat_fixed_length:
  assumes "\<And>x. length (f x) = w"
  shows "length (concat (map f xs)) = length xs * w"
  by (induction xs) (simp_all add: assms)

fun offsets_from :: "nat \<Rightarrow> bytes list \<Rightarrow> (u64 \<times> u32) list" where
  "offsets_from off [] = []"
| "offsets_from off (c # cs) = (of_nat off, of_nat (length c)) # offsets_from (off + length c) cs"

lemma length_offsets_from [simp]: "length (offsets_from off cs) = length cs"
  by (induction off cs rule: offsets_from.induct) auto

lemma offsets_from_append:
  "offsets_from off (cs @ ds) = offsets_from off cs @ offsets_from (off + length (concat cs)) ds"
  by (induction off cs rule: offsets_from.induct) (auto simp: add.assoc)

lemma nth_offsets_from:
  "d < length cs \<Longrightarrow> offsets_from off cs ! d =
     (of_nat (off + length (concat (take d cs))), of_nat (length (cs ! d)))"
proof (induction cs arbitrary: off d)
  case (Cons c cs)
  then show ?case by (cases d) (simp_all add: add.assoc)
qed simp

text \<open>The contents added so far, and what the builder keeps of them.\<close>

definition shard_rep :: "shard_builder \<Rightarrow> bytes list \<Rightarrow> bool" where
  "shard_rep B cs \<longleftrightarrow> length (sb_paths B) = length cs \<and> length (sb_meta B) = length cs \<and>
     length cs < 2 ^ 32 \<and> sb_corpus B = concat cs \<and> sb_offsets B = offsets_from 0 cs \<and>
     inverts (sb_try_map B) (map fold_bytes cs) \<and>
     (\<forall>p\<in>set (sb_paths B). valid_utf8 p \<and> length p < 2 ^ 32)"

lemma shard_rep_new [simp]: "shard_rep (new_shard shard_id base) []"
  by (simp add: shard_rep_def new_shard_def)

lemma shard_rep_add:
  assumes "shard_rep B cs" "valid_utf8 path" "length path < 2 ^ 32" "length cs + 1 < 2 ^ 32"
  shows "shard_rep (add_file path dir sz mt c B) (cs @ [c])"
proof -
  have "inverts (index_text (trigrams (fold_bytes c)) (of_nat (length (map fold_bytes cs))) (sb_try_map B))
      (map fold_bytes cs @ [fold_bytes c])"
    using assms by (intro inverts_snoc) (simp_all add: shard_rep_def)
  then show ?thesis using assms
    by (simp add: shard_rep_def add_file_def Let_def offsets_from_append fold_bytes_def)
qed

subsection \<open>Opening a finished shard\<close>

definition sections :: "u64 \<Rightarrow> shard_builder \<Rightarrow> bytes \<Rightarrow> (str \<times> bytes) list" where
  "sections bt B table = shard_sections bt B table (blobs (sb_try_map B))"

definition shard_slots :: "shard_builder \<Rightarrow> nat" where
  "shard_slots B = table_slots (length (sb_try_map B))"

definition shard_entries :: "shard_builder \<Rightarrow> slot list" where
  "shard_entries B = entries_from 0 0 (sb_try_map B)"

definition shard_finished :: "u64 \<Rightarrow> shard_builder \<Rightarrow> bytes list \<Rightarrow> bytes \<Rightarrow> bytes \<Rightarrow> bool" where
  "shard_finished bt B cs table F \<longleftrightarrow> shard_rep B cs \<and>
     F = with_toc (concat (map snd (sections bt B table))) (locs_from 0 (sections bt B table)) \<and>
     length F < 2 ^ 32 \<and> length table = shard_slots B * SLOT_LEN \<and>
     (\<forall>slot. 0 < shard_slots B \<longrightarrow> (\<forall>i < shard_slots B. slot i = Ok (read_slot table i)) \<longrightarrow>
       (\<forall>key. find_slot slot (shard_slots B) key (unat (hash key) AND (shard_slots B - 1)) 0 =
         Ok (find (\<lambda>e. fst e = key) (shard_entries B))))"

lemma finish_shard_eq:
  "finish_shard bt B = (case build_robin_hood (shard_entries B) (shard_slots B) of
     None \<Rightarrow> None
   | Some table \<Rightarrow> Some (with_toc (concat (map snd (sections bt B table))) (locs_from 0 (sections bt B table))))"
  by (simp add: finish_shard_def Let_def posting_section_eq assemble_eq sections_def shard_slots_def
      shard_entries_def split: option.split)

lemma finish_shard_parts:
  assumes "shard_rep B cs"
  shows "\<exists>F table. finish_shard bt B = Some F \<and> length table = shard_slots B * SLOT_LEN \<and>
    F = with_toc (concat (map snd (sections bt B table))) (locs_from 0 (sections bt B table)) \<and>
    (length F < 2 ^ 32 \<longrightarrow> shard_finished bt B cs table F)"
proof (cases "sb_try_map B = []")
  case True
  then have "shard_slots B = 0" by (simp add: shard_slots_def table_slots_def)
  then show ?thesis using assms
    by (auto simp: finish_shard_eq build_robin_hood_def shard_finished_def intro!: exI [of _ "[]"])
next
  case False
  have inv: "inverts (sb_try_map B) (map fold_bytes cs)" using assms by (simp add: shard_rep_def)
  obtain t where "build_robin_hood (shard_entries B) (shard_slots B) = Some t"
    "length t = shard_slots B * SLOT_LEN"
    "\<forall>slot. (\<forall>i < shard_slots B. slot i = Ok (read_slot t i)) \<longrightarrow>
      (\<forall>key. find_slot slot (shard_slots B) key (unat (hash key) AND (shard_slots B - 1)) 0 =
       Ok (find (\<lambda>e. fst e = key) (shard_entries B)))"
    using posting_table [OF inv False, of 0]
    unfolding shard_slots_def [symmetric] shard_entries_def [symmetric] by blast
  then show ?thesis using assms by (auto simp: finish_shard_eq shard_finished_def)
qed

definition shard_opened :: "u64 \<Rightarrow> shard_builder \<Rightarrow> bytes \<Rightarrow> bytes \<Rightarrow> shard_reader" where
  "shard_opened bt B table F =
     \<lparr>s_bytes = F, s_build_time = bt, s_shard_id = sb_shard_id B,
      s_num_docs = of_nat (length (sb_paths B)), s_base_docid = sb_base_docid B,
      s_slots = shard_slots B, s_sect = rev (locs_from 0 (sections bt B table))\<rparr>"

lemma sections_tags [simp]: "map fst (sections bt B table) = known_tags"
  by (simp add: sections_def shard_sections_def known_tags_def)

lemma known_tags_distinct [simp]: "distinct known_tags"
  by (simp add: known_tags_def)

lemma known_tags_short: "t \<in> set known_tags \<Longrightarrow> length t < 2 ^ 32"
  by (auto simp: known_tags_def)

text \<open>A file is the sections, the TOC and the footer.\<close>

lemma with_toc_eq:
  "with_toc out locs = out @ (to_le (of_nat (length locs) :: u32) @ concat (map toc_entry locs)) @
     to_le (of_nat (length out) :: u32) @
     to_le (of_nat (4 + length (concat (map toc_entry locs))) :: u32)"
  by (simp add: with_toc_def write_toc_eq)

lemma finished_small: "shard_finished bt B cs table F \<Longrightarrow> length F < 2 ^ 32"
  unfolding shard_finished_def by blast

lemma table_slots_small:
  assumes "shard_finished bt B cs table F"
  shows "slots_of_log2 (unat (of_nat (slots_log2 (shard_slots B)) :: u32)) = shard_slots B"
    and "shard_slots B * SLOT_LEN < 2 ^ 32"
proof -
  have "length table \<le> length F"
    using assms by (simp add: shard_finished_def with_toc_eq sections_def shard_sections_def)
  moreover have "length table = shard_slots B * SLOT_LEN" using assms by (simp add: shard_finished_def)
  ultimately show s: "shard_slots B * SLOT_LEN < 2 ^ 32" using finished_small [OF assms] by simp
  then have "shard_slots B < 2 ^ 32" by (simp add: SLOT_LEN_def)
  moreover have "length (sb_try_map B) \<le> shard_slots B"
    unfolding shard_slots_def by (rule table_slots_ge)
  ultimately have l: "length (sb_try_map B) \<le> 2 ^ 32" by simp
  have "slots_log2 (shard_slots B) < 34" unfolding shard_slots_def by (rule slots_of_log2_table(2) [OF l])
  then have "unat (of_nat (slots_log2 (shard_slots B)) :: u32) = slots_log2 (shard_slots B)" by simp
  then show "slots_of_log2 (unat (of_nat (slots_log2 (shard_slots B)) :: u32)) = shard_slots B"
    using slots_of_log2_table(1) [OF l] by (simp add: shard_slots_def)
qed

text \<open>Every section is found by its tag.\<close>

lemma section_finished:
  assumes "shard_finished bt B cs table F" "(lit tag, b) \<in> set (sections bt B table)"
  obtains off where "map_of (rev (locs_from 0 (sections bt B table))) (lit tag) = Some (of_nat off, of_nat (length b))"
    "off + length b \<le> length F" "slice F off (off + length b) = (Ok b :: bytes res)"
proof -
  obtain a c where ac: "concat (map snd (sections bt B table)) = a @ b @ c"
    and m: "map_of (locs_from 0 (sections bt B table)) (lit tag) = Some (of_nat (length a), of_nat (length b))"
    using map_of_locs [OF assms(2), of 0] by auto
  have F: "F = with_toc (a @ b @ c) (locs_from 0 (sections bt B table))"
    using assms(1) ac by (simp add: shard_finished_def)
  show ?thesis
  proof (rule that [of "length a"])
    show "map_of (rev (locs_from 0 (sections bt B table))) (lit tag) = Some (of_nat (length a), of_nat (length b))"
      using m by (subst map_of_rev_distinct) simp_all
  qed (simp_all add: F with_toc_eq)
qed

lemma section_of_finished:
  assumes "shard_finished bt B cs table F" "(lit tag, b) \<in> set (sections bt B table)"
  shows "section_of (shard_opened bt B table F) tag = Ok b"
proof -
  obtain off where m: "map_of (rev (locs_from 0 (sections bt B table))) (lit tag) = Some (of_nat off, of_nat (length b))"
    and le: "off + length b \<le> length F" and s: "slice F off (off + length b) = (Ok b :: bytes res)"
    using section_finished [OF assms] by blast
  then show ?thesis using finished_small [OF assms(1)] by (simp add: section_of_def shard_opened_def)
qed

lemma open_shard_finished:
  assumes "shard_finished bt B cs table F"
  shows "open_shard F = Ok (shard_opened bt B table F)"
proof -
  let ?S = "sections bt B table"
  let ?L = "locs_from 0 ?S" and ?out = "concat (map snd ?S)"
  let ?toc = "to_le (of_nat (length ?L) :: u32) @ concat (map toc_entry ?L)"
  have F: "F = ?out @ ?toc @ to_le (of_nat (length ?out) :: u32) @ to_le (of_nat (length ?toc) :: u32)"
    using assms by (simp add: shard_finished_def with_toc_eq)
  define out toc where ot: "out = ?out" "toc = ?toc"
  have F': "F = out @ toc @ to_le (of_nat (length out) :: u32) @ to_le (of_nat (length toc) :: u32)"
    unfolding ot by (rule F)
  have len: "length F < 2 ^ 32" "length F = length out + length toc + 8"
    by (rule finished_small [OF assms]) (simp add: F')
  have foot: "length F - 8 = length out + length toc" using len by simp
  have u: "unat (of_nat (length out) :: u32) = length out" "unat (of_nat (length toc) :: u32) = length toc"
    using len by simp_all
  have r: "rd_le F (length out + length toc) = (Ok (of_nat (length out)) :: u32 res)"
    "rd_le F (length out + length toc + 4) = (Ok (of_nat (length toc)) :: u32 res)"
    "slice F (length out) (length out + length toc) = (Ok toc :: bytes res)"
    by (simp_all add: F')
  have k: "\<forall>l\<in>set ?L. fst l \<in> set known_tags \<and> length (fst l) < 2 ^ 32"
    using known_tags_short by (metis fst_locs_from image_eqI list.set_map sections_tags)
  have l7: "length ?L = 7" by (simp add: sections_def shard_sections_def)
  have t0: "rd_le toc 0 = (Ok 7 :: u32 res)" unfolding ot l7 by simp
  have t1: "read_toc toc 7 4 [] = Ok (rev ?L)"
    using read_toc_entries [OF k, of "to_le (of_nat (length ?L) :: u32)" "[]", unfolded l7]
    unfolding ot l7 by simp
  let ?md = "meta_data bt (sb_shard_id B) (sb_base_docid B) (of_nat (length (sb_paths B)))
    (of_nat (slots_log2 (shard_slots B)))"
  have md: "(lit ''metaData'', ?md) \<in> set ?S" by (simp add: sections_def shard_sections_def shard_slots_def)
  obtain off where m: "map_of (rev ?L) (lit ''metaData'') = Some (of_nat off, of_nat (length ?md))"
    and le: "off + length ?md \<le> length F" and s: "slice F off (off + length ?md) = (Ok ?md :: bytes res)"
    using section_finished [OF assms md] by blast
  have um: "unat (of_nat off :: u32) = off" "unat (of_nat off + of_nat (length ?md) :: u32) = off + length ?md"
    using le len unat_of_nat_u32 [of "off + length ?md"] by simp_all
  have f: "rd_le ?md 0 = (Ok SHARD_VERSION :: u16 res)" "rd_le ?md 2 = (Ok bt :: u64 res)"
    "rd_le ?md 10 = (Ok (sb_shard_id B) :: u32 res)" "rd_le ?md 14 = (Ok (sb_base_docid B) :: u32 res)"
    "rd_le ?md 18 = (Ok (of_nat (length (sb_paths B))) :: u32 res)"
    "rd_le ?md 22 = (Ok (of_nat (slots_log2 (shard_slots B))) :: u32 res)"
    by (simp_all add: meta_data_def)
  have short: "\<not> length F < 8" using len by simp
  have seven: "unat (7 :: u32) = 7" by simp
  show ?thesis
    unfolding open_shard_def shard_opened_def
    by (simp only: short if_False Let_def foot r bind_o.simps u if_True t0 t1 seven m ok_or.simps prod.case um s f
        simp_thms table_slots_small(1) [OF assms])
qed

subsection \<open>What the reader of a finished shard serves\<close>

lemma finished_rep: "shard_finished bt B cs table F \<Longrightarrow> shard_rep B cs"
  unfolding shard_finished_def by blast

lemma num_docs_shard [simp]: "s_num_docs (shard_opened bt B table F) = of_nat (length (sb_paths B))"
  by (simp add: shard_opened_def)

lemma section_lengths:
  assumes "shard_finished bt B cs table F" "(tag, b) \<in> set (sections bt B table)"
  shows "length b < 2 ^ 32"
proof -
  obtain a c where "concat (map snd (sections bt B table)) = a @ b @ c"
    using map_of_locs [OF assms(2), of 0] by auto
  then have "length b \<le> length F" using assms(1) by (simp add: shard_finished_def with_toc_eq)
  then show ?thesis using finished_small [OF assms(1)] by simp
qed

lemma shard_path_finished:
  assumes "shard_finished bt B cs table F" "d < length (sb_paths B)"
  shows "shard_path (shard_opened bt B table F) (of_nat d) = Ok (sb_paths B ! d)"
proof -
  have rep: "length (sb_paths B) < 2 ^ 32" "\<forall>p\<in>set (sb_paths B). valid_utf8 p \<and> length p < 2 ^ 32"
    using finished_rep [OF assms(1)] by (auto simp: shard_rep_def)
  have "section_of (shard_opened bt B table F) ''fileNames'' = Ok (concat (map path_entry (sb_paths B)))"
    by (rule section_of_finished [OF assms(1)])
      (simp add: sections_def shard_sections_def fold_path_entry)
  moreover have "unat (of_nat d :: u32) = d" using assms(2) rep(1) by simp
  ultimately show ?thesis
    using extract_from_entries [where pre = "[]", OF assms(2) rep(2)] by (simp add: shard_path_def)
qed

lemma shard_meta_finished:
  assumes "shard_finished bt B cs table F" "d < length (sb_paths B)" "sb_meta B ! d = (k, sz, mt)"
  shows "shard_meta (shard_opened bt B table F) (of_nat d) = Ok \<lparr>is_dir = (k \<noteq> 0), file_size = sz, mtime = mt\<rparr>"
proof -
  have rep: "length (sb_meta B) = length (sb_paths B)" "length (sb_paths B) < 2 ^ 32"
    using finished_rep [OF assms(1)] by (auto simp: shard_rep_def)
  have d: "d < length (sb_meta B)" "unat (of_nat d :: u32) = d" using rep assms(2) by simp_all
  let ?fm = "concat (map meta_bytes (sb_meta B))"
  have sec: "section_of (shard_opened bt B table F) ''fileMeta'' = Ok ?fm"
    by (rule section_of_finished [OF assms(1)]) (simp add: sections_def shard_sections_def)
  note parts = concat_fixed [of meta_bytes META_REC_LEN d "sb_meta B", OF length_meta_bytes d(1)]
  have l: "length (concat (map meta_bytes (take d (sb_meta B)))) = d * 17"
    using parts(2) by (simp add: META_REC_LEN_def)
  have rec: "meta_bytes (sb_meta B ! d) = k # to_le sz @ to_le mt" by (simp add: assms(3) meta_bytes_def)
  obtain pre post where pp: "?fm = pre @ (k # to_le sz @ to_le mt) @ post" "length pre = d * 17"
    using that [OF parts(1) [unfolded rec] l] by blast
  have rd: "index_o ?fm (d * 17) = (Ok k :: u8 res)" "rd_le ?fm (d * 17 + 1) = (Ok sz :: i64 res)"
    "rd_le ?fm (d * 17 + 9) = (Ok mt :: i64 res)" "\<not> d * 17 + 17 > length ?fm"
    unfolding pp(1) using pp(2) by simp_all
  show ?thesis by (simp only: shard_meta_def sec bind_o.simps Let_def d(2) rd if_False)
qed

lemma length_offset_bytes [simp]: "length (offset_bytes e) = 12"
  by (simp add: offset_bytes_def split: prod.split)

lemma shard_content_finished:
  assumes "shard_finished bt B cs table F" "d < length cs"
  shows "shard_content (shard_opened bt B table F) (of_nat d) = Ok (cs ! d)"
proof -
  have rep: "length cs < 2 ^ 32" "sb_corpus B = concat cs" "sb_offsets B = offsets_from 0 cs"
    using finished_rep [OF assms(1)] by (auto simp: shard_rep_def)
  have d: "d < length (sb_offsets B)" "unat (of_nat d :: u32) = d" using rep assms(2) by simp_all
  let ?co = "concat (map offset_bytes (sb_offsets B))" and ?off = "length (concat (take d cs))"
  have sec: "section_of (shard_opened bt B table F) ''contentOffsets'' = Ok ?co"
    "section_of (shard_opened bt B table F) ''contentCorpus'' = Ok (concat cs)"
    by (rule section_of_finished [OF assms(1)], simp add: sections_def shard_sections_def rep)+
  have "(lit ''contentCorpus'', concat cs) \<in> set (sections bt B table)"
    by (simp add: sections_def shard_sections_def rep)
  then have small: "length (concat cs) < 2 ^ 32" by (rule section_lengths [OF assms(1)])
  have split: "concat cs = concat (take d cs) @ cs ! d @ concat (drop (Suc d) cs)"
    by (subst id_take_nth_drop [OF assms(2)]) simp
  then have le: "?off + length (cs ! d) \<le> length (concat cs)" by (metis length_append le_add1 add.assoc)
  have off: "unat (of_nat ?off :: u64) = ?off" "(ucast (of_nat (length (cs ! d)) :: u32) :: u64) = of_nat (length (cs ! d))"
    using le small by (simp_all add: ucast_of_nat_u32)
  have stop: "unat (of_nat ?off + of_nat (length (cs ! d)) :: u64) = ?off + length (cs ! d)"
    using unat_of_nat_u64 [of "?off + length (cs ! d)"] le small by simp
  obtain pre post where pp: "?co = pre @ offset_bytes (sb_offsets B ! d) @ post" "length pre = d * 12"
    using concat_fixed [of offset_bytes 12 d "sb_offsets B", OF length_offset_bytes d(1)] that by blast
  have e: "sb_offsets B ! d = (of_nat ?off, of_nat (length (cs ! d)))"
    using nth_offsets_from [OF assms(2), of 0] by (simp add: rep)
  have rd: "rd_le ?co (d * 12) = (Ok (of_nat ?off) :: u64 res)"
    "rd_le ?co (d * 12 + 8) = (Ok (of_nat (length (cs ! d))) :: u32 res)" "\<not> d * 12 + 12 > length ?co"
    unfolding pp(1) using pp(2) by (simp_all add: e offset_bytes_def)
  have sl: "slice (concat cs) ?off (?off + length (cs ! d)) = (Ok (cs ! d) :: bytes res)"
    unfolding split by simp
  show ?thesis
    using le by (simp only: shard_content_def sec bind_o.simps Let_def d(2) rd if_False off stop sl
        not_less [symmetric] if_not_P)
qed

lemma shard_slot_finished:
  assumes "length table = n * SLOT_LEN" "n * SLOT_LEN < 2 ^ 32" "i < n"
  shows "shard_slot table i = Ok (read_slot table i)"
proof -
  have "Suc i * SLOT_LEN \<le> n * SLOT_LEN" using assms(3) by (intro mult_le_mono1) simp
  then have o: "i * SLOT_LEN + SLOT_LEN \<le> length table" using assms(1) by simp
  moreover have "i * SLOT_LEN + SLOT_LEN < 2 ^ 32" using o assms(1,2) by linarith
  then have "i * SLOT_LEN mod 2 ^ 64 = i * SLOT_LEN" "(i * SLOT_LEN + SLOT_LEN) mod 2 ^ 64 = i * SLOT_LEN + SLOT_LEN"
    by simp_all
  ultimately show ?thesis
    unfolding shard_slot_def Let_def by (simp add: slice_def read_slot_bytes [of table i] del: mult_Suc)
qed

lemma shard_posting_finished:
  assumes "shard_finished bt B cs table F"
  shows "shard_posting (shard_opened bt B table F) t =
    Ok (if docs_with (map fold_bytes cs) t = [] then None else Some (docs_with (map fold_bytes cs) t))"
proof -
  let ?T = "map fold_bytes cs" and ?m = "sb_try_map B" and ?r = "shard_opened bt B table F"
  have inv: "inverts ?m ?T" and n: "length ?T < 2 ^ 32" and tl: "length table = shard_slots B * SLOT_LEN"
    and look: "0 < shard_slots B \<Longrightarrow> (\<forall>i < shard_slots B. slot i = Ok (read_slot table i)) \<Longrightarrow>
        find_slot slot (shard_slots B) key (unat (hash key) AND (shard_slots B - 1)) 0 =
         Ok (find (\<lambda>e. fst e = key) (shard_entries B))" for slot key
    using assms by (auto simp: shard_finished_def shard_rep_def)
  have mt: "map_of ?m t = (if docs_with ?T t = [] then None else Some (docs_with ?T t))"
    using inv by (simp add: inverts_def)
  have sl: "s_slots ?r = shard_slots B" by (simp add: shard_opened_def)
  have post_sec: "(lit ''ctPostings'', blobs ?m) \<in> set (sections bt B table)"
    by (simp add: sections_def shard_sections_def)
  have sec: "section_of ?r ''ctHash'' = Ok table" "section_of ?r ''ctPostings'' = Ok (blobs ?m)"
    using post_sec by (auto intro!: section_of_finished [OF assms] simp: sections_def shard_sections_def)
  show ?thesis
  proof (cases "shard_slots B = 0")
    case True
    then have "?m = []" using table_slots_ge [of "length ?m"] by (simp add: shard_slots_def)
    then show ?thesis using mt True by (simp add: shard_posting_def sl split: if_splits)
  next
    case False
    then have find: "find_slot (shard_slot table) (shard_slots B) t (unat (hash t) AND (shard_slots B - 1)) 0
        = Ok (find (\<lambda>e. fst e = t) (shard_entries B))"
      using shard_slot_finished [OF tl table_slots_small(2) [OF assms]] by (intro look) simp_all
    show ?thesis
    proof (cases "docs_with ?T t = []")
      case True
      then have "find (\<lambda>e. fst e = t) (shard_entries B) = None"
        using find_entries_from [where m = ?m and key = t] mt by (simp add: shard_entries_def)
      then show ?thesis using find False True by (simp add: shard_posting_def sl sec)
    next
      case ne: False
      let ?ds = "docs_with ?T t" and ?enc = "enc_posting (docs_with ?T t)"
      obtain a c where blob: "blobs ?m = a @ ?enc @ c"
        and hit: "find (\<lambda>e. fst e = t) (shard_entries B) =
          Some (t, of_nat (length ?ds), of_nat (length a), of_nat (length ?enc))"
        using find_entries_from [where m = ?m and key = t and base = 0 and off = 0] mt ne
        by (auto simp: shard_entries_def)
      have len: "length a + length ?enc < 2 ^ 32"
        using section_lengths [OF assms post_sec] by (simp add: blob)
      have "length ?ds \<le> length ?T" unfolding docs_with_def
        using length_filter_le [of _ "[0..<length ?T]"] by simp
      then have lds: "length ?ds < 2 ^ 32" using n by simp
      have stop: "unat (of_nat (length a) + ucast (of_nat (length ?enc) :: u32) :: u64) = length a + length ?enc"
        using unat_of_nat_u64 [of "length a + length ?enc"] len by (simp add: ucast_of_nat_u32)
      have s: "slice (blobs ?m) (length a) (length a + length ?enc) = (Ok ?enc :: bytes res)"
        "\<not> length a + length ?enc > length (blobs ?m)"
        by (simp_all add: blob)
      have d: "decode_posting ?enc (of_nat (length ?ds)) = Ok ?ds"
        using sorted_docs_with [of ?T t] n lds by (intro decode_posting_enc) simp_all
      have u: "unat (of_nat (length a) :: u64) = length a" using len by simp
      show ?thesis
        using ne by (simp only: shard_posting_def sl sec False if_False bind_o.simps find hit prod.case
            option.case Let_def stop s u d simp_thms)
    qed
  qed
qed

subsection \<open>The reader as a candidate source\<close>

definition shard_good :: "finder \<Rightarrow> shard_reader \<Rightarrow> bool" where
  "shard_good memmem r \<longleftrightarrow> memmem_ok memmem \<and>
     (\<exists>bt B cs table F. shard_finished bt B cs table F \<and> r = shard_opened bt B table F)"

definition content_of :: "shard_reader \<Rightarrow> u32 \<Rightarrow> bytes" where
  "content_of r d = (case shard_content r d of Ok c \<Rightarrow> c | _ \<Rightarrow> [])"

lemma content_of_finished:
  "shard_finished bt B cs table F \<Longrightarrow> d < length cs \<Longrightarrow>
   content_of (shard_opened bt B table F) (of_nat d) = cs ! d"
  by (simp add: content_of_def shard_content_finished)

lemma shard_good_posting:
  assumes "shard_good memmem r"
  shows "shard_posting r t =
    Ok (let ds = filter (\<lambda>d. t \<in> set (trigrams (fold_bytes (content_of r d)))) (all_docids (s_num_docs r)) in
        if ds = [] then None else Some ds)"
proof -
  obtain bt B cs table F where F: "shard_finished bt B cs table F" "r = shard_opened bt B table F"
    using assms by (auto simp: shard_good_def)
  have n: "length cs < 2 ^ 32" "length (sb_paths B) = length cs"
    using finished_rep [OF F(1)] by (simp_all add: shard_rep_def)
  have "docs_with (map fold_bytes cs) t =
      map of_nat (filter (\<lambda>i. t \<in> set (trigrams (fold_bytes (content_of r (of_nat i))))) [0..<length cs])"
    unfolding docs_with_def length_map
    by (intro arg_cong [where f = "map of_nat"] filter_cong refl) (simp add: F(2) content_of_finished [OF F(1)])
  also have "\<dots> = filter (\<lambda>d. t \<in> set (trigrams (fold_bytes (content_of r d)))) (all_docids (s_num_docs r))"
    using n by (simp add: all_docids_def F(2) filter_map comp_def)
  finally show ?thesis using shard_posting_finished [OF F(1), of t] by (simp add: F(2) Let_def)
qed

interpretation shard: candidate_source
  shard_posting "shard_verify memmem" s_num_docs "shard_good memmem"
  "\<lambda>r d. fold_bytes (content_of r d)" "\<lambda>r d. content_hit (content_of r d)" for memmem
proof
  fix r t
  show "shard_good memmem r \<Longrightarrow> shard_posting r t =
    Ok (let ds = filter (\<lambda>d. t \<in> set (trigrams (fold_bytes (content_of r d)))) (all_docids (s_num_docs r)) in
        if ds = [] then None else Some ds)"
    by (rule shard_good_posting)
next
  fix r d needle case_sensitive
  assume g: "shard_good memmem r" and d: "d < s_num_docs r"
  obtain bt B cs table F where F: "shard_finished bt B cs table F" "r = shard_opened bt B table F"
    using g by (auto simp: shard_good_def)
  have n: "length cs < 2 ^ 32" "length (sb_paths B) = length cs"
    using finished_rep [OF F(1)] by (simp_all add: shard_rep_def)
  have "d < of_nat (length cs)" using d n by (simp add: F(2))
  then obtain i where i: "i < length cs" "d = of_nat i" using n(1) by (rule docid_of_nat)
  have c: "shard_content r d = Ok (content_of r d)"
    unfolding F(2) i(2) using shard_content_finished [OF F(1) i(1)] content_of_finished [OF F(1) i(1)] by simp
  show "shard_verify memmem r d needle case_sensitive = Ok (content_hit (content_of r d) needle case_sensitive)"
    using g memmem_iff [of memmem] by (auto simp: shard_verify_def c content_hit_def shard_good_def Let_def)
qed

lemma search_finished:
  assumes "shard_finished bt B cs table F" "memmem_ok memmem"
  shows "candidates (shard_posting (shard_opened bt B table F)) (shard_verify memmem (shard_opened bt B table F))
      (s_num_docs (shard_opened bt B table F)) (fold_bytes q) q case_sensitive limit =
    Ok (take_limit limit (map of_nat (filter
      (\<lambda>d. if case_sensitive then sublist q (cs ! d) else sublist (fold_bytes q) (fold_bytes (cs ! d)))
      [0..<length cs])))"
proof -
  let ?r = "shard_opened bt B table F" and ?n = "if case_sensitive then q else fold_bytes q"
  have good: "shard_good memmem ?r" using assms unfolding shard_good_def by blast
  have n: "s_num_docs ?r = of_nat (length cs)" "length cs < 2 ^ 32"
    using finished_rep [OF assms(1)] by (simp_all add: shard_rep_def)
  have "candidates (shard_posting ?r) (shard_verify memmem ?r) (s_num_docs ?r) (fold_bytes q) q case_sensitive limit =
    Ok (take_limit limit (filter (\<lambda>d. content_hit (content_of ?r d) ?n case_sensitive) (all_docids (s_num_docs ?r))))"
    by (rule shard.candidates_exact [OF good]) (rule content_hit_trigrams)
  also have "filter (\<lambda>d. content_hit (content_of ?r d) ?n case_sensitive) (all_docids (s_num_docs ?r)) =
      map of_nat (filter (\<lambda>d. content_hit (content_of ?r (of_nat d)) ?n case_sensitive) [0..<length cs])"
    using n by (simp add: all_docids_def filter_map comp_def)
  also have "\<dots> = map of_nat (filter (\<lambda>d. if case_sensitive then sublist q (cs ! d)
      else sublist (fold_bytes q) (fold_bytes (cs ! d))) [0..<length cs])"
    by (intro arg_cong [where f = "map of_nat"] filter_cong refl)
      (simp add: content_of_finished [OF assms(1)] content_hit_def)
  finally show ?thesis .
qed

subsection \<open>Shards built from a list of files\<close>

type_synonym content_file = "str \<times> bool \<times> i64 \<times> i64 \<times> bytes"

definition fill_shard :: "content_file list \<Rightarrow> shard_builder \<Rightarrow> shard_builder" where
  "fill_shard files B = fold (\<lambda>(path, dir, sz, mt, content). add_file path dir sz mt content) files B"

definition files_ok :: "content_file list \<Rightarrow> bool" where
  "files_ok files \<longleftrightarrow> length files < 2 ^ 32 \<and> list_all (\<lambda>f. valid_utf8 (fst f) \<and> length (fst f) < 2 ^ 32) files"

definition file_content :: "content_file \<Rightarrow> bytes" where
  "file_content f = (case f of (path, dir, sz, mt, content) \<Rightarrow> content)"

lemma fill_shard_rep:
  assumes "shard_rep B cs" "length cs + length files < 2 ^ 32"
    "list_all (\<lambda>f. valid_utf8 (fst f) \<and> length (fst f) < 2 ^ 32) files"
  shows "shard_rep (fill_shard files B) (cs @ map file_content files)"
  using assms
proof (induction files arbitrary: B cs)
  case (Cons f files)
  obtain path dir sz mt c where f: "f = (path, dir, sz, mt, c)" by (cases f)
  have "shard_rep (add_file path dir sz mt c B) (cs @ [c])"
    using Cons.prems by (intro shard_rep_add) (simp_all add: f)
  from Cons.IH [OF this] Cons.prems show ?case by (simp add: f fill_shard_def file_content_def)
qed (simp add: fill_shard_def)

lemma fill_shard_fields:
  "sb_shard_id (fill_shard files B) = sb_shard_id B \<and> sb_base_docid (fill_shard files B) = sb_base_docid B \<and>
   sb_paths (fill_shard files B) = sb_paths B @ map fst files \<and>
   sb_meta (fill_shard files B) = sb_meta B @ map (\<lambda>(path, dir, sz, mt, c). (if dir then 1 else 0, sz, mt)) files"
proof (induction files arbitrary: B)
  case (Cons f files)
  obtain path dir sz mt c where f: "f = (path, dir, sz, mt, c)" by (cases f)
  show ?case using Cons.IH [of "add_file path dir sz mt c B"]
    by (simp add: f fill_shard_def add_file_def Let_def)
qed (simp add: fill_shard_def)

lemma fill_new:
  assumes "files_ok files"
  shows "shard_rep (fill_shard files (new_shard k base)) (map file_content files)"
  using fill_shard_rep [OF shard_rep_new, of files k base] assms by (simp add: files_ok_def)

subsection \<open>Properties\<close>

text \<open>
  C21. A shard built from a list of files serves them. Its construction ends, and if the file stays
  below the 4 GiB its 32-bit offsets can describe, it opens, through the footer, the TOC with its
  varint tags and the named sections, and every local docid has the path, the metadata and the
  content bytes it was added with.
\<close>

theorem shard_roundtrip:
  assumes "files_ok files"
  shows "\<exists>F. finish_shard bt (fill_shard files (new_shard k base)) = Some F \<and>
    (length F < 2 ^ 32 \<longrightarrow> (\<exists>r. open_shard F = Ok r \<and>
      s_build_time r = bt \<and> s_shard_id r = k \<and> s_base_docid r = base \<and> s_num_docs r = of_nat (length files) \<and>
      (\<forall>d<length files. case files ! d of (path, dir, sz, mt, content) \<Rightarrow>
         shard_path r (of_nat d) = Ok path \<and>
         shard_meta r (of_nat d) = Ok \<lparr>is_dir = dir, file_size = sz, mtime = mt\<rparr> \<and>
         shard_content r (of_nat d) = Ok content)))"
proof -
  let ?B = "fill_shard files (new_shard k base)"
  have fields: "sb_shard_id ?B = k" "sb_base_docid ?B = base" "sb_paths ?B = map fst files"
    "sb_meta ?B = map (\<lambda>(path, dir, sz, mt, c). (if dir then 1 else 0, sz, mt)) files"
    using fill_shard_fields [of files "new_shard k base"] by (simp_all add: new_shard_def)
  obtain F table where F: "finish_shard bt ?B = Some F"
    "length F < 2 ^ 32 \<longrightarrow> shard_finished bt ?B (map file_content files) table F"
    using finish_shard_parts [OF fill_new [OF assms]] by blast
  have "\<exists>r. open_shard F = Ok r \<and>
      s_build_time r = bt \<and> s_shard_id r = k \<and> s_base_docid r = base \<and> s_num_docs r = of_nat (length files) \<and>
      (\<forall>d<length files. case files ! d of (path, dir, sz, mt, content) \<Rightarrow>
         shard_path r (of_nat d) = Ok path \<and>
         shard_meta r (of_nat d) = Ok \<lparr>is_dir = dir, file_size = sz, mtime = mt\<rparr> \<and>
         shard_content r (of_nat d) = Ok content)" if "length F < 2 ^ 32"
  proof (intro exI conjI allI impI)
    have fin: "shard_finished bt ?B (map file_content files) table F" using F(2) that by blast
    show "open_shard F = Ok (shard_opened bt ?B table F)" by (rule open_shard_finished [OF fin])
    fix d assume d: "d < length files"
    obtain path dir sz mt content where f: "files ! d = (path, dir, sz, mt, content)"
      by (cases "files ! d")
    show "case files ! d of (path, dir, sz, mt, content) \<Rightarrow>
         shard_path (shard_opened bt ?B table F) (of_nat d) = Ok path \<and>
         shard_meta (shard_opened bt ?B table F) (of_nat d) = Ok \<lparr>is_dir = dir, file_size = sz, mtime = mt\<rparr> \<and>
         shard_content (shard_opened bt ?B table F) (of_nat d) = Ok content"
      using shard_path_finished [OF fin, of d] shard_content_finished [OF fin, of d] d f
        shard_meta_finished [OF fin, of d "if dir then 1 else 0" sz mt]
      by (simp add: fields file_content_def)
  qed (simp_all add: shard_opened_def fields)
  then show ?thesis using F(1) by blast
qed

definition demo_files :: "content_file list" where
  "demo_files = [([0x61], False, 4, 7, [0x41, 0x62, 0x43, 0x0A]), ([0x62], True, 0, 9, [0x61, 0x62, 0x63])]"

lemma demo_files_ok: "files_ok demo_files"
  by (simp add: files_ok_def demo_files_def valid_ascii)

lemma demo_shard_length:
  assumes "finish_shard 5 (fill_shard demo_files (new_shard 1 0)) = Some F"
  shows "length F < 2 ^ 32"
proof -
  let ?B = "fill_shard demo_files (new_shard 1 0)"
  obtain F' table where F': "finish_shard 5 ?B = Some F'" and t: "length table = shard_slots ?B * SLOT_LEN"
    and F: "F' = with_toc (concat (map snd (sections 5 ?B table))) (locs_from 0 (sections 5 ?B table))"
    using finish_shard_parts [OF fill_new [OF demo_files_ok], of 5] by blast
  have m: "sb_try_map ?B = [(0x616263, [0, 1]), (0x62630A, [0])]"
    by code_simp
  have slots: "shard_slots ?B = 4" unfolding shard_slots_def m by code_simp
  have b: "length (blobs (sb_try_map ?B)) \<le> 4000"
    using length_encode [of "deltas_of 0 [0, 1]"] length_encode [of "deltas_of 0 [0]"]
    by (simp add: m blobs_def enc_posting_def)
  have f: "sb_paths ?B = [[0x61], [0x62]]" "sb_meta ?B = [(0, 4, 7), (1, 0, 9)]"
    using fill_shard_fields [of demo_files "new_shard 1 0"] by (simp_all add: new_shard_def demo_files_def)
  have c: "length (sb_corpus ?B) = 7" "length (sb_offsets ?B) = 2"
    using fill_new [OF demo_files_ok, of 1 0] by (simp_all add: shard_rep_def demo_files_def file_content_def)
  have s: "length (concat (map snd (sections 5 ?B table))) \<le> 5000"
    using b c t slots by (simp add: sections_def shard_sections_def meta_data_def f fold_path_entry
        path_entry_def concat_fixed_length [of offset_bytes 12] concat_fixed_length [of meta_bytes META_REC_LEN]
        META_REC_LEN_def SLOT_LEN_def)
  have e: "length (toc_entry l) \<le> 5 + length (fst l) + 9" for l
    using length_varint [of "of_nat (length (fst l))"] by (cases l) (simp add: toc_entry_def)
  have "length (concat (map toc_entry (locs_from 0 (sections 5 ?B table)))) \<le>
      sum_list (map (\<lambda>l. 5 + length (fst l) + 9) (locs_from 0 (sections 5 ?B table)))"
    unfolding length_concat map_map comp_def by (rule sum_list_mono) (rule e)
  also have "\<dots> = sum_list (map (\<lambda>t. 5 + length t + 9) (map fst (locs_from 0 (sections 5 ?B table))))"
    by (simp only: map_map comp_def)
  also have "\<dots> < 1000" by (simp add: known_tags_def)
  finally show ?thesis using s F F' assms by (simp add: with_toc_eq)
qed

theorem shard_roundtrip_witness:
  "\<exists>F r. finish_shard 5 (fill_shard demo_files (new_shard 1 0)) = Some F \<and> open_shard F = Ok r \<and>
     shard_path r 1 = Ok [0x62] \<and> shard_content r 0 = Ok [0x41, 0x62, 0x43, 0x0A]"
proof -
  obtain F where F: "finish_shard 5 (fill_shard demo_files (new_shard 1 0)) = Some F"
    using finish_shard_parts [OF fill_new [OF demo_files_ok]] by blast
  have two: "0 < length demo_files" "Suc 0 < length demo_files"
    "demo_files ! 0 = ([0x61], False, 4, 7, [0x41, 0x62, 0x43, 0x0A])"
    "demo_files ! Suc 0 = ([0x62], True, 0, 9, [0x61, 0x62, 0x63])"
    by (simp_all add: demo_files_def)
  obtain r where r: "open_shard F = Ok r" and
    d: "\<forall>d<length demo_files. case demo_files ! d of (path, dir, sz, mt, content) \<Rightarrow>
         shard_path r (of_nat d) = Ok path \<and>
         shard_meta r (of_nat d) = Ok \<lparr>is_dir = dir, file_size = sz, mtime = mt\<rparr> \<and>
         shard_content r (of_nat d) = Ok content"
    using shard_roundtrip [OF demo_files_ok, of 5 1 0] F demo_shard_length [OF F] by auto
  show ?thesis using F r d [rule_format, OF two(1)] d [rule_format, OF two(2)] by (simp add: two)
qed

text \<open>
  C10. Content search over a finished shard is exact. The candidates of a query, generated from
  the rarest trigram of its folded form and verified on the stored bytes, are exactly the files
  that contain it: the bytes of the query in the bytes of the file when the case matters, and the
  folded query in the folded bytes when it does not. They come in the order of the files, cut at
  the limit, and a query shorter than a trigram scans every file.
\<close>

theorem shard_search_exact:
  assumes "files_ok files" and "memmem_ok memmem"
    and "finish_shard bt (fill_shard files (new_shard k base)) = Some F" and "length F < 2 ^ 32"
  shows "\<exists>r. open_shard F = Ok r \<and>
    candidates (shard_posting r) (shard_verify memmem r) (s_num_docs r) (fold_bytes q) q case_sensitive limit =
    Ok (take_limit limit (map of_nat (filter
      (\<lambda>d. if case_sensitive then sublist q (file_content (files ! d))
           else sublist (fold_bytes q) (fold_bytes (file_content (files ! d)))) [0..<length files])))"
proof -
  let ?B = "fill_shard files (new_shard k base)" and ?cs = "map file_content files"
  obtain table where fin: "shard_finished bt ?B ?cs table F"
    using finish_shard_parts [OF fill_new [OF assms(1)], of bt k base] assms(3,4) by auto
  have "filter (\<lambda>d. if case_sensitive then sublist q (?cs ! d) else sublist (fold_bytes q) (fold_bytes (?cs ! d))) [0..<length ?cs]
    = filter (\<lambda>d. if case_sensitive then sublist q (file_content (files ! d))
           else sublist (fold_bytes q) (fold_bytes (file_content (files ! d)))) [0..<length files]"
    by (rule filter_cong) auto
  then show ?thesis using search_finished [OF fin assms(2), of q case_sensitive limit] open_shard_finished [OF fin] by auto
qed

theorem shard_search_exact_witness:
  "\<exists>F r. finish_shard 5 (fill_shard demo_files (new_shard 1 0)) = Some F \<and> open_shard F = Ok r \<and>
     candidates (shard_posting r) (shard_verify naive_find r) (s_num_docs r) [0x61, 0x62, 0x63] [0x61, 0x62, 0x63] True None = Ok [1]"
proof -
  let ?q = "[0x61, 0x62, 0x63] :: bytes"
  obtain F table where F: "finish_shard 5 (fill_shard demo_files (new_shard 1 0)) = Some F"
    using finish_shard_parts [OF fill_new [OF demo_files_ok]] by blast
  have f: "fold_bytes ?q = ?q" by code_simp
  have "filter (\<lambda>d. sublist ?q (file_content (demo_files ! d))) [0..<length demo_files] = [1]"
    by code_simp
  then show ?thesis
    using shard_search_exact [OF demo_files_ok naive_find_ok F demo_shard_length [OF F], of ?q True None] F
    by (simp add: f take_limit_def)
qed

end
