(* ===== verification/RegexQuery.thy ===== *)
theory RegexQuery
  imports Shard
begin

section \<open>Content regex queries (crates/df-content/src/regex_query.rs)\<close>

text \<open>
  The longest literal run of a regex drives candidate generation; the compiled regex decides.
  The regex crate is a parameter: the compiled expression is its \<open>is_match\<close> on bytes. The
  prefilter is complete when every match has the atom in its folded bytes; the limit, however, is
  applied to the candidates before they are decided.
\<close>

fun regex_loop :: "shard_reader \<Rightarrow> (bytes \<Rightarrow> bool) \<Rightarrow> u32 list \<Rightarrow> u32 list \<Rightarrow> u32 list res" where
  "regex_loop r is_match [] out = Ok out"
| "regex_loop r is_match (d # cands) out =
     bind_o (shard_content r d) (\<lambda>content.
     regex_loop r is_match cands (if is_match content then out @ [d] else out))"

definition content_regex_docids ::
  "finder \<Rightarrow> shard_reader \<Rightarrow> bytes \<Rightarrow> (bytes \<Rightarrow> bool) \<Rightarrow> u32 option \<Rightarrow> u32 list res" where
  "content_regex_docids memmem r atom_folded is_match limit =
     bind_o (candidates (shard_posting r) (shard_verify memmem r) (s_num_docs r) atom_folded atom_folded False limit)
       (\<lambda>cands. regex_loop r is_match cands [])"

lemma regex_loop_filter:
  "(\<And>d. d \<in> set ds \<Longrightarrow> shard_content r d = Ok (c d)) \<Longrightarrow>
   regex_loop r is_match ds out = Ok (out @ filter (\<lambda>d. is_match (c d)) ds)"
  by (induction ds arbitrary: out) auto

lemma set_take_limit_subset: "set (take_limit limit xs) \<subseteq> set xs"
  by (auto simp: take_limit_def split: option.splits dest: in_set_takeD)

lemma content_regex_finished:
  assumes "files_ok files" "memmem_ok memmem" "fold_bytes atom = atom"
    and "finish_shard bt (fill_shard files (new_shard k base)) = Some F" "length F < 2 ^ 32"
  shows "\<exists>r. open_shard F = Ok r \<and> content_regex_docids memmem r atom is_match limit =
    Ok (filter (\<lambda>d. is_match (file_content (files ! unat d)))
      (take_limit limit (map of_nat (filter (\<lambda>d. sublist atom (fold_bytes (file_content (files ! d)))) [0..<length files]))))"
proof -
  let ?B = "fill_shard files (new_shard k base)" and ?cs = "map file_content files"
  let ?hits = "map of_nat (filter (\<lambda>d. sublist atom (fold_bytes (file_content (files ! d)))) [0..<length files]) :: u32 list"
  obtain table where fin: "shard_finished bt ?B ?cs table F"
    using finish_shard_parts [OF fill_new [OF assms(1)], of bt k base] assms(4,5) by auto
  let ?r = "shard_opened bt ?B table F"
  have contents: "filter (\<lambda>d. sublist atom (fold_bytes (?cs ! d))) [0..<length files] =
      filter (\<lambda>d. sublist atom (fold_bytes (file_content (files ! d)))) [0..<length files]"
    by (rule filter_cong) auto
  have n: "length files < 2 ^ 32" using assms(1) by (simp add: files_ok_def)
  have "candidates (shard_posting ?r) (shard_verify memmem ?r) (s_num_docs ?r) atom atom False limit =
      Ok (take_limit limit ?hits)"
    using search_finished [OF fin assms(2), of atom False limit] assms(3) contents by simp
  moreover have "shard_content ?r d = Ok (file_content (files ! unat d))" if "d \<in> set (take_limit limit ?hits)" for d
  proof -
    have "d \<in> set ?hits" using that set_take_limit_subset [of limit ?hits] by blast
    then obtain i where "i < length files" "d = of_nat i" by auto
    then show ?thesis using shard_content_finished [OF fin, of i] n by simp
  qed
  ultimately show ?thesis using open_shard_finished [OF fin]
    by (simp add: content_regex_docids_def regex_loop_filter)
qed

subsection \<open>Properties\<close>

text \<open>
  C34. A content regex query without a limit is exact as long as the atom is a real prefilter: if
  every match of the expression has the atom in its folded bytes, the docids are exactly the
  files the expression matches, in order.
\<close>

theorem regex_query_exact:
  assumes "files_ok files" and "memmem_ok memmem" and "fold_bytes atom = atom"
    and "\<And>c. is_match c \<Longrightarrow> sublist atom (fold_bytes c)"
    and "finish_shard bt (fill_shard files (new_shard k base)) = Some F" and "length F < 2 ^ 32"
  shows "\<exists>r. open_shard F = Ok r \<and> content_regex_docids memmem r atom is_match None =
    Ok (map of_nat (filter (\<lambda>d. is_match (file_content (files ! d))) [0..<length files]))"
proof -
  have n: "length files < 2 ^ 32" using assms(1) by (simp add: files_ok_def)
  have "filter (\<lambda>d. is_match (file_content (files ! unat d))) (map (of_nat :: nat \<Rightarrow> u32)
      (filter (\<lambda>d. sublist atom (fold_bytes (file_content (files ! d)))) [0..<length files])) =
    map of_nat (filter (\<lambda>d. is_match (file_content (files ! d))) [0..<length files])"
    using n assms(4) by (auto simp: filter_map comp_def intro!: arg_cong [where f = "map of_nat"] filter_cong)
  then show ?thesis
    using content_regex_finished [OF assms(1-3,5,6), of is_match None] by (simp add: take_limit_def)
qed

theorem regex_query_exact_witness:
  "\<exists>F r. finish_shard 5 (fill_shard demo_files (new_shard 1 0)) = Some F \<and> open_shard F = Ok r \<and>
     content_regex_docids naive_find r [0x61, 0x62] (\<lambda>c. sublist [0x61, 0x62] c) None = Ok [1]"
proof -
  obtain F table where F: "finish_shard 5 (fill_shard demo_files (new_shard 1 0)) = Some F"
    using finish_shard_parts [OF fill_new [OF demo_files_ok]] by blast
  have f: "fold_bytes [0x61, 0x62] = [0x61, 0x62]" by code_simp
  have pre: "sublist [0x61, 0x62] c \<Longrightarrow> sublist [0x61, 0x62] (fold_bytes c)" for c
    using sublist_fold_bytes [of "[0x61, 0x62]" c] by (simp add: f)
  have "filter (\<lambda>d. sublist [0x61, 0x62] (file_content (demo_files ! d))) [0..<length demo_files] = [1]"
    by code_simp
  then show ?thesis
    using regex_query_exact [OF demo_files_ok naive_find_ok f pre F demo_shard_length [OF F],
        of "sublist [0x61, 0x62]"] F by simp
qed

text \<open>
  With a limit the answer can be incomplete. The limit cuts the candidates before the
  expression decides them, so a shard whose first candidate does not match the expression answers
  a query with limit one by nothing, although a later file matches.
\<close>

theorem regex_limit_incomplete:
  "\<exists>F r. finish_shard 5 (fill_shard demo_files (new_shard 1 0)) = Some F \<and> open_shard F = Ok r \<and>
     sublist [0x61, 0x62] (file_content (demo_files ! 1)) \<and>
     content_regex_docids naive_find r [0x61, 0x62] (\<lambda>c. sublist [0x61, 0x62] c) (Some 1) = Ok []"
proof -
  obtain F table where F: "finish_shard 5 (fill_shard demo_files (new_shard 1 0)) = Some F"
    using finish_shard_parts [OF fill_new [OF demo_files_ok]] by blast
  have f: "fold_bytes [0x61, 0x62] = [0x61, 0x62]" by code_simp
  have "filter (\<lambda>d. sublist [0x61, 0x62] (fold_bytes (file_content (demo_files ! d)))) [0..<length demo_files] = [0, 1]"
    by code_simp
  moreover have "\<not> sublist [0x61, 0x62] (file_content (demo_files ! 0))" "sublist [0x61, 0x62] (file_content (demo_files ! 1))"
    by code_simp+
  ultimately show ?thesis
    using content_regex_finished [OF demo_files_ok naive_find_ok f F demo_shard_length [OF F],
        of "\<lambda>c. sublist [0x61, 0x62] c" "Some 1"] F by (simp add: take_limit_def)
qed

end
