(* ===== verification/Lossy.thy ===== *)
theory Lossy
  imports Unicode
begin

section \<open>Lossy decoding and searching in slices (standard library)\<close>

text \<open>
  \<open>String::from_utf8_lossy\<close>: an ill-formed part of a byte slice, as long as it could have begun a
  character, becomes one replacement character. The result is always a string, and a string is
  kept. Also \<open>Iterator::position\<close> and \<open>rposition\<close>.
\<close>

definition byte_at :: "bytes \<Rightarrow> nat \<Rightarrow> nat" where
  "byte_at bs i = (if i < length bs then unat (bs ! i) else 0)"

definition is_cont :: "nat \<Rightarrow> bool" where
  "is_cont n \<longleftrightarrow> 0x80 \<le> n \<and> n < 0xC0"

text \<open>The length of the ill-formed part at the start of \<open>bs\<close> (\<open>Utf8Chunks::next\<close>).\<close>

definition bad_len :: "bytes \<Rightarrow> nat" where
  "bad_len bs =
     (let n = byte_at bs 0; n1 = byte_at bs 1; n2 = byte_at bs 2 in
      if 0xE0 \<le> n \<and> n < 0xF0 then
        (if is_cont n1 \<and> (n = 0xE0 \<longrightarrow> 0xA0 \<le> n1) \<and> (n = 0xED \<longrightarrow> n1 < 0xA0) then 2 else 1)
      else if 0xF0 \<le> n \<and> n < 0xF5 then
        (if is_cont n1 \<and> (n = 0xF0 \<longrightarrow> 0x90 \<le> n1) \<and> (n = 0xF4 \<longrightarrow> n1 < 0x90)
         then (if is_cont n2 then 3 else 2) else 1)
      else 1)"

lemma bad_len_pos: "0 < bad_len bs"
  by (simp add: bad_len_def Let_def)

definition REPLACEMENT :: bytes where "REPLACEMENT = [0xEF, 0xBF, 0xBD]"

function from_utf8_lossy :: "bytes \<Rightarrow> str" where
  "from_utf8_lossy bs =
     (if bs = [] then []
      else case decode_char bs of
        Some (c, r) \<Rightarrow> encode_char c @ from_utf8_lossy r
      | None \<Rightarrow> REPLACEMENT @ from_utf8_lossy (drop (bad_len bs) bs))"
  by pat_completeness auto
termination
  by (relation "measure length") (auto dest: decode_char_shorter simp: bad_len_pos)

declare from_utf8_lossy.simps [simp del]

lemma lossy_Nil [simp]: "from_utf8_lossy [] = []"
  by (simp add: from_utf8_lossy.simps)

lemma lossy_encode: "\<forall>c\<in>set cs. scalar c \<Longrightarrow> from_utf8_lossy (encode_str cs) = encode_str cs"
proof (induction cs)
  case (Cons c cs)
  then show ?case by (subst from_utf8_lossy.simps) (simp add: decode_encode_char)
qed simp

lemma lossy_valid: "valid_utf8 s \<Longrightarrow> from_utf8_lossy s = s"
  using lossy_encode [of "chars s"] scalar_chars [of s] by simp

lemma valid_append: "valid_utf8 a \<Longrightarrow> valid_utf8 (a @ b) = valid_utf8 b"
  using valid_encode_append [of "chars a" b] scalar_chars [of a] by simp

lemma valid_encode_char: "scalar c \<Longrightarrow> valid_utf8 (encode_char c)"
  using valid_encode [of "[c]"] by simp

lemma valid_lossy: "valid_utf8 (from_utf8_lossy bs)"
proof (induction bs rule: from_utf8_lossy.induct)
  case (1 bs)
  have r: "valid_utf8 REPLACEMENT" using valid_encode [of "[0xFFFD]"]
    by (simp add: REPLACEMENT_def encode_char_def scalar_def byte_def)
  show ?case
  proof (cases "decode_char bs")
    case None
    then show ?thesis using 1 r by (subst from_utf8_lossy.simps) (auto simp: valid_append)
  next
    case (Some cr)
    obtain c rest where cr: "cr = (c, rest)" by (cases cr)
    have "scalar c" using encode_decode_char Some cr by blast
    then show ?thesis using 1 Some cr valid_encode_char [of c]
      by (subst from_utf8_lossy.simps) (auto simp: valid_append)
  qed
qed

subsection \<open>Positions\<close>

definition position :: "('a \<Rightarrow> bool) \<Rightarrow> 'a list \<Rightarrow> nat option" where
  "position P xs = (if list_ex P xs then Some (length (takeWhile (\<lambda>x. \<not> P x) xs)) else None)"

definition rposition :: "('a \<Rightarrow> bool) \<Rightarrow> 'a list \<Rightarrow> nat option" where
  "rposition P xs = (case position P (rev xs) of None \<Rightarrow> None | Some i \<Rightarrow> Some (length xs - 1 - i))"

lemma position_None [simp]: "\<forall>x\<in>set xs. \<not> P x \<Longrightarrow> position P xs = None"
  by (simp add: position_def list_ex_iff)

lemma position_first: "\<forall>x\<in>set a. \<not> P x \<Longrightarrow> P y \<Longrightarrow> position P (a @ y # b) = Some (length a)"
  by (simp add: position_def list_ex_iff takeWhile_append2)

lemma rposition_None [simp]: "\<forall>x\<in>set xs. \<not> P x \<Longrightarrow> rposition P xs = None"
  by (simp add: rposition_def)

lemma rposition_last: "\<forall>x\<in>set b. \<not> P x \<Longrightarrow> P y \<Longrightarrow> rposition P (a @ y # b) = Some (length a)"
  using position_first [of "rev b" P y "rev a"] by (simp add: rposition_def)

end
