(* ===== verification/Lines.thy ===== *)
theory Lines
  imports Fold Lossy
begin

section \<open>Line rendering of content matches (crates/df-content/src/lines.rs)\<close>

text \<open>
  For a match at a byte offset: the number of its line, the text of the line and a block of lines
  around it. The reference is the list of lines of the content: \<open>line_text\<close> gives the line whose
  number \<open>line_number\<close> gives, and \<open>context_block\<close> a range of lines with its clamps at both ends.
  The iterator of the memchr crate over non-overlapping matches is a parameter.
\<close>

type_synonym find_iter = "bytes \<Rightarrow> bytes \<Rightarrow> nat list"

definition literal_match_offsets :: "find_iter \<Rightarrow> bytes \<Rightarrow> bytes \<Rightarrow> bool \<Rightarrow> nat list" where
  "literal_match_offsets find_iter content needle case_sensitive =
     (if needle = [] then []
      else if case_sensitive then find_iter content needle
      else let folded = fold_bytes content in find_iter folded needle)"

abbreviation newline :: "u8 \<Rightarrow> bool" where "newline b \<equiv> b = 0x0A"

definition line_number :: "bytes \<Rightarrow> nat \<Rightarrow> u32" where
  "line_number content byte_off =
     (let up = min byte_off (length content) in of_nat (length (filter newline (take up content))) + 1)"

definition line_start :: "bytes \<Rightarrow> nat \<Rightarrow> nat" where
  "line_start content up = (case rposition newline (take up content) of None \<Rightarrow> 0 | Some i \<Rightarrow> i + 1)"

definition line_text :: "bytes \<Rightarrow> nat \<Rightarrow> str res" where
  "line_text content byte_off =
     (let up = min byte_off (length content);
          start = line_start content up;
          stop = (case position newline (drop up content) of None \<Rightarrow> length content | Some i \<Rightarrow> up + i) in
      bind_o (slice content start stop) (\<lambda>s. Ok (from_utf8_lossy s)))"

fun back_lines :: "bytes \<Rightarrow> nat \<Rightarrow> nat \<Rightarrow> nat" where
  "back_lines content 0 block_start = block_start"
| "back_lines content (Suc n) block_start =
     (if block_start = 0 then block_start
      else case rposition newline (take (block_start - 1) content) of
        Some i \<Rightarrow> back_lines content n (i + 1)
      | None \<Rightarrow> 0)"

fun forward_lines :: "bytes \<Rightarrow> nat \<Rightarrow> nat \<Rightarrow> nat" where
  "forward_lines content 0 block_end = block_end"
| "forward_lines content (Suc n) block_end =
     (if block_end \<ge> length content then block_end
      else case position newline (drop block_end content) of
        Some i \<Rightarrow> forward_lines content n (block_end + (i + 1))
      | None \<Rightarrow> length content)"

definition context_block :: "bytes \<Rightarrow> nat \<Rightarrow> u32 \<Rightarrow> (u32 \<times> str) res" where
  "context_block content byte_off n =
     (let up = min byte_off (length content);
          start = line_start content up;
          line_end = (case position newline (drop up content) of
            None \<Rightarrow> length content | Some i \<Rightarrow> up + i + 1);
          block_start = back_lines content (unat n) start;
          block_end = forward_lines content (unat n) line_end;
          first_no = of_nat (length (filter newline (take block_start content))) + 1 in
      bind_o (slice content block_start block_end) (\<lambda>s. Ok (first_no, from_utf8_lossy s)))"

subsection \<open>The lines of a content\<close>

definition nl :: "bytes \<Rightarrow> bytes" where "nl l = l @ [0x0A]"

fun pieces :: "bytes \<Rightarrow> bytes list" where
  "pieces [] = [[]]"
| "pieces (b # bs) =
     (if newline b then [] # pieces bs
      else case pieces bs of [] \<Rightarrow> [[b]] | p # ps \<Rightarrow> (b # p) # ps)"

lemma length_nl [simp]: "length (nl l) = Suc (length l)"
  by (simp add: nl_def)

definition raw_lines :: "bytes \<Rightarrow> bytes list" where
  "raw_lines content = map nl (butlast (pieces content)) @ [last (pieces content)]"

definition one_line :: "bytes \<Rightarrow> bool" where
  "one_line l \<longleftrightarrow> (\<forall>b\<in>set l. \<not> newline b)"

definition joined :: "bytes list \<Rightarrow> bytes \<Rightarrow> bytes" where
  "joined ls p = concat (map nl ls) @ p"

lemma pieces_line [simp]: "one_line p \<Longrightarrow> pieces p = [p]"
  by (induction p) (auto simp: one_line_def)

lemma pieces_nl: "one_line p \<Longrightarrow> pieces (p @ 0x0A # bs) = p # pieces bs"
  by (induction p) (auto simp: one_line_def)

lemma pieces_joined: "\<forall>l\<in>set ls. one_line l \<Longrightarrow> pieces (joined ls x) = ls @ pieces x"
  by (induction ls) (auto simp: joined_def nl_def pieces_nl)

lemma joined_exists: "\<exists>ls p. xs = joined ls p \<and> (\<forall>l\<in>set ls. one_line l) \<and> one_line p"
proof (induction xs)
  case Nil
  show ?case by (intro exI [of _ "[]"]) (simp add: joined_def one_line_def)
next
  case (Cons b bs)
  then obtain ls p where bs: "bs = joined ls p" "\<forall>l\<in>set ls. one_line l" "one_line p" by blast
  consider "newline b" | "\<not> newline b" "ls = []" | m ms where "\<not> newline b" "ls = m # ms"
    by (cases ls) auto
  then show ?case
  proof cases
    case 1
    then show ?thesis using bs
      by (intro exI [of _ "[] # ls"] exI [of _ p]) (auto simp: joined_def nl_def one_line_def)
  next
    case 2
    then show ?thesis using bs
      by (intro exI [of _ "[]"] exI [of _ "b # p"]) (auto simp: joined_def one_line_def)
  next
    case 3
    then show ?thesis using bs
      by (intro exI [of _ "(b # m) # ms"] exI [of _ p]) (auto simp: joined_def nl_def one_line_def)
  qed
qed

lemma filter_nl [simp]: "one_line p \<Longrightarrow> filter newline p = []"
  by (simp add: one_line_def filter_empty_conv)

lemma count_joined:
  "\<forall>l\<in>set ls. one_line l \<Longrightarrow> one_line p \<Longrightarrow> length (filter newline (joined ls p)) = length ls"
  by (induction ls) (auto simp: joined_def nl_def)

lemma position_joined_Nil: "one_line p \<Longrightarrow> position newline (joined [] p) = None"
  by (simp add: joined_def one_line_def)

lemma position_joined_Cons: "one_line l \<Longrightarrow> position newline (joined (l # ls) p) = Some (length l)"
  using position_first [of l newline "0x0A"] by (simp add: joined_def nl_def one_line_def)

lemma rposition_joined_Nil: "one_line p \<Longrightarrow> rposition newline (joined [] p) = None"
  by (simp add: joined_def one_line_def)

lemma rposition_joined_snoc:
  "one_line p \<Longrightarrow> rposition newline (joined (ls @ [l]) p) = Some (length (joined ls l))"
  using rposition_last [of p newline "0x0A" "joined ls l"] by (simp add: joined_def nl_def one_line_def)

subsection \<open>The loops\<close>

lemma line_start_joined:
  assumes "take up content = joined ls p" "one_line p"
  shows "line_start content up = length (joined ls [])"
proof (cases ls rule: rev_cases)
  case Nil
  then show ?thesis using assms by (simp add: line_start_def rposition_joined_Nil) (simp add: joined_def)
next
  case (snoc ms m)
  then show ?thesis using assms by (simp add: line_start_def rposition_joined_snoc) (simp add: joined_def nl_def)
qed

lemma back_lines_joined:
  assumes "content = joined ls [] @ rest" "\<forall>l\<in>set ls. one_line l"
  shows "back_lines content n (length (joined ls [])) = length (joined (take (length ls - n) ls) [])"
  using assms
proof (induction n arbitrary: ls rest)
  case (Suc n)
  show ?case
  proof (cases ls rule: rev_cases)
    case Nil
    then show ?thesis by (simp add: joined_def)
  next
    case (snoc ms m)
    have c: "content = joined ms [] @ (m @ 0x0A # rest)" "one_line m" "\<forall>l\<in>set ms. one_line l"
      using Suc.prems by (simp_all add: snoc joined_def nl_def)
    have len: "length (joined ls []) = Suc (length (joined ms m))" by (simp add: snoc joined_def nl_def)
    have t: "take (length (joined ms m)) content = joined ms m" unfolding c(1) by (simp add: joined_def)
    show ?thesis
    proof (cases ms rule: rev_cases)
      case Nil
      then have "rposition newline (take (length (joined ms m)) content) = None"
        unfolding t using c(2) by (simp add: rposition_joined_Nil)
      then have "back_lines content (Suc n) (length (joined ls [])) = 0"
        unfolding len by simp
      then show ?thesis by (simp add: snoc Nil) (simp add: joined_def)
    next
      case (snoc ks k)
      then have r: "rposition newline (take (length (joined ms m)) content) = Some (length (joined ks k))"
        unfolding t using c(2) by (simp add: rposition_joined_snoc)
      have "Suc (length (joined ks k)) = length (joined ms [])" by (simp add: snoc joined_def nl_def)
      then have "back_lines content (Suc n) (length (joined ls [])) = back_lines content n (length (joined ms []))"
        by (simp add: len r)
      also have "\<dots> = length (joined (take (length ms - n) ms) [])" by (rule Suc.IH [OF c(1,3)])
      finally show ?thesis by (simp add: \<open>ls = ms @ [m]\<close>)
    qed
  qed
qed simp

lemma forward_lines_joined:
  assumes "content = pre @ joined ms z" "\<forall>l\<in>set ms. one_line l" "one_line z"
  shows "forward_lines content n (length pre) = length pre + length (concat (take n (map nl ms @ [z])))"
  using assms
proof (induction n arbitrary: ms pre)
  case (Suc n)
  show ?case
  proof (cases ms)
    case Nil
    then show ?thesis using Suc.prems by (simp add: position_joined_Nil) (simp add: joined_def)
  next
    case (Cons m ms')
    have "forward_lines content n (length (pre @ nl m)) =
        length (pre @ nl m) + length (concat (take n (map nl ms' @ [z])))"
      using Suc.prems by (intro Suc.IH) (simp_all add: Cons joined_def)
    moreover have "position newline (drop (length pre) content) = Some (length m)"
      using Suc.prems by (simp add: Cons position_joined_Cons)
    moreover have "length pre < length content" using Suc.prems by (simp add: Cons joined_def)
    ultimately show ?thesis by (simp add: Cons)
  qed
qed simp

text \<open>Around an offset: the lines before, the two parts of its line, the lines after.\<close>

lemma around:
  obtains ls p ms z where "take up content = joined ls p" "drop up content = joined ms z"
    "\<forall>l\<in>set ls. one_line l" "\<forall>l\<in>set ms. one_line l" "one_line p" "one_line z"
  using joined_exists [of "take up content"] joined_exists [of "drop up content"] by metis

lemma pieces_around:
  assumes "take up content = joined ls p" "drop up content = joined ms z"
    "\<forall>l\<in>set ls. one_line l" "\<forall>l\<in>set ms. one_line l" "one_line p" "one_line z"
  shows "pieces content = ls @ (case ms of [] \<Rightarrow> [p @ z] | q # ms' \<Rightarrow> (p @ q) # ms' @ [z])"
proof -
  have c: "content = joined ls (p @ joined ms z)"
    using append_take_drop_id [of up content] assms(1,2) by (simp add: joined_def)
  have o: "one_line (p @ q)" if "one_line q" for q using assms(5) that by (auto simp: one_line_def)
  show ?thesis
  proof (cases ms)
    case Nil
    then show ?thesis unfolding c pieces_joined [OF assms(3)] using o [OF assms(6)] by (simp add: joined_def)
  next
    case (Cons q ms')
    have "p @ joined ms z = (p @ q) @ 0x0A # joined ms' z" by (simp add: Cons joined_def nl_def)
    then have "pieces (p @ joined ms z) = (p @ q) # pieces (joined ms' z)"
      using pieces_nl [of "p @ q"] o [of q] assms(4) Cons by simp
    then show ?thesis unfolding c pieces_joined [OF assms(3)] using assms(4,6)
      by (simp add: Cons pieces_joined)
  qed
qed

lemma raw_around:
  assumes "take up content = joined ls p" "drop up content = joined ms z"
    "\<forall>l\<in>set ls. one_line l" "\<forall>l\<in>set ms. one_line l" "one_line p" "one_line z"
  shows "raw_lines content = map nl ls @
    (case ms of [] \<Rightarrow> [p @ z] | q # ms' \<Rightarrow> nl (p @ q) # map nl ms' @ [z])"
  unfolding raw_lines_def pieces_around [OF assms] by (cases ms) (simp_all add: butlast_append)

lemma concat_raw_lines: "concat (raw_lines content) = content"
proof -
  obtain ls p where c: "content = joined ls p" "\<forall>l\<in>set ls. one_line l" "one_line p"
    using joined_exists by blast
  then show ?thesis by (simp add: raw_lines_def pieces_joined) (simp add: joined_def)
qed

lemma slice_concat:
  assumes "a \<le> b"
  shows "slice (concat xss) (length (concat (take a xss))) (length (concat (take b xss))) =
    Ok (concat (take (b - a) (drop a xss)))"
proof -
  have "take b xss = take a xss @ take (b - a) (drop a xss)"
    using take_add [of a "b - a" xss] assms by simp
  then have t: "concat (take b xss) = concat (take a xss) @ concat (take (b - a) (drop a xss))" by simp
  have "concat xss = concat (take b xss) @ concat (drop b xss)"
    by (metis append_take_drop_id concat_append)
  then show ?thesis unfolding t by simp
qed

lemma context_start:
  assumes "take up content = joined ls p" "\<forall>l\<in>set ls. one_line l" "one_line p"
  shows "back_lines content n (line_start content up) = length (concat (take (length ls - n) (map nl ls)))"
proof -
  have "content = joined ls [] @ (p @ drop up content)"
    using append_take_drop_id [of up content] assms(1) by (simp add: joined_def)
  then show ?thesis
    unfolding line_start_joined [OF assms(1,3)]
    using back_lines_joined [of content ls "p @ drop up content" n] assms(2) by (simp add: joined_def take_map)
qed

lemma context_end:
  assumes "take up content = joined ls p" "drop up content = joined ms z" "up \<le> length content"
    "\<forall>l\<in>set ls. one_line l" "\<forall>l\<in>set ms. one_line l" "one_line p" "one_line z"
  shows "forward_lines content n (case position newline (drop up content) of
      None \<Rightarrow> length content | Some i \<Rightarrow> up + i + 1) =
    length (concat (take (Suc (length ls) + n) (raw_lines content)))"
proof (cases ms)
  case Nil
  have "forward_lines content n (length content) = length content" by (cases n) simp_all
  moreover have "take (Suc (length ls) + n) (raw_lines content) = raw_lines content"
    unfolding raw_around [OF assms(1,2,4-)] Nil by simp
  ultimately show ?thesis using assms(2,7) Nil by (simp add: position_joined_Nil concat_raw_lines)
next
  case (Cons q ms')
  let ?pre = "joined ls [] @ nl (p @ q)"
  have c: "content = ?pre @ joined ms' z"
    using append_take_drop_id [of up content] assms(1,2) by (simp add: Cons joined_def nl_def)
  have "length (take up content) = up" using assms(3) by simp
  then have up: "up = length (joined ls p)" using assms(1) by simp
  have "forward_lines content n (length ?pre) = length ?pre + length (concat (take n (map nl ms' @ [z])))"
    using assms(5,7) by (intro forward_lines_joined [OF c]) (simp_all add: Cons)
  moreover have "position newline (drop up content) = Some (length q)"
    unfolding assms(2) Cons using assms(5) by (intro position_joined_Cons) (simp add: Cons)
  moreover have "up + length q + 1 = length ?pre" by (simp add: up joined_def)
  then have "(case Some (length q) of None \<Rightarrow> length content | Some i \<Rightarrow> up + i + 1) = length ?pre" by simp
  moreover have "concat (take (Suc (length ls) + n) (raw_lines content)) = ?pre @ concat (take n (map nl ms' @ [z]))"
    unfolding raw_around [OF assms(1,2,4-)] by (simp add: Cons joined_def)
  ultimately show ?thesis by (simp only: length_append)
qed

subsection \<open>Properties\<close>

text \<open>
  The number and the text of a match's line agree: the line text is the line of the content
  (its bytes between newlines, decoded lossily) that the line number counts, whatever the offset;
  an offset past the end is the last line.
\<close>

theorem line_text_numbered:
  "\<exists>k<length (pieces content). k = length (filter newline (take off content)) \<and>
     line_number content off = of_nat k + 1 \<and> line_text content off = Ok (from_utf8_lossy (pieces content ! k))"
proof -
  let ?up = "min off (length content)"
  obtain ls p ms z where a: "take ?up content = joined ls p" "drop ?up content = joined ms z"
    "\<forall>l\<in>set ls. one_line l" "\<forall>l\<in>set ms. one_line l" "one_line p" "one_line z"
    by (rule around)
  have tk: "take off content = joined ls p" using a(1) by (simp add: min_def split: if_splits)
  have k: "length (filter newline (take off content)) = length ls" "take ?up content = take off content"
    using count_joined [OF a(3,5)] a(1) tk by simp_all
  have s: "line_start content ?up = length (joined ls [])" by (rule line_start_joined [OF a(1,5)])
  have "length (take ?up content) = ?up" by simp
  then have up: "?up = length (joined ls p)" using a(1) by simp
  have c: "content = joined ls p @ joined ms z" using append_take_drop_id [of ?up content] a(1,2) by simp
  note pc = pieces_around [OF a]
  have "line_text content off = Ok (from_utf8_lossy (pieces content ! length ls))"
  proof (cases ms)
    case Nil
    then have "content = joined ls [] @ (p @ z)" using c by (simp add: joined_def)
    then have "slice content (length (joined ls [])) (length content) = (Ok (p @ z) :: bytes res)" by simp
    then show ?thesis using a(2,6) by (simp add: line_text_def Let_def s position_joined_Nil Nil pc)
  next
    case (Cons q ms')
    then have parts: "content = joined ls [] @ (p @ q) @ (0x0A # joined ms' z)"
      using c by (simp add: joined_def nl_def)
    have e: "?up + length q = length (joined ls []) + length (p @ q)" using up by (simp add: joined_def)
    have "slice content (length (joined ls [])) (length (joined ls []) + length (p @ q)) =
        (Ok (p @ q) :: bytes res)"
      unfolding parts by (subst slice_skip) (simp_all add: slice_prefix del: append_assoc)
    then have "slice content (length (joined ls [])) (?up + length q) = (Ok (p @ q) :: bytes res)"
      unfolding e .
    moreover have "position newline (drop ?up content) = Some (length q)"
      unfolding a(2) Cons using a(4) by (intro position_joined_Cons) (simp add: Cons)
    ultimately show ?thesis by (simp add: line_text_def Let_def s pc Cons)
  qed
  moreover have "line_number content off = of_nat (length ls) + 1"
    by (simp only: line_number_def Let_def k)
  moreover have "length ls < length (pieces content)" unfolding pc by (cases ms) simp_all
  ultimately show ?thesis using k(1) by (intro exI [of _ "length ls"]) simp
qed

text \<open>
  A context block is the range of lines it promises: with \<open>n\<close> lines before and after the
  line of the match, clamped at both ends of the content, with their newlines, and numbered by its
  first line.
\<close>

theorem context_block_exact:
  "context_block content off n =
    (let k = length (filter newline (take off content)); lo = k - unat n; hi = Suc k + unat n in
     Ok (of_nat lo + 1, from_utf8_lossy (concat (take (hi - lo) (drop lo (raw_lines content))))))"
proof -
  let ?up = "min off (length content)"
  obtain ls p ms z where a: "take ?up content = joined ls p" "drop ?up content = joined ms z"
    "\<forall>l\<in>set ls. one_line l" "\<forall>l\<in>set ms. one_line l" "one_line p" "one_line z"
    by (rule around)
  have tk: "take off content = joined ls p" using a(1) by (simp add: min_def split: if_splits)
  have k: "length (filter newline (take off content)) = length ls"
    using count_joined [OF a(3,5)] tk by simp
  let ?lo = "length ls - unat n" and ?hi = "Suc (length ls) + unat n"
  have tm: "take ?lo (map nl ls) = take ?lo (raw_lines content)" unfolding raw_around [OF a] by simp
  have st: "back_lines content (unat n) (line_start content ?up) = length (concat (take ?lo (raw_lines content)))"
    using context_start [OF a(1,3,5), of "unat n"] tm by simp
  have en: "forward_lines content (unat n) (case position newline (drop ?up content) of
      None \<Rightarrow> length content | Some i \<Rightarrow> ?up + i + 1) = length (concat (take ?hi (raw_lines content)))"
    by (rule context_end [OF a(1,2) _ a(3-6)]) simp
  have no: "length (filter newline (take (length (concat (take ?lo (raw_lines content)))) content)) = ?lo"
  proof -
    have "concat (take ?lo (raw_lines content)) = joined (take ?lo ls) []"
      unfolding tm [symmetric] by (simp add: joined_def take_map)
    moreover have "content = concat (take ?lo (raw_lines content)) @ concat (drop ?lo (raw_lines content))"
      by (metis append_take_drop_id concat_append concat_raw_lines)
    ultimately have "take (length (concat (take ?lo (raw_lines content)))) content = joined (take ?lo ls) []"
      by (metis append_eq_conv_conj)
    then show ?thesis using count_joined [of "take ?lo ls" "[]"] a(3)
      by (simp add: one_line_def) (meson in_set_takeD)
  qed
  have le: "?lo \<le> ?hi" by linarith
  have "slice content (length (concat (take ?lo (raw_lines content)))) (length (concat (take ?hi (raw_lines content)))) =
      (Ok (concat (take (?hi - ?lo) (drop ?lo (raw_lines content)))) :: bytes res)"
    using slice_concat [OF le, of "raw_lines content"] unfolding concat_raw_lines .
  then show ?thesis by (simp only: context_block_def Let_def st en no k bind_o.simps)
qed

end
