(* ===== verification/Runs.thy ===== *)
theory Runs
  imports Prelude
begin

section \<open>Runs of a component that can fill up\<close>

text \<open>
  The contract that the overlay, a log-backed handle and the running daemon share: a component whose
  operations return as long as a bound is not reached, and then refine their abstract effect. What
  follows for sequences of operations is proved here once. \<open>rel n s v\<close>: the state \<open>s\<close> stands for the
  abstract value \<open>v\<close> and is filled up to \<open>n\<close>.
\<close>

locale bounded_run =
  fixes step :: "'e \<Rightarrow> 's \<Rightarrow> ('x, 's) outcome"
    and spec :: "'e \<Rightarrow> 'v \<Rightarrow> 'v"
    and rel :: "nat \<Rightarrow> 's \<Rightarrow> 'v \<Rightarrow> bool"
    and cost :: "'e \<Rightarrow> nat"
    and allowed :: "'e \<Rightarrow> bool"
    and bound :: nat
  assumes step_refines: "rel n s v \<Longrightarrow> n + cost e < bound \<Longrightarrow> allowed e \<Longrightarrow>
    \<exists>s'. step e s = Ok s' \<and> rel (n + cost e) s' (spec e v)"
begin

lemma run_refines:
  assumes "rel n s v" "n + sum_list (map cost es) < bound" "\<forall>e\<in>set es. allowed e"
  shows "\<exists>s'. fold_o step es s = Ok s' \<and> rel (n + sum_list (map cost es)) s' (fold spec es v)"
  using assms
proof (induction es arbitrary: n s v)
  case (Cons e es)
  have "n + cost e < bound" "allowed e" using Cons.prems(2,3) by simp_all
  from step_refines [OF Cons.prems(1) this] obtain s1
    where s1: "step e s = Ok s1" "rel (n + cost e) s1 (spec e v)" by blast
  have "n + cost e + sum_list (map cost es) < bound" using Cons.prems(2) by simp
  from Cons.IH [OF s1(2) this] Cons.prems(3) show ?case by (auto simp: s1(1) add.assoc)
qed simp

text \<open>Whatever was done before, the component goes on from there.\<close>

lemma run_continues:
  assumes "rel n s v" "n + sum_list (map cost (es @ fs)) < bound" "\<forall>e\<in>set (es @ fs). allowed e"
  shows "\<exists>s1 s2. fold_o step es s = Ok s1 \<and> fold_o step fs s1 = Ok s2 \<and>
    rel (n + sum_list (map cost (es @ fs))) s2 (fold spec (es @ fs) v)"
proof -
  have "n + sum_list (map cost es) < bound" "\<forall>e\<in>set es. allowed e" using assms(2,3) by simp_all
  from run_refines [OF assms(1) this] obtain s1 where
    s1: "fold_o step es s = Ok s1" "rel (n + sum_list (map cost es)) s1 (fold spec es v)" by blast
  have "n + sum_list (map cost es) + sum_list (map cost fs) < bound" "\<forall>e\<in>set fs. allowed e" using assms(2,3) by simp_all
  from run_refines [OF s1(2) this] show ?thesis using s1(1) by (auto simp: add.assoc)
qed

end

end
