(* ===== verification/Overlay.thy ===== *)
theory Overlay
  imports Fold Db Runs
begin

section \<open>The hot overlay (crates/df-content/src/overlay.rs)\<close>

text \<open>
  The overlay absorbs file changes between compactions. A path keeps one slot for its lifetime:
  a new version replaces the slot's metadata and content and moves the document in the trigram
  index, a deletion empties the slot and leaves a tombstone.

  The abstract view of an overlay is a map from live paths to metadata and content, and the set of
  tombstones; every record refines its abstract effect, and the queries are exact on the view.
  Postings are not kept in document order (a replaced document is appended), so the overlay is an
  instance of the weaker of the two candidate interfaces. Indexing a vector out of range panics
  in the model, and is shown not to happen.
\<close>

subsection \<open>State and operations\<close>

datatype wal_record =
    Upsert str lite_meta "bytes option"
  | Delete str

record overlay =
  by_path :: "str \<rightharpoonup> u32"
  o_paths :: "str list"
  o_metas :: "lite_meta list"
  o_contents :: "bytes option list"
  o_try_map :: "u32 \<rightharpoonup> u32 list"
  doc_trigrams :: "u32 list list"
  tombstones :: "str set"

definition empty_overlay :: overlay where
  "empty_overlay = \<lparr>by_path = Map.empty, o_paths = [], o_metas = [], o_contents = [],
     o_try_map = Map.empty, doc_trigrams = [], tombstones = {}\<rparr>"

text \<open>\<open>v[i] = x\<close>.\<close>

definition set_at :: "'a list \<Rightarrow> u32 \<Rightarrow> 'a \<Rightarrow> 'a list res" where
  "set_at xs d x = (if unat d < length xs then Ok (xs[unat d := x]) else Panic)"

definition retain_other :: "u32 \<Rightarrow> u32 \<Rightarrow> (u32 \<rightharpoonup> u32 list) \<Rightarrow> (u32 \<rightharpoonup> u32 list)" where
  "retain_other d t m = (case m t of
     None \<Rightarrow> m
   | Some v \<Rightarrow> let v' = filter (\<lambda>x. x \<noteq> d) v in if v' = [] then m(t := None) else m(t \<mapsto> v'))"

definition remove_doc_postings :: "u32 \<Rightarrow> overlay \<Rightarrow> overlay" where
  "remove_doc_postings d w =
     (if unat d < length (doc_trigrams w)
      then w\<lparr>o_try_map := fold (retain_other d) (doc_trigrams w ! unat d) (o_try_map w)\<rparr>
      else w)"

definition add_postings :: "u32 \<Rightarrow> u32 list \<Rightarrow> (u32 \<rightharpoonup> u32 list) \<Rightarrow> (u32 \<rightharpoonup> u32 list)" where
  "add_postings d tris m = fold (\<lambda>t m. m(t \<mapsto> push_docid d (m t))) tris m"

fun apply_record :: "wal_record \<Rightarrow> overlay \<Rightarrow> overlay res" where
  "apply_record (Upsert path meta content) w =
     (let w = w\<lparr>tombstones := tombstones w - {path}\<rparr> in
      bind_o
        (case by_path w path of
           Some d \<Rightarrow>
             let w = remove_doc_postings d w in
             bind_o (set_at (o_metas w) d meta) (\<lambda>ms.
             bind_o (set_at (o_contents w) d content) (\<lambda>cs.
             Ok (w\<lparr>o_metas := ms, o_contents := cs\<rparr>)))
         | None \<Rightarrow>
             let d = of_nat (length (o_paths w)) in
             Ok (w\<lparr>o_paths := o_paths w @ [path], o_metas := o_metas w @ [meta],
                   o_contents := o_contents w @ [content], doc_trigrams := doc_trigrams w @ [[]],
                   by_path := (by_path w)(path \<mapsto> d)\<rparr>))
        (\<lambda>w. case by_path w path of
           None \<Rightarrow> Panic
         | Some d \<Rightarrow>
             (case content of
                Some c \<Rightarrow>
                  let tris = trigrams (fold_in_place c) in
                  bind_o (set_at (doc_trigrams w) d tris) (\<lambda>dt.
                  Ok (w\<lparr>o_try_map := add_postings d tris (o_try_map w), doc_trigrams := dt\<rparr>))
              | None \<Rightarrow>
                  bind_o (set_at (doc_trigrams w) d []) (\<lambda>dt. Ok (w\<lparr>doc_trigrams := dt\<rparr>)))))"
| "apply_record (Delete path) w =
     bind_o
       (case by_path w path of
          Some d \<Rightarrow>
            let w = remove_doc_postings d w in
            bind_o (set_at (o_contents w) d None) (\<lambda>cs.
            bind_o (set_at (doc_trigrams w) d []) (\<lambda>dt.
            Ok (w\<lparr>o_contents := cs, doc_trigrams := dt\<rparr>)))
        | None \<Rightarrow> Ok w)
       (\<lambda>w. Ok (w\<lparr>tombstones := insert path (tombstones w)\<rparr>))"

definition apply_records :: "wal_record list \<Rightarrow> overlay \<Rightarrow> overlay res" where
  "apply_records recs w = fold_o apply_record recs w"

definition overlay_len :: "overlay \<Rightarrow> nat" where
  "overlay_len w = length (o_paths w)"

definition overlay_is_empty :: "overlay \<Rightarrow> bool" where
  "overlay_is_empty w \<longleftrightarrow> o_paths w = []"

definition shadows_anything :: "overlay \<Rightarrow> bool" where
  "shadows_anything w \<longleftrightarrow> o_paths w \<noteq> [] \<or> tombstones w \<noteq> {}"

definition suppresses :: "overlay \<Rightarrow> str \<Rightarrow> bool" where
  "suppresses w path \<longleftrightarrow> by_path w path \<noteq> None \<or> path \<in> tombstones w"

definition overlay_path :: "overlay \<Rightarrow> u32 \<Rightarrow> str option" where
  "overlay_path w d = (if unat d < length (o_paths w) then Some (o_paths w ! unat d) else None)"

definition overlay_content :: "overlay \<Rightarrow> u32 \<Rightarrow> bytes option" where
  "overlay_content w d = (if unat d < length (o_contents w) then o_contents w ! unat d else None)"

subsection \<open>Queries\<close>

definition overlay_posting :: "overlay \<Rightarrow> u32 \<Rightarrow> u32 list option res" where
  "overlay_posting w trig = Ok (o_try_map w trig)"

definition overlay_verify :: "finder \<Rightarrow> overlay \<Rightarrow> u32 \<Rightarrow> bytes \<Rightarrow> bool \<Rightarrow> bool res" where
  "overlay_verify memmem w docid needle case_sensitive =
     (case overlay_content w docid of
        None \<Rightarrow> Ok False
      | Some content \<Rightarrow>
          if needle = [] then Ok True
          else Ok (if case_sensitive then memmem content needle \<noteq> None
                   else let folded = fold_bytes content in memmem folded needle \<noteq> None))"

definition overlay_num_docs :: "overlay \<Rightarrow> u32" where
  "overlay_num_docs w = of_nat (length (o_paths w))"

definition default_meta :: lite_meta where
  "default_meta = \<lparr>is_dir = False, file_size = 0, mtime = 0\<rparr>"

definition meta_at :: "overlay \<Rightarrow> nat \<Rightarrow> lite_meta" where
  "meta_at w d = (if d < length (o_metas w) then o_metas w ! d else default_meta)"

definition live_hit :: "overlay \<Rightarrow> u32 \<Rightarrow> (str \<times> lite_meta) option" where
  "live_hit w d = (case overlay_path w d of
     None \<Rightarrow> None
   | Some path \<Rightarrow> if path \<in> tombstones w then None else Some (path, meta_at w (unat d)))"

definition content_query ::
  "finder \<Rightarrow> overlay \<Rightarrow> bytes \<Rightarrow> bytes \<Rightarrow> bool \<Rightarrow> u32 option \<Rightarrow> (str \<times> lite_meta) list res" where
  "content_query memmem w folded original case_sensitive limit =
     bind_o (unwrap_or [] (candidates (overlay_posting w) (overlay_verify memmem w) (overlay_num_docs w)
       folded original case_sensitive limit)) (\<lambda>docids.
     Ok (List.map_filter (live_hit w) docids))"

text \<open>A scan over the documents that stops at the cap.\<close>

fun scan :: "u32 option \<Rightarrow> (nat \<times> str \<Rightarrow> 'b option) \<Rightarrow> (nat \<times> str) list \<Rightarrow> 'b list \<Rightarrow> 'b list" where
  "scan limit f [] out = out"
| "scan limit f (x # xs) out =
     (if at_cap limit (length out) then out
      else scan limit f xs (case f x of None \<Rightarrow> out | Some y \<Rightarrow> out @ [y]))"

definition content_regex_hits ::
  "overlay \<Rightarrow> (bytes \<Rightarrow> bool) \<Rightarrow> u32 option \<Rightarrow> (str \<times> lite_meta) list" where
  "content_regex_hits w is_match limit =
     scan limit (\<lambda>(d, path).
       if path \<in> tombstones w then None
       else case (if d < length (o_contents w) then o_contents w ! d else None) of
         Some content \<Rightarrow> if is_match content then Some (path, meta_at w d) else None
       | None \<Rightarrow> None)
     (enumerate 0 (o_paths w)) []"

text \<open>\<open>path.rsplit('/').next()\<close>.\<close>

definition basename :: "str \<Rightarrow> str" where
  "basename path = rev (takeWhile (\<lambda>b. b \<noteq> 0x2F) (rev path))"

definition filename_query ::
  "unicode \<Rightarrow> overlay \<Rightarrow> str \<Rightarrow> bool \<Rightarrow> bool \<Rightarrow> u32 option \<Rightarrow> (str \<times> lite_meta) list" where
  "filename_query U w needle case_sensitive basename_only limit =
     (let lneedle = to_lowercase U needle in
      scan limit (\<lambda>(d, path).
        if path \<in> tombstones w then None
        else
          let hay = (if basename_only then basename path else path);
              hit = (if case_sensitive then sublist needle hay
                     else sublist lneedle (to_lowercase U hay)) in
          if hit then Some (path, meta_at w d) else None)
      (enumerate 0 (o_paths w)) [])"

subsection \<open>The trigram index\<close>

text \<open>\<open>index_ok m R\<close>: the index lists exactly the documents \<open>R t\<close> for each trigram \<open>t\<close>, each once.\<close>

definition index_ok :: "(u32 \<rightharpoonup> u32 list) \<Rightarrow> (u32 \<Rightarrow> u32 set) \<Rightarrow> bool" where
  "index_ok m R \<longleftrightarrow> (\<forall>t. case m t of None \<Rightarrow> R t = {} | Some v \<Rightarrow> v \<noteq> [] \<and> distinct v \<and> set v = R t)"

lemma index_okD:
  "index_ok m R \<Longrightarrow> m t = None \<Longrightarrow> R t = {}"
  "index_ok m R \<Longrightarrow> m t = Some v \<Longrightarrow> v \<noteq> [] \<and> distinct v \<and> set v = R t"
  unfolding index_ok_def by (drule spec [of _ t], simp)+

lemma index_okI:
  "(\<And>t. m t = None \<Longrightarrow> R t = {}) \<Longrightarrow> (\<And>t v. m t = Some v \<Longrightarrow> v \<noteq> [] \<and> distinct v \<and> set v = R t) \<Longrightarrow> index_ok m R"
  by (auto simp: index_ok_def split: option.split)

lemma retain_other_ok:
  assumes "index_ok m R"
  shows "index_ok (retain_other d t m) (R(t := R t - {d}))"
proof (cases "m t")
  case None
  then have "R t = {}" using index_okD(1) [OF assms] by blast
  then have "R(t := R t - {d}) = R" using fun_upd_triv [of R t] by simp
  then show ?thesis using assms None by (simp add: retain_other_def)
next
  case (Some v)
  then have "distinct v" "set v = R t" using index_okD(2) [OF assms] by auto
  then have v: "distinct (filter (\<lambda>x. x \<noteq> d) v) \<and> set (filter (\<lambda>x. x \<noteq> d) v) = R t - {d}" by auto
  show ?thesis
  proof (cases "filter (\<lambda>x. x \<noteq> d) v = []")
    case True
    then have "R t - {d} = {}" using v by (metis list.set(1))
    then show ?thesis using True Some index_okD [OF assms]
      by (intro index_okI) (auto simp: retain_other_def split: if_splits)
  next
    case False
    show ?thesis using False Some v index_okD [OF assms]
      by (intro index_okI) (auto simp: retain_other_def Let_def split: if_splits)
  qed
qed

lemma remove_postings_ok:
  assumes "index_ok m R"
  shows "index_ok (fold (retain_other d) ts m) (\<lambda>t. if t \<in> set ts then R t - {d} else R t)"
  using assms
proof (induction ts arbitrary: m R)
  case (Cons a ts)
  have "index_ok (fold (retain_other d) ts (retain_other d a m))
      (\<lambda>t. if t \<in> set ts then (R(a := R a - {d})) t - {d} else (R(a := R a - {d})) t)"
    by (rule Cons.IH [OF retain_other_ok [OF Cons.prems]])
  moreover have "(\<lambda>t. if t \<in> set ts then (R(a := R a - {d})) t - {d} else (R(a := R a - {d})) t) =
      (\<lambda>t. if t \<in> set (a # ts) then R t - {d} else R t)" by (rule ext) auto
  ultimately show ?case by simp
qed simp

lemma push_ok:
  assumes "index_ok m R" "d \<notin> R t"
  shows "index_ok (m(t \<mapsto> push_docid d (m t))) (R(t := insert d (R t)))"
proof -
  define v where "v = push_docid d (m t)"
  have v: "v \<noteq> [] \<and> distinct v \<and> set v = insert d (R t)"
  proof (cases "m t")
    case None
    then show ?thesis using index_okD(1) [OF assms(1) None] by (simp add: v_def push_docid_def)
  next
    case (Some u)
    then have u: "u \<noteq> []" "distinct u" "set u = R t" using index_okD(2) [OF assms(1)] by auto
    then have "last u \<noteq> d" using assms(2) last_in_set by metis
    then show ?thesis using u assms(2) Some by (simp add: v_def push_docid_def)
  qed
  show ?thesis unfolding v_def [symmetric]
    by (rule index_okI) (use v index_okD [OF assms(1)] in \<open>auto split: if_splits\<close>)
qed

lemma add_postings_ok:
  assumes "index_ok m R" "distinct ts" "\<forall>t\<in>set ts. d \<notin> R t"
  shows "index_ok (add_postings d ts m) (\<lambda>t. if t \<in> set ts then insert d (R t) else R t)"
  using assms
proof (induction ts arbitrary: m R)
  case (Cons a ts)
  have "index_ok (add_postings d ts (m(a \<mapsto> push_docid d (m a))))
      (\<lambda>t. if t \<in> set ts then insert d ((R(a := insert d (R a))) t) else (R(a := insert d (R a))) t)"
    using Cons.prems by (intro Cons.IH push_ok) auto
  moreover have "(\<lambda>t. if t \<in> set ts then insert d ((R(a := insert d (R a))) t) else (R(a := insert d (R a))) t) =
      (\<lambda>t. if t \<in> set (a # ts) then insert d (R t) else R t)" by (rule ext) auto
  ultimately show ?case by (simp add: add_postings_def)
qed (simp add: add_postings_def)

subsection \<open>The invariant\<close>

definition doc_keys :: "bytes option \<Rightarrow> u32 list" where
  "doc_keys c = (case c of None \<Rightarrow> [] | Some c \<Rightarrow> trigrams (fold_bytes c))"

definition docs_having :: "u32 list list \<Rightarrow> u32 \<Rightarrow> u32 set" where
  "docs_having dt t = {d. unat d < length dt \<and> t \<in> set (dt ! unat d)}"

definition overlay_ok :: "overlay \<Rightarrow> bool" where
  "overlay_ok w \<longleftrightarrow>
     length (o_paths w) < 2 ^ 32 \<and> length (o_metas w) = length (o_paths w) \<and>
     length (o_contents w) = length (o_paths w) \<and> distinct (o_paths w) \<and>
     (\<forall>p d. by_path w p = Some d \<longleftrightarrow> unat d < length (o_paths w) \<and> o_paths w ! unat d = p) \<and>
     doc_trigrams w = map doc_keys (o_contents w) \<and>
     index_ok (o_try_map w) (docs_having (doc_trigrams w)) \<and>
     (\<forall>i<length (o_paths w). o_paths w ! i \<in> tombstones w \<longrightarrow> o_contents w ! i = None)"

lemma overlay_okD:
  assumes "overlay_ok w"
  shows "length (o_paths w) < 2 ^ 32" "length (o_metas w) = length (o_paths w)"
    "length (o_contents w) = length (o_paths w)" "distinct (o_paths w)"
    "by_path w p = Some d \<longleftrightarrow> unat d < length (o_paths w) \<and> o_paths w ! unat d = p"
    "doc_trigrams w = map doc_keys (o_contents w)" "index_ok (o_try_map w) (docs_having (doc_trigrams w))"
    "i < length (o_paths w) \<Longrightarrow> o_paths w ! i \<in> tombstones w \<Longrightarrow> o_contents w ! i = None"
  using assms unfolding overlay_ok_def by blast+

lemma overlay_ok_empty [simp]: "overlay_ok empty_overlay"
  by (simp add: overlay_ok_def empty_overlay_def index_ok_def docs_having_def)

lemma by_path_None: "overlay_ok w \<Longrightarrow> by_path w p = None \<longleftrightarrow> p \<notin> set (o_paths w)"
proof
  assume ok: "overlay_ok w" and n: "by_path w p = None"
  show "p \<notin> set (o_paths w)"
  proof
    assume "p \<in> set (o_paths w)"
    then obtain i where i: "i < length (o_paths w)" "o_paths w ! i = p" by (auto simp: in_set_conv_nth)
    then have "unat (of_nat i :: u32) = i" using overlay_okD(1) [OF ok] by simp
    then have "by_path w p = Some (of_nat i)" using i overlay_okD(5) [OF ok] by simp
    then show False using n by simp
  qed
next
  assume ok: "overlay_ok w" and p: "p \<notin> set (o_paths w)"
  show "by_path w p = None"
  proof (cases "by_path w p")
    case (Some d)
    then show ?thesis using p overlay_okD(5) [OF ok] nth_mem by metis
  qed
qed

text \<open>Changing one document's trigrams, in the index and in the list.\<close>

lemma docs_having_update:
  "unat d < length dt \<Longrightarrow> docs_having (dt[unat d := ts]) t =
     (if t \<in> set ts then insert d (docs_having dt t - {d}) else docs_having dt t - {d})"
  by (auto simp: docs_having_def nth_list_update word_unat_eq_iff)

lemma replace_index:
  assumes "index_ok m (docs_having dt)" "unat d < length dt" "distinct ts"
  shows "index_ok (add_postings d ts (fold (retain_other d) (dt ! unat d) m)) (docs_having (dt[unat d := ts]))"
proof -
  have "index_ok (fold (retain_other d) (dt ! unat d) m)
      (\<lambda>t. if t \<in> set (dt ! unat d) then docs_having dt t - {d} else docs_having dt t)"
    by (rule remove_postings_ok [OF assms(1)])
  also have "(\<lambda>t. if t \<in> set (dt ! unat d) then docs_having dt t - {d} else docs_having dt t) =
      (\<lambda>t. docs_having dt t - {d})"
    by (rule ext) (auto simp: docs_having_def)
  finally have "index_ok (add_postings d ts (fold (retain_other d) (dt ! unat d) m))
      (\<lambda>t. if t \<in> set ts then insert d (docs_having dt t - {d}) else docs_having dt t - {d})"
    by (rule add_postings_ok) (use assms(3) in auto)
  also have "(\<lambda>t. if t \<in> set ts then insert d (docs_having dt t - {d}) else docs_having dt t - {d}) =
      docs_having (dt[unat d := ts])"
    by (rule ext) (simp add: docs_having_update [OF assms(2)])
  finally show ?thesis .
qed

lemma append_index:
  assumes "index_ok m (docs_having dt)" "length dt + 1 < 2 ^ 32" "distinct ts"
  shows "index_ok (add_postings (of_nat (length dt)) ts m) (docs_having (dt @ [ts]))"
proof -
  have u: "unat (of_nat (length dt) :: u32) = length dt" using assms(2) by simp
  have "index_ok (add_postings (of_nat (length dt)) ts m)
      (\<lambda>t. if t \<in> set ts then insert (of_nat (length dt)) (docs_having dt t) else docs_having dt t)"
    by (rule add_postings_ok [OF assms(1,3)]) (auto simp: docs_having_def u)
  also have "(\<lambda>t. if t \<in> set ts then insert (of_nat (length dt)) (docs_having dt t) else docs_having dt t) =
      docs_having (dt @ [ts])"
    by (rule ext) (auto simp: docs_having_def nth_append u word_unat_eq_iff less_Suc_eq)
  finally show ?thesis .
qed

lemma distinct_doc_keys [simp]: "distinct (doc_keys c)"
  by (simp add: doc_keys_def split: option.split)

subsection \<open>What a record does\<close>

definition moved :: "u32 \<Rightarrow> bytes option \<Rightarrow> overlay \<Rightarrow> overlay" where
  "moved d c w = w\<lparr>o_contents := (o_contents w)[unat d := c],
     o_try_map := add_postings d (doc_keys c) (fold (retain_other d) (doc_trigrams w ! unat d) (o_try_map w)),
     doc_trigrams := (doc_trigrams w)[unat d := doc_keys c]\<rparr>"

definition appended :: "str \<Rightarrow> lite_meta \<Rightarrow> bytes option \<Rightarrow> overlay \<Rightarrow> overlay" where
  "appended p m c w = w\<lparr>by_path := (by_path w)(p \<mapsto> of_nat (length (o_paths w))),
     o_paths := o_paths w @ [p], o_metas := o_metas w @ [m], o_contents := o_contents w @ [c],
     o_try_map := add_postings (of_nat (length (o_paths w))) (doc_keys c) (o_try_map w),
     doc_trigrams := doc_trigrams w @ [doc_keys c]\<rparr>"

lemma add_postings_Nil [simp]: "add_postings d [] m = m"
  by (simp add: add_postings_def)

lemma apply_upsert:
  assumes "overlay_ok w" "length (o_paths w) + 1 < 2 ^ 32"
  shows "apply_record (Upsert p m c) w = Ok ((case by_path w p of
      Some d \<Rightarrow> moved d c (w\<lparr>o_metas := (o_metas w)[unat d := m]\<rparr>)
    | None \<Rightarrow> appended p m c w)\<lparr>tombstones := tombstones w - {p}\<rparr>)"
proof (cases "by_path w p")
  case None
  have "unat (of_nat (length (o_paths w)) :: u32) = length (o_paths w)" using assms(2) by simp
  moreover have l: "length (doc_trigrams w) = length (o_paths w)" using overlay_okD(3,6) [OF assms(1)] by simp
  moreover have "(doc_trigrams w @ [[]])[length (o_paths w) := ts] = doc_trigrams w @ [ts]" for ts
    using list_update_append [of "doc_trigrams w" "[[]]" "length (o_paths w)" ts] l by simp
  ultimately show ?thesis using None overlay_okD(2,3) [OF assms(1)]
    by (auto simp: appended_def set_at_def doc_keys_def fold_bytes_def Let_def split: option.split
        intro!: overlay.equality)
next
  case (Some d)
  have d: "unat d < length (o_paths w)" using overlay_okD(5) [OF assms(1)] Some by blast
  then show ?thesis using Some overlay_okD(2,3,6) [OF assms(1)]
    by (auto simp: moved_def remove_doc_postings_def set_at_def doc_keys_def fold_bytes_def Let_def
        split: option.split)
qed

lemma apply_delete:
  assumes "overlay_ok w"
  shows "apply_record (Delete p) w = Ok ((case by_path w p of
      Some d \<Rightarrow> moved d None w
    | None \<Rightarrow> w)\<lparr>tombstones := insert p (tombstones w)\<rparr>)"
proof (cases "by_path w p")
  case (Some d)
  have d: "unat d < length (o_paths w)" using overlay_okD(5) [OF assms] Some by blast
  then show ?thesis using Some overlay_okD(2,3,6) [OF assms]
    by (auto simp: moved_def remove_doc_postings_def set_at_def doc_keys_def)
qed simp

lemma moved_ok:
  assumes "overlay_ok w" "by_path w p = Some d" "p \<in> tomb \<longrightarrow> c = None"
    "\<forall>q. q \<noteq> p \<longrightarrow> (q \<in> tomb \<longleftrightarrow> q \<in> tombstones w)" "length ms = length (o_metas w)"
  shows "overlay_ok ((moved d c (w\<lparr>o_metas := ms\<rparr>))\<lparr>tombstones := tomb\<rparr>)"
proof -
  note ok = overlay_okD [OF assms(1)]
  have d: "unat d < length (o_paths w)" "o_paths w ! unat d = p" using ok(5) assms(2) by blast+
  have "index_ok (add_postings d (doc_keys c) (fold (retain_other d) (doc_trigrams w ! unat d) (o_try_map w)))
      (docs_having ((doc_trigrams w)[unat d := doc_keys c]))"
    using d ok(3,6) by (intro replace_index ok) simp_all
  moreover have "i \<noteq> unat d \<Longrightarrow> i < length (o_paths w) \<Longrightarrow> o_paths w ! i \<noteq> p" for i
    using ok(4) d by (metis nth_eq_iff_index_eq)
  ultimately show ?thesis using assms(3,4,5) d ok(1-4,6,8)
    by (auto simp: overlay_ok_def moved_def map_update nth_list_update ok(5))
qed

lemma appended_ok:
  assumes "overlay_ok w" "by_path w p = None" "length (o_paths w) + 1 < 2 ^ 32"
  shows "overlay_ok ((appended p m c w)\<lparr>tombstones := tombstones w - {p}\<rparr>)"
proof -
  note ok = overlay_okD [OF assms(1)]
  have p: "p \<notin> set (o_paths w)" using by_path_None [OF assms(1)] assms(2) by blast
  have u: "unat (of_nat (length (o_paths w)) :: u32) = length (o_paths w)" using assms(3) by simp
  have l: "length (doc_trigrams w) = length (o_paths w)" using ok(3,6) by simp
  have "index_ok (add_postings (of_nat (length (o_paths w))) (doc_keys c) (o_try_map w))
      (docs_having (doc_trigrams w @ [doc_keys c]))"
    using append_index [OF ok(7), of "doc_keys c"] assms(3) l by simp
  moreover have "((by_path w)(p \<mapsto> of_nat (length (o_paths w)))) q = Some d \<longleftrightarrow>
      unat d < Suc (length (o_paths w)) \<and> (o_paths w @ [p]) ! unat d = q" for q d
    using p ok(5) [of q d] ok(5) [of p d] assms(2) u nth_mem [of "unat d" "o_paths w"]
    by (auto simp: nth_append less_Suc_eq word_unat_eq_iff)
  ultimately show ?thesis using p assms(3) ok(1-4,6,8)
    by (auto simp: overlay_ok_def appended_def nth_append less_Suc_eq)
qed

subsection \<open>The abstract view\<close>

type_synonym view = "(str \<rightharpoonup> lite_meta \<times> bytes option) \<times> str set"

fun record_spec :: "wal_record \<Rightarrow> view \<Rightarrow> view" where
  "record_spec (Upsert p m c) (live, dead) = (live(p \<mapsto> (m, c)), dead - {p})"
| "record_spec (Delete p) (live, dead) = (live(p := None), insert p dead)"

definition live :: "overlay \<Rightarrow> str \<Rightarrow> (lite_meta \<times> bytes option) option" where
  "live w p = (case by_path w p of
     None \<Rightarrow> None
   | Some d \<Rightarrow> if p \<in> tombstones w then None else Some (o_metas w ! unat d, o_contents w ! unat d))"

definition view_of :: "overlay \<Rightarrow> view" where
  "view_of w = (live w, tombstones w)"

lemma view_empty: "view_of empty_overlay = (Map.empty, {})"
  by (simp add: view_of_def live_def empty_overlay_def fun_eq_iff)

lemma record_ok:
  assumes "overlay_ok w" "length (o_paths w) + 1 < 2 ^ 32"
  shows "\<exists>w'. apply_record rec w = Ok w' \<and> overlay_ok w' \<and> length (o_paths w') \<le> length (o_paths w) + 1"
proof (cases rec)
  case (Upsert p m c)
  show ?thesis
  proof (cases "by_path w p")
    case None
    then show ?thesis using appended_ok [OF assms(1) None assms(2), of m c]
      by (simp add: Upsert apply_upsert [OF assms] del: apply_record.simps) (simp add: appended_def)
  next
    case (Some d)
    then show ?thesis using moved_ok [OF assms(1) Some, of "tombstones w - {p}" c "(o_metas w)[unat d := m]"]
      by (simp add: Upsert apply_upsert [OF assms] del: apply_record.simps) (simp add: moved_def)
  qed
next
  case (Delete p)
  show ?thesis
  proof (cases "by_path w p")
    case None
    then have "overlay_ok (w\<lparr>tombstones := insert p (tombstones w)\<rparr>)"
      using assms(1) by_path_None [OF assms(1), of p] by (auto simp: overlay_ok_def)
    then show ?thesis using None by (simp add: Delete)
  next
    case (Some d)
    then show ?thesis using moved_ok [OF assms(1) Some, of "insert p (tombstones w)" None "o_metas w"]
      by (simp add: Delete apply_delete [OF assms(1)] del: apply_record.simps) (simp add: moved_def)
  qed
qed

lemma record_view:
  assumes "overlay_ok w" "length (o_paths w) + 1 < 2 ^ 32" "apply_record rec w = Ok w'"
  shows "view_of w' = record_spec rec (view_of w)"
proof -
  note ok = overlay_okD [OF assms(1)]
  have other: "unat d \<noteq> unat d'" if "by_path w p = Some d" "by_path w q = Some d'" "q \<noteq> p" for p q d d'
    using that ok(5) by metis
  have bound: "unat d < length (o_paths w)" if "by_path w p = Some d" for p d
    using that ok(5) by blast
  show ?thesis
  proof (cases rec)
    case (Upsert p m c)
    have u: "unat (of_nat (length (o_paths w)) :: u32) = length (o_paths w)" using assms(2) by simp
    show ?thesis
    proof (cases "by_path w p")
      case None
      have w': "w' = (appended p m c w)\<lparr>tombstones := tombstones w - {p}\<rparr>"
        using assms(3) None by (simp add: Upsert apply_upsert [OF assms(1,2)] del: apply_record.simps)
      have "live w' q = ((live w)(p \<mapsto> (m, c))) q" for q
        using None u ok(2,3) bound
        by (auto simp: w' live_def appended_def nth_append split: option.split)
      then show ?thesis by (auto simp: view_of_def Upsert w' appended_def)
    next
      case (Some d)
      have w': "w' = (moved d c (w\<lparr>o_metas := (o_metas w)[unat d := m]\<rparr>))\<lparr>tombstones := tombstones w - {p}\<rparr>"
        using assms(3) Some by (simp add: Upsert apply_upsert [OF assms(1,2)] del: apply_record.simps)
      have "live w' q = ((live w)(p \<mapsto> (m, c))) q" for q
        using Some ok(2,3) bound [OF Some] other [OF Some]
        by (auto simp: w' live_def moved_def split: option.split)
      then show ?thesis by (auto simp: view_of_def Upsert w' moved_def)
    qed
  next
    case (Delete p)
    show ?thesis
    proof (cases "by_path w p")
      case None
      then show ?thesis using assms(3)
        by (auto simp: Delete view_of_def live_def fun_eq_iff split: option.split)
    next
      case (Some d)
      have w': "w' = (moved d None w)\<lparr>tombstones := insert p (tombstones w)\<rparr>"
        using assms(3) Some by (simp add: Delete apply_delete [OF assms(1)] del: apply_record.simps)
      have "live w' q = ((live w)(p := None)) q" for q
        using Some ok(2,3) bound [OF Some] other [OF Some]
        by (auto simp: w' live_def moved_def split: option.split)
      then show ?thesis by (auto simp: view_of_def Delete w' moved_def)
    qed
  qed
qed

text \<open>A record costs at most one document; documents are numbered with 32 bits.\<close>

definition replays :: "nat \<Rightarrow> overlay \<Rightarrow> view \<Rightarrow> bool" where
  "replays n w v \<longleftrightarrow> overlay_ok w \<and> length (o_paths w) \<le> n \<and> view_of w = v"

interpretation records: bounded_run apply_record record_spec replays "\<lambda>r. 1" "\<lambda>r. True" "2 ^ 32"
proof
  fix n w v rec
  assume r: "replays n w v" "n + 1 < 2 ^ 32"
  have l: "overlay_ok w" "length (o_paths w) + 1 < 2 ^ 32" using r by (simp_all add: replays_def)
  from record_ok [OF l] obtain w' where
    "apply_record rec w = Ok w'" "overlay_ok w'" "length (o_paths w') \<le> length (o_paths w) + 1" by blast
  then show "\<exists>w'. apply_record rec w = Ok w' \<and> replays (n + 1) w' (record_spec rec v)"
    using record_view [OF l] r(1) by (auto simp: replays_def)
qed

lemma records_refine:
  assumes "overlay_ok w" "length (o_paths w) + length recs < 2 ^ 32"
  shows "\<exists>w'. apply_records recs w = Ok w' \<and> overlay_ok w' \<and> view_of w' = fold record_spec recs (view_of w) \<and>
    length (o_paths w') \<le> length (o_paths w) + length recs"
proof -
  have "replays (length (o_paths w)) w (view_of w)" using assms(1) by (simp add: replays_def)
  from records.run_refines [OF this, of recs] assms(2) show ?thesis
    by (auto simp: apply_records_def replays_def sum_list_triv)
qed

subsection \<open>Queries on the view\<close>

lemma live_iff:
  assumes "overlay_ok w"
  shows "live w p = Some (m, c) \<longleftrightarrow>
    (\<exists>i<length (o_paths w). o_paths w ! i = p \<and> p \<notin> tombstones w \<and> o_metas w ! i = m \<and> o_contents w ! i = c)"
proof
  assume "live w p = Some (m, c)"
  then obtain d where "by_path w p = Some d" "p \<notin> tombstones w" "o_metas w ! unat d = m" "o_contents w ! unat d = c"
    by (auto simp: live_def split: option.splits if_splits)
  then show "\<exists>i<length (o_paths w). o_paths w ! i = p \<and> p \<notin> tombstones w \<and> o_metas w ! i = m \<and> o_contents w ! i = c"
    using overlay_okD(5) [OF assms, of p d] by blast
next
  assume "\<exists>i<length (o_paths w). o_paths w ! i = p \<and> p \<notin> tombstones w \<and> o_metas w ! i = m \<and> o_contents w ! i = c"
  then obtain i where i: "i < length (o_paths w)" "o_paths w ! i = p" "p \<notin> tombstones w"
    "o_metas w ! i = m" "o_contents w ! i = c" by blast
  have u: "unat (of_nat i :: u32) = i" using i(1) overlay_okD(1) [OF assms] by simp
  then have "by_path w p = Some (of_nat i)" using i(1,2) overlay_okD(5) [OF assms] by simp
  then show "live w p = Some (m, c)" using i u by (simp add: live_def)
qed

lemma suppresses_view:
  assumes "overlay_ok w"
  shows "suppresses w p \<longleftrightarrow> live w p \<noteq> None \<or> p \<in> tombstones w"
  by (auto simp: suppresses_def live_def split: option.split)

lemma docid_less: "length xs < 2 ^ 32 \<Longrightarrow> d < of_nat (length xs) \<longleftrightarrow> unat (d :: u32) < length xs"
  by (simp add: word_less_nat_alt)

lemma map_filter_all: "(\<And>x. x \<in> set xs \<Longrightarrow> f x = Some (g x)) \<Longrightarrow> List.map_filter f xs = map g xs"
  by (induction xs) (auto simp: List.map_filter_simps)

lemma take_limit_map': "map f (take_limit limit xs) = take_limit limit (map f xs)"
  by (simp add: take_limit_def take_map split: option.split)

lemma set_take_limit_le: "x \<in> set (take_limit limit xs) \<Longrightarrow> x \<in> set xs"
  by (auto simp: take_limit_def split: option.splits dest: in_set_takeD)

definition overlay_hit :: "overlay \<Rightarrow> u32 \<Rightarrow> bytes \<Rightarrow> bool \<Rightarrow> bool" where
  "overlay_hit w d needle case_sensitive = (case overlay_content w d of
     None \<Rightarrow> False | Some c \<Rightarrow> content_hit c needle case_sensitive)"

interpretation overlay: candidate_index
  overlay_posting "overlay_verify memmem" overlay_num_docs "\<lambda>w. overlay_ok w \<and> memmem_ok memmem"
  "\<lambda>w d t. t \<in> set (doc_keys (overlay_content w d))" overlay_hit for memmem
proof
  fix w t
  assume "overlay_ok w \<and> memmem_ok memmem"
  then have ok: "overlay_ok w" by simp
  have dh: "docs_having (doc_trigrams w) t = {d. d < overlay_num_docs w \<and> t \<in> set (doc_keys (overlay_content w d))}"
  proof (rule set_eqI)
    fix d
    show "d \<in> docs_having (doc_trigrams w) t \<longleftrightarrow>
        d \<in> {d. d < overlay_num_docs w \<and> t \<in> set (doc_keys (overlay_content w d))}"
      using docid_less [OF overlay_okD(1) [OF ok], of d]
      by (simp add: docs_having_def overlay_num_docs_def overlay_content_def
          overlay_okD(3) [OF ok] overlay_okD(6) [OF ok])
  qed
  show "\<exists>p. overlay_posting w t = Ok p \<and>
      (case p of None \<Rightarrow> \<forall>d<overlay_num_docs w. t \<notin> set (doc_keys (overlay_content w d))
       | Some ds \<Rightarrow> distinct ds \<and> set ds = {d. d < overlay_num_docs w \<and> t \<in> set (doc_keys (overlay_content w d))})"
    using index_okD [OF overlay_okD(7) [OF ok], of t] unfolding dh overlay_posting_def
    by (cases "o_try_map w t") auto
next
  fix w d needle case_sensitive
  assume "overlay_ok w \<and> memmem_ok memmem" "d < overlay_num_docs w"
  then show "overlay_verify memmem w d needle case_sensitive = Ok (overlay_hit w d needle case_sensitive)"
    using memmem_iff [of memmem]
    by (auto simp: overlay_verify_def overlay_hit_def content_hit_def Let_def split: option.split)
qed

lemma live_hit_content:
  assumes "overlay_ok w" "unat d < length (o_paths w)" "overlay_content w d \<noteq> None"
  shows "live_hit w d = Some (o_paths w ! unat d, o_metas w ! unat d)" "o_paths w ! unat d \<notin> tombstones w"
proof -
  show "o_paths w ! unat d \<notin> tombstones w"
    using assms overlay_okD(3,8) [OF assms(1)] by (auto simp: overlay_content_def)
  then show "live_hit w d = Some (o_paths w ! unat d, o_metas w ! unat d)"
    using assms(2) overlay_okD(2) [OF assms(1)] by (simp add: live_hit_def overlay_path_def meta_at_def)
qed

lemma content_query_view:
  assumes "overlay_ok w" "memmem_ok memmem"
  shows "\<exists>hits. content_query memmem w (fold_bytes q) q cs limit = Ok (take_limit limit hits) \<and> distinct hits \<and>
    set hits = {(p, m). \<exists>c. live w p = Some (m, Some c) \<and> content_hit c (if cs then q else fold_bytes q) cs}"
proof -
  let ?n = "if cs then q else fold_bytes q" and ?g = "\<lambda>d :: u32. (o_paths w ! unat d, o_metas w ! unat d)"
  note ok = overlay_okD [OF assms(1)]
  have "overlay_hit w d ?n cs \<Longrightarrow> \<forall>t\<in>set (trigrams (fold_bytes q)). t \<in> set (doc_keys (overlay_content w d))" for d
    using content_hit_trigrams [of _ cs q] by (auto simp: overlay_hit_def doc_keys_def split: option.splits)
  then obtain ds where ds: "candidates (overlay_posting w) (overlay_verify memmem w) (overlay_num_docs w)
      (fold_bytes q) q cs limit = Ok (take_limit limit ds)" "distinct ds"
    "set ds = {d. d < overlay_num_docs w \<and> overlay_hit w d ?n cs}"
    using overlay.candidates_set [where s = w and memmem = memmem and folded = "fold_bytes q" and original = q
        and case_sensitive = cs and limit = limit] assms by blast
  have d: "unat d < length (o_paths w) \<and> overlay_content w d \<noteq> None" if "d \<in> set ds" for d
    using that ds(3) docid_less [OF ok(1), of d] by (auto simp: overlay_num_docs_def overlay_hit_def)
  have "List.map_filter (live_hit w) (take_limit limit ds) = map ?g (take_limit limit ds)"
    using d live_hit_content [OF assms(1)] by (intro map_filter_all) (meson set_take_limit_le)
  then have q: "content_query memmem w (fold_bytes q) q cs limit = Ok (take_limit limit (map ?g ds))"
    by (simp add: content_query_def ds(1) take_limit_map')
  have "inj_on ?g (set ds)"
  proof (rule inj_onI)
    fix x y assume "x \<in> set ds" "y \<in> set ds" "?g x = ?g y"
    then have "unat x = unat y" using d ok(4) by (metis nth_eq_iff_index_eq prod.inject)
    then show "x = y" by (simp add: word_unat_eq_iff)
  qed
  then have di: "distinct (map ?g ds)" using ds(2) by (simp add: distinct_map)
  have "(p, m) \<in> set (map ?g ds) \<longleftrightarrow> (\<exists>c. live w p = Some (m, Some c) \<and> content_hit c ?n cs)" for p m
  proof
    assume "(p, m) \<in> set (map ?g ds)"
    then obtain x where x: "x \<in> set ds" "(p, m) = ?g x" by auto
    then obtain c where c: "overlay_content w x = Some c" "content_hit c ?n cs"
      using ds(3) by (auto simp: overlay_hit_def split: option.splits)
    then have "live w p = Some (m, Some c)"
      using x d [OF x(1)] live_hit_content(2) [OF assms(1), of x] ok(3) unfolding live_iff [OF assms(1)]
      by (intro exI [of _ "unat x"]) (auto simp: overlay_content_def)
    then show "\<exists>c. live w p = Some (m, Some c) \<and> content_hit c ?n cs" using c by blast
  next
    assume "\<exists>c. live w p = Some (m, Some c) \<and> content_hit c ?n cs"
    then obtain c i where i: "i < length (o_paths w)" "o_paths w ! i = p" "o_metas w ! i = m"
      "o_contents w ! i = Some c" "content_hit c ?n cs" unfolding live_iff [OF assms(1)] by blast
    have u: "unat (of_nat i :: u32) = i" using i(1) ok(1) by simp
    have "of_nat i \<in> set ds"
      using i ok(3) u docid_less [OF ok(1), of "of_nat i"]
      by (simp add: ds(3) overlay_num_docs_def overlay_hit_def overlay_content_def)
    moreover have "(p, m) = ?g (of_nat i)" using i u by simp
    ultimately show "(p, m) \<in> set (map ?g ds)" unfolding list.set_map by (intro image_eqI)
  qed
  then have "set (map ?g ds) = {(p, m). \<exists>c. live w p = Some (m, Some c) \<and> content_hit c ?n cs}"
    by (simp only: set_eq_iff split_paired_All mem_Collect_eq prod.case simp_thms)
  then show ?thesis using q di by blast
qed

lemma scan_eq:
  "(case limit of None \<Rightarrow> True | Some l \<Rightarrow> length out \<le> unat l) \<Longrightarrow>
   scan limit f xs out = take_limit limit (out @ List.map_filter f xs)"
proof (induction xs arbitrary: out)
  case Nil
  then show ?case by (auto simp: take_limit_def List.map_filter_simps split: option.splits)
next
  case (Cons x xs)
  show ?case
  proof (cases "at_cap limit (length out)")
    case True
    then obtain l where "limit = Some l" "length out = unat l"
      using Cons.prems by (auto simp: at_cap_def split: option.splits)
    then show ?thesis using True by (simp add: take_limit_def)
  next
    case False
    have "case limit of None \<Rightarrow> True
        | Some l \<Rightarrow> length (case f x of None \<Rightarrow> out | Some y \<Rightarrow> out @ [y]) \<le> unat l"
      using False Cons.prems by (auto simp: at_cap_def split: option.splits)
    from Cons.IH [OF this] show ?thesis using False
      by (auto simp: List.map_filter_simps split: option.split)
  qed
qed

lemma scan_all: "scan limit f xs [] = take_limit limit (List.map_filter f xs)"
  by (rule trans [OF scan_eq]) (auto split: option.split)

lemma enumerate_nth: "enumerate 0 xs = map (\<lambda>i. (i, xs ! i)) [0..<length xs]"
  by (rule nth_equalityI) (simp_all add: nth_enumerate_eq)

lemma scan_docs_view:
  assumes "overlay_ok w"
    and f: "\<And>i. i < length (o_paths w) \<Longrightarrow> f (i, o_paths w ! i) =
      (if o_paths w ! i \<notin> tombstones w \<and> P (o_paths w ! i) (o_contents w ! i)
       then Some (o_paths w ! i, o_metas w ! i) else None)"
  shows "\<exists>hits. scan limit f (enumerate 0 (o_paths w)) [] = take_limit limit hits \<and> distinct hits \<and>
    set hits = {(p, m). \<exists>c. live w p = Some (m, c) \<and> P p c}"
proof -
  let ?Q = "\<lambda>i. o_paths w ! i \<notin> tombstones w \<and> P (o_paths w ! i) (o_contents w ! i)"
  let ?is = "filter ?Q [0..<length (o_paths w)]" and ?g = "\<lambda>i. (o_paths w ! i, o_metas w ! i)"
  have "List.map_filter f (map (\<lambda>i. (i, o_paths w ! i)) is) = map ?g (filter ?Q is)"
    if "\<forall>i\<in>set is. i < length (o_paths w)" for "is"
    using that by (induction "is") (auto simp: List.map_filter_simps f)
  then have "scan limit f (enumerate 0 (o_paths w)) [] = take_limit limit (map ?g ?is)"
    by (simp add: scan_all enumerate_nth)
  moreover have "distinct (map ?g ?is)"
    using overlay_okD(4) [OF assms(1)]
    by (auto simp: distinct_map nth_eq_iff_index_eq intro!: inj_onI)
  moreover have "set (map ?g ?is) = {(p, m). \<exists>c. live w p = Some (m, c) \<and> P p c}"
    unfolding live_iff [OF assms(1)] by auto
  ultimately show ?thesis by blast
qed

definition name_hit :: "unicode \<Rightarrow> str \<Rightarrow> bool \<Rightarrow> bool \<Rightarrow> str \<Rightarrow> bool" where
  "name_hit U needle case_sensitive basename_only p \<longleftrightarrow>
     (let hay = (if basename_only then basename p else p) in
      if case_sensitive then sublist needle hay else sublist (to_lowercase U needle) (to_lowercase U hay))"

lemma filename_query_view:
  assumes "overlay_ok w"
  shows "\<exists>hits. filename_query U w needle cs base limit = take_limit limit hits \<and> distinct hits \<and>
    set hits = {(p, m). \<exists>c. live w p = Some (m, c) \<and> name_hit U needle cs base p}"
  unfolding filename_query_def Let_def
  by (rule scan_docs_view [OF assms, where P = "\<lambda>p c. name_hit U needle cs base p"])
    (use overlay_okD(2) [OF assms] in \<open>auto simp: name_hit_def meta_at_def Let_def\<close>)

lemma content_regex_view:
  assumes "overlay_ok w"
  shows "\<exists>hits. content_regex_hits w is_match limit = take_limit limit hits \<and> distinct hits \<and>
    set hits = {(p, m). \<exists>c. live w p = Some (m, c) \<and> (\<exists>b. c = Some b \<and> is_match b)}"
  unfolding content_regex_hits_def
  by (rule scan_docs_view [OF assms, where P = "\<lambda>p c. \<exists>b. c = Some b \<and> is_match b"])
    (use overlay_okD(2,3) [OF assms] in \<open>auto simp: meta_at_def split: option.split\<close>)

subsection \<open>Properties\<close>

text \<open>
  C11. The overlay implements its abstract view. Replaying any log of fewer than 2^32 records into
  an empty overlay ends without a panic in a state that satisfies the invariant, and whose live
  paths, contents and tombstones are those of the records applied in order: an upsert makes its
  version the current one and lifts the tombstone, a deletion removes the path and leaves one.
  What the overlay suppresses of the cold layers are the live and the tombstoned paths.
\<close>

theorem overlay_refines_log:
  assumes "length recs < 2 ^ 32"
  shows "\<exists>w. apply_records recs empty_overlay = Ok w \<and> overlay_ok w \<and>
    view_of w = fold record_spec recs (Map.empty, {}) \<and>
    (\<forall>p. suppresses w p \<longleftrightarrow> live w p \<noteq> None \<or> p \<in> tombstones w)"
proof -
  have "length (o_paths empty_overlay) + length recs < 2 ^ 32"
    using assms by (simp add: empty_overlay_def)
  from records_refine [OF overlay_ok_empty this] obtain w
    where "apply_records recs empty_overlay = Ok w" "overlay_ok w"
      "view_of w = fold record_spec recs (view_of empty_overlay)" by blast
  then show ?thesis using suppresses_view [of w] by (intro exI [of _ w]) (simp add: view_empty)
qed

text \<open>
  C23. Queries of a replayed overlay are exact on its live files. Content queries find each live
  file whose content contains the query (folded, unless the case matters) once, with its current
  metadata; filename queries those whose path or basename does; regex queries those whose content
  the expression matches. A limit keeps a prefix. Replaced and deleted contents are never found.
\<close>

theorem overlay_queries_exact:
  assumes "memmem_ok memmem" and "apply_records recs empty_overlay = Ok w" and "length recs < 2 ^ 32"
  shows "(\<exists>hits. content_query memmem w (fold_bytes q) q cs limit = Ok (take_limit limit hits) \<and> distinct hits \<and>
      set hits = {(p, m). \<exists>c. live w p = Some (m, Some c) \<and> content_hit c (if cs then q else fold_bytes q) cs})
    \<and> (\<exists>hits. filename_query U w needle cs base limit = take_limit limit hits \<and> distinct hits \<and>
      set hits = {(p, m). \<exists>c. live w p = Some (m, c) \<and> name_hit U needle cs base p})
    \<and> (\<exists>hits. content_regex_hits w is_match limit = take_limit limit hits \<and> distinct hits \<and>
      set hits = {(p, m). \<exists>c. live w p = Some (m, Some c) \<and> is_match c})"
proof -
  have "length (o_paths empty_overlay) + length recs < 2 ^ 32"
    using assms(3) by (simp add: empty_overlay_def)
  from records_refine [OF overlay_ok_empty this] have ok: "overlay_ok w" using assms(2) by auto
  have "{(p, m). \<exists>c. live w p = Some (m, c) \<and> (\<exists>b. c = Some b \<and> is_match b)} =
    {(p, m). \<exists>c. live w p = Some (m, Some c) \<and> is_match c}" by auto
  note regex = content_regex_view [OF ok, of is_match limit, unfolded this]
  show ?thesis by (intro conjI content_query_view [OF ok assms(1)] filename_query_view [OF ok] regex)
qed

definition demo_records :: "wal_record list" where
  "demo_records = [Upsert [0x61] default_meta (Some [0x41, 0x62, 0x63]), Upsert [0x62] default_meta None,
     Upsert [0x61] default_meta (Some [0x78, 0x79, 0x7A]), Delete [0x62]]"

theorem overlay_refines_log_witness:
  "\<exists>w. apply_records demo_records empty_overlay = Ok w \<and>
     live w [0x61] = Some (default_meta, Some [0x78, 0x79, 0x7A]) \<and> live w [0x62] = None \<and> suppresses w [0x62]"
proof -
  obtain w where w: "apply_records demo_records empty_overlay = Ok w"
    "view_of w = fold record_spec demo_records (Map.empty, {})"
    "\<forall>p. suppresses w p \<longleftrightarrow> live w p \<noteq> None \<or> p \<in> tombstones w"
    using overlay_refines_log [of demo_records] by (auto simp: demo_records_def)
  then show ?thesis by (auto simp: view_of_def demo_records_def)
qed

theorem overlay_queries_exact_witness:
  "\<exists>w hits. apply_records demo_records empty_overlay = Ok w \<and>
     content_query naive_find w [0x78, 0x79, 0x7A] [0x78, 0x79, 0x7A] True None = Ok hits \<and>
     set hits = {([0x61], default_meta)}"
proof -
  let ?q = "[0x78, 0x79, 0x7A] :: bytes"
  have l: "length demo_records < 2 ^ 32" by (simp add: demo_records_def)
  obtain w where w: "apply_records demo_records empty_overlay = Ok w"
    "view_of w = fold record_spec demo_records (view_of empty_overlay)"
    using records_refine [OF overlay_ok_empty, of demo_records] l by (auto simp: empty_overlay_def)
  have lv: "live w = [[0x61] \<mapsto> (default_meta, Some ?q)]"
    using w(2) by (auto simp: view_of_def view_empty [unfolded view_of_def] demo_records_def fun_eq_iff)
  have f: "fold_bytes ?q = ?q" by code_simp
  obtain hits where "content_query naive_find w ?q ?q True None = Ok hits"
    "set hits = {(p, m). \<exists>c. live w p = Some (m, Some c) \<and> content_hit c ?q True}"
    using overlay_queries_exact [OF naive_find_ok w(1) l, of ?q True None, THEN conjunct1]
    unfolding f take_limit_def by auto
  moreover have "{(p, m). \<exists>c. live w p = Some (m, Some c) \<and> content_hit c ?q True} = {([0x61], default_meta)}"
  proof -
    have "live w p = Some (m, Some c) \<longleftrightarrow> p = [0x61] \<and> m = default_meta \<and> c = ?q" for p m c
      unfolding lv by auto
    moreover have "content_hit ?q ?q True" unfolding content_hit_def by simp
    ultimately show ?thesis by blast
  qed
  ultimately show ?thesis using w(1) by auto
qed

end
