(* ===== verification/Wal.thy ===== *)
theory Wal
  imports Overlay
begin

section \<open>The overlay's log (overlay.rs: encode_record, decode_records; crates/df-index/src/overlay_store.rs)\<close>

text \<open>
  The log is a run of frames, a 32-bit length and a bincode body. \<open>decode_records\<close> stops at the
  first frame that is cut off or does not decode. The bincode crate is a parameter. The store is a
  state machine over the file as the process sees it and the file as the disk has it: what is
  appended reaches the disk at a \<open>sync\<close> or earlier, in order, and a restart finds what the disk has.
\<close>

record bincode =
  enc_body :: "wal_record \<Rightarrow> string + bytes"
  dec_body :: "bytes \<Rightarrow> (wal_record \<times> nat) option"

text \<open>What the code relies on: a body decodes to the record it was encoded from.\<close>

definition bincode_ok :: "bincode \<Rightarrow> bool" where
  "bincode_ok bc \<longleftrightarrow> (\<forall>r b. enc_body bc r = Inr b \<longrightarrow> dec_body bc b = Some (r, length b))"

definition encode_record :: "bincode \<Rightarrow> wal_record \<Rightarrow> bytes res" where
  "encode_record bc rec =
     (case enc_body bc rec of
        Inl e \<Rightarrow> Err (Codec (''wal encode: '' @ e))
      | Inr body \<Rightarrow> Ok (to_le (of_nat (length body) :: u32) @ body))"

function decode_from :: "bincode \<Rightarrow> bytes \<Rightarrow> nat \<Rightarrow> wal_record list \<Rightarrow> wal_record list" where
  "decode_from bc bytes p out =
     (if p + 4 \<le> length bytes then
        (let n = of_le (take 4 (drop p bytes)); p = p + 4 in
         if p + n > length bytes then out
         else case dec_body bc (take n (drop p bytes)) of
           Some (rec, _) \<Rightarrow> decode_from bc bytes (p + n) (out @ [rec])
         | None \<Rightarrow> out)
      else out)"
  by pat_completeness auto
termination
  by (relation "measure (\<lambda>(bc, bytes, p, out). length bytes - p)") auto

declare decode_from.simps [simp del]

definition decode_records :: "bincode \<Rightarrow> bytes \<Rightarrow> wal_record list" where
  "decode_records bc bytes = decode_from bc bytes 0 []"

subsection \<open>Frames\<close>

text \<open>A record is loggable if its body is encoded and its length fits the frame's field.\<close>

definition frame :: "bincode \<Rightarrow> wal_record \<Rightarrow> bytes" where
  "frame bc rec = (case enc_body bc rec of Inl e \<Rightarrow> [] | Inr body \<Rightarrow> to_le (of_nat (length body) :: u32) @ body)"

definition loggable :: "bincode \<Rightarrow> wal_record \<Rightarrow> bool" where
  "loggable bc rec \<longleftrightarrow> (case enc_body bc rec of Inl e \<Rightarrow> False | Inr body \<Rightarrow> length body < 2 ^ 32)"

definition frames :: "bincode \<Rightarrow> wal_record list \<Rightarrow> bytes" where
  "frames bc recs = concat (map (frame bc) recs)"

lemma encode_record_frame: "loggable bc rec \<Longrightarrow> encode_record bc rec = Ok (frame bc rec)"
  by (auto simp: loggable_def encode_record_def frame_def split: sum.splits)

lemma frames_simps [simp]:
  "frames bc [] = []" "frames bc (r # rs) = frame bc r @ frames bc rs"
  "frames bc (rs @ ss) = frames bc rs @ frames bc ss"
  by (simp_all add: frames_def)

lemma of_le_to_le: "of_le (to_le (w :: u32)) = unat w"
  using unat_u32_less [of w] by (simp add: to_le_def of_le_le_nat)

lemma loggableE:
  assumes "loggable bc rec"
  obtains body where "enc_body bc rec = Inr body" "length body < 2 ^ 32"
    "frame bc rec = to_le (of_nat (length body) :: u32) @ body"
  using assms by (auto simp: loggable_def frame_def split: sum.splits)

lemma decode_frames:
  assumes "bincode_ok bc" "\<forall>r\<in>set recs. loggable bc r"
  shows "decode_from bc (pre @ frames bc recs @ tail) (length pre) out =
    decode_from bc (pre @ frames bc recs @ tail) (length pre + length (frames bc recs)) (out @ recs)"
  using assms(2)
proof (induction recs arbitrary: pre out)
  case (Cons r recs)
  obtain body where b: "enc_body bc r = Inr body" "length body < 2 ^ 32"
    "frame bc r = to_le (of_nat (length body) :: u32) @ body" using Cons.prems by (auto elim: loggableE)
  let ?bytes = "pre @ frames bc (r # recs) @ tail"
  have n: "of_le (take 4 (drop (length pre) ?bytes)) = length body"
    using b(2) by (simp add: b(3) of_le_to_le)
  have t: "take (length body) (drop (length pre + 4) ?bytes) = body" by (simp add: b(3))
  have d: "dec_body bc body = Some (r, length body)" using assms(1) b(1) by (simp add: bincode_ok_def)
  have l: "length pre + 4 \<le> length ?bytes" "\<not> length pre + 4 + length body > length ?bytes"
    by (simp_all add: b(3))
  have "decode_from bc ?bytes (length pre) out = decode_from bc ?bytes (length pre + 4 + length body) (out @ [r])"
    by (subst decode_from.simps) (simp only: l if_True if_False n t d option.case prod.case Let_def)
  also have "\<dots> = decode_from bc ((pre @ frame bc r) @ frames bc recs @ tail) (length (pre @ frame bc r)) (out @ [r])"
    by (simp add: b(3) add.assoc)
  also have "\<dots> = decode_from bc ((pre @ frame bc r) @ frames bc recs @ tail)
      (length (pre @ frame bc r) + length (frames bc recs)) ((out @ [r]) @ recs)"
    using Cons.prems by (intro Cons.IH) simp
  finally show ?case by (simp add: add.assoc)
qed simp

text \<open>A tail that announces more bytes than follow ends the decoding.\<close>

definition cut_off :: "bytes \<Rightarrow> bool" where
  "cut_off tail \<longleftrightarrow> length tail < 4 \<or> of_le (take 4 tail) > length tail - 4"

lemma decode_cut_off:
  assumes "bincode_ok bc" "\<forall>r\<in>set recs. loggable bc r" "cut_off tail"
  shows "decode_records bc (frames bc recs @ tail) = recs"
proof -
  have "decode_records bc (frames bc recs @ tail) =
      decode_from bc (frames bc recs @ tail) (length (frames bc recs)) recs"
    using decode_frames [OF assms(1,2), of "[]" tail "[]"] by (simp add: decode_records_def)
  also have "\<dots> = recs"
    using assms(3) by (subst decode_from.simps) (auto simp: cut_off_def Let_def)
  finally show ?thesis .
qed

lemma frame_cut_off:
  assumes "loggable bc rec" "k < length (frame bc rec)"
  shows "cut_off (take k (frame bc rec))"
proof -
  obtain body where b: "length body < 2 ^ 32" "frame bc rec = to_le (of_nat (length body) :: u32) @ body"
    using assms(1) by (auto elim: loggableE)
  show ?thesis
  proof (cases "k < 4")
    case False
    then have "take 4 (take k (frame bc rec)) = to_le (of_nat (length body) :: u32)"
      by (simp add: b(2) min_def)
    then have "of_le (take 4 (take k (frame bc rec))) = length body" using b(1) by (simp add: of_le_to_le)
    then show ?thesis using assms(2) False unfolding cut_off_def by (simp add: b(2) min_def)
  qed (simp add: cut_off_def min_def)
qed

lemma take_frames:
  assumes "k \<le> length (frames bc recs)"
  shows "\<exists>j\<le>length recs. \<exists>m. take k (frames bc recs) = frames bc (take j recs) @ m \<and>
    (if j < length recs then m = take (k - length (frames bc (take j recs))) (frame bc (recs ! j)) \<and>
       k - length (frames bc (take j recs)) < length (frame bc (recs ! j)) else m = []) \<and>
    length (frames bc (take j recs)) \<le> k"
  using assms
proof (induction recs arbitrary: k)
  case (Cons r recs)
  show ?case
  proof (cases "k < length (frame bc r)")
    case True
    then show ?thesis by (intro exI [of _ 0] conjI exI [of _ "take k (frame bc r)"]) simp_all
  next
    case False
    then have "k - length (frame bc r) \<le> length (frames bc recs)" using Cons.prems by simp
    from Cons.IH [OF this] obtain j m where j: "j \<le> length recs"
      "take (k - length (frame bc r)) (frames bc recs) = frames bc (take j recs) @ m"
      "if j < length recs then m = take (k - length (frame bc r) - length (frames bc (take j recs))) (frame bc (recs ! j)) \<and>
         k - length (frame bc r) - length (frames bc (take j recs)) < length (frame bc (recs ! j)) else m = []"
      "length (frames bc (take j recs)) \<le> k - length (frame bc r)" by blast
    then show ?thesis using False
      by (intro exI [of _ "Suc j"] conjI exI [of _ m]) (auto simp: diff_diff_left split: if_splits)
  qed
qed (simp add: exI [of _ 0])

lemma decode_take:
  assumes "bincode_ok bc" "\<forall>r\<in>set recs. loggable bc r" "k \<le> length (frames bc recs)"
  shows "\<exists>j\<le>length recs. decode_records bc (take k (frames bc recs)) = take j recs \<and>
    length (frames bc (take j recs)) \<le> k \<and> (j < length recs \<longrightarrow> k < length (frames bc (take (Suc j) recs)))"
proof -
  obtain j m where j: "j \<le> length recs" "take k (frames bc recs) = frames bc (take j recs) @ m"
    "if j < length recs then m = take (k - length (frames bc (take j recs))) (frame bc (recs ! j)) \<and>
       k - length (frames bc (take j recs)) < length (frame bc (recs ! j)) else m = []"
    "length (frames bc (take j recs)) \<le> k" using take_frames [OF assms(3)] by blast
  have "cut_off m"
  proof (cases "j < length recs")
    case True
    then show ?thesis using j(3) frame_cut_off [of bc "recs ! j"] assms(2) by simp
  next
    case False
    then show ?thesis using j(3) by (simp add: cut_off_def)
  qed
  moreover have "\<forall>r\<in>set (take j recs). loggable bc r" using assms(2) by (meson in_set_takeD)
  ultimately have "decode_records bc (take k (frames bc recs)) = take j recs"
    unfolding j(2) using decode_cut_off [OF assms(1)] by blast
  moreover have "k < length (frames bc (take (Suc j) recs))" if "j < length recs"
  proof -
    have "k - length (frames bc (take j recs)) < length (frame bc (recs ! j))" using j(3) that by simp
    then have "k < length (frames bc (take j recs)) + length (frame bc (recs ! j))" using j(4) by linarith
    then show ?thesis using that by (simp add: take_Suc_conv_app_nth)
  qed
  ultimately show ?thesis using j(1,4) by blast
qed

subsection \<open>The store\<close>

text \<open>
  \<open>seen\<close> is the file the process reads and writes (\<open>OverlayStore\<close> and \<open>replay\<close>), \<open>kept\<close> what the
  disk holds. Between calls the system may write out any part of what was appended (\<open>Flush k\<close>). A
  failed append may leave the beginning of its frame (\<open>Torn\<close>). \<open>Restart\<close> reopens the file, in
  append mode, with what the disk kept.
\<close>

record wal_file =
  seen :: bytes
  kept :: bytes

datatype store_op = Append wal_record | Torn wal_record nat | Sync | Truncate | Flush nat | Restart

definition fresh_file :: wal_file where
  "fresh_file = \<lparr>seen = [], kept = []\<rparr>"

definition append :: "bincode \<Rightarrow> wal_record \<Rightarrow> wal_file \<Rightarrow> wal_file res" where
  "append bc rec f = bind_o (encode_record bc rec) (\<lambda>bytes. Ok (f\<lparr>seen := seen f @ bytes\<rparr>))"

definition sync :: "wal_file \<Rightarrow> wal_file" where
  "sync f = f\<lparr>kept := seen f\<rparr>"

definition truncate :: "wal_file \<Rightarrow> wal_file" where
  "truncate f = f\<lparr>seen := []\<rparr>"

definition replay :: "bincode \<Rightarrow> wal_file option \<Rightarrow> wal_record list" where
  "replay bc file = (case file of None \<Rightarrow> [] | Some f \<Rightarrow> decode_records bc (seen f))"

fun store_step :: "bincode \<Rightarrow> store_op \<Rightarrow> wal_file \<Rightarrow> wal_file" where
  "store_step bc (Append rec) f = (case append bc rec f of Ok f' \<Rightarrow> f' | _ \<Rightarrow> f)"
| "store_step bc (Torn rec k) f = (case encode_record bc rec of
     Ok bytes \<Rightarrow> f\<lparr>seen := seen f @ take k bytes\<rparr> | _ \<Rightarrow> f)"
| "store_step bc Sync f = sync f"
| "store_step bc Truncate f = truncate f"
| "store_step bc (Flush k) f = f\<lparr>kept := take (max k (if prefix (kept f) (seen f) then length (kept f) else 0)) (seen f)\<rparr>"
| "store_step bc Restart f = f\<lparr>seen := kept f\<rparr>"

definition run_store :: "bincode \<Rightarrow> store_op list \<Rightarrow> wal_file \<Rightarrow> wal_file" where
  "run_store bc ops f = fold (store_step bc) ops f"

text \<open>The records appended since the log was last truncated, and those of them that were synced.\<close>

fun log_step :: "store_op \<Rightarrow> wal_record list \<times> wal_record list \<Rightarrow> wal_record list \<times> wal_record list" where
  "log_step (Append rec) (log, synced) = (log @ [rec], synced)"
| "log_step Sync (log, synced) = (log, log)"
| "log_step _ s = s"

definition plain_op :: "bincode \<Rightarrow> store_op \<Rightarrow> bool" where
  "plain_op bc op \<longleftrightarrow> (case op of Append rec \<Rightarrow> loggable bc rec | Sync \<Rightarrow> True | Flush k \<Rightarrow> True | _ \<Rightarrow> False)"

definition store_inv :: "bincode \<Rightarrow> wal_file \<Rightarrow> wal_record list \<times> wal_record list \<Rightarrow> bool" where
  "store_inv bc f s = (case s of (log, synced) \<Rightarrow> seen f = frames bc log \<and> (\<forall>r\<in>set log. loggable bc r) \<and>
     prefix (kept f) (seen f) \<and> prefix synced log \<and> length (frames bc synced) \<le> length (kept f))"

lemma store_inv_step:
  assumes "store_inv bc f s" "plain_op bc op"
  shows "store_inv bc (store_step bc op f) (log_step op s)"
proof (cases op)
  case (Append rec)
  then have "loggable bc rec" using assms(2) by (simp add: plain_op_def)
  then show ?thesis using assms(1) Append
    by (auto simp: store_inv_def append_def encode_record_frame split: prod.splits)
next
  case (Flush k)
  then show ?thesis using assms(1) by (auto simp: store_inv_def take_is_prefix dest: prefix_length_le split: prod.splits)
qed (use assms in \<open>auto simp: plain_op_def store_inv_def sync_def split: prod.splits\<close>)

lemma store_inv_run:
  assumes "store_inv bc f s" "list_all (plain_op bc) ops"
  shows "store_inv bc (run_store bc ops f) (fold log_step ops s)"
  using assms
proof (induction ops arbitrary: f s)
  case (Cons op ops)
  then show ?case using store_inv_step [of bc f s op] by (simp add: run_store_def)
qed (simp add: run_store_def)

lemma kept_decodes:
  assumes "bincode_ok bc" "store_inv bc f (log, synced)"
  shows "\<exists>j. decode_records bc (kept f) = take j log \<and> length synced \<le> j \<and> j \<le> length log"
proof -
  have inv: "seen f = frames bc log" "\<forall>r\<in>set log. loggable bc r" "prefix (kept f) (seen f)"
    "prefix synced log" "length (frames bc synced) \<le> length (kept f)"
    using assms(2) unfolding store_inv_def prod.case by blast+
  let ?k = "length (kept f)"
  have kept: "kept f = take ?k (frames bc log)" and k: "?k \<le> length (frames bc log)"
    using inv(1,3) by (auto simp: prefix_def)
  obtain j where j: "j \<le> length log" "decode_records bc (take ?k (frames bc log)) = take j log"
    "j < length log \<longrightarrow> ?k < length (frames bc (take (Suc j) log))"
    using decode_take [OF assms(1) inv(2) k] by blast
  have "length synced \<le> j"
  proof (rule ccontr)
    assume "\<not> length synced \<le> j"
    then have s: "Suc j \<le> length synced" by simp
    obtain rest where log: "log = synced @ rest" using inv(4) by (auto simp: prefix_def)
    have "synced = take (Suc j) log @ drop (Suc j) synced" using s log by simp
    then have "length (frames bc (take (Suc j) log)) \<le> length (frames bc synced)"
      by (metis frames_simps(3) length_append le_add1)
    moreover have "j < length log" using s log by simp
    ultimately show False using j(3) inv(5) by simp
  qed
  then show ?thesis using j kept by metis
qed

subsection \<open>Properties\<close>

text \<open>
  C15. Crash safety of the log. Whatever the system has written out when the daemon stops, after any
  run of appends, syncs and partial write-outs, a restart replays a prefix of the records that were
  appended, in order, and at least all of those synced: a record cut in half by the crash is dropped
  with nothing before it lost.
\<close>

theorem wal_crash_safe:
  assumes "bincode_ok bc" and "list_all (plain_op bc) ops"
  shows "case fold log_step ops ([], []) of (log, synced) \<Rightarrow>
    \<exists>j. replay bc (Some (run_store bc (ops @ [Restart]) fresh_file)) = take j log \<and>
      length synced \<le> j \<and> j \<le> length log \<and> prefix synced log"
proof -
  obtain log synced where ls: "fold log_step ops ([], []) = (log, synced)" by (cases "fold log_step ops ([], [])")
  have "store_inv bc fresh_file ([], [])" by (simp add: store_inv_def fresh_file_def)
  then have inv: "store_inv bc (run_store bc ops fresh_file) (log, synced)"
    using store_inv_run [OF _ assms(2)] ls by metis
  have "seen (run_store bc (ops @ [Restart]) fresh_file) = kept (run_store bc ops fresh_file)"
    by (simp add: run_store_def)
  then show ?thesis using kept_decodes [OF assms(1) inv] inv by (auto simp: ls replay_def store_inv_def)
qed

text \<open>A codec for evaluation: it has bodies for deletions only, two bytes and the path.\<close>

definition demo_bincode :: bincode where
  "demo_bincode = \<lparr>enc_body = (\<lambda>r. case r of Delete p \<Rightarrow> Inr (1 # p) | Upsert p m c \<Rightarrow> Inl ''no codec''),
     dec_body = (\<lambda>b. case b of [] \<Rightarrow> None | k # p \<Rightarrow> if k = 1 then Some (Delete p, length b) else None)\<rparr>"

lemma demo_bincode_ok [simp]: "bincode_ok demo_bincode"
  by (auto simp: bincode_ok_def demo_bincode_def split: wal_record.splits)

theorem wal_crash_safe_witness:
  "let ops = [Append (Delete [7]), Sync, Append (Delete [8, 9]), Flush 9] in
   replay demo_bincode (Some (run_store demo_bincode (ops @ [Restart]) fresh_file)) = [Delete [7]]"
proof -
  let ?ops = "[Append (Delete [7]), Sync, Append (Delete [8, 9]), Flush 9]"
  have "list_all (plain_op demo_bincode) ?ops" by (simp add: plain_op_def loggable_def demo_bincode_def)
  from wal_crash_safe [OF demo_bincode_ok this] obtain j
    where "replay demo_bincode (Some (run_store demo_bincode (?ops @ [Restart]) fresh_file)) =
      take j [Delete [7], Delete [8, 9]]" "1 \<le> j" "j \<le> 2" by auto
  moreover have "length (replay demo_bincode (Some (run_store demo_bincode (?ops @ [Restart]) fresh_file))) = 1"
    by code_simp
  ultimately show ?thesis by (cases "j = 1") auto
qed

text \<open>
  A half-written record hides every record after it. The store reopens the log in append mode
  without cutting its torn tail off, so the length field of the half record swallows what is
  appended next: as long as that fits into the missing bytes, a later replay returns only the
  records before the tear, although the new ones were written and synced.
\<close>

theorem torn_tail_hides_appends:
  assumes "bincode_ok bc" and "\<forall>r\<in>set recs. loggable bc r" and "\<forall>r\<in>set later. loggable bc r"
    and "loggable bc rec" and "4 \<le> k" and "k + length (frames bc later) < length (frame bc rec)"
  shows "replay bc (Some (run_store bc
      (map Append recs @ [Sync, Append rec, Flush (length (frames bc recs) + k), Restart] @ map Append later @ [Sync, Restart])
      fresh_file)) = recs"
proof -
  have app: "run_store bc (map Append rs) f = f\<lparr>seen := seen f @ frames bc rs\<rparr>" if "\<forall>r\<in>set rs. loggable bc r" for rs f
    using that by (induction rs arbitrary: f) (simp_all add: run_store_def append_def encode_record_frame)
  have seen: "seen (run_store bc
      (map Append recs @ [Sync, Append rec, Flush (length (frames bc recs) + k), Restart] @ map Append later @ [Sync, Restart])
      fresh_file) = frames bc recs @ take k (frame bc rec) @ frames bc later"
    using app [OF assms(2), of fresh_file, unfolded run_store_def] app [OF assms(3), unfolded run_store_def] assms(4)
    by (simp add: run_store_def fresh_file_def sync_def append_def encode_record_frame)
  obtain body where b: "length body < 2 ^ 32" "frame bc rec = to_le (of_nat (length body) :: u32) @ body"
    using assms(4) by (auto elim: loggableE)
  have "take 4 (take k (frame bc rec) @ frames bc later) = to_le (of_nat (length body) :: u32)"
    using assms(5,6) by (simp add: b(2) min_def)
  then have "of_le (take 4 (take k (frame bc rec) @ frames bc later)) = length body"
    using b(1) by (simp add: of_le_to_le)
  then have "cut_off (take k (frame bc rec) @ frames bc later)"
    using assms(5,6) unfolding cut_off_def by (simp add: b(2))
  then show ?thesis unfolding replay_def option.case seen by (rule decode_cut_off [OF assms(1,2)])
qed

theorem torn_tail_hides_appends_witness:
  "replay demo_bincode (Some (run_store demo_bincode
     ([Sync, Append (Delete (replicate 20 0)), Flush 5, Restart] @ [Append (Delete [8])] @ [Sync, Restart]) fresh_file)) = []"
  using torn_tail_hides_appends [OF demo_bincode_ok, of "[]" "[Delete [8]]" "Delete (replicate 20 0)" 5]
  by (simp add: loggable_def demo_bincode_def frame_def)

end
