(* ===== verification/Proto.thy ===== *)
theory Proto
  imports Db Fold
begin

section \<open>Protocol messages and their encoding (crates/df-ipc/src/proto.rs, wire.rs)\<close>

text \<open>
  The requests and response frames of the socket, as the code declares them, with the defaults of
  the options and the smart-case rule. The bytes of a message are bincode's, which is a
  parameter; the transport that frames them is tokio's and not modelled.
\<close>

subsection \<open>Messages\<close>

datatype match_kind = Filename | Content | Both

record line_hit =
  lh_path :: str
  lh_line_no :: u32
  lh_text :: str

record layer_mask =
  layer_filename :: bool
  layer_content :: bool

datatype path_mode = FullPath | Basename

datatype sort_mode = SortDefault | SortPath | SortKind | SortNone

datatype case_control = Smart | Insensitive | Sensitive

record search_options =
  so_direct :: bool
  so_extensions :: "str list"
  so_types :: "str list"
  so_excludes :: "str list"
  so_globs :: "str list"
  so_max_depth :: "u32 option"
  so_regex :: "str option"
  so_case_mode :: case_control
  so_line_numbers :: bool
  so_context_lines :: "u32 option"
  so_layers :: layer_mask
  so_path_mode :: path_mode
  so_hidden :: bool
  so_sort_order :: sort_mode
  so_expr :: "str option"

definition default_layers :: layer_mask where
  "default_layers = \<lparr>layer_filename = True, layer_content = True\<rparr>"

definition default_options :: search_options where
  "default_options = \<lparr>so_direct = False, so_extensions = [], so_types = [], so_excludes = [], so_globs = [],
     so_max_depth = None, so_regex = None, so_case_mode = Smart, so_line_numbers = False, so_context_lines = None,
     so_layers = default_layers, so_path_mode = FullPath, so_hidden = False, so_sort_order = SortDefault, so_expr = None\<rparr>"

record search_request =
  sr_query :: str
  sr_scope :: "bytes option"
  sr_limit :: "u32 option"
  sr_opts :: search_options
  sr_db :: "str option"

record index_request =
  ir_root :: "bytes option"
  ir_skip :: "str list"
  ir_max_file_size :: u64
  ir_one_file_system :: bool
  ir_hidden :: bool
  ir_db :: "str option"

datatype request =
    Search search_request
  | Index index_request

datatype response_frame =
    Batch "str list" "lite_meta list" "match_kind list"
  | Lines "line_hit list"
  | Done u32
  | Error str
  | IndexAck bool str

fun sensitive :: "case_control \<Rightarrow> str \<Rightarrow> bool" where
  "sensitive Sensitive pattern = True"
| "sensitive Insensitive pattern = False"
| "sensitive Smart pattern = list_ex is_ascii_uppercase pattern"

subsection \<open>Encoding\<close>

datatype ipc_error = IpcOther string | IpcIo string

type_synonym 'a ipc = "(ipc_error, 'a) outcome"

text \<open>bincode for one type: \<open>encode_to_vec\<close> and \<open>decode_from_slice\<close>.\<close>

record 'a codec =
  encode_to_vec :: "'a \<Rightarrow> string + bytes"
  decode_from_slice :: "bytes \<Rightarrow> string + 'a \<times> nat"

definition codec_ok :: "'a codec \<Rightarrow> bool" where
  "codec_ok c \<longleftrightarrow> (\<forall>x b. encode_to_vec c x = Inr b \<longrightarrow> (\<exists>n. decode_from_slice c b = Inr (x, n)))"

definition encode_with :: "string \<Rightarrow> 'a codec \<Rightarrow> 'a \<Rightarrow> bytes ipc" where
  "encode_with what c x = (case encode_to_vec c x of Inl e \<Rightarrow> Err (IpcOther (what @ e)) | Inr b \<Rightarrow> Ok b)"

definition decode_with :: "string \<Rightarrow> 'a codec \<Rightarrow> bytes \<Rightarrow> 'a ipc" where
  "decode_with what c buf = (case decode_from_slice c buf of Inl e \<Rightarrow> Err (IpcOther (what @ e)) | Inr (x, n) \<Rightarrow> Ok x)"

definition encode_request_enum :: "request codec \<Rightarrow> request \<Rightarrow> bytes ipc" where
  "encode_request_enum c req = encode_with ''encode request: '' c req"

definition encode_request :: "request codec \<Rightarrow> search_request \<Rightarrow> bytes ipc" where
  "encode_request c req = encode_request_enum c (Search req)"

definition encode_index_request :: "request codec \<Rightarrow> index_request \<Rightarrow> bytes ipc" where
  "encode_index_request c req = encode_request_enum c (Index req)"

definition decode_request :: "request codec \<Rightarrow> bytes \<Rightarrow> request ipc" where
  "decode_request c buf = decode_with ''decode request: '' c buf"

definition encode_frame :: "response_frame codec \<Rightarrow> response_frame \<Rightarrow> bytes ipc" where
  "encode_frame c frame = encode_with ''encode frame: '' c frame"

definition decode_frame :: "response_frame codec \<Rightarrow> bytes \<Rightarrow> response_frame ipc" where
  "decode_frame c buf = decode_with ''decode frame: '' c buf"

lemma decode_encode_with:
  assumes "codec_ok c" "encode_with w c x = Ok b"
  shows "decode_with w' c b = Ok x"
proof -
  have "encode_to_vec c x = Inr b" using assms(2) by (auto simp: encode_with_def split: sum.splits)
  then obtain n where "decode_from_slice c b = Inr (x, n)" using assms(1) by (auto simp: codec_ok_def)
  then show ?thesis by (simp add: decode_with_def)
qed

end
