(* ===== verification/Paths.thy ===== *)
theory Paths
  imports Unicode Lossy
begin

section \<open>Unix paths (std::path) and the scope test (crates/df-core/src/scope.rs)\<close>

text \<open>
  The standard library reads a path as a list of components: repeated separators and \<open>.\<close>
  disappear, except a leading \<open>.\<close>. A path is under another when its components begin with the
  other's. The file name, the extension and \<open>join\<close> are those of \<open>std::path::Path\<close> on Unix.
\<close>

subsection \<open>Components\<close>

datatype component = RootDir | CurDir | ParentDir | Normal bytes

abbreviation slash :: u8 where "slash \<equiv> 0x2F"
abbreviation dot :: u8 where "dot \<equiv> 0x2E"

text \<open>The pieces between separators.\<close>

fun split_on :: "u8 \<Rightarrow> bytes \<Rightarrow> bytes list" where
  "split_on c [] = [[]]"
| "split_on c (b # bs) =
     (if b = c then [] # split_on c bs
      else case split_on c bs of [] \<Rightarrow> [[b]] | p # ps \<Rightarrow> (b # p) # ps)"

definition piece_component :: "bytes \<Rightarrow> component option" where
  "piece_component p =
     (if p = [] \<or> p = [dot] then None else if p = [dot, dot] then Some ParentDir else Some (Normal p))"

definition has_root :: "bytes \<Rightarrow> bool" where
  "has_root p \<longleftrightarrow> p \<noteq> [] \<and> hd p = slash"

definition components :: "bytes \<Rightarrow> component list" where
  "components p =
     (if has_root p then [RootDir]
      else if hd (split_on slash p) = [dot] then [CurDir] else []) @
     List.map_filter piece_component (split_on slash p)"

definition starts_with_path :: "bytes \<Rightarrow> bytes \<Rightarrow> bool" where
  "starts_with_path p base \<longleftrightarrow> prefix (components base) (components p)"

text \<open>\<open>Path::file_name\<close>, \<open>Path::extension\<close>, \<open>Path::join\<close>, \<open>Path::with_file_name\<close>.\<close>

definition file_name :: "bytes \<Rightarrow> bytes option" where
  "file_name p =
     (if components p = [] then None
      else case last (components p) of Normal n \<Rightarrow> Some n | _ \<Rightarrow> None)"

definition extension :: "bytes \<Rightarrow> bytes option" where
  "extension p = (case file_name p of
     None \<Rightarrow> None
   | Some n \<Rightarrow> (case rposition (\<lambda>b. b = dot) n of
       None \<Rightarrow> None
     | Some i \<Rightarrow> if i = 0 then None else Some (drop (i + 1) n)))"

definition path_join :: "bytes \<Rightarrow> bytes \<Rightarrow> bytes" where
  "path_join a b =
     (if has_root b then b
      else if a = [] \<or> last a = slash then a @ b
      else a @ [slash] @ b)"

subsection \<open>Lemmas on components\<close>

lemma split_on_nonempty [simp]: "split_on c bs \<noteq> []"
  by (induction bs) (auto split: list.split)

lemma split_on_append: "split_on c (a @ c # b) = split_on c a @ split_on c b"
proof (induction a)
  case (Cons x a)
  then show ?case by (cases "split_on c a") auto
qed simp

lemma split_on_free: "c \<notin> set a \<Longrightarrow> split_on c a = [a]"
  by (induction a) auto

lemma map_filter_append: "List.map_filter f (xs @ ys) = List.map_filter f xs @ List.map_filter f ys"
  by (simp add: List.map_filter_def)

lemma hd_split_on_append: "hd (split_on c (a @ c # b)) = hd (split_on c a)"
  by (simp add: split_on_append)

lemma components_child:
  assumes "a \<noteq> []"
  shows "components (a @ slash # b) = components a @ List.map_filter piece_component (split_on slash b)"
proof -
  have "has_root (a @ slash # b) = has_root a" using assms by (simp add: has_root_def)
  then show ?thesis
    by (simp add: components_def split_on_append hd_split_on_append map_filter_append)
qed

lemma starts_with_refl [simp]: "starts_with_path p p"
  by (simp add: starts_with_path_def)

lemma starts_with_trans: "starts_with_path p q \<Longrightarrow> starts_with_path q r \<Longrightarrow> starts_with_path p r"
  unfolding starts_with_path_def by (rule prefix_order.trans)

lemma starts_with_child: "a \<noteq> [] \<Longrightarrow> starts_with_path (a @ slash # b) a"
  by (simp add: starts_with_path_def components_child)

text \<open>A name without separators, other than the special ones, is one component.\<close>

definition plain_name :: "bytes \<Rightarrow> bool" where
  "plain_name n \<longleftrightarrow> n \<noteq> [] \<and> slash \<notin> set n \<and> n \<noteq> [dot] \<and> n \<noteq> [dot, dot]"

lemma plain_name_component:
  "plain_name n \<Longrightarrow> List.map_filter piece_component (split_on slash n) = [Normal n]"
  by (simp add: plain_name_def split_on_free List.map_filter_simps piece_component_def)

lemma file_name_child: "a \<noteq> [] \<Longrightarrow> plain_name n \<Longrightarrow> file_name (a @ slash # n) = Some n"
  by (simp add: file_name_def components_child plain_name_component)

text \<open>Components determine the test: a prefix ends at a component boundary.\<close>

lemma components_child_names:
  "a \<noteq> [] \<Longrightarrow> \<forall>n\<in>set ns. plain_name n \<Longrightarrow>
   components (a @ concat (map (\<lambda>n. slash # n) ns)) = components a @ map Normal ns"
proof (induction ns rule: rev_induct)
  case (snoc n ns)
  have "components ((a @ concat (map (\<lambda>n. slash # n) ns)) @ slash # n) =
      components (a @ concat (map (\<lambda>n. slash # n) ns)) @ [Normal n]"
    using snoc.prems by (subst components_child) (simp_all add: plain_name_component)
  then show ?case using snoc by simp
qed simp

lemma components_plain: "plain_name n \<Longrightarrow> components n = [Normal n]"
  using plain_name_component [of n]
  by (auto simp: components_def has_root_def plain_name_def split_on_free dest: hd_in_set)

subsection \<open>Scope\<close>

definition strip_dot :: "bytes \<Rightarrow> bytes" where
  "strip_dot s = (if prefix [dot, slash] s then drop 2 s else s)"

definition in_scope :: "str \<Rightarrow> bytes option \<Rightarrow> bool" where
  "in_scope path scope =
     (case scope of
        None \<Rightarrow> True
      | Some s \<Rightarrow>
          (case from_utf8 s of
             None \<Rightarrow> True
           | Some scope_s \<Rightarrow>
               let scope_s = strip_dot scope_s in
               if scope_s = [] then True
               else starts_with_path (strip_dot path) scope_s))"

text \<open>For names: a file is in the scope of the directories above it, and of no others.\<close>

definition path_of_names :: "bytes list \<Rightarrow> bytes" where
  "path_of_names ns = hd ns @ concat (map (\<lambda>n. slash # n) (tl ns))"

lemma components_names:
  "ns \<noteq> [] \<Longrightarrow> \<forall>n\<in>set ns. plain_name n \<Longrightarrow> components (path_of_names ns) = map Normal ns"
  using components_child_names [of "hd ns" "tl ns"] components_plain [of "hd ns"]
  by (cases ns) (auto simp: path_of_names_def plain_name_def)

lemma strip_dot_names:
  assumes "ns \<noteq> []" "\<forall>n\<in>set ns. plain_name n"
  shows "strip_dot (path_of_names ns) = path_of_names ns"
    "strip_dot ([dot, slash] @ path_of_names ns) = path_of_names ns"
proof -
  obtain n ms where ns: "ns = n # ms" using assms(1) by (cases ns) auto
  have "n \<noteq> []" "n \<noteq> [dot]" "slash \<notin> set n" using assms(2) by (auto simp: ns plain_name_def)
  then have "\<not> prefix [dot, slash] (path_of_names ns)"
    by (cases n; cases "tl n") (auto simp: ns path_of_names_def)
  then show "strip_dot (path_of_names ns) = path_of_names ns" by (simp add: strip_dot_def)
qed (simp add: strip_dot_def)

lemma in_scope_names:
  assumes "ns \<noteq> []" "ms \<noteq> []" "\<forall>n\<in>set ns. plain_name n" "\<forall>n\<in>set ms. plain_name n"
    "valid_utf8 (path_of_names ms)" "p \<in> {path_of_names ns, [dot, slash] @ path_of_names ns}"
  shows "in_scope p (Some (path_of_names ms)) \<longleftrightarrow> prefix ms ns"
proof -
  have "path_of_names ms \<noteq> []"
    using assms(2,4) by (cases ms) (auto simp: path_of_names_def plain_name_def)
  moreover have "strip_dot p = path_of_names ns" using assms(6) strip_dot_names [OF assms(1,3)] by auto
  moreover have "prefix (map Normal ms) (map Normal ns) \<longleftrightarrow> prefix ms ns"
  proof -
    have inj: "map Normal xs = map Normal ys \<longleftrightarrow> xs = ys" for xs ys :: "bytes list"
      by (rule inj_map_eq_map) (simp add: inj_def)
    show ?thesis by (auto simp: prefix_def map_eq_append_conv inj)
  qed
  ultimately show ?thesis
    using assms by (simp add: in_scope_def from_utf8_def strip_dot_names starts_with_path_def components_names)
qed

end
