(* ===== verification/Filters.thy ===== *)
theory Filters
  imports Proto Paths
begin

section \<open>Result filters (crates/df-ipc/src/filter.rs)\<close>

text \<open>
  Extension, type, glob and depth filters over paths, and the literal atom of a regex that
  prefilters candidates. The glob matcher backtracks to its last star only; it is proved to decide
  the textbook relation on texts without a star. A star in the text is taken for a literal match
  of the pattern's star, which loses matches (below).
\<close>

subsection \<open>Operations\<close>

definition type_extensions :: "str \<Rightarrow> str list option" where
  "type_extensions category =
     (if category = lit ''code'' then Some (map lit
        [''rs'', ''go'', ''py'', ''js'', ''mjs'', ''cjs'', ''ts'', ''jsx'', ''tsx'', ''c'', ''h'', ''cpp'', ''cc'', ''cxx'',
         ''hpp'', ''hh'', ''java'', ''kt'', ''kts'', ''scala'', ''rb'', ''pl'', ''pm'', ''php'', ''swift'', ''m'', ''mm'',
         ''sh'', ''bash'', ''zsh'', ''fish'', ''lua'', ''r'', ''jl'', ''ex'', ''exs'', ''erl'', ''hs'', ''lhs'', ''ml'',
         ''mli'', ''clj'', ''cljs'', ''cljc'', ''vim'', ''el'', ''lisp'', ''scm'', ''sql''])
      else if category = lit ''docs'' then Some (map lit
        [''md'', ''markdown'', ''rst'', ''txt'', ''tex'', ''adoc'', ''asciidoc'', ''org'', ''pdf''])
      else if category = lit ''config'' then Some (map lit
        [''toml'', ''yaml'', ''yml'', ''json'', ''json5'', ''ini'', ''cfg'', ''conf'', ''xml'', ''env''])
      else if category = lit ''web'' then Some (map lit
        [''html'', ''htm'', ''css'', ''scss'', ''sass'', ''less'', ''vue'', ''svelte''])
      else if category = lit ''archive'' then Some (map lit
        [''zip'', ''tar'', ''gz'', ''tgz'', ''bz2'', ''xz'', ''zst'', ''7z'', ''rar'', ''lz''])
      else if category = lit ''media'' then Some (map lit
        [''png'', ''jpg'', ''jpeg'', ''gif'', ''bmp'', ''tiff'', ''tif'', ''svg'', ''ico'', ''webp'', ''mp3'', ''wav'',
         ''flac'', ''aac'', ''ogg'', ''mp4'', ''mkv'', ''webm'', ''avi'', ''mov'', ''m4a'', ''m4v''])
      else None)"

abbreviation star :: u8 where "star \<equiv> 0x2A"
abbreviation qmark :: u8 where "qmark \<equiv> 0x3F"

definition star_next :: "nat option \<Rightarrow> nat" where
  "star_next star_pi = (case star_pi of None \<Rightarrow> 0 | Some sp \<Rightarrow> sp + 1)"

function glob_loop :: "bytes \<Rightarrow> bytes \<Rightarrow> nat \<Rightarrow> nat \<Rightarrow> nat option \<Rightarrow> nat \<Rightarrow> bool" where
  "glob_loop pat hay pi ti star_pi star_ti =
     (if ti < length hay then
        (if pi < length pat \<and> (pat ! pi = qmark \<or> pat ! pi = hay ! ti)
         then glob_loop pat hay (pi + 1) (ti + 1) star_pi star_ti
         else if pi < length pat \<and> pat ! pi = star
         then glob_loop pat hay (pi + 1) ti (Some pi) ti
         else case star_pi of
           Some sp \<Rightarrow> glob_loop pat hay (sp + 1) (star_ti + 1) (Some sp) (star_ti + 1)
         | None \<Rightarrow> False)
      else dropWhile (\<lambda>c. c = star) (drop pi pat) = [])"
  by pat_completeness auto
termination
proof (relation "measures
    [\<lambda>(pat, hay, pi, ti, sp, st). if st \<le> ti \<and> star_next sp \<le> pi then 0 else 1,
     \<lambda>(pat, hay, pi, ti, sp, st). Suc (length hay) - (if st \<le> ti \<and> star_next sp \<le> pi then st else ti),
     \<lambda>(pat, hay, pi, ti, sp, st). Suc (length pat) - star_next sp,
     \<lambda>(pat, hay, pi, ti, sp, st). Suc (length pat) - pi]")
qed (auto simp: star_next_def split: option.splits)

declare glob_loop.simps [simp del]

definition glob_matches :: "str \<Rightarrow> str \<Rightarrow> bool" where
  "glob_matches pattern hay = glob_loop pattern hay 0 0 None 0"

definition ext_of :: "str \<Rightarrow> str" where
  "ext_of path = (case extension path of
     None \<Rightarrow> [] | Some e \<Rightarrow> (case from_utf8 e of None \<Rightarrow> [] | Some s \<Rightarrow> s))"

definition depth_of :: "str \<Rightarrow> u32" where
  "depth_of path = of_nat (length (filter (\<lambda>b. b = slash) (strip_dot path)))"

definition passes :: "str \<Rightarrow> search_options \<Rightarrow> bool" where
  "passes path opts =
     (let ext = ext_of path;
          in_type = list_ex (\<lambda>t. case type_extensions t of None \<Rightarrow> False | Some exts \<Rightarrow> ext \<in> set exts) (so_types opts);
          norm = strip_dot path;
          gmatch = (\<lambda>pat. glob_matches pat path \<or> glob_matches pat norm) in
      if so_extensions opts \<noteq> [] \<and> \<not> list_ex (\<lambda>e. e = ext) (so_extensions opts) then False
      else if so_types opts \<noteq> [] \<and> \<not> in_type then False
      else if list_ex gmatch (so_excludes opts) then False
      else if so_globs opts \<noteq> [] \<and> \<not> list_ex gmatch (so_globs opts) then False
      else case so_max_depth opts of
        Some maxd \<Rightarrow> depth_of path \<le> maxd
      | None \<Rightarrow> True)"

text \<open>The literal atom: \<open>cur\<close> is the run being read, \<open>best\<close> the longest so far.\<close>

definition flush_run :: "nat list \<times> nat list \<Rightarrow> nat list \<times> nat list" where
  "flush_run s = (case s of (cur, best) \<Rightarrow>
     if length cur > length best then ([], cur) else ([], best))"

definition META :: "nat set" where
  "META = {0x5C, 0x5B, 0x28, 0x29, 0x7C, 0x2A, 0x2B, 0x3F, 0x5E, 0x24, 0x2E, 0x7B}"

function atom_loop :: "nat list \<Rightarrow> bool \<Rightarrow> nat list \<times> nat list \<Rightarrow> nat list \<times> nat list" where
  "atom_loop [] in_class s = s"
| "atom_loop (c # cs) in_class s =
     (if in_class then
        (if c = 0x5C then atom_loop (tl cs) True (flush_run s)
         else atom_loop cs (c \<noteq> 0x5D) (flush_run s))
      else if c = 0x5C then atom_loop (tl cs) False (flush_run s)
      else if c = 0x5B then atom_loop cs True (flush_run s)
      else if c \<in> {0x28, 0x29, 0x7C, 0x2A, 0x2B, 0x3F, 0x5E, 0x24, 0x2E} then atom_loop cs False (flush_run s)
      else if c = 0x7B then atom_loop (tl (dropWhile (\<lambda>n. n \<noteq> 0x7D) cs)) False (flush_run s)
      else atom_loop cs False (fst s @ [c], snd s))"
  by pat_completeness auto
termination
proof (relation "measure (\<lambda>(cs, c, s). length cs)")
  fix cs :: "nat list"
  have "length (tl (dropWhile (\<lambda>n. n \<noteq> 0x7D) cs)) \<le> length cs"
    using length_dropWhile_le [of "\<lambda>n. n \<noteq> 0x7D" cs] by simp
  then show "((tl (dropWhile (\<lambda>n. n \<noteq> 0x7D) cs), False, flush_run s), c # cs, in_class, s)
      \<in> measure (\<lambda>(cs, c, s). length cs)" for c :: nat and in_class :: bool and s
    by simp
qed auto

definition longest_literal_atom :: "str \<Rightarrow> str option" where
  "longest_literal_atom regex =
     (let best = snd (flush_run (atom_loop (chars regex) False ([], []))) in
      if best = [] then None else Some (encode_str best))"

subsection \<open>What a glob means\<close>

inductive glob :: "bytes \<Rightarrow> bytes \<Rightarrow> bool" where
  glob_nil: "glob [] []"
| glob_one: "c \<noteq> star \<Longrightarrow> c = qmark \<or> c = b \<Longrightarrow> glob p t \<Longrightarrow> glob (c # p) (b # t)"
| glob_star: "glob p t \<Longrightarrow> glob (star # p) (xs @ t)"

inductive_simps glob_simps [simp]: "glob [] t" "glob (c # p) []"
inductive_cases glob_ConsE: "glob (c # p) t"

lemma glob_one_iff: "c \<noteq> star \<Longrightarrow> glob (c # p) (b # t) \<longleftrightarrow> (c = qmark \<or> c = b) \<and> glob p t"
  by (auto elim: glob_ConsE intro: glob_one)

lemma glob_star_iff: "glob (star # p) t \<longleftrightarrow> (\<exists>k\<le>length t. glob p (drop k t))"
proof
  assume "glob (star # p) t"
  then obtain xs u where "t = xs @ u" "glob p u" by (auto elim: glob_ConsE)
  then show "\<exists>k\<le>length t. glob p (drop k t)" by (intro exI [of _ "length xs"]) simp
next
  assume "\<exists>k\<le>length t. glob p (drop k t)"
  then obtain k where "glob p (drop k t)" by blast
  then have "glob (star # p) (take k t @ drop k t)" by (rule glob_star)
  then show "glob (star # p) t" by simp
qed

lemma glob_segment:
  "star \<notin> set s \<Longrightarrow> glob (s @ p) t \<Longrightarrow> length s \<le> length t \<and> glob p (drop (length s) t)"
proof (induction s arbitrary: t)
  case (Cons c s)
  then obtain b u where "t = b # u" "glob (s @ p) u" by (cases t) (auto simp: glob_one_iff)
  then show ?case using Cons.IH [of u] Cons.prems by simp
qed simp

lemma glob_empty: "glob p [] \<longleftrightarrow> dropWhile (\<lambda>c. c = star) p = []"
proof (induction p)
  case (Cons c p)
  then show ?case by (cases "c = star") (auto simp: glob_star_iff simp del: glob_simps(2) elim: glob_ConsE)
qed simp

subsection \<open>The matcher decides it\<close>

definition later :: "bytes \<Rightarrow> bytes \<Rightarrow> nat option \<Rightarrow> nat \<Rightarrow> bool" where
  "later pat hay sp st = (case sp of None \<Rightarrow> False
     | Some s \<Rightarrow> \<exists>k. st < k \<and> k \<le> length hay \<and> glob (drop (s + 1) pat) (drop k hay))"

definition star_inv :: "bytes \<Rightarrow> nat \<Rightarrow> nat \<Rightarrow> nat option \<Rightarrow> nat \<Rightarrow> bool" where
  "star_inv pat pi ti sp st = (case sp of None \<Rightarrow> True
     | Some s \<Rightarrow> s < pi \<and> st \<le> ti \<and> ti - st = pi - (s + 1) \<and> star \<notin> set (take (pi - (s + 1)) (drop (s + 1) pat)))"

lemma segment_split:
  "s < pi \<Longrightarrow> pi \<le> length pat \<Longrightarrow> drop (s + 1) pat = take (pi - (s + 1)) (drop (s + 1) pat) @ drop pi pat"
  using append_take_drop_id [of "pi - (s + 1)" "drop (s + 1) pat"] by (simp add: add.commute)

text \<open>A later start of the last star's remainder is a later start from here.\<close>

lemma later_here:
  assumes "star_inv pat pi ti (Some s) st" "pi \<le> length pat" "st < k" "k \<le> length hay"
    "glob (drop (s + 1) pat) (drop k hay)"
  shows "k + (ti - st) \<le> length hay \<and> glob (drop pi pat) (drop (k + (ti - st)) hay)"
proof -
  let ?seg = "take (pi - (s + 1)) (drop (s + 1) pat)"
  have inv: "s < pi" "ti - st = pi - (s + 1)" "star \<notin> set ?seg" using assms(1) by (simp_all add: star_inv_def)
  have "glob (?seg @ drop pi pat) (drop k hay)"
    using assms(5) segment_split [OF inv(1) assms(2)] by simp
  from glob_segment [OF inv(3) this]
  have "length ?seg \<le> length hay - k \<and> glob (drop pi pat) (drop (length ?seg) (drop k hay))" by simp
  moreover have "length ?seg = ti - st" using inv(1,2) assms(2) by simp
  ultimately have "ti - st \<le> length hay - k" "glob (drop pi pat) (drop (k + (ti - st)) hay)"
    by (simp_all add: add.commute)
  then show ?thesis using assms(4) by linarith
qed

lemma from_here:
  "a \<le> n \<Longrightarrow> (P a \<or> (\<exists>k. a < k \<and> k \<le> n \<and> P k)) = (\<exists>k. a \<le> k \<and> k \<le> (n::nat) \<and> P k)"
  by (auto simp: le_less)

lemma glob_loop_correct:
  assumes "star \<notin> set hay" "pi \<le> length pat" "ti \<le> length hay" "star_inv pat pi ti sp st"
  shows "glob_loop pat hay pi ti sp st \<longleftrightarrow>
    glob (drop pi pat) (drop ti hay) \<or> later pat hay sp st"
  using assms
proof (induction pat hay pi ti sp st rule: glob_loop.induct)
  case (1 pat hay pi ti sp st)
  note prems = "1.prems"
  consider (ended) "\<not> ti < length hay"
    | (one) "ti < length hay" "pi < length pat" "pat ! pi = qmark \<or> pat ! pi = hay ! ti"
    | (star) "ti < length hay" "pi < length pat" "\<not> (pat ! pi = qmark \<or> pat ! pi = hay ! ti)" "pat ! pi = star"
    | (again) "ti < length hay" "\<not> (pi < length pat \<and> (pat ! pi = qmark \<or> pat ! pi = hay ! ti))"
      "\<not> (pi < length pat \<and> pat ! pi = star)"
    by blast
  then show ?case
  proof cases
    case ended
    then have ti: "ti = length hay" using prems(3) by simp
    have "\<not> later pat hay sp st"
    proof
      assume "later pat hay sp st"
      then obtain s k where k: "sp = Some s" "st < k" "k \<le> length hay" "glob (drop (s + 1) pat) (drop k hay)"
        by (auto simp: later_def split: option.splits)
      then have "k + (ti - st) \<le> length hay" using later_here [OF prems(4) [unfolded k(1)] prems(2)] by blast
      moreover have "st \<le> ti" using prems(4) k(1) by (simp add: star_inv_def)
      ultimately show False using k(2) ti by simp
    qed
    then show ?thesis using ended by (subst glob_loop.simps) (simp add: ti glob_empty)
  next
    case one
    have "hay ! ti \<noteq> star" using prems(1) one(1) by (metis nth_mem)
    then have ns: "pat ! pi \<noteq> star" using one(3) by auto
    have dp: "drop pi pat = pat ! pi # drop (pi + 1) pat" "drop ti hay = hay ! ti # drop (ti + 1) hay"
      using one by (simp_all add: Cons_nth_drop_Suc)
    have inv: "star_inv pat (pi + 1) (ti + 1) sp st"
    proof (cases sp)
      case (Some s)
      then have "s < pi" "st \<le> ti" "ti - st = pi - (s + 1)" "star \<notin> set (take (pi - (s + 1)) (drop (s + 1) pat))"
        using prems(4) by (simp_all add: star_inv_def)
      moreover have "take (Suc pi - (s + 1)) (drop (s + 1) pat) = take (pi - (s + 1)) (drop (s + 1) pat) @ [pat ! pi]"
        using \<open>s < pi\<close> one(2) take_Suc_conv_app_nth [of "pi - (s + 1)" "drop (s + 1) pat"]
        by (simp add: Suc_diff_Suc)
      ultimately show ?thesis using ns Some by (auto simp: star_inv_def)
    qed (simp add: star_inv_def)
    have "glob_loop pat hay pi ti sp st = glob_loop pat hay (pi + 1) (ti + 1) sp st"
      using one by (subst glob_loop.simps) simp
    also have "\<dots> = (glob (drop (pi + 1) pat) (drop (ti + 1) hay) \<or> later pat hay sp st)"
      using one prems inv by (intro "1.IH"(1)) auto
    also have "glob (drop (pi + 1) pat) (drop (ti + 1) hay) = glob (drop pi pat) (drop ti hay)"
      unfolding dp using one(3) ns by (simp add: glob_one_iff)
    finally show ?thesis .
  next
    case star
    have dp: "drop pi pat = star # drop (pi + 1) pat"
      using star(2,4) by (metis Cons_nth_drop_Suc Suc_eq_plus1)
    have "glob_loop pat hay pi ti sp st = glob_loop pat hay (pi + 1) ti (Some pi) ti"
      using star by (subst glob_loop.simps) auto
    also have "\<dots> = (glob (drop (pi + 1) pat) (drop ti hay) \<or> later pat hay (Some pi) ti)"
      using star prems by (intro "1.IH"(2)) (auto simp: star_inv_def)
    also have "\<dots> = (\<exists>k. ti \<le> k \<and> k \<le> length hay \<and> glob (drop (pi + 1) pat) (drop k hay))"
      using from_here [OF prems(3), of "\<lambda>k. glob (drop (pi + 1) pat) (drop k hay)"]
      by (simp only: later_def option.case)
    also have "\<dots> = glob (drop pi pat) (drop ti hay)"
    proof
      assume "\<exists>k. ti \<le> k \<and> k \<le> length hay \<and> glob (drop (pi + 1) pat) (drop k hay)"
      then obtain k where "ti \<le> k" "k \<le> length hay" "glob (drop (pi + 1) pat) (drop k hay)" by blast
      then show "glob (drop pi pat) (drop ti hay)" unfolding dp glob_star_iff
        by (intro exI [of _ "k - ti"]) simp
    next
      assume "glob (drop pi pat) (drop ti hay)"
      then obtain k where "k \<le> length hay - ti" "glob (drop (pi + 1) pat) (drop k (drop ti hay))"
        unfolding dp glob_star_iff by auto
      then show "\<exists>k. ti \<le> k \<and> k \<le> length hay \<and> glob (drop (pi + 1) pat) (drop k hay)"
        using prems(3) by (intro exI [of _ "ti + k"]) (simp add: add.commute)
    qed
    also have "\<dots> = (glob (drop pi pat) (drop ti hay) \<or> later pat hay sp st)"
    proof -
      have "glob (drop pi pat) (drop ti hay)" if l: "later pat hay sp st"
      proof -
        obtain s k where k: "sp = Some s" "st < k" "k \<le> length hay" "glob (drop (s + 1) pat) (drop k hay)"
          using l by (auto simp: later_def split: option.splits)
        have "k + (ti - st) \<le> length hay \<and> glob (drop pi pat) (drop (k + (ti - st)) hay)"
          using later_here [OF prems(4) [unfolded k(1)] prems(2) k(2-4)] .
        then obtain j where "j \<le> length hay - (k + (ti - st))" "glob (drop (pi + 1) pat) (drop j (drop (k + (ti - st)) hay))"
          unfolding dp glob_star_iff by auto
        moreover have "st \<le> ti" using prems(4) k(1) by (simp add: star_inv_def)
        then have e: "j + (k + (ti - st)) = j + (k - st) + ti" using k(2) by simp
        ultimately have "glob (drop (pi + 1) pat) (drop (j + (k - st)) (drop ti hay))"
          by (simp only: drop_drop e)
        moreover have "j + (k - st) \<le> length (drop ti hay)"
          using e \<open>k + (ti - st) \<le> length hay \<and> _\<close> \<open>j \<le> length hay - (k + (ti - st))\<close>
          by simp linarith
        ultimately show ?thesis unfolding dp glob_star_iff by blast
      qed
      then show ?thesis by blast
    qed
    finally show ?thesis .
  next
    case again
    have no: "\<not> glob (drop pi pat) (drop ti hay)"
    proof (cases "pi < length pat")
      case True
      have "drop pi pat = pat ! pi # drop (pi + 1) pat" "drop ti hay = hay ! ti # drop (ti + 1) hay"
        using True again(1) by (simp_all add: Cons_nth_drop_Suc)
      then show ?thesis using again True by (simp add: glob_one_iff)
    next
      case False
      then show ?thesis using again(1) prems(2) by simp
    qed
    show ?thesis
    proof (cases sp)
      case None
      then show ?thesis using again no by (subst glob_loop.simps) (auto simp: later_def)
    next
      case (Some s)
      have si: "s < pi" "st \<le> ti" using prems(4) Some by (simp_all add: star_inv_def)
      have "glob_loop pat hay pi ti sp st = glob_loop pat hay (s + 1) (st + 1) (Some s) (st + 1)"
        using again Some by (subst glob_loop.simps) auto
      also have "\<dots> = (glob (drop (s + 1) pat) (drop (st + 1) hay) \<or> later pat hay (Some s) (st + 1))"
        using again prems si Some by (intro "1.IH"(3)) (auto simp: star_inv_def)
      also have "\<dots> = later pat hay sp st"
        using from_here [of "st + 1" "length hay" "\<lambda>k. glob (drop (s + 1) pat) (drop k hay)"] si(2) again(1)
        by (simp only: later_def option.case Some) (simp add: Suc_le_eq)
      finally show ?thesis using no by blast
    qed
  qed
qed

subsection \<open>The atom is a literal run of the expression\<close>

definition runs :: "nat list \<Rightarrow> nat list \<times> nat list \<Rightarrow> bool" where
  "runs pre s \<longleftrightarrow> suffix (fst s) pre \<and> sublist (snd s) pre \<and> set (fst s) \<inter> META = {} \<and> set (snd s) \<inter> META = {}"

lemma runs_flush: "runs pre s \<Longrightarrow> runs (pre @ cs) (flush_run s)"
proof -
  assume "runs pre s"
  then have "sublist (fst s) pre" "sublist (snd s) pre" "set (fst s) \<inter> META = {}" "set (snd s) \<inter> META = {}"
    by (auto simp: runs_def)
  moreover have "sublist pre (pre @ cs)" by simp
  ultimately show ?thesis
    by (auto simp: runs_def flush_run_def split: prod.splits intro: sublist_order.order.trans)
qed

lemma atom_loop_runs: "runs pre s \<Longrightarrow> runs (pre @ cs) (atom_loop cs in_class s)"
proof (induction cs in_class s arbitrary: pre rule: atom_loop.induct)
  case (2 c cs in_class s)
  let ?P = "\<lambda>n. n \<noteq> 0x7D"
  have skip: "cs = take 1 cs @ tl cs" by (cases cs) simp_all
  have brace: "cs = (takeWhile ?P cs @ take 1 (dropWhile ?P cs)) @ tl (dropWhile ?P cs)"
    by (cases "dropWhile ?P cs") (metis append_Nil2 takeWhile_dropWhile_id list.sel(2) take_Nil,
      metis append.assoc append_Cons append_Nil list.sel(3) takeWhile_dropWhile_id take_Suc_Cons take0 One_nat_def)
  have flush: "runs (pre @ c # a) (flush_run s)" for a by (rule runs_flush [OF "2.prems"])
  consider (esc) "in_class" "c = 0x5C" | (cls) "in_class" "c \<noteq> 0x5C" | (esc') "\<not> in_class" "c = 0x5C"
    | (opens) "\<not> in_class" "c = 0x5B"
    | (meta) "\<not> in_class" "c \<in> {0x28, 0x29, 0x7C, 0x2A, 0x2B, 0x3F, 0x5E, 0x24, 0x2E}"
    | (braces) "\<not> in_class" "c = 0x7B"
    | (literal) "\<not> in_class" "c \<notin> META"
    unfolding META_def by blast
  then show ?case
  proof cases
    case esc
    have "runs ((pre @ c # take 1 cs) @ tl cs) (atom_loop (tl cs) True (flush_run s))"
      using esc by (intro "2.IH"(1) flush) auto
    then show ?thesis using esc skip by simp
  next
    case cls
    have "runs ((pre @ [c]) @ cs) (atom_loop cs (c \<noteq> 0x5D) (flush_run s))"
      using cls by (intro "2.IH"(2) flush) auto
    then show ?thesis using cls by simp
  next
    case esc'
    have "runs ((pre @ c # take 1 cs) @ tl cs) (atom_loop (tl cs) False (flush_run s))"
      using esc' by (intro "2.IH"(3) flush) auto
    then show ?thesis using esc' skip by simp
  next
    case opens
    have "runs ((pre @ [c]) @ cs) (atom_loop cs True (flush_run s))"
      using opens by (intro "2.IH"(4) flush) auto
    then show ?thesis using opens by simp
  next
    case meta
    have "runs ((pre @ [c]) @ cs) (atom_loop cs False (flush_run s))"
      using meta by (intro "2.IH"(5) flush) auto
    then show ?thesis using meta by auto
  next
    case braces
    have "runs ((pre @ c # (takeWhile ?P cs @ take 1 (dropWhile ?P cs))) @ tl (dropWhile ?P cs))
        (atom_loop (tl (dropWhile ?P cs)) False (flush_run s))"
      using braces by (intro "2.IH"(6) flush) auto
    then show ?thesis using braces brace by simp
  next
    case literal
    have "runs (pre @ [c]) (fst s @ [c], snd s)"
    proof -
      have "sublist (snd s) pre" "sublist pre (pre @ [c])" using "2.prems" by (simp_all add: runs_def)
      then have "sublist (snd s) (pre @ [c])" by (rule sublist_order.order.trans)
      then show ?thesis using "2.prems" literal(2) by (simp add: runs_def)
    qed
    then have "runs ((pre @ [c]) @ cs) (atom_loop cs False (fst s @ [c], snd s))"
      using literal by (intro "2.IH"(7)) (auto simp: META_def)
    then show ?thesis using literal by (simp add: META_def)
  qed
qed simp

lemma literal_atom_run:
  assumes "valid_utf8 regex" "longest_literal_atom regex = Some a"
  shows "sublist (chars a) (chars regex)" "set (chars a) \<inter> META = {}" "a \<noteq> []" "sublist a regex"
proof -
  define best where "best = snd (flush_run (atom_loop (chars regex) False ([], [])))"
  have "runs [] ([], [])" by (simp add: runs_def)
  from atom_loop_runs [OF this, of "chars regex" False] have "runs (chars regex) (atom_loop (chars regex) False ([], []))"
    by simp
  from runs_flush [OF this, of "[]"] have r: "runs (chars regex) (flush_run (atom_loop (chars regex) False ([], [])))"
    by simp
  have a: "best \<noteq> []" "a = encode_str best"
    using assms(2) by (auto simp: longest_literal_atom_def best_def Let_def split: if_splits)
  have sb: "sublist best (chars regex)" "set best \<inter> META = {}" using r by (auto simp: runs_def best_def)
  then have sc: "\<forall>c\<in>set best. scalar c"
    using scalar_chars [OF assms(1)] set_mono_sublist [OF sb(1)] by blast
  then show "sublist (chars a) (chars regex)" "set (chars a) \<inter> META = {}" "a \<noteq> []" using a sb by simp_all
  obtain x y where "chars regex = x @ best @ y" using sb(1) by (auto simp: sublist_def)
  then have "regex = encode_str x @ a @ encode_str y"
    using encode_chars [OF assms(1)] by (metis a(2) encode_str_simps(3))
  then show "sublist a regex" by (auto simp: sublist_def)
qed

subsection \<open>Properties\<close>

text \<open>
  C35. On a text without a star the backtracking matcher, which only ever returns to its last star,
  decides the declarative relation: a star stands for any run of bytes, a question mark for one.
\<close>

theorem glob_matches_glob: "star \<notin> set hay \<Longrightarrow> glob_matches pattern hay \<longleftrightarrow> glob pattern hay"
  using glob_loop_correct [of hay 0 pattern 0 None 0]
  by (simp add: glob_matches_def star_inv_def later_def)

theorem glob_matches_glob_witness: "glob (lit ''a*b?c'') (lit ''aXbYbZc'')"
proof -
  have "star \<notin> set (lit ''aXbYbZc'')" by code_simp
  moreover have "glob_matches (lit ''a*b?c'') (lit ''aXbYbZc'')" by code_simp
  ultimately show ?thesis using glob_matches_glob [of "lit ''aXbYbZc''" "lit ''a*b?c''"] by blast
qed

text \<open>
  The matcher tests the literal match before the star, so a star at the start of the text
  consumes the star of the pattern: the pattern \<open>*\<close>, which stands for any run, does not match a
  name such as \<open>*b\<close>. A question mark matches one byte, so no \<open>?\<close> matches a character of two.
\<close>

theorem glob_star_in_text:
  "glob [star] (star # b # t) \<and> \<not> glob_matches [star] (star # b # t) \<and>
   \<not> glob_matches [qmark] (encode_str [0xE9])"
proof (intro conjI)
  have "glob [star] ((star # b # t) @ [])" by (intro glob_star glob_nil)
  then show "glob [star] (star # b # t)" by simp
  show "\<not> glob_matches [star] (star # b # t)"
    by (simp add: glob_matches_def glob_loop.simps)
  show "\<not> glob_matches [qmark] (encode_str [0xE9])" by code_simp
qed

text \<open>
  The literal atom of an expression is a non-empty contiguous piece of it that holds none of
  the metacharacters the extraction knows.
\<close>

theorem atom_is_literal_run:
  assumes "valid_utf8 regex" and "longest_literal_atom regex = Some atom"
  shows "atom \<noteq> [] \<and> sublist atom regex \<and> set (chars atom) \<inter> META = {}"
  using literal_atom_run [OF assms] by blast

theorem atom_is_literal_run_witness:
  "longest_literal_atom (lit ''fo.*bar[x]'') = Some (lit ''bar'') \<and> sublist (lit ''bar'') (lit ''fo.*bar[x]'')"
proof -
  have "valid_utf8 (lit ''fo.*bar[x]'')" by code_simp
  moreover have a: "longest_literal_atom (lit ''fo.*bar[x]'') = Some (lit ''bar'')" by code_simp
  ultimately show ?thesis using atom_is_literal_run [of "lit ''fo.*bar[x]''" "lit ''bar''"] by blast
qed

end
