(* ===== verification/Digits.thy ===== *)
theory Digits
  imports Unicode
begin

section \<open>Decimal digits\<close>

text \<open>
  The digits that \<open>format!\<close> prints and \<open>str::parse\<close> reads: printing a number and evaluating its
  digits gives the number back, with leading zeros too.
\<close>

definition digit :: "u8 \<Rightarrow> bool" where
  "digit b \<longleftrightarrow> 48 \<le> unat b \<and> unat b \<le> 57"

definition digits_val :: "bytes \<Rightarrow> nat" where
  "digits_val bs = foldl (\<lambda>n b. 10 * n + (unat b - 48)) 0 bs"

lemma digits_val_snoc: "digits_val (bs @ [b]) = 10 * digits_val bs + (unat b - 48)"
  by (simp add: digits_val_def)

lemma lit_char: "n < 256 \<Longrightarrow> lit [char_of n] = [of_nat n]"
  by (simp add: lit_def)

lemma digit_of_nat: "d < 10 \<Longrightarrow> unat (of_nat (48 + d) :: u8) = 48 + d"
  by (simp only: unat_of_nat) simp

lemma show_nat_digits:
  "digits_val (lit (show_nat n)) = n \<and> list_all digit (lit (show_nat n)) \<and> lit (show_nat n) \<noteq> []"
proof (induction n rule: less_induct)
  case (less n)
  have "lit [char_of (48 + d)] = [of_nat (48 + d)]" if "d < 10" for d using that by (intro lit_char) simp
  moreover have "lit (a @ b) = lit a @ lit b" for a b by (simp add: lit_def)
  ultimately show ?case
    using less.IH [of "n div 10"] digit_of_nat [of "n mod 10"] digit_of_nat [of n]
    by (cases "n < 10") (simp_all add: show_nat.simps [of n] digits_val_snoc digit_def digits_val_def [of "[_]"])
qed

lemma digits_val_zeros: "digits_val (replicate k 48 @ bs) = digits_val bs"
  by (induction k) (simp_all add: digits_val_def)

lemma show_nat_inj: "show_nat m = show_nat n \<longleftrightarrow> m = n"
  using show_nat_digits [of m] show_nat_digits [of n] by metis

end
