(* ===== verification/Bfs.thy ===== *)
theory Bfs
  imports Filters Digits
begin

section \<open>The find-style filter language (crates/df-ipc/src/bfs.rs)\<close>

text \<open>
  The \<open>--expr\<close> argument: split at white space, parsed by recursive descent (\<open>!\<close> over \<open>-a\<close> over
  \<open>-o\<close>, an \<open>-a\<close> may be left out) and evaluated on a path with its metadata. The methods of the
  parser get fuel, four units per token and four more, which is shown to be enough. An error holds
  what its message is made of; the text of the message is not modelled. The modification time of
  a \<open>-newer\<close> file comes from the caller, a parameter here as in the code.
\<close>

subsection \<open>Data\<close>

datatype cmp = CmpEq | CmpGt | CmpLt

datatype prim = Name str | PathGlob str | Size cmp i64 | Newer str

datatype expr = EPrim prim | EAnd expr expr | EOr expr expr | ENot expr

datatype expr_error =
    TrailingToken str
  | UnexpectedEnd
  | ExpectedClose "str option"
  | UnexpectedToken str
  | MissingArgument str
  | UnknownPredicate str
  | BadSize str

subsection \<open>Numbers\<close>

text \<open>\<open>i64::from_str\<close>: an optional sign and at least one digit, within the range of the type.\<close>

definition i64_max :: int where "i64_max = 0x7FFFFFFFFFFFFFFF"

definition in_i64 :: "int \<Rightarrow> bool" where
  "in_i64 n \<longleftrightarrow> - i64_max - 1 \<le> n \<and> n \<le> i64_max"

definition parse_i64 :: "bytes \<Rightarrow> int option" where
  "parse_i64 bs =
     (let (negative, ds) =
        (case bs of b # r \<Rightarrow> if b = 0x2D then (True, r) else if b = 0x2B then (False, r) else (False, bs)
         | [] \<Rightarrow> (False, []));
          n = (if negative then - int (digits_val ds) else int (digits_val ds)) in
      if ds \<noteq> [] \<and> list_all digit ds \<and> in_i64 n then Some n else None)"

definition size_cmp :: "bytes \<Rightarrow> cmp \<times> bytes" where
  "size_cmp s = (case s of
     b # r \<Rightarrow> if b = 0x2B then (CmpGt, r) else if b = 0x2D then (CmpLt, r) else (CmpEq, s)
   | [] \<Rightarrow> (CmpEq, s))"

definition size_unit :: "bytes \<Rightarrow> bytes \<times> int" where
  "size_unit rest =
     (if rest = [] then (rest, 1)
      else if last rest = 0x63 then (butlast rest, 1)
      else if last rest = 0x6B then (butlast rest, 1024)
      else if last rest = 0x4D then (butlast rest, 1024 * 1024)
      else if last rest = 0x47 then (butlast rest, 1024 * 1024 * 1024)
      else (rest, 1))"

definition parse_size :: "str \<Rightarrow> expr_error + cmp \<times> i64" where
  "parse_size s =
     (let (c, rest) = size_cmp s; (num_part, mult) = size_unit rest in
      case parse_i64 num_part of
        None \<Rightarrow> Inl (BadSize s)
      | Some n \<Rightarrow> Inr (c, word_of_int (if in_i64 (n * mult) then n * mult else i64_max)))"

subsection \<open>The parser\<close>

text \<open>\<open>str::split_whitespace\<close>.\<close>

fun split_whitespace :: "nat list \<Rightarrow> str \<Rightarrow> str list" where
  "split_whitespace [] cur = (if cur = [] then [] else [cur])"
| "split_whitespace (c # cs) cur =
     (if is_whitespace c then (if cur = [] then [] else [cur]) @ split_whitespace cs []
      else split_whitespace cs (cur @ encode_char c))"

definition strip_quotes :: "str \<Rightarrow> str" where
  "strip_quotes s =
     (if 2 \<le> length s \<and> (hd s = 0x27 \<or> hd s = 0x22) \<and> hd s = last s
      then butlast (tl s) else s)"

definition starts_dash :: "str \<Rightarrow> bool" where
  "starts_dash t \<longleftrightarrow> t \<noteq> [] \<and> hd t = 0x2D"

definition OPEN :: str where "OPEN = lit ''(''"

definition CLOSE :: str where "CLOSE = lit '')''"

definition is_or :: "str \<Rightarrow> bool" where "is_or t \<longleftrightarrow> t = lit ''-o'' \<or> t = lit ''-or''"

definition is_and :: "str \<Rightarrow> bool" where "is_and t \<longleftrightarrow> t = lit ''-a'' \<or> t = lit ''-and''"

definition is_not :: "str \<Rightarrow> bool" where "is_not t \<longleftrightarrow> t = lit ''!'' \<or> t = lit ''-not''"

definition is_factor_start :: "str \<Rightarrow> bool" where
  "is_factor_start t \<longleftrightarrow> t = OPEN \<or> is_not t \<or> starts_dash t \<and> \<not> is_and t \<and> \<not> is_or t"

text \<open>
  A method on the tokens from \<open>pos\<close> on: out of fuel (\<open>None\<close>), an error, or the expression with
  the tokens that are left.
\<close>

type_synonym expr_parsed = "(expr_error + expr \<times> str list) option"

definition and_then :: "expr_parsed \<Rightarrow> (expr \<Rightarrow> str list \<Rightarrow> expr_parsed) \<Rightarrow> expr_parsed" where
  "and_then p f = (case p of
     None \<Rightarrow> None | Some (Inl e) \<Rightarrow> Some (Inl e) | Some (Inr (x, ts)) \<Rightarrow> f x ts)"

definition expr_prim :: "str \<Rightarrow> str list \<Rightarrow> expr_error + expr \<times> str list" where
  "expr_prim head ts = (case ts of
     [] \<Rightarrow> Inl (MissingArgument head)
   | raw # ts \<Rightarrow>
       let arg = strip_quotes raw in
       if head = lit ''-name'' then Inr (EPrim (Name arg), ts)
       else if head = lit ''-path'' then Inr (EPrim (PathGlob arg), ts)
       else if head = lit ''-size'' then
         (case parse_size arg of Inl e \<Rightarrow> Inl e | Inr (c, n) \<Rightarrow> Inr (EPrim (Size c n), ts))
       else if head = lit ''-newer'' then Inr (EPrim (Newer arg), ts)
       else Inl (UnknownPredicate head))"

function (sequential) expr_or :: "nat \<Rightarrow> str list \<Rightarrow> expr_parsed"
  and expr_or_loop :: "nat \<Rightarrow> expr \<Rightarrow> str list \<Rightarrow> expr_parsed"
  and expr_and :: "nat \<Rightarrow> str list \<Rightarrow> expr_parsed"
  and expr_and_loop :: "nat \<Rightarrow> expr \<Rightarrow> str list \<Rightarrow> expr_parsed"
  and expr_factor :: "nat \<Rightarrow> str list \<Rightarrow> expr_parsed" where
  "expr_or 0 ts = None"
| "expr_or (Suc k) ts = and_then (expr_and k ts) (expr_or_loop k)"
| "expr_or_loop 0 left ts = None"
| "expr_or_loop (Suc k) left ts =
     (if ts \<noteq> [] \<and> is_or (hd ts)
      then and_then (expr_and k (tl ts)) (\<lambda>right. expr_or_loop k (EOr left right))
      else Some (Inr (left, ts)))"
| "expr_and 0 ts = None"
| "expr_and (Suc k) ts = and_then (expr_factor k ts) (expr_and_loop k)"
| "expr_and_loop 0 left ts = None"
| "expr_and_loop (Suc k) left ts =
     (if ts \<noteq> [] \<and> is_and (hd ts)
      then and_then (expr_factor k (tl ts)) (\<lambda>right. expr_and_loop k (EAnd left right))
      else if ts \<noteq> [] \<and> is_factor_start (hd ts)
      then and_then (expr_factor k ts) (\<lambda>right. expr_and_loop k (EAnd left right))
      else Some (Inr (left, ts)))"
| "expr_factor 0 ts = None"
| "expr_factor (Suc k) ts =
     (if ts = [] then Some (Inl UnexpectedEnd)
      else if is_not (hd ts) then and_then (expr_factor k (tl ts)) (\<lambda>f us. Some (Inr (ENot f, us)))
      else if hd ts = OPEN then
        and_then (expr_or k (tl ts)) (\<lambda>e us.
          if us \<noteq> [] \<and> hd us = CLOSE then Some (Inr (e, tl us))
          else Some (Inl (ExpectedClose (if us = [] then None else Some (hd us)))))
      else if starts_dash (hd ts) then Some (expr_prim (hd ts) (tl ts))
      else Some (Inl (UnexpectedToken (hd ts))))"

  by pat_completeness auto
termination
  by (relation "measure (\<lambda>x. case x of
      Inl (Inl (k, _)) \<Rightarrow> k | Inl (Inr (k, _, _)) \<Rightarrow> k | Inr (Inl (k, _)) \<Rightarrow> k
    | Inr (Inr (Inl (k, _, _))) \<Rightarrow> k | Inr (Inr (Inr (k, _))) \<Rightarrow> k)") simp_all

definition expr_tokens :: "str list \<Rightarrow> (expr_error + expr) option" where
  "expr_tokens toks = (case expr_or (4 * length toks + 4) toks of
     None \<Rightarrow> None
   | Some (Inl e) \<Rightarrow> Some (Inl e)
   | Some (Inr (node, rest)) \<Rightarrow>
       Some (if rest \<noteq> [] then Inl (TrailingToken (hd rest)) else Inr node))"

definition parse_expr :: "str \<Rightarrow> (expr_error + expr) option" where
  "parse_expr input = expr_tokens (split_whitespace (chars input) [])"

subsection \<open>The evaluator\<close>

fun collect_newer :: "expr \<Rightarrow> str list \<Rightarrow> str list" where
  "collect_newer (EPrim (Newer f)) out = out @ [f]"
| "collect_newer (EPrim p) out = out"
| "collect_newer (EAnd a b) out = collect_newer b (collect_newer a out)"
| "collect_newer (EOr a b) out = collect_newer b (collect_newer a out)"
| "collect_newer (ENot e) out = collect_newer e out"

definition newer_files :: "expr \<Rightarrow> str list" where
  "newer_files e = collect_newer e []"

definition base_name :: "str \<Rightarrow> str" where
  "base_name path = (case file_name path of
     None \<Rightarrow> path | Some n \<Rightarrow> (case from_utf8 n of None \<Rightarrow> path | Some s \<Rightarrow> s))"

fun eval_prim :: "prim \<Rightarrow> str \<Rightarrow> lite_meta \<Rightarrow> (str \<Rightarrow> i64 option) \<Rightarrow> bool" where
  "eval_prim (Name pat) path meta newer_mtime = glob_matches pat (base_name path)"
| "eval_prim (PathGlob pat) path meta newer_mtime = glob_matches pat path"
| "eval_prim (Size c n) path meta newer_mtime = (case c of
     CmpEq \<Rightarrow> file_size meta = n
   | CmpGt \<Rightarrow> sint (file_size meta) > sint n
   | CmpLt \<Rightarrow> sint (file_size meta) < sint n)"
| "eval_prim (Newer f) path meta newer_mtime = (case newer_mtime f of
     Some t \<Rightarrow> sint (mtime meta) > sint t | None \<Rightarrow> False)"

fun eval_expr :: "expr \<Rightarrow> str \<Rightarrow> lite_meta \<Rightarrow> (str \<Rightarrow> i64 option) \<Rightarrow> bool" where
  "eval_expr (EPrim p) path meta newer_mtime = eval_prim p path meta newer_mtime"
| "eval_expr (ENot e) path meta newer_mtime = (\<not> eval_expr e path meta newer_mtime)"
| "eval_expr (EAnd a b) path meta newer_mtime =
     (eval_expr a path meta newer_mtime \<and> eval_expr b path meta newer_mtime)"
| "eval_expr (EOr a b) path meta newer_mtime =
     (eval_expr a path meta newer_mtime \<or> eval_expr b path meta newer_mtime)"

subsection \<open>The parser never runs out of fuel\<close>

lemma and_then_simps [simp]:
  "and_then None f = None" "and_then (Some (Inl e)) f = Some (Inl e)"
  "and_then (Some (Inr (x, ts))) f = f x ts"
  by (simp_all add: and_then_def)

text \<open>A result, which leaves \<open>m\<close> tokens fewer than there were.\<close>

definition ends :: "nat \<Rightarrow> str list \<Rightarrow> expr_parsed \<Rightarrow> bool" where
  "ends m ts p \<longleftrightarrow> (\<exists>e. p = Some (Inl e)) \<or> (\<exists>x us. p = Some (Inr (x, us)) \<and> length us + m \<le> length ts)"

lemma ends_simps [simp]:
  "ends m ts (Some (Inl e))" "ends m ts (Some (Inr (x, us))) \<longleftrightarrow> length us + m \<le> length ts"
  by (auto simp: ends_def)

lemma ends_then:
  assumes "ends m ts p" "\<And>x us. length us + m \<le> length ts \<Longrightarrow> ends m' ts' (f x us)"
  shows "ends m' ts' (and_then p f)"
proof -
  from assms(1) consider e where "p = Some (Inl e)" | x us where "p = Some (Inr (x, us))" "length us + m \<le> length ts"
    by (auto simp: ends_def)
  then show ?thesis using assms(2) by cases simp_all
qed

lemma ends_shift: "ends i us p \<Longrightarrow> length us + m \<le> length ts + i \<Longrightarrow> ends m ts p"
  by (auto simp: ends_def)

lemma ends_prim: "ts \<noteq> [] \<Longrightarrow> ends 1 ts (Some (expr_prim (hd ts) (tl ts)))"
  by (cases ts; cases "tl ts") (auto simp: expr_prim_def Let_def split: sum.split)

lemma expr_parser_ends:
  "4 * length ts + 4 \<le> k \<Longrightarrow> ends 1 ts (expr_or k ts)"
  "4 * length ts + 2 \<le> k \<Longrightarrow> ends 0 ts (expr_or_loop k left ts)"
  "4 * length ts + 3 \<le> k \<Longrightarrow> ends 1 ts (expr_and k ts)"
  "4 * length ts + 2 \<le> k \<Longrightarrow> ends 0 ts (expr_and_loop k left ts)"
  "4 * length ts + 1 \<le> k \<Longrightarrow> ends 1 ts (expr_factor k ts)"
proof (induction k arbitrary: ts left and ts left and ts left and ts left and ts left)
  case (Suc k)
  {
    case (1 ts)
    have "ends 1 ts (expr_or_loop k x us)" if "length us + 1 \<le> length ts" for x us
      using 1 that by (intro ends_shift [OF Suc.IH(2)]) simp_all
    then show ?case using Suc.IH(3) [of ts] 1 by (simp add: ends_then [where m = 1])
  next
    case (2 ts left)
    have "ends 0 ts (expr_or_loop k x us)" if "length us + 2 \<le> length ts" for x us
      using 2 that by (intro ends_shift [OF Suc.IH(2)]) simp_all
    moreover have "ends 2 ts (expr_and k (tl ts))" if "ts \<noteq> []"
      using 2 that by (intro ends_shift [OF Suc.IH(3)]) (cases ts; simp)+
    ultimately show ?case by (auto intro!: ends_then [where m = 2])
  next
    case (3 ts)
    have "ends 1 ts (expr_and_loop k x us)" if "length us + 1 \<le> length ts" for x us
      using 3 that by (intro ends_shift [OF Suc.IH(4)]) simp_all
    then show ?case using Suc.IH(5) [of ts] 3 by (simp add: ends_then [where m = 1])
  next
    case (4 ts left)
    have "ends 0 ts (expr_and_loop k x us)" if "length us + 1 \<le> length ts" for x us
      using 4 that by (intro ends_shift [OF Suc.IH(4)]) simp_all
    moreover have "ends 1 ts (expr_factor k (tl ts))" if "ts \<noteq> []"
      using 4 that by (intro ends_shift [OF Suc.IH(5)]) (cases ts; simp)+
    moreover have "ends 1 ts (expr_factor k ts)" using Suc.IH(5) [of ts] 4 by simp
    ultimately show ?case by (auto intro!: ends_then [where m = 1])
  next
    case (5 ts)
    have "ends 2 ts (expr_factor k (tl ts))" if "ts \<noteq> []"
      using 5 that by (intro ends_shift [OF Suc.IH(5)]) (cases ts; simp)+
    moreover have "ends 2 ts (expr_or k (tl ts))" if "ts \<noteq> []"
      using 5 that by (intro ends_shift [OF Suc.IH(1)]) (cases ts; simp)+
    ultimately show ?case using ends_prim [of ts] by (auto intro!: ends_then [where m = 2])
  }
qed simp_all

lemma expr_or_enough: "\<exists>r. expr_or (4 * length ts + 4) ts = Some r"
  using expr_parser_ends(1) [of ts "4 * length ts + 4"] by (auto simp: ends_def)

subsection \<open>Printing\<close>

lemma parse_i64_show: "parse_i64 (lit (show_nat n)) = (if int n \<le> i64_max then Some (int n) else None)"
proof -
  obtain b r where b: "lit (show_nat n) = b # r" using show_nat_digits [of n] by (cases "lit (show_nat n)") auto
  have "digit b" "list_all digit (b # r)" "digits_val (b # r) = n" using show_nat_digits [of n] by (simp_all add: b)
  then have "b \<noteq> 0x2D" "b \<noteq> 0x2B" by (auto simp: digit_def)
  then show ?thesis using \<open>list_all digit (b # r)\<close> \<open>digits_val (b # r) = n\<close>
    by (simp add: parse_i64_def b in_i64_def i64_max_def)
qed

definition sign_of :: "cmp \<Rightarrow> bytes" where
  "sign_of c = (case c of CmpEq \<Rightarrow> [] | CmpGt \<Rightarrow> [0x2B] | CmpLt \<Rightarrow> [0x2D])"

lemma size_cmp_sign: "digit (hd s) \<Longrightarrow> s \<noteq> [] \<Longrightarrow> size_cmp (sign_of c @ s) = (c, s)"
  by (cases c; cases s) (auto simp: size_cmp_def sign_of_def digit_def)

definition size_units :: "(bytes \<times> int) list" where
  "size_units = [([], 1), ([0x63], 1), ([0x6B], 1024), ([0x4D], 1024 * 1024), ([0x47], 1024 * 1024 * 1024)]"

lemma size_unit_digits:
  "(u, m) \<in> set size_units \<Longrightarrow> s \<noteq> [] \<Longrightarrow> digit (last s) \<Longrightarrow> size_unit (s @ u) = (s, m)"
  by (auto simp: size_units_def size_unit_def digit_def)

lemma parse_size_show:
  assumes "(u, m) \<in> set size_units"
  shows "parse_size (sign_of c @ lit (show_nat n) @ u) =
    (if int n \<le> i64_max then Inr (c, word_of_int (min (int n * m) i64_max))
     else Inl (BadSize (sign_of c @ lit (show_nat n) @ u)))"
proof -
  let ?s = "lit (show_nat n)"
  have s: "?s \<noteq> []" "list_all digit ?s" using show_nat_digits [of n] by auto
  then have "digit (hd ?s)" "digit (last ?s)" by (auto simp: list_all_iff)
  then have "size_cmp (sign_of c @ ?s @ u) = (c, ?s @ u)" "size_unit (?s @ u) = (?s, m)"
    using s size_cmp_sign [of "?s @ u" c] size_unit_digits [OF assms] by simp_all
  moreover have "0 \<le> int n * m" using assms by (auto simp: size_units_def)
  ultimately show ?thesis by (auto simp: parse_size_def Let_def parse_i64_show in_i64_def min_def i64_max_def)
qed


fun print_prim :: "prim \<Rightarrow> str list" where
  "print_prim (Name pat) = [lit ''-name'', pat]"
| "print_prim (PathGlob pat) = [lit ''-path'', pat]"
| "print_prim (Size c n) = [lit ''-size'', sign_of c @ lit (show_nat (unat n))]"
| "print_prim (Newer f) = [lit ''-newer'', f]"

fun print_expr :: "expr \<Rightarrow> str list" where
  "print_expr (EPrim p) = print_prim p"
| "print_expr (ENot e) = lit ''!'' # print_expr e"
| "print_expr (EAnd a b) = OPEN # print_expr a @ lit ''-a'' # print_expr b @ [CLOSE]"
| "print_expr (EOr a b) = OPEN # print_expr a @ lit ''-o'' # print_expr b @ [CLOSE]"

text \<open>What one token can carry: an argument without white space that is not quoted, a size that
  is not negative.\<close>

definition plain_arg :: "str \<Rightarrow> bool" where
  "plain_arg s \<longleftrightarrow> s \<noteq> [] \<and> valid_utf8 s \<and> strip_quotes s = s \<and> list_all (\<lambda>c. \<not> is_whitespace c) (chars s)"

fun printable :: "expr \<Rightarrow> bool" where
  "printable (EPrim (Name pat)) = plain_arg pat"
| "printable (EPrim (PathGlob pat)) = plain_arg pat"
| "printable (EPrim (Size c n)) = (int (unat n) \<le> i64_max)"
| "printable (EPrim (Newer f)) = plain_arg f"
| "printable (ENot e) = printable e"
| "printable (EAnd a b) = (printable a \<and> printable b)"
| "printable (EOr a b) = (printable a \<and> printable b)"

fun need :: "expr \<Rightarrow> nat" where
  "need (EPrim p) = 1"
| "need (ENot e) = 1 + need e"
| "need (EAnd a b) = 5 + need a + need b"
| "need (EOr a b) = 6 + need a + need b"

lemmas token_defs = is_not_def is_and_def is_or_def is_factor_start_def starts_dash_def OPEN_def CLOSE_def

lemma tokens_apart [simp]:
  "is_or (lit ''-o'')" "is_and (lit ''-a'')" "\<not> is_and (lit ''-o'')" "is_not (lit ''!'')"
  "\<not> is_factor_start (lit ''-o'')" "\<not> is_or CLOSE" "\<not> is_and CLOSE" "\<not> is_factor_start CLOSE"
  "\<not> is_not OPEN"
  by (simp_all add: token_defs) (simp_all add: lit_def)

lemma prim_heads [simp]:
  "starts_dash (lit (CHR ''-'' # s))"
  "\<not> is_not (lit ''-name'')" "\<not> is_not (lit ''-path'')" "\<not> is_not (lit ''-size'')" "\<not> is_not (lit ''-newer'')"
  "lit (CHR ''-'' # s) \<noteq> OPEN"
  by (simp_all add: token_defs) (simp_all add: lit_def)

lemma digits_unquoted: "strip_quotes (sign_of c @ lit (show_nat n)) = sign_of c @ lit (show_nat n)"
proof -
  have "digit (hd (lit (show_nat n)))" "lit (show_nat n) \<noteq> []"
    using show_nat_digits [of n] by (auto simp: list_all_iff)
  then show ?thesis by (cases c) (auto simp: strip_quotes_def sign_of_def digit_def)
qed

lemma expr_prim_print:
  assumes "printable (EPrim p)"
  shows "expr_prim (hd (print_prim p)) (tl (print_prim p) @ rest) = Inr (EPrim p, rest)"
proof (cases p)
  case (Size c n)
  have "([], 1) \<in> set size_units" by (simp add: size_units_def)
  from parse_size_show [OF this, of c "unat n"] show ?thesis
    using assms by (simp add: Size expr_prim_def digits_unquoted word_of_int_uint flip: uint_nat)
qed (use assms in \<open>simp_all add: expr_prim_def plain_arg_def\<close>)

lemma print_prim_nonempty [simp]: "print_prim p \<noteq> []"
  by (cases p) simp_all

lemma expr_factor_prim:
  assumes "printable (EPrim p)" shows "expr_factor (Suc k) (print_prim p @ rest) = Some (Inr (EPrim p, rest))"
proof -
  have "\<not> is_not (hd (print_prim p))" "hd (print_prim p) \<noteq> OPEN" "starts_dash (hd (print_prim p))"
    by (cases p; simp)+
  then show ?thesis using expr_prim_print [OF assms] by simp
qed

lemma expr_factor_print:
  "printable e \<Longrightarrow> need e \<le> k \<Longrightarrow> expr_factor k (print_expr e @ rest) = Some (Inr (e, rest))"
proof (induction e arbitrary: k rest)
  case (EPrim p)
  then show ?case using expr_factor_prim [of p "k - 1" rest] by simp
next
  case (ENot e)
  then obtain j where "k = Suc j" "need e \<le> j" by (cases k) auto
  then show ?case using ENot by simp
next
  case (EAnd a b)
  obtain j where k: "k = Suc (Suc (Suc (Suc (Suc j))))" "need a \<le> j" "need b \<le> j"
    using EAnd.prems by (intro that [of "k - 5"]) auto
  have "expr_factor (Suc (Suc j)) (print_expr a @ r) = Some (Inr (a, r))"
    "expr_factor (Suc j) (print_expr b @ r) = Some (Inr (b, r))" for r
    using EAnd k by (simp_all del: expr_factor.simps)
  then show ?case unfolding k(1) by (subst expr_factor.simps) (simp del: expr_factor.simps)
next
  case (EOr a b)
  obtain j where k: "k = Suc (Suc (Suc (Suc (Suc (Suc j)))))" "need a \<le> j" "need b \<le> j"
    using EOr.prems by (intro that [of "k - 6"]) auto
  have "expr_factor (Suc (Suc (Suc j))) (print_expr a @ r) = Some (Inr (a, r))"
    "expr_factor (Suc (Suc j)) (print_expr b @ r) = Some (Inr (b, r))" for r
    using EOr k by (simp_all del: expr_factor.simps)
  then show ?case unfolding k(1) by (subst expr_factor.simps) (simp del: expr_factor.simps)
qed

lemma need_length: "need e \<le> 4 * length (print_expr e)"
  by (induction e) (auto simp: Suc_le_eq)

lemma expr_tokens_print: "printable e \<Longrightarrow> expr_tokens (print_expr e) = Some (Inr e)"
  using expr_factor_print [of e "4 * length (print_expr e) + 2" "[]"] need_length [of e]
  by (simp add: expr_tokens_def numeral_eq_Suc)

text \<open>Words joined by spaces are split into the same words.\<close>

fun join_words :: "str list \<Rightarrow> str" where
  "join_words [] = []"
| "join_words [w] = w"
| "join_words (w # ws) = w @ 0x20 # join_words ws"

definition word_ok :: "str \<Rightarrow> bool" where
  "word_ok w \<longleftrightarrow> w \<noteq> [] \<and> valid_utf8 w \<and> list_all (\<lambda>c. \<not> is_whitespace c) (chars w)"

lemma split_word: "list_all (\<lambda>c. \<not> is_whitespace c) cs \<Longrightarrow>
   split_whitespace (cs @ rest) cur = split_whitespace rest (cur @ encode_str cs)"
  by (induction cs arbitrary: cur) simp_all

lemma chars_word: "valid_utf8 w \<Longrightarrow> chars (w @ r) = chars w @ chars r"
  using chars_encode_append [of "chars w" r] scalar_chars [of w] encode_chars [of w] by simp

lemma chars_space: "chars (0x20 # r) = 0x20 # chars r"
  using chars_encode_append [of "[0x20]" r] by (simp add: encode_char_def scalar_def byte_def)

lemma is_whitespace_space [simp]: "is_whitespace 0x20"
  by (simp add: is_whitespace_def)

lemma split_join: "list_all word_ok ws \<Longrightarrow> split_whitespace (chars (join_words ws)) [] = ws"
proof (induction ws rule: join_words.induct)
  case (2 w)
  then show ?case using split_word [of "chars w" "[]" "[]"] encode_chars [of w] by (simp add: word_ok_def)
next
  case (3 w v ws)
  then show ?case by (simp add: word_ok_def chars_word chars_space split_word encode_chars)
qed simp

lemma lit_word: "list_all (\<lambda>c. of_char c < (128 :: nat) \<and> \<not> is_whitespace (of_char c)) s \<Longrightarrow> s \<noteq> [] \<Longrightarrow> word_ok (lit s)"
proof -
  assume s: "list_all (\<lambda>c. of_char c < (128 :: nat) \<and> \<not> is_whitespace (of_char c)) s" "s \<noteq> []"
  have "\<forall>b\<in>set (lit s). unat b < 128" "map unat (lit s) = map of_char s"
    using s(1) by (auto simp: lit_def list_all_iff unat_of_nat)
  then show ?thesis using s valid_ascii [of "lit s"] chars_ascii [of "lit s"]
    by (simp add: word_ok_def list_all_iff lit_def)
qed

lemma fixed_words [simp]:
  "word_ok (lit ''-name'')" "word_ok (lit ''-path'')" "word_ok (lit ''-size'')" "word_ok (lit ''-newer'')"
  "word_ok (lit ''!'')" "word_ok OPEN" "word_ok CLOSE" "word_ok (lit ''-a'')" "word_ok (lit ''-o'')"
  unfolding OPEN_def CLOSE_def by (intro lit_word; simp add: is_whitespace_def)+

lemma size_word: "word_ok (sign_of c @ lit (show_nat n))"
proof -
  let ?s = "sign_of c @ lit (show_nat n)"
  have d: "list_all digit (lit (show_nat n))" "lit (show_nat n) \<noteq> []" using show_nat_digits [of n] by auto
  have r: "33 \<le> unat b \<and> unat b < 128" if "b \<in> set ?s" for b
    using that d by (cases c) (auto simp: sign_of_def list_all_iff digit_def)
  then have "\<forall>b\<in>set ?s. unat b < 128" by blast
  from valid_ascii [OF this] chars_ascii [OF this]
  show ?thesis using d r by (force simp: word_ok_def list_all_iff is_whitespace_def)
qed

lemma plain_word: "plain_arg s \<Longrightarrow> word_ok s"
  by (simp add: plain_arg_def word_ok_def)

lemma print_words: "printable e \<Longrightarrow> list_all word_ok (print_expr e)"
  by (induction e rule: printable.induct) (simp_all add: plain_word size_word)

lemma collect_newer_append: "collect_newer e out = out @ collect_newer e []"
proof (induction e arbitrary: out)
  case (EPrim p)
  then show ?case by (cases p) simp_all
next
  case (EAnd a b)
  then show ?case by (metis collect_newer.simps(5) append.assoc)
next
  case (EOr a b)
  then show ?case by (metis collect_newer.simps(6) append.assoc)
qed (metis collect_newer.simps(7))

lemma newer_files_simps [simp]:
  "newer_files (EPrim p) = (case p of Newer f \<Rightarrow> [f] | _ \<Rightarrow> [])"
  "newer_files (ENot e) = newer_files e"
  "newer_files (EAnd a b) = newer_files a @ newer_files b"
  "newer_files (EOr a b) = newer_files a @ newer_files b"
  using collect_newer_append [of b "collect_newer a []"]
  by (simp_all add: newer_files_def split: prim.split)

subsection \<open>Properties\<close>

text \<open>
  The parser returns on every input, with an expression or an error: the fuel of four units
  per token and four more is never used up.
\<close>

theorem expr_parser_total: "\<exists>r. parse_expr input = Some r"
proof -
  let ?ts = "split_whitespace (chars input) []"
  obtain r where "expr_or (4 * length ?ts + 4) ?ts = Some r" using expr_or_enough by blast
  then show ?thesis by (auto simp: parse_expr_def expr_tokens_def split: sum.split)
qed

text \<open>
  C37. An expression printed in full parentheses, its words joined by spaces, parses back to itself
  when its arguments are words the syntax can carry.
\<close>

theorem expr_print_parse: "printable e \<Longrightarrow> parse_expr (join_words (print_expr e)) = Some (Inr e)"
  by (simp add: parse_expr_def split_join print_words expr_tokens_print)

theorem expr_print_parse_witness:
  "parse_expr (join_words (print_expr (EAnd (EPrim (Name (lit ''*.rs''))) (ENot (EPrim (Size CmpGt 4096)))))) =
     Some (Inr (EAnd (EPrim (Name (lit ''*.rs''))) (ENot (EPrim (Size CmpGt 4096)))))"
proof (rule expr_print_parse)
  have "plain_arg (lit ''*.rs'')" by code_simp
  then show "printable (EAnd (EPrim (Name (lit ''*.rs''))) (ENot (EPrim (Size CmpGt 4096))))"
    by (simp add: i64_max_def)
qed

text \<open>
  A size argument is a sign, a number and a unit. A number that fits \<open>i64\<close> gives the product
  with the unit, cut off at the largest \<open>i64\<close>; a larger number is an error. The cut-off ignores
  the sign of the number: a product below the range gives the largest value too.
\<close>

theorem parse_size_saturates:
  assumes "(u, m) \<in> set size_units"
  shows "parse_size (sign_of c @ lit (show_nat n) @ u) =
      (if int n \<le> i64_max then Inr (c, word_of_int (min (int n * m) i64_max))
       else Inl (BadSize (sign_of c @ lit (show_nat n) @ u))) \<and>
    parse_size (lit ''--9000000000000G'') = Inr (CmpLt, word_of_int i64_max)"
proof
  show "parse_size (lit ''--9000000000000G'') = Inr (CmpLt, word_of_int i64_max)"
    by (simp add: parse_size_def size_cmp_def size_unit_def parse_i64_def lit_def digit_def digits_val_def in_i64_def i64_max_def)
qed (rule parse_size_show [OF assms])

theorem parse_size_saturates_witness:
  "parse_size (sign_of CmpGt @ lit (show_nat 3) @ [0x6B]) = Inr (CmpGt, 3072)"
proof -
  have "([0x6B], 1024) \<in> set size_units" by (simp add: size_units_def)
  from parse_size_saturates [OF this, of CmpGt 3] show ?thesis by (simp add: i64_max_def)
qed

text \<open>
  The value of an expression depends on the modification times of the files that \<open>newer_files\<close>
  lists and of no others, so a caller may look them up once and keep the answers.
\<close>

lemma newer_files_suffice:
  assumes "\<And>f. f \<in> set (newer_files e) \<Longrightarrow> cached f = newer_mtime f"
  shows "eval_expr e path meta cached = eval_expr e path meta newer_mtime"
  using assms
proof (induction e)
  case (EPrim p)
  then show ?case by (cases p) simp_all
qed simp_all

end
