(* ===== verification/IndexIo.thy ===== *)
theory IndexIo
  imports Db Paths
begin

section \<open>Files of the index (crates/df-index/src/lib.rs, mmap_source.rs, error.rs)\<close>

text \<open>
  The two byte sources over files, a reading loop over \<open>pread\<close> and a memory map, with the contract
  both share as a locale; and \<open>atomic_write\<close>, by which every file of the index is replaced. The
  operating system is a parameter: \<open>pread\<close> may read less than asked, any file operation may fail,
  and a crash may lose what was not synced.
\<close>

subsection \<open>Errors\<close>

datatype index_error = IndexIoError string | IndexOther string

subsection \<open>The contract of a byte source\<close>

text \<open>A source of the bytes \<open>content\<close>: a read inside gives them, any other read of at least one byte
  is an error. (Of no bytes, a read beyond the end succeeds on a file and fails on a map.)\<close>

locale byte_source =
  fixes source_read :: "u64 \<Rightarrow> nat \<Rightarrow> bytes res" and content :: bytes
  assumes read_inside: "length content < 2 ^ 63 \<Longrightarrow> unat off + len \<le> length content \<Longrightarrow>
      source_read off len = Ok (take len (drop (unat off) content))"
    and read_outside: "length content < 2 ^ 63 \<Longrightarrow> 0 < len \<Longrightarrow> length content < unat off + len \<Longrightarrow>
      \<exists>e. source_read off len = Err (Io e)"
begin

lemma read_iff:
  "length content < 2 ^ 63 \<Longrightarrow> 0 < len \<Longrightarrow>
   source_read off len = Ok b \<longleftrightarrow> unat off + len \<le> length content \<and> b = take len (drop (unat off) content)"
  using read_inside [of off len] read_outside [of len off] by (cases "unat off + len \<le> length content") auto

end

interpretation memory: byte_source "read_at src" src for src
  by unfold_locales (auto simp: read_at_def slice_def Let_def)

context byte_source
begin

lemma as_memory: "length content < 2 ^ 63 \<Longrightarrow> 0 < len \<Longrightarrow> source_read off len = Ok b \<longleftrightarrow> read_at content off len = Ok b"
  by (simp only: read_iff memory.read_iff)

end

subsection \<open>\<open>MmapSource\<close>\<close>

definition mmap_read_at :: "bytes \<Rightarrow> u64 \<Rightarrow> nat \<Rightarrow> bytes res" where
  "mmap_read_at mmap off len =
     (let start = unat off in
      if start + len \<ge> 2 ^ 64 then Err (Io ''len overflow'')
      else if start + len > length mmap then Err (Io ''read past mmap end'')
      else slice mmap start (start + len))"

interpretation mapped: byte_source "mmap_read_at mmap" mmap for mmap
  by unfold_locales (auto simp: mmap_read_at_def slice_def Let_def)

subsection \<open>\<open>FileSource\<close>\<close>

text \<open>
  \<open>pread\<close> reads at most so many bytes at an offset; no byte means the end of the file. The offset
  is computed at 64 bits.
\<close>

type_synonym pread = "u64 \<Rightarrow> nat \<Rightarrow> string + bytes"

function file_read_loop :: "pread \<Rightarrow> u64 \<Rightarrow> nat \<Rightarrow> bytes \<Rightarrow> bytes res" where
  "file_read_loop pread off len buf =
     (if length buf < len then
        (case pread (off + of_nat (length buf)) (len - length buf) of
           Inl e \<Rightarrow> Err (Io e)
         | Inr chunk \<Rightarrow>
             if chunk = [] then Err (Io ''pread hit EOF before filling request'')
             else file_read_loop pread off len (buf @ chunk))
      else Ok buf)"
  by pat_completeness auto
termination
  by (relation "measure (\<lambda>(pread, off, len, buf). len - length buf)") (auto simp: neq_Nil_conv)

declare file_read_loop.simps [simp del]

definition file_read_at :: "pread \<Rightarrow> u64 \<Rightarrow> nat \<Rightarrow> bytes res" where
  "file_read_at pread off len = file_read_loop pread off len []"

text \<open>\<open>pread\<close> on a file: \<open>short\<close> says how much less than possible it reads.\<close>

definition pread_file :: "(nat \<Rightarrow> nat \<Rightarrow> nat) \<Rightarrow> bytes \<Rightarrow> pread" where
  "pread_file short f off k = Inr (take (Suc (short (unat off) k)) (take k (drop (unat off) f)))"

lemma pread_file_step:
  assumes "length f < 2 ^ 63" "k \<noteq> 0"
  shows "unat off + i < length f \<Longrightarrow> \<exists>n. 0 < n \<and> n \<le> k \<and> unat off + i + n \<le> length f \<and>
      pread_file short f (off + of_nat i) k = Inr (take n (drop (unat off + i) f))"
    "unat off + i = length f \<Longrightarrow> pread_file short f (off + of_nat i) k = Inr []"
proof -
  have u: "unat (off + of_nat i) = unat off + i" if "unat off + i \<le> length f"
  proof -
    have "unat off + i < 2 ^ 64" using that assms(1) by simp
    then show ?thesis by (simp add: unat_word_ariths unat_of_nat)
  qed
  show "\<exists>n. 0 < n \<and> n \<le> k \<and> unat off + i + n \<le> length f \<and>
      pread_file short f (off + of_nat i) k = Inr (take n (drop (unat off + i) f))" if "unat off + i < length f"
    using assms(2) that u
    by (intro exI [of _ "min (Suc (short (unat off + i) k)) (min k (length f - (unat off + i)))"])
      (auto simp: pread_file_def min_def take_all)
  show "pread_file short f (off + of_nat i) k = Inr []" if "unat off + i = length f"
    using that u by (simp add: pread_file_def)
qed

lemma file_read_loop_inside:
  assumes "length f < 2 ^ 63" "unat off + len \<le> length f" "i \<le> len"
  shows "file_read_loop (pread_file short f) off len (take i (drop (unat off) f)) = Ok (take len (drop (unat off) f))"
  using assms(3)
proof (induction "len - i" arbitrary: i rule: less_induct)
  case less
  have l: "length (take i (drop (unat off) f)) = i" using less.prems assms(2) by simp
  show ?case
  proof (cases "i < len")
    case True
    obtain n where n: "0 < n" "n \<le> len - i" "unat off + i + n \<le> length f"
      "pread_file short f (off + of_nat i) (len - i) = Inr (take n (drop (unat off + i) f))"
      using pread_file_step(1) [of f "len - i" off i short] assms(1,2) True by auto
    have c: "take n (drop (unat off + i) f) \<noteq> []" using n(1) True assms(2) by auto
    have "take i (drop (unat off) f) @ take n (drop (unat off + i) f) = take (i + n) (drop (unat off) f)"
      by (simp add: take_add add.commute)
    then have "file_read_loop (pread_file short f) off len (take i (drop (unat off) f)) =
        file_read_loop (pread_file short f) off len (take (i + n) (drop (unat off) f))"
      using True c by (subst file_read_loop.simps) (simp only: l n(4) sum.case if_True if_False)
    then show ?thesis using less.hyps [of "i + n"] n(1,2) True by simp
  next
    case False
    then have "i = len" using less.prems by simp
    then show ?thesis using l by (subst file_read_loop.simps) simp
  qed
qed

lemma file_read_loop_outside:
  assumes "length f < 2 ^ 63" "0 < len" "length f < unat off + len"
  shows "\<exists>e. file_read_loop (pread_file short f) off len (take i (drop (unat off) f)) = Err (Io e)"
proof (induction "length f - unat off - i" arbitrary: i rule: less_induct)
  case less
  let ?b = "take i (drop (unat off) f)" and ?p = "pread_file short f"
  have l: "length ?b < len" "length ?b \<le> length f - unat off" using assms(2,3) by auto
  show ?case
  proof (cases "unat off + length ?b < length f")
    case True
    then have i: "length ?b = i" by auto
    obtain n where n: "0 < n" "unat off + i + n \<le> length f"
      "?p (off + of_nat i) (len - i) = Inr (take n (drop (unat off + i) f))"
      using pread_file_step(1) [of f "len - i" off i short] assms(1) l(1) True i by auto
    have c: "take n (drop (unat off + i) f) \<noteq> []" using n(1) True i by auto
    have "?b @ take n (drop (unat off + i) f) = take (i + n) (drop (unat off) f)" by (simp add: take_add add.commute)
    then have "file_read_loop ?p off len ?b = file_read_loop ?p off len (take (i + n) (drop (unat off) f))"
      using l(1) c by (subst file_read_loop.simps) (simp only: i n(3) sum.case if_True if_False)
    then show ?thesis using less.hyps [of "i + n"] n(1) True i by simp
  next
    case False
    have "\<exists>e. ?p (off + of_nat (length ?b)) (len - length ?b) = Inr []"
    proof (cases "unat off \<le> length f")
      case True
      then show ?thesis using pread_file_step(2) [of f "len - length ?b" off "length ?b" short] assms(1) l False by auto
    next
      case False
      then show ?thesis by (simp add: pread_file_def)
    qed
    then show ?thesis using l(1) by (subst file_read_loop.simps) auto
  qed
qed

interpretation filed: byte_source "file_read_at (pread_file short f)" f for short f
proof
  fix off len
  assume f: "length f < 2 ^ 63"
  show "file_read_at (pread_file short f) off len = Ok (take len (drop (unat off) f))" if "unat off + len \<le> length f"
    using file_read_loop_inside [OF f that, of 0 short] by (simp add: file_read_at_def)
  show "\<exists>e. file_read_at (pread_file short f) off len = Err (Io e)" if "0 < len" "length f < unat off + len"
    using file_read_loop_outside [OF f that, of short 0] by (simp add: file_read_at_def)
qed

subsection \<open>\<open>atomic_write\<close>\<close>

text \<open>
  Files are named by the components of their path. A directory maps names to inodes; an inode has
  its bytes and whether all of them are synced.
\<close>

type_synonym file_id = "component list"

record disk =
  entries :: "file_id \<rightharpoonup> nat"
  inode_data :: "nat \<Rightarrow> bytes"
  inode_synced :: "nat \<Rightarrow> bool"
  next_inode :: nat

datatype fs_op =
    CreateDirAll file_id
  | CreateFile file_id
  | WriteAll file_id bytes
  | SyncAll file_id
  | Rename file_id file_id

definition set_inode :: "nat \<Rightarrow> bytes \<Rightarrow> bool \<Rightarrow> disk \<Rightarrow> disk" where
  "set_inode n bs synced d =
     d\<lparr>inode_data := (inode_data d)(n := bs), inode_synced := (inode_synced d)(n := synced)\<rparr>"

fun effect :: "fs_op \<Rightarrow> disk \<Rightarrow> disk" where
  "effect (CreateDirAll p) d = d"
| "effect (CreateFile p) d = (case entries d p of
     Some n \<Rightarrow> set_inode n [] False d
   | None \<Rightarrow> set_inode (next_inode d) [] False
       (d\<lparr>entries := (entries d)(p \<mapsto> next_inode d), next_inode := next_inode d + 1\<rparr>))"
| "effect (WriteAll p bs) d = (case entries d p of
     Some n \<Rightarrow> set_inode n (inode_data d n @ bs) False d | None \<Rightarrow> d)"
| "effect (SyncAll p) d = (case entries d p of
     Some n \<Rightarrow> set_inode n (inode_data d n) True d | None \<Rightarrow> d)"
| "effect (Rename p q) d = d\<lparr>entries := (entries d)(q := entries d p, p := None)\<rparr>"

text \<open>A failed write has written some of its bytes; any other failed operation has done nothing.\<close>

fun failed_effect :: "nat \<Rightarrow> fs_op \<Rightarrow> disk \<Rightarrow> disk" where
  "failed_effect k (WriteAll p bs) d = effect (WriteAll p (take k bs)) d"
| "failed_effect k op d = d"

text \<open>The states a sequence of operations passes through, and whether all of them succeeded:
  \<open>succeeds\<close> and \<open>k\<close> are the operating system's choice.\<close>

fun run_ops :: "(fs_op \<Rightarrow> bool) \<Rightarrow> nat \<Rightarrow> fs_op list \<Rightarrow> disk \<Rightarrow> disk list \<times> bool" where
  "run_ops succeeds k [] d = ([d], True)"
| "run_ops succeeds k (op # ops) d =
     (if succeeds op then (let (trace, r) = run_ops succeeds k ops (effect op d) in (d # trace, r))
      else ([d, failed_effect k op d], False))"

definition parent_of :: "file_id \<Rightarrow> file_id option" where
  "parent_of p = (if p = [] \<or> last p = RootDir then None else Some (butlast p))"

definition name_of :: "file_id \<Rightarrow> bytes option" where
  "name_of p = (if p = [] then None else case last p of Normal n \<Rightarrow> Some n | _ \<Rightarrow> None)"

definition tmp_of :: "file_id \<Rightarrow> bytes \<Rightarrow> file_id" where
  "tmp_of p n = butlast p @ [Normal (from_utf8_lossy n @ lit ''.tmp'')]"

definition atomic_write ::
  "(fs_op \<Rightarrow> bool) \<Rightarrow> nat \<Rightarrow> file_id \<Rightarrow> bytes \<Rightarrow> disk \<Rightarrow> disk list \<times> (index_error, unit) outcome" where
  "atomic_write succeeds k path data d =
     (let dirs = (case parent_of path of None \<Rightarrow> [] | Some dir \<Rightarrow> [CreateDirAll dir]) in
      case name_of path of
        None \<Rightarrow> (let (trace, r) = run_ops succeeds k dirs d in
          (trace, Err (IndexIoError (if r then ''out_db has no file name'' else ''failed''))))
      | Some n \<Rightarrow>
          let tmp = tmp_of path n;
              (trace, r) = run_ops succeeds k
                (dirs @ [CreateFile tmp, WriteAll tmp data, SyncAll tmp, Rename tmp path]) d in
          (trace, if r then Ok () else Err (IndexIoError ''failed'')))"

text \<open>What a reader finds, without a crash and after one. A crash at a state keeps the directory of
  some state up to then, and of every inode the synced bytes.\<close>

definition reads :: "disk \<Rightarrow> file_id \<Rightarrow> bytes option" where
  "reads d p = map_option (inode_data d) (entries d p)"

definition after_crash :: "disk list \<Rightarrow> file_id \<Rightarrow> bytes option \<Rightarrow> bool" where
  "after_crash trace p c \<longleftrightarrow>
     (\<exists>i<length trace. \<exists>j\<le>i. case entries (trace ! j) p of
        None \<Rightarrow> c = None
      | Some n \<Rightarrow> \<exists>b. c = Some b \<and> (inode_synced (trace ! i) n \<longrightarrow> b = inode_data (trace ! i) n))"

definition disk_ok :: "file_id \<Rightarrow> file_id \<Rightarrow> disk \<Rightarrow> bool" where
  "disk_ok tmp p d \<longleftrightarrow> (\<forall>n. entries d p = Some n \<longrightarrow>
     inode_synced d n \<and> n < next_inode d \<and> entries d tmp \<noteq> Some n)"

text \<open>A state in which the target is the old file, whole and synced.\<close>

definition keeps :: "disk \<Rightarrow> file_id \<Rightarrow> disk \<Rightarrow> bool" where
  "keeps d p s \<longleftrightarrow> entries s p = entries d p \<and>
     (\<forall>n. entries d p = Some n \<longrightarrow> inode_synced s n \<and> inode_data s n = inode_data d n)"

lemma tmp_of_other: "name_of p = Some n \<Longrightarrow> tmp_of p n \<noteq> p"
proof
  assume n: "name_of p = Some n" and "tmp_of p n = p"
  then have "last p = Normal (from_utf8_lossy n @ lit ''.tmp'')" by (metis tmp_of_def last_snoc)
  moreover have "last p = Normal n" using n by (auto simp: name_of_def split: if_splits component.splits)
  ultimately have e: "n = from_utf8_lossy n @ lit ''.tmp''" by simp
  moreover have "valid_utf8 (lit ''.tmp'')" by code_simp
  ultimately have "valid_utf8 n" using valid_lossy [of n] valid_append [of "from_utf8_lossy n" "lit ''.tmp''"] by simp
  then have "from_utf8_lossy n = n" by (rule lossy_valid)
  then have "n = n @ lit ''.tmp''" using e by simp
  then show False by (simp add: lit_def)
qed

lemma keeps_reads: "keeps d p s \<Longrightarrow> reads s p = reads d p"
  by (cases "entries d p") (auto simp: keeps_def reads_def)

lemma keeps_refl: "disk_ok tmp p d \<Longrightarrow> keeps d p d"
  by (auto simp: keeps_def disk_ok_def)

text \<open>Writing the temporary file leaves the target alone; before the rename it is complete and synced.\<close>

lemma tmp_steps:
  assumes "tmp \<noteq> p" "disk_ok tmp p d"
  obtains n where "entries d p \<noteq> Some n" "keeps d p (effect (CreateFile tmp) d)"
    "keeps d p (effect (WriteAll tmp bs) (effect (CreateFile tmp) d))"
    "keeps d p (effect (SyncAll tmp) (effect (WriteAll tmp bs) (effect (CreateFile tmp) d)))"
    "entries (effect (SyncAll tmp) (effect (WriteAll tmp bs) (effect (CreateFile tmp) d))) tmp = Some n"
    "inode_synced (effect (SyncAll tmp) (effect (WriteAll tmp bs) (effect (CreateFile tmp) d))) n"
    "inode_data (effect (SyncAll tmp) (effect (WriteAll tmp bs) (effect (CreateFile tmp) d))) n = bs"
proof (cases "entries d tmp")
  case None
  then show ?thesis using assms by (intro that [of "next_inode d"]) (auto simp: set_inode_def keeps_def disk_ok_def)
next
  case (Some n)
  then show ?thesis using assms by (intro that [of n]) (auto simp: set_inode_def keeps_def disk_ok_def)
qed

lemma crash_kept:
  assumes "\<forall>s\<in>set trace. keeps d p s" "after_crash trace p c" shows "c = reads d p"
proof -
  obtain i j where ij: "i < length trace" "j \<le> i" "case entries (trace ! j) p of None \<Rightarrow> c = None
      | Some n \<Rightarrow> \<exists>b. c = Some b \<and> (inode_synced (trace ! i) n \<longrightarrow> b = inode_data (trace ! i) n)"
    using assms(2) by (auto simp: after_crash_def)
  have "keeps d p (trace ! i)" "keeps d p (trace ! j)" using assms(1) ij(1,2) by simp_all
  then show ?thesis using ij(3) by (auto simp: keeps_def reads_def split: option.splits)
qed

lemma crash_last:
  assumes "\<forall>s\<in>set trace. keeps d p s" "entries s p = Some n" "inode_synced s n" "inode_data s n = bs"
    "\<forall>m. entries d p = Some m \<longrightarrow> inode_synced s m \<and> inode_data s m = inode_data d m"
    "after_crash (trace @ [s]) p c"
  shows "c = reads d p \<or> c = Some bs"
proof -
  obtain i j where ij: "i < Suc (length trace)" "j \<le> i" "case entries ((trace @ [s]) ! j) p of None \<Rightarrow> c = None
      | Some n \<Rightarrow> \<exists>b. c = Some b \<and> (inode_synced ((trace @ [s]) ! i) n \<longrightarrow> b = inode_data ((trace @ [s]) ! i) n)"
    using assms(6) unfolding after_crash_def length_append_singleton by blast
  show ?thesis
  proof (cases "i < length trace")
    case True
    have "after_crash trace p c" unfolding after_crash_def
      using ij(2,3) True by (intro exI [of _ i] conjI exI [of _ j]) (auto simp: nth_append split: option.splits)
    then show ?thesis using crash_kept [OF assms(1)] by blast
  next
    case False
    then have i: "(trace @ [s]) ! i = s" using ij(1) by (simp add: nth_append)
    show ?thesis
    proof (cases "j < length trace")
      case True
      then have "keeps d p (trace ! j)" using assms(1) by simp
      then show ?thesis using ij(3) i True assms(5) by (auto simp: nth_append keeps_def reads_def split: option.splits)
    next
      case False
      then have "(trace @ [s]) ! j = s" using ij(1,2) by (simp add: nth_append)
      then show ?thesis using ij(3) i assms(2-4) by auto
    qed
  qed
qed

text \<open>A run keeps the target through all its states, or all but the last, which has the new file.\<close>

lemma atomic_write_trace:
  assumes "disk_ok (tmp_of p n) p d" "name_of p = Some n" "atomic_write succeeds k p bs d = (trace, r)"
  shows "(\<forall>s\<in>set trace. keeps d p s) \<and> (\<exists>e. r = Err e) \<or>
    (\<exists>pre s m. trace = pre @ [s] \<and> r = Ok () \<and> (\<forall>s\<in>set pre. keeps d p s) \<and> entries s p = Some m \<and>
      inode_synced s m \<and> inode_data s m = bs \<and>
      (\<forall>m. entries d p = Some m \<longrightarrow> inode_synced s m \<and> inode_data s m = inode_data d m))"
proof -
  let ?t = "tmp_of p n"
  let ?s1 = "effect (CreateFile ?t) d"
  let ?s2 = "effect (WriteAll ?t bs) ?s1" and ?f2 = "effect (WriteAll ?t (take k bs)) ?s1"
  let ?s3 = "effect (SyncAll ?t) ?s2"
  let ?s4 = "effect (Rename ?t p) ?s3"
  have tp: "?t \<noteq> p" by (rule tmp_of_other [OF assms(2)])
  obtain m where m: "entries d p \<noteq> Some m" "keeps d p ?s1" "keeps d p ?s2" "keeps d p ?s3" "entries ?s3 ?t = Some m"
    "inode_synced ?s3 m" "inode_data ?s3 m = bs"
    using tmp_steps [OF tp assms(1), of bs] by metis
  have f2: "keeps d p ?f2" using tmp_steps [OF tp assms(1), of "take k bs"] by metis
  have d: "keeps d p d" by (rule keeps_refl [OF assms(1)])
  have s4: "entries ?s4 p = Some m" "inode_synced ?s4 m" "inode_data ?s4 m = bs"
    "\<forall>m. entries d p = Some m \<longrightarrow> inode_synced ?s4 m \<and> inode_data ?s4 m = inode_data d m"
    using m tp by (simp_all add: keeps_def)
  let ?ops = "[CreateFile ?t, WriteAll ?t bs, SyncAll ?t, Rename ?t p]"
  have ops: "(\<forall>s\<in>set (fst (run_ops succeeds k ?ops d)). keeps d p s) \<and> \<not> snd (run_ops succeeds k ?ops d) \<or>
      run_ops succeeds k ?ops d = ([d, ?s1, ?s2, ?s3, ?s4], True)"
    using d m(2-4) f2 by (simp del: effect.simps)
  obtain dirs where dirs: "dirs = (case parent_of p of None \<Rightarrow> [] | Some dir \<Rightarrow> [CreateDirAll dir])" by simp
  define out where "out = run_ops succeeds k (dirs @ ?ops) d"
  have "(\<forall>s\<in>set (fst out). keeps d p s) \<and> \<not> snd out \<or>
      (\<exists>pre. out = (pre @ [?s4], True) \<and> (\<forall>s\<in>set pre. keeps d p s))"
  proof (cases "parent_of p")
    case None
    then have "out = run_ops succeeds k ?ops d" by (simp add: out_def dirs)
    then show ?thesis using ops d m(2-4) by (auto simp del: effect.simps run_ops.simps intro!: exI [of _ "[d, ?s1, ?s2, ?s3]"])
  next
    case (Some dir)
    then have "out = (if succeeds (CreateDirAll dir) then (d # fst (run_ops succeeds k ?ops d), snd (run_ops succeeds k ?ops d))
        else ([d, d], False))"
      by (simp add: out_def dirs split_beta Let_def del: effect.simps(2-))
    then show ?thesis using ops d m(2-4)
      by (auto simp del: effect.simps run_ops.simps intro!: exI [of _ "[d, d, ?s1, ?s2, ?s3]"])
  qed
  moreover have "trace = fst out" "r = (if snd out then Ok () else Err (IndexIoError ''failed''))"
    using assms(3) by (simp_all add: atomic_write_def assms(2) out_def dirs Let_def split_beta del: run_ops.simps)
  ultimately show ?thesis using s4 by (auto simp del: effect.simps)
qed

subsection \<open>Properties\<close>

text \<open>
  A read of at least one byte through a file or through its memory map gives what a read of
  the file held in memory gives, however short the reads of the operating system are.
\<close>

theorem file_sources_exact:
  assumes "length f < 2 ^ 63" and "0 < len"
  shows "(file_read_at (pread_file short f) off len = Ok b \<longleftrightarrow> read_at f off len = Ok b) \<and>
    (mmap_read_at f off len = Ok b \<longleftrightarrow> read_at f off len = Ok b)"
  using filed.as_memory [OF assms] mapped.as_memory [OF assms] by blast

theorem file_sources_exact_witness: "file_read_at (pread_file (\<lambda>off k. 0) [1, 2, 3, 4]) 1 3 = Ok [2, 3, 4]"
proof -
  have "read_at [1, 2, 3, 4] 1 3 = Ok [2, 3, 4]" by (simp add: read_at_def slice_def)
  then show ?thesis using file_sources_exact [of "[1, 2, 3, 4]" 3 "\<lambda>off k. 0" 1 "[2, 3, 4]"] by simp
qed

text \<open>
  C14. \<open>atomic_write\<close> is atomic. Whatever operation fails and wherever a crash strikes, the target
  holds afterwards its old content or all of the new; a run that reports success has installed
  the new content, one that reports an error has left the old.
\<close>

theorem atomic_write_crash_safe:
  assumes "name_of p = Some n" and "disk_ok (tmp_of p n) p d"
    and "atomic_write succeeds k p bs d = (trace, r)"
  shows "(\<forall>c. after_crash trace p c \<longrightarrow> c = reads d p \<or> c = Some bs) \<and>
    reads (last trace) p = (if r = Ok () then Some bs else reads d p)"
proof -
  consider (failed) "\<forall>s\<in>set trace. keeps d p s" "r \<noteq> Ok ()" "trace \<noteq> []"
    | (installed) pre s m where "trace = pre @ [s]" "r = Ok ()" "\<forall>s\<in>set pre. keeps d p s" "entries s p = Some m"
      "inode_synced s m" "inode_data s m = bs"
      "\<forall>m. entries d p = Some m \<longrightarrow> inode_synced s m \<and> inode_data s m = inode_data d m"
  proof -
    have "trace \<noteq> []"
    proof -
      have "fst (run_ops succeeds k ops d) \<noteq> []" for ops
        by (cases ops) (simp_all add: split_beta Let_def)
      moreover have "\<exists>ops. trace = fst (run_ops succeeds k ops d)"
        using assms(1,3) by (auto simp: atomic_write_def Let_def split_beta simp del: run_ops.simps)
      ultimately show ?thesis by metis
    qed
    then show thesis using atomic_write_trace [OF assms(2,1,3)] that by fastforce
  qed
  then show ?thesis
  proof cases
    case failed
    then have "keeps d p (last trace)" by simp
    then show ?thesis using failed crash_kept keeps_reads by (metis (full_types))
  next
    case installed
    then have "reads (last trace) p = Some bs" by (simp add: reads_def)
    moreover have "c = reads d p \<or> c = Some bs" if "after_crash trace p c" for c
      using crash_last [OF installed(3-7), of c] that installed(1) by simp
    ultimately show ?thesis using installed(2) by simp
  qed
qed

theorem atomic_write_crash_safe_witness:
  "\<exists>trace. atomic_write (\<lambda>op. True) 0 [Normal [0x78]] [1, 2]
      \<lparr>entries = [[Normal [0x78]] \<mapsto> 0], inode_data = (\<lambda>n. [9]), inode_synced = (\<lambda>n. True), next_inode = 1\<rparr> = (trace, Ok ()) \<and>
    \<not> after_crash trace [Normal [0x78]] None \<and> reads (last trace) [Normal [0x78]] = Some [1, 2]"
proof -
  let ?p = "[Normal [0x78]]"
  let ?d = "\<lparr>entries = [?p \<mapsto> 0], inode_data = (\<lambda>n. [9]), inode_synced = (\<lambda>n. True), next_inode = 1\<rparr>"
  have n: "name_of ?p = Some [0x78]" by (simp add: name_of_def)
  have "tmp_of ?p [0x78] \<noteq> ?p" by (rule tmp_of_other [OF n])
  then have ok: "disk_ok (tmp_of ?p [0x78]) ?p ?d" by (simp add: disk_ok_def)
  have s: "snd (run_ops (\<lambda>op. True) 0 ops d)" for ops d
    by (induction ops arbitrary: d) (simp_all add: split_beta Let_def)
  obtain trace r where a: "atomic_write (\<lambda>op. True) 0 ?p [1, 2] ?d = (trace, r)" by fastforce
  have "r = Ok ()" using a n s by (auto simp: atomic_write_def Let_def split_beta simp del: run_ops.simps)
  moreover have "reads ?d ?p = Some [9]" by (simp add: reads_def)
  ultimately show ?thesis using atomic_write_crash_safe [OF n ok a] a by auto
qed

end
