(* ===== verification/Config.thy ===== *)
theory Config
  imports IndexIo
begin

section \<open>Registry, settings, permissions (crates/df-index/src/registry.rs, settings.rs, permissions.rs)\<close>

text \<open>
  The two configuration files and the probe for Full Disk Access. The TOML and JSON crates are
  parameters, and so is what the file system answers. A file that is missing, unreadable or
  malformed gives the defaults. The registry is shown to be a map from names to records.
\<close>

subsection \<open>Text formats\<close>

record 'a text_format =
  to_text :: "'a \<Rightarrow> string + bytes"
  from_text :: "str \<Rightarrow> 'a option"

text \<open>\<open>std::fs::read_to_string\<close>: the bytes must be UTF-8.\<close>

definition read_to_string :: "(bytes \<Rightarrow> bytes option) \<Rightarrow> bytes \<Rightarrow> str option" where
  "read_to_string fs path = (case fs path of None \<Rightarrow> None | Some bs \<Rightarrow> from_utf8 bs)"

subsection \<open>The registry of named databases\<close>

record db_record =
  db_name :: str
  db_root :: bytes
  db_path :: bytes
  content_dir :: bytes

record registry =
  registry_path :: bytes
  db_records :: "db_record list"

definition registry_load :: "db_record list text_format \<Rightarrow> (bytes \<Rightarrow> bytes option) \<Rightarrow> bytes \<Rightarrow> registry" where
  "registry_load fmt fs dir =
     (let path = path_join dir (lit ''dbs.toml'') in
      \<lparr>registry_path = path,
       db_records = (case read_to_string fs path of
          Some s \<Rightarrow> (case from_text fmt s of Some dbs \<Rightarrow> dbs | None \<Rightarrow> [])
        | None \<Rightarrow> [])\<rparr>)"

definition registry_save ::
  "db_record list text_format \<Rightarrow> (fs_op \<Rightarrow> bool) \<Rightarrow> nat \<Rightarrow> registry \<Rightarrow> disk \<Rightarrow>
   disk list \<times> (index_error, unit) outcome" where
  "registry_save fmt succeeds k reg d =
     (case to_text fmt (db_records reg) of
        Inl e \<Rightarrow> ([d], Err (IndexOther (''toml encode: '' @ e)))
      | Inr s \<Rightarrow> atomic_write succeeds k (components (registry_path reg)) s d)"

definition registry_get :: "registry \<Rightarrow> str \<Rightarrow> db_record option" where
  "registry_get reg name = List.find (\<lambda>r. db_name r = name) (db_records reg)"

text \<open>\<open>iter_mut().find\<close>: the first record of the name is replaced.\<close>

fun replace_first :: "db_record \<Rightarrow> db_record list \<Rightarrow> db_record list option" where
  "replace_first rec [] = None"
| "replace_first rec (r # rs) =
     (if db_name r = db_name rec then Some (rec # rs) else map_option (Cons r) (replace_first rec rs))"

definition registry_upsert :: "db_record \<Rightarrow> registry \<Rightarrow> registry" where
  "registry_upsert rec reg =
     (case replace_first rec (db_records reg) of
        Some rs \<Rightarrow> reg\<lparr>db_records := rs\<rparr>
      | None \<Rightarrow> reg\<lparr>db_records := db_records reg @ [rec]\<rparr>)"

definition registry_remove :: "str \<Rightarrow> registry \<Rightarrow> registry \<times> bool" where
  "registry_remove name reg =
     (let before = length (db_records reg);
          rs = filter (\<lambda>r. db_name r \<noteq> name) (db_records reg) in
      (reg\<lparr>db_records := rs\<rparr>, length rs \<noteq> before))"

subsection \<open>The settings\<close>

record settings = ignore_patterns :: "str list"

definition default_settings :: settings where
  "default_settings = \<lparr>ignore_patterns = []\<rparr>"

definition settings_path :: "bytes \<Rightarrow> bytes" where
  "settings_path data_dir = path_join data_dir (lit ''settings.json'')"

definition settings_load :: "settings text_format \<Rightarrow> (bytes \<Rightarrow> bytes option) \<Rightarrow> bytes \<Rightarrow> settings" where
  "settings_load fmt fs data_dir =
     (case read_to_string fs (settings_path data_dir) of
        None \<Rightarrow> default_settings
      | Some raw \<Rightarrow> (case from_text fmt raw of Some s \<Rightarrow> s | None \<Rightarrow> default_settings))"

definition settings_save ::
  "settings text_format \<Rightarrow> (fs_op \<Rightarrow> bool) \<Rightarrow> nat \<Rightarrow> bytes \<Rightarrow> settings \<Rightarrow> disk \<Rightarrow>
   disk list \<times> (index_error, unit) outcome" where
  "settings_save fmt succeeds k data_dir s d =
     (case to_text fmt s of
        Inl e \<Rightarrow> ([d], Err (IndexOther (''settings encode: '' @ e)))
      | Inr t \<Rightarrow> atomic_write succeeds k (components (settings_path data_dir)) t d)"

definition add_ignore :: "str \<Rightarrow> settings \<Rightarrow> settings" where
  "add_ignore pattern s =
     (if \<not> list_ex (\<lambda>p. p = pattern) (ignore_patterns s)
      then s\<lparr>ignore_patterns := ignore_patterns s @ [pattern]\<rparr> else s)"

definition remove_ignore :: "str \<Rightarrow> settings \<Rightarrow> settings \<times> bool" where
  "remove_ignore pattern s =
     (let before = length (ignore_patterns s);
          ps = filter (\<lambda>p. p \<noteq> pattern) (ignore_patterns s) in
      (s\<lparr>ignore_patterns := ps\<rparr>, length ps \<noteq> before))"

subsection \<open>Full Disk Access\<close>

datatype fda_state = Granted | Denied | Unknown

text \<open>What \<open>read_dir\<close> answers.\<close>

datatype read_dir_outcome = DirRead | PermissionDenied | OtherError

definition PROBE_CANDIDATES :: "bytes list" where
  "PROBE_CANDIDATES = map lit [''Library/Calendars'', ''Library/Mail'', ''Library/Messages'',
     ''Library/Safari'', ''Library/Metadata/CoreData'']"

fun classify_probe :: "read_dir_outcome \<Rightarrow> fda_state option" where
  "classify_probe DirRead = Some Granted"
| "classify_probe PermissionDenied = Some Denied"
| "classify_probe OtherError = None"

fun probe :: "(bytes \<Rightarrow> read_dir_outcome) \<Rightarrow> bytes \<Rightarrow> bytes list \<Rightarrow> fda_state" where
  "probe read_dir home_dir [] = Unknown"
| "probe read_dir home_dir (cand # cands) =
     (case classify_probe (read_dir (path_join home_dir cand)) of
        Some state \<Rightarrow> state
      | None \<Rightarrow> probe read_dir home_dir cands)"

definition fda_state_with_home :: "(bytes \<Rightarrow> read_dir_outcome) \<Rightarrow> bytes option \<Rightarrow> fda_state" where
  "fda_state_with_home read_dir home_dir =
     (case home_dir of None \<Rightarrow> Unknown | Some home_dir \<Rightarrow> probe read_dir home_dir PROBE_CANDIDATES)"

subsection \<open>The registry is a map\<close>

definition registry_map :: "registry \<Rightarrow> str \<rightharpoonup> db_record" where
  "registry_map reg = map_of (map (\<lambda>r. (db_name r, r)) (db_records reg))"

lemma find_map_of: "List.find (\<lambda>r. db_name r = n) rs = map_of (map (\<lambda>r. (db_name r, r)) rs) n"
  by (induction rs) auto

lemma replace_first_map:
  "(case replace_first rec rs of
      Some rs' \<Rightarrow> map_of (map (\<lambda>r. (db_name r, r)) rs') = (map_of (map (\<lambda>r. (db_name r, r)) rs))(db_name rec \<mapsto> rec) \<and>
        map db_name rs' = map db_name rs
    | None \<Rightarrow> db_name rec \<notin> db_name ` set rs)"
  by (induction rs) (auto split: option.splits)

lemma registry_map_upsert: "registry_map (registry_upsert rec reg) = (registry_map reg)(db_name rec \<mapsto> rec)"
proof (cases "replace_first rec (db_records reg)")
  case None
  then have "db_name rec \<notin> db_name ` set (db_records reg)"
    using replace_first_map [of rec "db_records reg"] by simp
  then have "map_of (map (\<lambda>r. (db_name r, r)) (db_records reg)) (db_name rec) = None"
    by (simp add: map_of_eq_None_iff comp_def image_image)
  then show ?thesis using None by (auto simp: registry_upsert_def registry_map_def map_add_def split: option.splits)
next
  case (Some rs)
  then show ?thesis using replace_first_map [of rec "db_records reg"] by (simp add: registry_upsert_def registry_map_def)
qed

lemma map_of_without:
  "map_of (map (\<lambda>r. (db_name r, r)) (filter (\<lambda>r. db_name r \<noteq> n) rs)) = (map_of (map (\<lambda>r. (db_name r, r)) rs))(n := None)"
  by (induction rs) auto

lemma filter_shorter: "length (filter P xs) \<noteq> length xs \<longleftrightarrow> \<not> list_all P xs"
  by (metis filter_True length_filter_less list_all_iff nat_neq_iff)

lemma registry_names_upsert:
  "distinct (map db_name (db_records reg)) \<Longrightarrow> distinct (map db_name (db_records (registry_upsert rec reg)))"
  using replace_first_map [of rec "db_records reg"] by (auto simp: registry_upsert_def split: option.splits)

lemma registry_names_remove:
  "distinct (map db_name (db_records reg)) \<Longrightarrow> distinct (map db_name (db_records (fst (registry_remove n reg))))"
  by (simp add: registry_remove_def distinct_map_filter Let_def)

text \<open>Adding a pattern is idempotent and keeps the patterns distinct; removing undoes it.\<close>

lemma add_ignore_set: "set (ignore_patterns (add_ignore p s)) = insert p (set (ignore_patterns s))"
  by (auto simp: add_ignore_def list_ex_iff)

lemma add_ignore_idem [simp]: "add_ignore p (add_ignore p s) = add_ignore p s"
  by (simp add: add_ignore_def list_ex_iff)

lemma add_ignore_distinct: "distinct (ignore_patterns s) \<Longrightarrow> distinct (ignore_patterns (add_ignore p s))"
  by (auto simp: add_ignore_def list_ex_iff)

subsection \<open>Properties\<close>

text \<open>
  The registry implements a finite map from names to records: \<open>get\<close> looks up, \<open>upsert\<close>
  updates, \<open>remove\<close> deletes and tells whether the name was there, even when a file edited by hand
  has several records of one name.
\<close>

theorem registry_refines_map:
  "registry_get reg name = registry_map reg name \<and>
   registry_map (registry_upsert rec reg) = (registry_map reg)(db_name rec \<mapsto> rec) \<and>
   registry_map (fst (registry_remove name reg)) = (registry_map reg)(name := None) \<and>
   snd (registry_remove name reg) = (registry_map reg name \<noteq> None)"
proof (intro conjI)
  show "registry_get reg name = registry_map reg name"
    by (simp add: registry_get_def registry_map_def find_map_of)
  show "snd (registry_remove name reg) = (registry_map reg name \<noteq> None)"
    by (simp add: registry_remove_def registry_map_def map_of_eq_None_iff filter_shorter list_all_iff image_image comp_def)
      (auto simp: image_iff)
  show "registry_map (registry_upsert rec reg) = (registry_map reg)(db_name rec \<mapsto> rec)" by (rule registry_map_upsert)
qed (simp add: registry_remove_def registry_map_def map_of_without Let_def)

end
