(* ===== verification/Store.thy ===== *)
theory Store
  imports IndexIo
begin

section \<open>Replacing files\<close>

text \<open>
  What the writers of the index rely on: the contract of an operation that replaces a file, as a
  locale, and its instance \<open>atomic_write\<close>. A success makes the file read as the new bytes, a failure
  leaves it, and no other file changes, the temporary one apart.
\<close>

type_synonym saver = "file_id \<Rightarrow> bytes \<Rightarrow> disk \<Rightarrow> disk \<times> (index_error, unit) outcome"

definition file_save :: "(fs_op \<Rightarrow> bool) \<Rightarrow> nat \<Rightarrow> saver" where
  "file_save succeeds k p bs d = (case atomic_write succeeds k p bs d of (trace, r) \<Rightarrow> (last trace, r))"

definition temporary :: "file_id \<Rightarrow> file_id option" where
  "temporary p = map_option (tmp_of p) (name_of p)"

locale file_store =
  fixes save :: saver and wf :: "disk \<Rightarrow> bool"
  assumes save_wf: "wf d \<Longrightarrow> save p bs d = (d', r) \<Longrightarrow> wf d'"
    and save_done: "wf d \<Longrightarrow> save p bs d = (d', Ok ()) \<Longrightarrow> reads d' p = Some bs"
    and save_frame: "wf d \<Longrightarrow> save p bs d = (d', r) \<Longrightarrow> q \<noteq> p \<Longrightarrow> temporary p \<noteq> Some q \<Longrightarrow> reads d' q = reads d q"
    and save_failed: "wf d \<Longrightarrow> save p bs d = (d', r) \<Longrightarrow> r \<noteq> Ok () \<Longrightarrow> reads d' p = reads d p"
begin

text \<open>Files that are not temporary names of each other keep what was saved in them.\<close>

lemma save_twice:
  assumes "wf d" "save p bs d = (d1, Ok ())" "save q cs d1 = (d2, r)" "p \<noteq> q" "temporary q \<noteq> Some p"
  shows "reads d2 p = Some bs"
  using save_frame [OF save_wf [OF assms(1,2)] assms(3,4,5)] save_done [OF assms(1,2)] by simp

end

subsection \<open>\<open>atomic_write\<close> satisfies it\<close>

definition disk_wf :: "disk \<Rightarrow> bool" where
  "disk_wf d \<longleftrightarrow> (\<forall>p n. entries d p = Some n \<longrightarrow> n < next_inode d) \<and>
     (\<forall>p q n. entries d p = Some n \<longrightarrow> entries d q = Some n \<longrightarrow> p = q)"

fun touches :: "fs_op \<Rightarrow> file_id set" where
  "touches (CreateDirAll p) = {}"
| "touches (CreateFile p) = {p}"
| "touches (WriteAll p bs) = {p}"
| "touches (SyncAll p) = {p}"
| "touches (Rename p q) = {p, q}"

lemma effect_wf: "disk_wf d \<Longrightarrow> disk_wf (effect op d)"
proof (cases op)
  case (CreateFile p)
  assume wf: "disk_wf d"
  have fresh: "entries d q \<noteq> Some (next_inode d)" for q using wf by (auto simp: disk_wf_def)
  show ?thesis using wf fresh unfolding CreateFile disk_wf_def
    by (cases "entries d p") (auto simp: set_inode_def less_Suc_eq)
qed (auto simp: disk_wf_def set_inode_def split: option.splits)

lemma set_inode_reads: "disk_wf d \<Longrightarrow> entries d p = Some n \<Longrightarrow> q \<noteq> p \<Longrightarrow> reads (set_inode n bs s d) q = reads d q"
  by (cases "entries d q") (auto simp: reads_def set_inode_def disk_wf_def)

lemma effect_reads: "disk_wf d \<Longrightarrow> q \<notin> touches op \<Longrightarrow> reads (effect op d) q = reads d q"
proof (cases op)
  case (CreateFile p)
  assume wf: "disk_wf d" and q: "q \<notin> touches op"
  show ?thesis
  proof (cases "entries d p")
    case None
    have "entries d q \<noteq> Some (next_inode d)" using wf by (auto simp: disk_wf_def)
    then show ?thesis using None q CreateFile by (cases "entries d q") (auto simp: reads_def set_inode_def)
  next
    case (Some n)
    then show ?thesis using wf q CreateFile by (simp add: set_inode_reads)
  qed
next
  case (Rename p p')
  assume "q \<notin> touches op"
  then show ?thesis by (simp add: Rename reads_def)
qed (auto simp: set_inode_reads split: option.split)

lemma failed_effect_frame:
  "disk_wf d \<Longrightarrow> disk_wf (failed_effect k op d) \<and> (q \<notin> touches op \<longrightarrow> reads (failed_effect k op d) q = reads d q)"
  by (cases op) (simp_all del: effect.simps add: effect_wf effect_reads)

lemma run_ops_nonempty [simp]: "fst (run_ops succeeds k ops d) \<noteq> []"
  by (cases ops) (simp_all add: split_beta Let_def)

lemma run_ops_frame:
  "disk_wf d \<Longrightarrow> disk_wf (last (fst (run_ops succeeds k ops d))) \<and>
     (q \<notin> \<Union>(touches ` set ops) \<longrightarrow> reads (last (fst (run_ops succeeds k ops d))) q = reads d q)"
proof (induction ops arbitrary: d)
  case (Cons op ops)
  show ?case
  proof (cases "succeeds op")
    case True
    then show ?thesis using Cons.IH [of "effect op d"] Cons.prems effect_wf [of d op] effect_reads [of d q op]
      by (simp add: split_beta Let_def)
  next
    case False
    then show ?thesis using failed_effect_frame [OF Cons.prems, of k op q] by simp
  qed
qed simp

lemma run_ops_success:
  "snd (run_ops succeeds k ops d) \<Longrightarrow> last (fst (run_ops succeeds k ops d)) = fold effect ops d"
  by (induction ops arbitrary: d) (auto simp: split_beta Let_def split: if_splits)

definition write_ops :: "file_id \<Rightarrow> bytes \<Rightarrow> fs_op list" where
  "write_ops p bs = (case parent_of p of None \<Rightarrow> [] | Some dir \<Rightarrow> [CreateDirAll dir]) @
     (case name_of p of None \<Rightarrow> []
      | Some n \<Rightarrow> [CreateFile (tmp_of p n), WriteAll (tmp_of p n) bs, SyncAll (tmp_of p n), Rename (tmp_of p n) p])"

lemma file_save_run:
  "file_save succeeds k p bs d = (last (fst (run_ops succeeds k (write_ops p bs) d)),
     if name_of p \<noteq> None \<and> snd (run_ops succeeds k (write_ops p bs) d) then Ok ()
     else Err (IndexIoError (if name_of p = None \<and> snd (run_ops succeeds k (write_ops p bs) d)
       then ''out_db has no file name'' else ''failed'')))"
  by (cases "name_of p") (simp_all add: file_save_def atomic_write_def write_ops_def Let_def split_beta)

lemma write_ops_touch: "\<Union>(touches ` set (write_ops p bs)) \<subseteq> {p} \<union> set_option (temporary p)"
  by (cases "name_of p"; cases "parent_of p") (auto simp: write_ops_def temporary_def)

lemma write_ops_done:
  assumes "disk_wf d" "name_of p = Some n" shows "reads (fold effect (write_ops p bs) d) p = Some bs"
proof -
  have t: "tmp_of p n \<noteq> p" by (rule tmp_of_other [OF assms(2)])
  show ?thesis
    by (cases "entries d (tmp_of p n)"; cases "parent_of p")
      (simp_all add: write_ops_def assms(2) t t [symmetric] reads_def set_inode_def)
qed

lemma failed_keeps:
  assumes "disk_wf d" "\<not> snd (run_ops succeeds k (write_ops p bs) d) \<or> name_of p = None"
  shows "reads (last (fst (run_ops succeeds k (write_ops p bs) d))) p = reads d p"
proof -
  let ?dirs = "case parent_of p of None \<Rightarrow> [] | Some dir \<Rightarrow> [CreateDirAll dir]"
  show ?thesis
  proof (cases "name_of p")
    case None
    have "p \<notin> \<Union>(touches ` set (write_ops p bs))" by (auto simp: write_ops_def None split: option.splits)
    then show ?thesis using run_ops_frame [OF assms(1)] by blast
  next
    case (Some n)
    let ?t = "tmp_of p n"
    have t: "?t \<noteq> p" by (rule tmp_of_other [OF Some])
    have rename: "snd (run_ops succeeds k [Rename ?t p] d') \<or> last (fst (run_ops succeeds k [Rename ?t p] d')) = d'" for d'
      by simp
    have split: "run_ops succeeds k (xs @ ys) d =
        (let (tr, r) = run_ops succeeds k xs d in
         if r then (butlast tr @ fst (run_ops succeeds k ys (last tr)), snd (run_ops succeeds k ys (last tr))) else (tr, r))"
      for xs ys d
      by (induction xs arbitrary: d) (auto simp: split_beta Let_def)
    let ?front = "?dirs @ [CreateFile ?t, WriteAll ?t bs, SyncAll ?t]"
    have w: "write_ops p bs = ?front @ [Rename ?t p]" by (simp add: write_ops_def Some)
    have "p \<notin> \<Union>(touches ` set ?front)" using t by (auto split: option.splits)
    then have f: "reads (last (fst (run_ops succeeds k ?front d))) p = reads d p"
      using run_ops_frame [OF assms(1)] by blast
    show ?thesis
    proof (cases "snd (run_ops succeeds k ?front d)")
      case True
      have "\<not> snd (run_ops succeeds k [Rename ?t p] (last (fst (run_ops succeeds k ?front d))))"
        using assms(2) Some True unfolding w split by (simp add: split_beta Let_def)
      then show ?thesis using f True rename [of "last (fst (run_ops succeeds k ?front d))"]
        unfolding w split by (simp add: split_beta Let_def del: run_ops.simps)
    next
      case False
      then show ?thesis using f unfolding w split by (simp add: split_beta Let_def)
    qed
  qed
qed

interpretation disk: file_store "file_save succeeds k" disk_wf for succeeds k
proof
  fix d p bs d' r q
  assume wf: "disk_wf d"
  let ?run = "run_ops succeeds k (write_ops p bs) d"
  show "disk_wf d'" if "file_save succeeds k p bs d = (d', r)"
    using that run_ops_frame [OF wf, of succeeds k "write_ops p bs"] by (auto simp: file_save_run)
  show "reads d' p = Some bs" if "file_save succeeds k p bs d = (d', Ok ())"
    using that run_ops_success [of succeeds k "write_ops p bs" d] write_ops_done [OF wf, of p]
    by (auto simp: file_save_run split: if_splits)
  show "reads d' q = reads d q" if "file_save succeeds k p bs d = (d', r)" "q \<noteq> p" "temporary p \<noteq> Some q"
  proof -
    have "q \<notin> \<Union>(touches ` set (write_ops p bs))" using write_ops_touch [of p bs] that(2,3) by auto
    then show ?thesis using that(1) run_ops_frame [OF wf, of succeeds k "write_ops p bs" q] by (auto simp: file_save_run)
  qed
  show "reads d' p = reads d p" if "file_save succeeds k p bs d = (d', r)" "r \<noteq> Ok ()"
    using that failed_keeps [OF wf, of succeeds k p bs] by (auto simp: file_save_run split: if_splits)
qed

lemma file_save_succeeds:
  "name_of p = Some n \<Longrightarrow> \<exists>d'. file_save (\<lambda>op. True) k p bs d = (d', Ok ())"
proof -
  have "snd (run_ops (\<lambda>op. True) k ops d)" for ops d
    by (induction ops arbitrary: d) (simp_all add: split_beta Let_def)
  then show "name_of p = Some n \<Longrightarrow> ?thesis" by (simp add: file_save_run)
qed

end
