(* ===== verification/Walk.thy ===== *)
theory Walk
  imports IndexIo Fold "HOL-Library.List_Lexorder" "HOL-Library.Multiset"
begin

section \<open>Walking a root (crates/df-index/src/lib.rs, content_build.rs)\<close>

text \<open>
  Which entries of a directory tree are indexed, and with what. The \<open>ignore\<close> crate is a parameter:
  it gives the tree of entries its own filters leave, and compiles ignore patterns. Its walk runs
  on several threads, so the records arrive in any order; sorting and deduplication make the
  result independent of it. The content of a file goes through a gate that keeps text only.
\<close>

subsection \<open>Entries\<close>

text \<open>
  A directory entry with what the operating system says of it: the metadata of the entry (length
  and modification time in seconds, when it is after the epoch), \<open>std::fs::metadata\<close> of its path
  (regular file, length) and \<open>std::fs::read\<close>.
\<close>

record walk_entry =
  we_path :: bytes
  we_name :: bytes
  we_dir :: bool
  we_meta :: "(u64 \<times> nat option) option"
  we_stat :: "(bool \<times> u64) option"
  we_read :: "bytes option"

text \<open>An error tells whether it is a denied permission.\<close>

datatype walk_event = WalkError bool | WalkEntry walk_entry

datatype walk_state = WalkContinue | WalkSkip | WalkQuit

datatype walk_tree = WalkNode walk_event "walk_tree list"

text \<open>The visits of a walk: the children of a skipped entry are not visited.\<close>

fun walk :: "(walk_event \<Rightarrow> walk_state \<times> 'a) \<Rightarrow> walk_tree \<Rightarrow> 'a list" where
  "walk visit (WalkNode ev children) =
     (case visit ev of
        (WalkContinue, x) \<Rightarrow> x # concat (map (walk visit) children)
      | (_, x) \<Rightarrow> [x])"

subsection \<open>The skip list and the ignore patterns\<close>

definition DEFAULT_SKIP :: "str list" where
  "DEFAULT_SKIP = map lit [''node_modules'', ''target'', ''build'', ''dist'', ''.next'', ''__pycache__'', ''.venv'']"

definition skip_list :: "str list \<Rightarrow> str list" where
  "skip_list extra_skip =
     fold (\<lambda>e skip. if e \<noteq> [] \<and> e \<notin> set skip then skip @ [e] else skip) extra_skip DEFAULT_SKIP"

text \<open>\<open>str::trim\<close>.\<close>

definition trim :: "str \<Rightarrow> str" where
  "trim s = encode_str (rev (dropWhile is_whitespace (rev (dropWhile is_whitespace (chars s)))))"

text \<open>\<open>Path::strip_prefix\<close>: what is left of the path behind the components of the base.\<close>

definition trivial_piece :: "bytes \<Rightarrow> bool" where
  "trivial_piece p \<longleftrightarrow> p = [] \<or> p = [dot]"

fun drop_pieces :: "nat \<Rightarrow> bytes list \<Rightarrow> bytes list" where
  "drop_pieces 0 ps = ps"
| "drop_pieces (Suc n) [] = []"
| "drop_pieces (Suc n) (p # ps) = (if trivial_piece p then drop_pieces (Suc n) ps else drop_pieces n ps)"

definition join_pieces :: "bytes list \<Rightarrow> bytes" where
  "join_pieces ps = (case ps of [] \<Rightarrow> [] | p # qs \<Rightarrow> p @ concat (map (\<lambda>q. slash # q) qs))"

definition trim_pieces :: "bytes list \<Rightarrow> bytes list" where
  "trim_pieces ps = rev (dropWhile trivial_piece (rev ps))"

definition strip_path_prefix :: "bytes \<Rightarrow> bytes \<Rightarrow> bytes option" where
  "strip_path_prefix p base =
     (if \<not> starts_with_path p base then None
      else
        let names = filter (\<lambda>c. c \<noteq> RootDir \<and> c \<noteq> CurDir) (components base) in
        if components base = [] then
          (if has_root p then Some (slash # join_pieces (trim_pieces (split_on slash (tl p))))
           else Some (join_pieces (trim_pieces (split_on slash p))))
        else Some (join_pieces (trim_pieces (dropWhile trivial_piece (drop_pieces (length names) (split_on slash p))))))"

definition normalize_pattern :: "bytes \<Rightarrow> str \<Rightarrow> str option" where
  "normalize_pattern root line =
     (let trimmed = trim line in
      if trimmed = [] then None
      else
        let body = (if hd trimmed = 0x21 then tl trimmed else trimmed) in
        if has_root body then
          (case strip_path_prefix body root of
             Some rel \<Rightarrow> if rel = [] then Some (lit ''/'') else Some (slash # from_utf8_lossy rel)
           | None \<Rightarrow> None)
        else Some trimmed)"

text \<open>The gitignore matcher of the \<open>ignore\<close> crate: whether a line is a valid glob, and the matcher
  of a root and its lines.\<close>

datatype gi_match = NoMatch | IgnoreMatch | WhitelistMatch

record gitignore_crate =
  gi_line_ok :: "str \<Rightarrow> bool"
  gi_build :: "bytes \<Rightarrow> str list \<Rightarrow> (bytes \<Rightarrow> bool \<Rightarrow> gi_match) option"

definition compile_ignore_matcher ::
  "gitignore_crate \<Rightarrow> bytes \<Rightarrow> str list \<Rightarrow> (bytes \<Rightarrow> bool \<Rightarrow> gi_match) option" where
  "compile_ignore_matcher G root patterns =
     (if patterns = [] then None
      else gi_build G root (filter (gi_line_ok G) (List.map_filter (normalize_pattern root) patterns)))"

definition is_ignored :: "(bytes \<Rightarrow> bool \<Rightarrow> gi_match) \<Rightarrow> bytes \<Rightarrow> bool \<Rightarrow> bool" where
  "is_ignored matcher path dir = (matcher path dir = IgnoreMatch)"

definition pruned_name :: "str list \<Rightarrow> walk_entry \<Rightarrow> bool" where
  "pruned_name skip e \<longleftrightarrow> we_dir e \<and> from_utf8_lossy (we_name e) \<in> set skip"

definition matched_ignored :: "(bytes \<Rightarrow> bool \<Rightarrow> gi_match) option \<Rightarrow> walk_entry \<Rightarrow> bool" where
  "matched_ignored matcher e = (case matcher of None \<Rightarrow> False | Some m \<Rightarrow> is_ignored m (we_path e) (we_dir e))"

definition entry_size_mtime :: "walk_entry \<Rightarrow> i64 \<times> i64" where
  "entry_size_mtime e = (case we_meta e of
     Some (len, modified) \<Rightarrow> (ucast len, case modified of Some secs \<Rightarrow> of_nat secs | None \<Rightarrow> 0)
   | None \<Rightarrow> (0, 0))"

subsection \<open>\<open>collect_records\<close>\<close>

record doc_rec =
  dr_path :: str
  dr_dir :: bool
  dr_size :: i64
  dr_mtime :: i64

definition visit_doc ::
  "str list \<Rightarrow> (bytes \<Rightarrow> bool \<Rightarrow> gi_match) option \<Rightarrow> walk_event \<Rightarrow> walk_state \<times> (doc_rec option \<times> u32)" where
  "visit_doc skip matcher ev = (case ev of
     WalkError denied \<Rightarrow> (WalkContinue, None, if denied then 1 else 0)
   | WalkEntry e \<Rightarrow>
       if pruned_name skip e then (WalkSkip, None, 0)
       else if matched_ignored matcher e then (if we_dir e then WalkSkip else WalkContinue, None, 0)
       else (WalkContinue,
         (case from_utf8 (we_path e) of
            Some s \<Rightarrow> (case entry_size_mtime e of (sz, mt) \<Rightarrow>
              Some \<lparr>dr_path = s, dr_dir = we_dir e, dr_size = sz, dr_mtime = mt\<rparr>)
          | None \<Rightarrow> None), 0))"

fun dedup_paths :: "doc_rec list \<Rightarrow> doc_rec list" where
  "dedup_paths (a # b # rs) = (if dr_path b = dr_path a then dedup_paths (a # rs) else a # dedup_paths (b # rs))"
| "dedup_paths rs = rs"

text \<open>\<open>schedule\<close> is the order in which the threads deliver the visits.\<close>

definition collect_records ::
  "((doc_rec option \<times> u32) list \<Rightarrow> (doc_rec option \<times> u32) list) \<Rightarrow>
   str list \<Rightarrow> (bytes \<Rightarrow> bool \<Rightarrow> gi_match) option \<Rightarrow> walk_tree \<Rightarrow> doc_rec list \<times> u32" where
  "collect_records schedule skip matcher tree =
     (let visits = schedule (walk (visit_doc skip matcher) tree);
          recs = List.map_filter fst visits in
      (dedup_paths (sort_key dr_path recs), sum_list (map snd visits)))"

subsection \<open>The text gate\<close>

datatype content_decision = TextContent bytes | BinaryContent | TooLarge | Unreadable

definition NUL_SCAN_BYTES :: nat where "NUL_SCAN_BYTES = 8 * 1024"
definition TRIGRAM_MAX :: nat where "TRIGRAM_MAX = 20000"

definition distinct_trigrams :: "bytes \<Rightarrow> nat" where
  "distinct_trigrams bs = card (set (windows 3 (map fold_byte bs)))"

definition classify :: "walk_entry \<Rightarrow> u64 \<Rightarrow> content_decision" where
  "classify e max_file_size = (case we_stat e of
     None \<Rightarrow> Unreadable
   | Some (is_file, len) \<Rightarrow>
       if \<not> is_file then Unreadable
       else if len > max_file_size then TooLarge
       else case we_read e of
         None \<Rightarrow> Unreadable
       | Some bs \<Rightarrow>
           let bs = take (unat max_file_size) bs;
               scan = min (length bs) NUL_SCAN_BYTES in
           if 0 \<in> set (take scan bs) then BinaryContent
           else if length bs \<ge> 3 \<and> distinct_trigrams bs > TRIGRAM_MAX then BinaryContent
           else TextContent bs)"

text \<open>Indexed content is a prefix of the file of at most the size limit, without a NUL byte in its
  first 8 KiB and with at most \<open>TRIGRAM_MAX\<close> trigrams.\<close>

lemma classify_text:
  assumes "classify e m = TextContent bs"
  shows "\<exists>f. we_read e = Some f \<and> prefix bs f \<and> length bs \<le> unat m \<and> 0 \<notin> set (take NUL_SCAN_BYTES bs) \<and>
    (3 \<le> length bs \<longrightarrow> distinct_trigrams bs \<le> TRIGRAM_MAX)"
  using assms
  by (auto simp: classify_def Let_def take_is_prefix min_def split: option.splits prod.splits if_splits)

subsection \<open>The order of arrival does not matter\<close>

lemma dedup_distinct: "distinct (map dr_path rs) \<Longrightarrow> dedup_paths rs = rs"
  by (induction rs rule: dedup_paths.induct) auto

lemma mset_map_filter: "mset xs = mset ys \<Longrightarrow> mset (List.map_filter f xs) = mset (List.map_filter f ys)"
  unfolding List.map_filter_def mset_map mset_filter by simp

lemma sum_list_perm: "mset xs = mset ys \<Longrightarrow> sum_list (map f xs) = (sum_list (map f ys) :: u32)"
  by (simp flip: sum_mset_sum_list)

lemma collect_records_eq:
  assumes "mset (schedule (walk (visit_doc skip matcher) tree)) = mset (walk (visit_doc skip matcher) tree)"
    and "distinct (map dr_path (List.map_filter fst (walk (visit_doc skip matcher) tree)))"
  shows "collect_records schedule skip matcher tree =
    (sort_key dr_path (List.map_filter fst (walk (visit_doc skip matcher) tree)),
     sum_list (map snd (walk (visit_doc skip matcher) tree)))"
proof -
  let ?v = "walk (visit_doc skip matcher) tree"
  let ?r = "List.map_filter fst ?v" and ?s = "List.map_filter fst (schedule ?v)"
  have m: "mset ?s = mset ?r" by (rule mset_map_filter [OF assms(1)])
  have "inj_on dr_path (set ?s)" using assms(2) m by (metis distinct_map mset_eq_setD)
  moreover have "mset ?s = mset (sort_key dr_path ?r)" using m by simp
  ultimately have s: "sort_key dr_path ?s = sort_key dr_path ?r"
    by (intro sort_key_inj_key_eq) simp_all
  have "distinct (map dr_path (sort_key dr_path ?r))"
    using assms(2) by (metis mset_map mset_sort mset_eq_imp_distinct_iff)
  then show ?thesis using sum_list_perm [OF assms(1)]
    by (simp add: collect_records_def Let_def s dedup_distinct)
qed

subsection \<open>Properties\<close>

text \<open>
  Whatever order the threads of the walk deliver its visits in, the collected records and the
  count of denied entries are the same, and the records are sorted by path, each path once, when
  the walk meets each path once.
\<close>

theorem collect_order_irrelevant:
  assumes "mset (schedule (walk (visit_doc skip matcher) tree)) = mset (walk (visit_doc skip matcher) tree)"
    and "distinct (map dr_path (List.map_filter fst (walk (visit_doc skip matcher) tree)))"
  shows "collect_records schedule skip matcher tree = collect_records (\<lambda>visits. visits) skip matcher tree \<and>
    sorted_wrt (<) (map dr_path (fst (collect_records schedule skip matcher tree)))"
proof -
  let ?r = "List.map_filter fst (walk (visit_doc skip matcher) tree)"
  have "distinct (map dr_path (sort_key dr_path ?r))"
    using assms(2) by (metis mset_map mset_sort mset_eq_imp_distinct_iff)
  then show ?thesis
    using collect_records_eq [of schedule skip matcher tree] assms(1) collect_records_eq [of "\<lambda>visits. visits" skip matcher tree] assms(2)
    by (simp add: strict_sorted_iff)
qed

theorem collect_order_irrelevant_witness:
  "collect_records rev (skip_list []) None
     (WalkNode (WalkError True) [WalkNode (WalkEntry \<lparr>we_path = lit ''b'', we_name = lit ''b'', we_dir = False,
        we_meta = None, we_stat = None, we_read = None\<rparr>) [],
       WalkNode (WalkEntry \<lparr>we_path = lit ''a'', we_name = lit ''a'', we_dir = False,
        we_meta = Some (3, Some 7), we_stat = None, we_read = None\<rparr>) []]) =
   collect_records (\<lambda>visits. visits) (skip_list []) None
     (WalkNode (WalkError True) [WalkNode (WalkEntry \<lparr>we_path = lit ''b'', we_name = lit ''b'', we_dir = False,
        we_meta = None, we_stat = None, we_read = None\<rparr>) [],
       WalkNode (WalkEntry \<lparr>we_path = lit ''a'', we_name = lit ''a'', we_dir = False,
        we_meta = Some (3, Some 7), we_stat = None, we_read = None\<rparr>) []])"
proof (rule collect_order_irrelevant [THEN conjunct1])
  let ?t = "WalkNode (WalkError True) [WalkNode (WalkEntry \<lparr>we_path = lit ''b'', we_name = lit ''b'', we_dir = False,
        we_meta = None, we_stat = None, we_read = None\<rparr>) [],
       WalkNode (WalkEntry \<lparr>we_path = lit ''a'', we_name = lit ''a'', we_dir = False,
        we_meta = Some (3, Some 7), we_stat = None, we_read = None\<rparr>) []]"
  show "distinct (map dr_path (List.map_filter fst (walk (visit_doc (skip_list []) None) ?t)))" by code_simp
qed simp

end
