(* ===== verification/Manifest.thy ===== *)
theory Manifest
  imports Varint Unicode
begin

section \<open>The content manifest (crates/df-index/src/manifest.rs)\<close>

text \<open>
  The list of content shards as it is stored beside them: a fixed header, then per shard three
  words and the file name behind its length. Decoding checks every length before it reads, so it
  never panics; it inverts encoding.
\<close>

subsection \<open>Operations\<close>

record shard_entry =
  shard_id :: u32
  base_docid :: u32
  num_docs :: u32
  shard_file :: str

record manifest =
  build_time :: u64
  total_content_docs :: u32
  shards :: "shard_entry list"

definition encode_entry :: "shard_entry \<Rightarrow> bytes \<Rightarrow> bytes" where
  "encode_entry s out =
     encode_u32 (of_nat (length (shard_file s)))
       (out @ to_le (shard_id s) @ to_le (base_docid s) @ to_le (num_docs s)) @ shard_file s"

definition manifest_encode :: "manifest \<Rightarrow> bytes" where
  "manifest_encode m =
     fold encode_entry (shards m)
       (to_le (build_time m) @ to_le (total_content_docs m) @ to_le (of_nat (length (shards m)) :: u32))"

fun decode_entries :: "nat \<Rightarrow> bytes \<Rightarrow> nat \<Rightarrow> shard_entry list \<Rightarrow> shard_entry list option res" where
  "decode_entries 0 bs p out = Ok (Some out)"
| "decode_entries (Suc n) bs p out =
     (if p + 12 > length bs then Ok None
      else
        bind_o (rd_le bs p) (\<lambda>i. bind_o (rd_le bs (p + 4)) (\<lambda>base. bind_o (rd_le bs (p + 8)) (\<lambda>num.
        case decode_u32 bs (p + 12) of
          (None, p) \<Rightarrow> Ok None
        | (Some flen, p) \<Rightarrow>
            if p + unat flen > length bs then Ok None
            else bind_o (slice bs p (p + unat flen)) (\<lambda>raw.
              case from_utf8 raw of
                None \<Rightarrow> Ok None
              | Some f \<Rightarrow> decode_entries n bs (p + unat flen)
                  (out @ [\<lparr>shard_id = i, base_docid = base, num_docs = num, shard_file = f\<rparr>]))))))"

definition manifest_decode :: "bytes \<Rightarrow> manifest option res" where
  "manifest_decode bs =
     (if length bs < 16 then Ok None
      else
        bind_o (rd_le bs 0) (\<lambda>bt. bind_o (rd_le bs 8) (\<lambda>total. bind_o (rd_le bs 12) (\<lambda>count :: u32.
        bind_o (decode_entries (unat count) bs 16 []) (\<lambda>es. Ok (map_option
          (\<lambda>es. \<lparr>build_time = bt, total_content_docs = total, shards = es\<rparr>) es))))))"

text \<open>\<open>Manifest::read\<close> on what \<open>std::fs::read\<close> gives.\<close>

definition manifest_read :: "bytes option \<Rightarrow> manifest option res" where
  "manifest_read file = (case file of None \<Rightarrow> Ok None | Some bs \<Rightarrow> manifest_decode bs)"

subsection \<open>Round trip\<close>

definition entry_bytes :: "shard_entry \<Rightarrow> bytes" where
  "entry_bytes s = to_le (shard_id s) @ to_le (base_docid s) @ to_le (num_docs s) @
     varint (of_nat (length (shard_file s))) @ shard_file s"

lemma encode_entry_append: "encode_entry s out = out @ entry_bytes s"
  by (simp add: encode_entry_def entry_bytes_def encode_u32_append [of _ "_ @ _"])

lemma fold_encode_entry: "fold encode_entry es out = out @ concat (map entry_bytes es)"
  by (induction es arbitrary: out) (simp_all add: encode_entry_append)

definition entry_ok :: "shard_entry \<Rightarrow> bool" where
  "entry_ok s \<longleftrightarrow> valid_utf8 (shard_file s) \<and> length (shard_file s) < 2 ^ 32"

definition manifest_ok :: "manifest \<Rightarrow> bool" where
  "manifest_ok m \<longleftrightarrow> length (shards m) < 2 ^ 32 \<and> list_all entry_ok (shards m)"

lemma decode_entries_encoded:
  "list_all entry_ok es \<Longrightarrow>
   decode_entries (length es) (pre @ concat (map entry_bytes es) @ post) (length pre) out = Ok (Some (out @ es))"
proof (induction es arbitrary: pre out)
  case (Cons s es)
  let ?len = "of_nat (length (shard_file s)) :: u32"
  let ?head = "to_le (shard_id s) @ to_le (base_docid s) @ to_le (num_docs s)"
  let ?rest = "concat (map entry_bytes es) @ post"
  define bs where "bs = pre @ concat (map entry_bytes (s # es)) @ post"
  have ok: "valid_utf8 (shard_file s)" "length (shard_file s) < 2 ^ 32" "list_all entry_ok es"
    using Cons.prems entry_ok_def [of s] by simp_all
  have bs: "bs = pre @ ?head @ varint ?len @ shard_file s @ ?rest" by (simp add: bs_def entry_bytes_def)
  have v: "decode_u32 bs (length pre + 12) = (Some ?len, length pre + 12 + length (varint ?len))"
    unfolding bs using decode_u32_varint [of "length pre + 12" "pre @ ?head" ?len "shard_file s @ ?rest"] by simp
  have ih: "decode_entries (length es) bs (length pre + 12 + length (varint ?len) + length (shard_file s)) out' =
      Ok (Some (out' @ es))" for out'
    unfolding bs using Cons.IH [OF ok(3), of "pre @ ?head @ varint ?len @ shard_file s" out'] by (simp add: add_ac)
  have f: "slice bs (length pre + 12 + length (varint ?len)) (length pre + 12 + length (varint ?len) + length (shard_file s)) =
      (Ok (shard_file s) :: bytes res)"
    unfolding bs by simp
  have w: "rd_le bs (length pre) = (Ok (shard_id s) :: u32 res)" "rd_le bs (length pre + 4) = (Ok (base_docid s) :: u32 res)"
    "rd_le bs (length pre + 8) = (Ok (num_docs s) :: u32 res)"
    unfolding bs by simp_all
  have l: "length pre + 12 + length (varint ?len) + length (shard_file s) \<le> length bs" unfolding bs by simp
  have u: "unat ?len = length (shard_file s)" using ok(2) by simp
  have "decode_entries (Suc (length es)) bs (length pre) out = Ok (Some (out @ s # es))"
    using l ok(1) by (simp add: w v f u ih from_utf8_def)
  then show ?case by (simp add: bs_def)
qed simp

lemma decode_u32_bound: "decode_u32 bs p = (v, p') \<Longrightarrow> p \<le> length bs \<Longrightarrow> p' \<le> length bs"
proof -
  have "decode_loop bs p r s = (v, p') \<Longrightarrow> p \<le> length bs \<Longrightarrow> p' \<le> length bs" for r s
    by (induction bs p r s rule: decode_loop.induct)
      (subst (asm) (2) decode_loop.simps, auto simp: Let_def split: if_splits)
  then show "decode_u32 bs p = (v, p') \<Longrightarrow> p \<le> length bs \<Longrightarrow> p' \<le> length bs" by (simp add: decode_u32_def)
qed

lemma rd_le_in: "p + LENGTH('a) div 8 \<le> length bs \<Longrightarrow> \<exists>w. rd_le bs p = (Ok w :: 'a::len word res)"
  by (simp add: rd_le_def slice_def)

lemma decode_entries_returns: "p \<le> length bs \<Longrightarrow> \<exists>r. decode_entries n bs p out = Ok r"
proof (induction n arbitrary: p out)
  case (Suc n)
  show ?case
  proof (cases "p + 12 > length bs")
    case False
    obtain a b c :: u32 where "rd_le bs p = (Ok a :: u32 res)" "rd_le bs (p + 4) = (Ok b :: u32 res)"
      "rd_le bs (p + 8) = (Ok c :: u32 res)"
      using False rd_le_in [of p bs, where 'a = 32] rd_le_in [of "p + 4" bs, where 'a = 32]
        rd_le_in [of "p + 8" bs, where 'a = 32] by auto
    moreover obtain v p' where "decode_u32 bs (p + 12) = (v, p')" by fastforce
    moreover have "p' \<le> length bs" using False decode_u32_bound [OF \<open>decode_u32 bs (p + 12) = (v, p')\<close>] by simp
    ultimately show ?thesis using False Suc.IH
      by (auto simp: slice_def split: option.split)
  qed simp
qed simp

lemma manifest_decode_encoded:
  assumes "manifest_ok m" shows "manifest_decode (manifest_encode m @ post) = Ok (Some m)"
proof -
  let ?head = "to_le (build_time m) @ to_le (total_content_docs m) @ to_le (of_nat (length (shards m)) :: u32)"
  let ?bs = "?head @ concat (map entry_bytes (shards m)) @ post"
  have ok: "length (shards m) < 2 ^ 32" "list_all entry_ok (shards m)" using assms by (simp_all add: manifest_ok_def)
  have "decode_entries (length (shards m)) ?bs 16 [] = Ok (Some (shards m))"
    using decode_entries_encoded [OF ok(2), of ?head post "[]"] by simp
  moreover have "manifest_encode m @ post = ?bs"
    by (simp add: manifest_encode_def fold_encode_entry)
  moreover have "rd_le ?bs 0 = (Ok (build_time m) :: u64 res)" "rd_le ?bs 8 = (Ok (total_content_docs m) :: u32 res)"
    "rd_le ?bs 12 = (Ok (of_nat (length (shards m))) :: u32 res)" by simp_all
  moreover have "\<not> length ?bs < 16" by simp
  ultimately show ?thesis using ok(1) by (simp only: manifest_decode_def bind_o.simps) simp
qed

subsection \<open>Properties\<close>

text \<open>
  A manifest whose file names are valid strings of a length below \<open>2^32\<close> decodes from its
  encoding; bytes may follow it.
\<close>

theorem manifest_roundtrip:
  assumes "manifest_ok m" shows "manifest_decode (manifest_encode m @ post) = Ok (Some m)"
  by (rule manifest_decode_encoded [OF assms])

theorem manifest_roundtrip_witness:
  "manifest_decode (manifest_encode \<lparr>build_time = 555, total_content_docs = 3,
      shards = [\<lparr>shard_id = 0, base_docid = 0, num_docs = 3, shard_file = lit ''s.dfcs''\<rparr>]\<rparr> @ [7]) =
   Ok (Some \<lparr>build_time = 555, total_content_docs = 3,
      shards = [\<lparr>shard_id = 0, base_docid = 0, num_docs = 3, shard_file = lit ''s.dfcs''\<rparr>]\<rparr>)"
proof (rule manifest_roundtrip)
  have "valid_utf8 (lit ''s.dfcs'')" by code_simp
  then show "manifest_ok \<lparr>build_time = 555, total_content_docs = 3,
      shards = [\<lparr>shard_id = 0, base_docid = 0, num_docs = 3, shard_file = lit ''s.dfcs''\<rparr>]\<rparr>"
    by (simp add: manifest_ok_def entry_ok_def)
qed

lemma manifest_decode_returns: "\<exists>r. manifest_decode bs = Ok r"
proof (cases "length bs < 16")
  case False
  obtain bt :: u64 and total count :: u32 where "rd_le bs 0 = (Ok bt :: u64 res)" "rd_le bs 8 = (Ok total :: u32 res)"
    "rd_le bs 12 = (Ok count :: u32 res)"
    using False rd_le_in [of 0 bs, where 'a = 64] rd_le_in [of 8 bs, where 'a = 32] rd_le_in [of 12 bs, where 'a = 32]
    by auto
  moreover obtain r where "decode_entries (unat count) bs 16 [] = Ok r"
    using decode_entries_returns [of 16 bs "unat count" "[]"] False by auto
  ultimately show ?thesis using False by (simp add: manifest_decode_def)
qed (simp add: manifest_decode_def)

text \<open>
  Decoding any bytes returns, with a manifest or without: no read is outside the buffer,
  whatever the header claims.
\<close>

theorem manifest_decode_safe: "\<exists>r. manifest_decode bs = Ok r"
  by (rule manifest_decode_returns)

end
