(* ===== verification/Build.thy ===== *)
theory Build
  imports Store Walk Manifest Digits Shard
begin

section \<open>Building the index (crates/df-index/src/lib.rs, content_build.rs)\<close>

text \<open>
  A build walks a root and writes the filename database and, for a content build, the shards and
  the manifest. The walkers send records through a channel to one consumer; the model takes the
  records in the order the channel delivers them. The consumer fills a shard until it reaches the
  flush threshold, so the shards hold consecutive runs of the records with content.
\<close>

subsection \<open>The filename build\<close>

record index_report =
  rep_docs :: u32
  rep_denied :: u32

text \<open>\<open>None\<close>: the construction of the hash table does not return, shown impossible.\<close>

definition build_index_report ::
  "zstd \<Rightarrow> unicode \<Rightarrow> gitignore_crate \<Rightarrow> ((doc_rec option \<times> u32) list \<Rightarrow> (doc_rec option \<times> u32) list) \<Rightarrow> saver \<Rightarrow>
   u64 \<Rightarrow> bytes \<Rightarrow> walk_tree \<Rightarrow> file_id \<Rightarrow> str list \<Rightarrow> str list \<Rightarrow> disk \<Rightarrow>
   (disk \<times> (index_error, index_report) outcome) option" where
  "build_index_report Z U G schedule save now root tree out_db extra_skip ignores d =
     (let skip = skip_list extra_skip;
          (recs, denied) = collect_records schedule skip (compile_ignore_matcher G root ignores) tree;
          builder = set_build_time now new_builder;
          builder = fold (\<lambda>r B. fst (insert_with U (dr_path r) (dr_dir r) (dr_size r) (dr_mtime r) B)) recs builder;
          docs = doc_count builder in
      case finish Z builder of
        None \<Rightarrow> None
      | Some bs \<Rightarrow> (case save out_db bs d of (d, r) \<Rightarrow>
          Some (d, bind_o r (\<lambda>_. Ok \<lparr>rep_docs = docs, rep_denied = denied\<rparr>))))"

definition build_index_with ::
  "zstd \<Rightarrow> unicode \<Rightarrow> gitignore_crate \<Rightarrow> ((doc_rec option \<times> u32) list \<Rightarrow> (doc_rec option \<times> u32) list) \<Rightarrow> saver \<Rightarrow>
   u64 \<Rightarrow> bytes \<Rightarrow> walk_tree \<Rightarrow> file_id \<Rightarrow> str list \<Rightarrow> str list \<Rightarrow> disk \<Rightarrow>
   (disk \<times> (index_error, u32) outcome) option" where
  "build_index_with Z U G schedule save now root tree out_db extra_skip ignores d =
     map_option (\<lambda>(d, r). (d, bind_o r (\<lambda>rep. Ok (rep_docs rep))))
       (build_index_report Z U G schedule save now root tree out_db extra_skip ignores d)"

subsection \<open>The visits of the content build\<close>

record build_rec =
  br_path :: str
  br_dir :: bool
  br_size :: i64
  br_mtime :: i64
  br_content :: "bytes option"

record content_options =
  co_max_file_size :: u64
  co_extra_skip :: "str list"
  co_one_file_system :: bool
  co_hidden :: bool
  co_ignore_patterns :: "str list"

definition DEFAULT_MAX_FILE_SIZE :: u64 where "DEFAULT_MAX_FILE_SIZE = 1024 * 1024"

definition default_content_options :: content_options where
  "default_content_options = \<lparr>co_max_file_size = DEFAULT_MAX_FILE_SIZE, co_extra_skip = [],
     co_one_file_system = False, co_hidden = False, co_ignore_patterns = []\<rparr>"

text \<open>What one visit adds to the shared counters.\<close>

record tally =
  t_denied :: u32
  t_binary :: u32
  t_large :: u32
  t_scanned :: u64
  t_bytes :: u64

definition one_scanned :: tally where
  "one_scanned = \<lparr>t_denied = 0, t_binary = 0, t_large = 0, t_scanned = 1, t_bytes = 0\<rparr>"

definition visit_content ::
  "str list \<Rightarrow> (bytes \<Rightarrow> bool \<Rightarrow> gi_match) option \<Rightarrow> u64 \<Rightarrow> walk_event \<Rightarrow> walk_state \<times> (build_rec option \<times> tally)" where
  "visit_content skip matcher mfs ev = (case ev of
     WalkError denied \<Rightarrow> (WalkContinue, None, one_scanned\<lparr>t_denied := if denied then 1 else 0\<rparr>)
   | WalkEntry e \<Rightarrow>
       if pruned_name skip e then (WalkSkip, None, one_scanned)
       else case from_utf8 (we_path e) of
         None \<Rightarrow> (WalkContinue, None, one_scanned)
       | Some path_str \<Rightarrow>
           if matched_ignored matcher e then (if we_dir e then WalkSkip else WalkContinue, None, one_scanned)
           else
             let (sz, mt) = entry_size_mtime e;
                 (content, tally) =
                   (if we_dir e then (None, one_scanned)
                    else case classify e mfs of
                      TextContent b \<Rightarrow> (Some b, one_scanned\<lparr>t_bytes := of_nat (length b)\<rparr>)
                    | BinaryContent \<Rightarrow> (None, one_scanned\<lparr>t_binary := 1\<rparr>)
                    | TooLarge \<Rightarrow> (None, one_scanned\<lparr>t_large := 1\<rparr>)
                    | Unreadable \<Rightarrow> (None, one_scanned)) in
             (WalkContinue,
              Some \<lparr>br_path = path_str, br_dir = we_dir e, br_size = sz, br_mtime = mt, br_content = content\<rparr>, tally))"

subsection \<open>The consumer\<close>

definition SHARD_FLUSH_BYTES :: nat where "SHARD_FLUSH_BYTES = 128 * 1024 * 1024"

definition shard_name :: "u32 \<Rightarrow> str" where
  "shard_name i = lit (''shard-'' @ replicate (5 - length (show_nat (unat i))) CHR ''0'' @ show_nat (unat i) @ ''.dfcs'')"

definition join_dir :: "file_id \<Rightarrow> str \<Rightarrow> file_id" where
  "join_dir dir name = dir @ [Normal name]"

record consumer =
  c_fnb :: db_builder
  c_shard_id :: u32
  c_base_docid :: u32
  c_shard :: shard_builder
  c_content_docs :: u32
  c_entries :: "shard_entry list"
  c_shards_written :: u64

type_synonym 'a building = "(disk \<times> (index_error, 'a) outcome) option"

definition then_build :: "'a building \<Rightarrow> (disk \<Rightarrow> 'a \<Rightarrow> 'b building) \<Rightarrow> 'b building" where
  "then_build m f = (case m of
     None \<Rightarrow> None
   | Some (d, Ok x) \<Rightarrow> f d x
   | Some (d, Err e) \<Rightarrow> Some (d, Err e)
   | Some (d, Panic) \<Rightarrow> Some (d, Panic))"

definition new_consumer :: "u64 \<Rightarrow> consumer" where
  "new_consumer now =
     \<lparr>c_fnb = set_build_time now new_builder, c_shard_id = 0, c_base_docid = 0, c_shard = new_shard 0 0,
      c_content_docs = 0, c_entries = [], c_shards_written = 0\<rparr>"

text \<open>Writing the current shard and its entry.\<close>

definition flush_shard :: "saver \<Rightarrow> u64 \<Rightarrow> file_id \<Rightarrow> consumer \<Rightarrow> disk \<Rightarrow> consumer building" where
  "flush_shard save now dir c d =
     (let n = shard_doc_count (c_shard c) in
      case finish_shard now (c_shard c) of
        None \<Rightarrow> None
      | Some sbytes \<Rightarrow>
          let fname = shard_name (c_shard_id c) in
          (case save (join_dir dir fname) sbytes d of (d, r) \<Rightarrow>
             Some (d, bind_o r (\<lambda>_. Ok (c\<lparr>c_shards_written := c_shards_written c + 1,
               c_entries := c_entries c @ [\<lparr>shard_id = c_shard_id c, base_docid = c_base_docid c,
                 num_docs = n, shard_file = fname\<rparr>]\<rparr>)))))"

definition consume_rec :: "unicode \<Rightarrow> saver \<Rightarrow> u64 \<Rightarrow> file_id \<Rightarrow> build_rec \<Rightarrow> consumer \<Rightarrow> disk \<Rightarrow> consumer building" where
  "consume_rec U save now dir rec c d =
     (let c = c\<lparr>c_fnb := fst (insert_with U (br_path rec) (br_dir rec) (br_size rec) (br_mtime rec) (c_fnb c))\<rparr> in
      case br_content rec of
        None \<Rightarrow> Some (d, Ok c)
      | Some bs \<Rightarrow>
          let c = c\<lparr>c_shard := add_file (br_path rec) (br_dir rec) (br_size rec) (br_mtime rec) bs (c_shard c),
                c_content_docs := c_content_docs c + 1\<rparr> in
          if content_bytes (c_shard c) \<ge> SHARD_FLUSH_BYTES then
            let n = shard_doc_count (c_shard c) in
            then_build (flush_shard save now dir c d) (\<lambda>d c.
              let sid = c_shard_id c + 1; base = c_base_docid c + n in
              Some (d, Ok (c\<lparr>c_shard_id := sid, c_base_docid := base, c_shard := new_shard sid base\<rparr>)))
          else Some (d, Ok c))"

fun consume_all :: "unicode \<Rightarrow> saver \<Rightarrow> u64 \<Rightarrow> file_id \<Rightarrow> build_rec list \<Rightarrow> consumer \<Rightarrow> disk \<Rightarrow> consumer building" where
  "consume_all U save now dir [] c d = Some (d, Ok c)"
| "consume_all U save now dir (rec # recs) c d =
     then_build (consume_rec U save now dir rec c d) (\<lambda>d c. consume_all U save now dir recs c d)"

record consumer_out =
  out_fn_bytes :: bytes
  out_content_docs :: u32
  out_entries :: "shard_entry list"
  out_filename_docs :: u32
  out_shards_written :: u64

definition consume ::
  "zstd \<Rightarrow> unicode \<Rightarrow> saver \<Rightarrow> bool \<Rightarrow> u64 \<Rightarrow> file_id \<Rightarrow> build_rec list \<Rightarrow> disk \<Rightarrow> consumer_out building" where
  "consume Z U save mkdir_ok now dir recs d =
     (if \<not> mkdir_ok then Some (d, Err (IndexIoError ''create_dir_all''))
      else
      then_build (consume_all U save now dir recs (new_consumer now) d) (\<lambda>d c.
      then_build (if shard_doc_count (c_shard c) > 0 then flush_shard save now dir c d else Some (d, Ok c)) (\<lambda>d c.
      case finish Z (c_fnb c) of
        None \<Rightarrow> None
      | Some fn_bytes \<Rightarrow>
          Some (d, Ok \<lparr>out_fn_bytes = fn_bytes, out_content_docs = c_content_docs c, out_entries = c_entries c,
            out_filename_docs = doc_count (c_fnb c), out_shards_written = c_shards_written c\<rparr>))))"

subsection \<open>The content build\<close>

record content_report =
  cr_filename_docs :: u32
  cr_content_docs :: u32
  cr_shards :: u32
  cr_denied :: u32
  cr_skipped_binary :: u32
  cr_skipped_large :: u32

text \<open>The live counters after the build, read by \<open>snapshot\<close>.\<close>

record snapshot =
  files_scanned :: u64
  snap_content_bytes :: u64
  shards_written :: u64

definition build_content_index_with_progress ::
  "zstd \<Rightarrow> unicode \<Rightarrow> gitignore_crate \<Rightarrow> ((build_rec option \<times> tally) list \<Rightarrow> (build_rec option \<times> tally) list) \<Rightarrow>
   saver \<Rightarrow> bool \<Rightarrow> u64 \<Rightarrow> bytes \<Rightarrow> walk_tree \<Rightarrow> file_id \<Rightarrow> file_id \<Rightarrow> content_options \<Rightarrow> disk \<Rightarrow>
   (content_report \<times> snapshot) building" where
  "build_content_index_with_progress Z U G schedule save mkdir_ok now root tree out_db dir opts d =
     (let skip = skip_list (co_extra_skip opts);
          matcher = compile_ignore_matcher G root (co_ignore_patterns opts);
          visits = schedule (walk (visit_content skip matcher (co_max_file_size opts)) tree);
          tallies = map snd visits in
      then_build (consume Z U save mkdir_ok now dir (List.map_filter fst visits) d) (\<lambda>d out.
      case save out_db (out_fn_bytes out) d of (d, r) \<Rightarrow>
      then_build (Some (d, r)) (\<lambda>d _.
      let manifest = \<lparr>build_time = now, total_content_docs = out_content_docs out, shards = out_entries out\<rparr> in
      case save (join_dir dir (lit ''MANIFEST'')) (manifest_encode manifest) d of (d, r) \<Rightarrow>
      then_build (Some (d, r)) (\<lambda>d _.
      Some (d, Ok (\<lparr>cr_filename_docs = out_filename_docs out, cr_content_docs = out_content_docs out,
          cr_shards = of_nat (length (shards manifest)), cr_denied = sum_list (map t_denied tallies),
          cr_skipped_binary = sum_list (map t_binary tallies), cr_skipped_large = sum_list (map t_large tallies)\<rparr>,
        \<lparr>files_scanned = sum_list (map t_scanned tallies), snap_content_bytes = sum_list (map t_bytes tallies),
          shards_written = out_shards_written out\<rparr>))))))"

definition build_content_index ::
  "zstd \<Rightarrow> unicode \<Rightarrow> gitignore_crate \<Rightarrow> ((build_rec option \<times> tally) list \<Rightarrow> (build_rec option \<times> tally) list) \<Rightarrow>
   saver \<Rightarrow> bool \<Rightarrow> u64 \<Rightarrow> bytes \<Rightarrow> walk_tree \<Rightarrow> file_id \<Rightarrow> file_id \<Rightarrow> content_options \<Rightarrow> disk \<Rightarrow> content_report building" where
  "build_content_index Z U G schedule save mkdir_ok now root tree out_db dir opts d =
     map_option (\<lambda>(d, r). (d, bind_o r (\<lambda>(report, progress). Ok report)))
       (build_content_index_with_progress Z U G schedule save mkdir_ok now root tree out_db dir opts d)"

subsection \<open>Shard names\<close>

lemma lit_append [simp]: "lit (a @ b) = lit a @ lit b"
  by (simp add: lit_def)

lemma lit_replicate: "lit (replicate k c) = replicate k (of_nat (of_char c))"
  by (simp add: lit_def)

lemma shard_name_inj [simp]: "shard_name i = shard_name j \<longleftrightarrow> i = j"
proof
  assume e: "shard_name i = shard_name j"
  have v: "digits_val (replicate k 48 @ lit (show_nat n)) = n" for k n
    using show_nat_digits [of n] by (simp add: digits_val_zeros)
  have "lit (replicate k CHR ''0'') = replicate k 48" for k by (simp add: lit_replicate)
  moreover have "lit (replicate (5 - length (show_nat (unat i))) CHR ''0'' @ show_nat (unat i)) =
      lit (replicate (5 - length (show_nat (unat j))) CHR ''0'' @ show_nat (unat j))"
    using e by (simp add: shard_name_def del: lit_append)
  ultimately have "replicate (5 - length (show_nat (unat i))) 48 @ lit (show_nat (unat i)) =
      replicate (5 - length (show_nat (unat j))) 48 @ lit (show_nat (unat j))"
    by (simp only: lit_append)
  then have "unat i = unat j" using v by metis
  then show "i = j" by (rule unsigned_word_eqI)
qed simp

lemma shard_name_suffix: "\<exists>s. shard_name i = s @ lit ''.dfcs''"
  unfolding shard_name_def by (metis append_assoc lit_append)

lemma name_of_join [simp]: "name_of (join_dir dir n) = Some n"
  by (simp add: name_of_def join_dir_def)

lemma join_dir_inj [simp]: "join_dir dir m = join_dir dir' n \<longleftrightarrow> dir = dir' \<and> m = n"
  by (simp add: join_dir_def)

lemma temporary_join: "temporary (join_dir dir n) = Some (join_dir dir (from_utf8_lossy n @ lit ''.tmp''))"
  by (simp only: temporary_def name_of_join option.map) (simp add: tmp_of_def join_dir_def)

lemma shard_not_temporary: "shard_name i \<noteq> s @ lit ''.tmp''"
proof
  assume "shard_name i = s @ lit ''.tmp''"
  then have "last (shard_name i) = last (s @ lit ''.tmp'')" by simp
  moreover obtain t where "shard_name i = t @ lit ''.dfcs''" using shard_name_suffix by blast
  ultimately show False by (simp add: lit_def)
qed

lemma manifest_apart: "shard_name i \<noteq> lit ''MANIFEST''" "s @ lit ''.tmp'' \<noteq> lit ''MANIFEST''"
proof -
  show "shard_name i \<noteq> lit ''MANIFEST''"
  proof
    assume "shard_name i = lit ''MANIFEST''"
    then have "last (shard_name i) = last (lit ''MANIFEST'')" by simp
    moreover obtain t where "shard_name i = t @ lit ''.dfcs''" using shard_name_suffix by blast
    ultimately show False by (simp add: lit_def)
  qed
  show "s @ lit ''.tmp'' \<noteq> lit ''MANIFEST''"
  proof
    assume "s @ lit ''.tmp'' = lit ''MANIFEST''"
    then have "last (s @ lit ''.tmp'') = last (lit ''MANIFEST'')" by simp
    then show False by (simp add: lit_def)
  qed
qed

subsection \<open>The shards hold consecutive runs of the records\<close>

definition content_files :: "build_rec list \<Rightarrow> content_file list" where
  "content_files recs = List.map_filter
     (\<lambda>r. map_option (\<lambda>bs. (br_path r, br_dir r, br_size r, br_mtime r, bs)) (br_content r)) recs"

definition base_of :: "content_file list list \<Rightarrow> nat \<Rightarrow> nat" where
  "base_of parts i = length (concat (take i parts))"

definition entries_of :: "content_file list list \<Rightarrow> shard_entry list" where
  "entries_of parts = map (\<lambda>i. \<lparr>shard_id = of_nat i, base_docid = of_nat (base_of parts i),
     num_docs = of_nat (length (parts ! i)), shard_file = shard_name (of_nat i)\<rparr>) [0..<length parts]"

definition shard_of :: "u64 \<Rightarrow> content_file list list \<Rightarrow> nat \<Rightarrow> bytes option" where
  "shard_of now parts i = finish_shard now (fill_shard (parts ! i) (new_shard (of_nat i) (of_nat (base_of parts i))))"

text \<open>
  Where one shard ends and the next begins: \<open>cut_shards\<close> gives the full shards and the files of the one
  being filled, \<open>all_parts\<close> the shards of a whole build.
\<close>

definition corpus_size :: "content_file list \<Rightarrow> nat" where
  "corpus_size files = sum_list (map (\<lambda>f. length (file_content f)) files)"

definition cut_step :: "content_file list list \<times> content_file list \<Rightarrow> content_file \<Rightarrow> content_file list list \<times> content_file list" where
  "cut_step = (\<lambda>(parts, rest) f.
     if SHARD_FLUSH_BYTES \<le> corpus_size (rest @ [f]) then (parts @ [rest @ [f]], []) else (parts, rest @ [f]))"

definition cut_shards :: "content_file list \<Rightarrow> content_file list list \<times> content_file list" where
  "cut_shards files = foldl cut_step ([], []) files"

definition all_parts :: "content_file list \<Rightarrow> content_file list list" where
  "all_parts files = (case cut_shards files of (parts, rest) \<Rightarrow> parts @ (if rest = [] then [] else [rest]))"

lemma corpus_size_simps [simp]:
  "corpus_size [] = 0" "corpus_size (f # fs) = length (file_content f) + corpus_size fs"
  "corpus_size (fs @ gs) = corpus_size fs + corpus_size gs"
  by (simp_all add: corpus_size_def)

lemma cut_shards_Nil [simp]: "cut_shards [] = ([], [])"
  by (simp add: cut_shards_def)

lemma cut_shards_snoc [simp]: "cut_shards (files @ [f]) = cut_step (cut_shards files) f"
  by (simp add: cut_shards_def)

lemma content_bytes_fill: "content_bytes (fill_shard files (new_shard k b)) = corpus_size files"
proof -
  have "content_bytes (fill_shard files B) = content_bytes B + corpus_size files" for B
    by (induction files arbitrary: B)
      (auto simp: fill_shard_def content_bytes_def add_file_def Let_def file_content_def)
  then show ?thesis by (simp add: content_bytes_def new_shard_def)
qed

text \<open>The state of the consumer after some records: full shards on disk, the current one in memory.\<close>

definition shards_stored :: "u64 \<Rightarrow> file_id \<Rightarrow> content_file list list \<Rightarrow> disk \<Rightarrow> bool" where
  "shards_stored now dir parts d \<longleftrightarrow> (\<forall>i<length parts. shard_of now parts i \<noteq> None \<and>
     reads d (join_dir dir (shard_name (of_nat i))) = shard_of now parts i)"

definition consumer_inv :: "u64 \<Rightarrow> file_id \<Rightarrow> content_file list \<Rightarrow> content_file list list \<Rightarrow> content_file list \<Rightarrow> consumer \<Rightarrow> disk \<Rightarrow> bool" where
  "consumer_inv now dir files parts rest c d \<longleftrightarrow>
     files = concat parts @ rest \<and> [] \<notin> set parts \<and>
     c_shard_id c = of_nat (length parts) \<and> c_base_docid c = of_nat (length (concat parts)) \<and>
     c_shard c = fill_shard rest (new_shard (c_shard_id c) (c_base_docid c)) \<and>
     c_content_docs c = of_nat (length files) \<and> c_entries c = entries_of parts \<and>
     shards_stored now dir parts d"

abbreviation consumer_at :: "u64 \<Rightarrow> file_id \<Rightarrow> content_file list \<Rightarrow> consumer \<Rightarrow> disk \<Rightarrow> bool" where
  "consumer_at now dir files \<equiv> consumer_inv now dir files (fst (cut_shards files)) (snd (cut_shards files))"

lemma parts_length: "[] \<notin> set parts \<Longrightarrow> length parts \<le> length (concat parts)"
proof (induction parts)
  case (Cons p parts)
  then show ?case by (cases p) auto
qed simp

lemma base_of_snoc [simp]: "i < length parts \<Longrightarrow> base_of (parts @ [ch]) i = base_of parts i"
  by (simp add: base_of_def)

lemma base_of_last [simp]: "base_of (parts @ [ch]) (length parts) = length (concat parts)"
  by (simp add: base_of_def)

lemma entries_of_snoc:
  "entries_of (parts @ [ch]) = entries_of parts @ [\<lparr>shard_id = of_nat (length parts),
     base_docid = of_nat (length (concat parts)), num_docs = of_nat (length ch), shard_file = shard_name (of_nat (length parts))\<rparr>]"
  by (simp add: entries_of_def nth_append)

lemma shard_of_snoc [simp]: "i < length parts \<Longrightarrow> shard_of now (parts @ [ch]) i = shard_of now parts i"
  by (simp add: shard_of_def nth_append)

lemma doc_count_fill: "shard_doc_count (fill_shard files (new_shard k b)) = of_nat (length files)"
  using fill_shard_fields [of files "new_shard k b"] by (simp add: shard_doc_count_def new_shard_def)

lemma fill_shard_snoc: "fill_shard (files @ [(p, dir, sz, mt, bs)]) B = add_file p dir sz mt bs (fill_shard files B)"
  by (simp add: fill_shard_def)

lemma then_build_Ok:
  "then_build m f = Some (d, Ok y) \<longleftrightarrow> (\<exists>d' x. m = Some (d', Ok x) \<and> f d' x = Some (d, Ok y))"
  by (auto simp: then_build_def split: option.splits prod.splits outcome.splits)

definition filename_builder :: "unicode \<Rightarrow> u64 \<Rightarrow> build_rec list \<Rightarrow> db_builder" where
  "filename_builder U now recs = fold (\<lambda>r B. fst (insert_with U (br_path r) (br_dir r) (br_size r) (br_mtime r) B)) recs
     (set_build_time now new_builder)"

definition build_records ::
  "((build_rec option \<times> tally) list \<Rightarrow> (build_rec option \<times> tally) list) \<Rightarrow> gitignore_crate \<Rightarrow> bytes \<Rightarrow>
   content_options \<Rightarrow> walk_tree \<Rightarrow> build_rec list" where
  "build_records schedule G root opts tree = List.map_filter fst (schedule (walk (visit_content (skip_list (co_extra_skip opts))
     (compile_ignore_matcher G root (co_ignore_patterns opts)) (co_max_file_size opts)) tree))"

context file_store
begin

lemma flush_inv:
  assumes wf: "wf d" and inv: "consumer_inv now dir files parts rest c d" and small: "length files < 2 ^ 32"
    and rest: "rest \<noteq> []" and run: "flush_shard save now dir c d = Some (d', Ok c')"
  shows "wf d' \<and> c' = c\<lparr>c_shards_written := c_shards_written c + 1, c_entries := entries_of (parts @ [rest])\<rparr> \<and>
    shards_stored now dir (parts @ [rest]) d'"
proof -
  let ?p = "\<lambda>i. join_dir dir (shard_name (of_nat i))"
  have c: "c_shard_id c = of_nat (length parts)" "c_base_docid c = of_nat (length (concat parts))"
    "c_shard c = fill_shard rest (new_shard (c_shard_id c) (c_base_docid c))" "c_entries c = entries_of parts"
    "shards_stored now dir parts d" "[] \<notin> set parts" "files = concat parts @ rest"
    using inv by (simp_all add: consumer_inv_def)
  have n: "length parts < 2 ^ 32" using parts_length [OF c(6)] small c(7) by simp
  obtain F where F: "finish_shard now (c_shard c) = Some F" "save (?p (length parts)) F d = (d', Ok ())"
    "c' = c\<lparr>c_shards_written := c_shards_written c + 1, c_entries := entries_of (parts @ [rest])\<rparr>"
    using run c(1-4) by (auto simp: flush_shard_def Let_def bind_o_eq_Ok doc_count_fill entries_of_snoc
        split: option.splits prod.splits)
  have last: "shard_of now (parts @ [rest]) (length parts) = Some F" using F(1) c(1-3) by (simp add: shard_of_def)
  have "shard_of now (parts @ [rest]) i \<noteq> None \<and> reads d' (?p i) = shard_of now (parts @ [rest]) i"
    if "i < Suc (length parts)" for i
  proof (cases "i = length parts")
    case True
    then show ?thesis using last save_done [OF wf F(2)] by simp
  next
    case False
    then have i: "i < length parts" using that by simp
    then have "of_nat i \<noteq> (of_nat (length parts) :: u32)" using n by (simp add: word_of_nat_eq_iff take_bit_nat_eq_self)
    then have "?p i \<noteq> ?p (length parts)" by simp
    moreover have "temporary (?p (length parts)) \<noteq> Some (?p i)" using shard_not_temporary [of "of_nat i"] by (simp add: temporary_join eq_commute [of _ "shard_name (of_nat i)"])
    ultimately have "reads d' (?p i) = reads d (?p i)" by (rule save_frame [OF wf F(2)])
    then show ?thesis using c(5) i by (simp add: shards_stored_def)
  qed
  then show ?thesis using F(3) save_wf [OF wf F(2)] by (simp add: shards_stored_def)
qed

lemma consume_rec_inv:
  assumes wf: "wf d" and inv: "consumer_at now dir files c d"
    and small: "length (files @ content_files [rec]) < 2 ^ 32"
    and run: "consume_rec U save now dir rec c d = Some (d', Ok c')"
  shows "wf d' \<and> c_fnb c' = fst (insert_with U (br_path rec) (br_dir rec) (br_size rec) (br_mtime rec) (c_fnb c)) \<and>
    consumer_at now dir (files @ content_files [rec]) c' d'"
proof (cases "br_content rec")
  case None
  then have "d' = d" "c' = c\<lparr>c_fnb := fst (insert_with U (br_path rec) (br_dir rec) (br_size rec) (br_mtime rec) (c_fnb c))\<rparr>"
    "content_files [rec] = []"
    using run by (auto simp: consume_rec_def content_files_def List.map_filter_simps Let_def)
  moreover from this have "consumer_at now dir (files @ content_files [rec]) c' d'"
    using inv by (simp add: consumer_inv_def)
  ultimately show ?thesis using wf by auto
next
  case (Some bs)
  let ?f = "(br_path rec, br_dir rec, br_size rec, br_mtime rec, bs)"
  let ?fnb = "fst (insert_with U (br_path rec) (br_dir rec) (br_size rec) (br_mtime rec) (c_fnb c))"
  let ?c = "c\<lparr>c_fnb := ?fnb, c_shard := add_file (br_path rec) (br_dir rec) (br_size rec) (br_mtime rec) bs (c_shard c),
      c_content_docs := c_content_docs c + 1\<rparr>"
  have cf: "content_files [rec] = [?f]" using Some by (simp add: content_files_def List.map_filter_simps)
  obtain parts rest where cut: "cut_shards files = (parts, rest)" by fastforce
  have inv': "consumer_inv now dir (files @ [?f]) parts (rest @ [?f]) ?c d"
    using inv cut by (simp add: consumer_inv_def fill_shard_snoc)
  then have size: "content_bytes (c_shard ?c) = corpus_size (rest @ [?f])"
    unfolding consumer_inv_def using content_bytes_fill by metis
  show ?thesis
  proof (cases "content_bytes (c_shard ?c) \<ge> SHARD_FLUSH_BYTES")
    case False
    then have "d' = d" "c' = ?c" using run Some by (auto simp: consume_rec_def Let_def)
    moreover have "cut_shards (files @ content_files [rec]) = (parts, rest @ [?f])"
      using False size by (simp add: cf cut cut_step_def)
    ultimately show ?thesis using inv' wf cf by auto
  next
    case True
    let ?n = "shard_doc_count (c_shard ?c)"
    obtain c1 where c1: "flush_shard save now dir ?c d = Some (d', Ok c1)"
      "c' = c1\<lparr>c_shard_id := c_shard_id c1 + 1, c_base_docid := c_base_docid c1 + ?n,
        c_shard := new_shard (c_shard_id c1 + 1) (c_base_docid c1 + ?n)\<rparr>"
      using run Some True by (auto simp: consume_rec_def Let_def then_build_Ok)
    have "length (files @ [?f]) < 2 ^ 32" using small cf by simp
    from flush_inv [OF wf inv' this _ c1(1)] have f: "wf d'"
      "c1 = ?c\<lparr>c_shards_written := c_shards_written ?c + 1, c_entries := entries_of (parts @ [rest @ [?f]])\<rparr>"
      "shards_stored now dir (parts @ [rest @ [?f]]) d'" by simp_all
    have n: "?n = of_nat (length (rest @ [?f]))"
      using inv' unfolding consumer_inv_def by (metis doc_count_fill)
    have "consumer_inv now dir (files @ [?f]) (parts @ [rest @ [?f]]) [] c' d'"
      using inv' f n by (simp add: consumer_inv_def c1(2) fill_shard_def)
    moreover have "cut_shards (files @ content_files [rec]) = (parts @ [rest @ [?f]], [])"
      using True size by (simp add: cf cut cut_step_def)
    ultimately show ?thesis using f(1,2) c1(2) cf by auto
  qed
qed

lemma content_files_Cons: "content_files (rec # recs) = content_files [rec] @ content_files recs"
  by (simp add: content_files_def List.map_filter_simps split: option.split)

lemma consumer_at_start: "consumer_at now dir [] (new_consumer now) d"
  by (simp add: consumer_inv_def new_consumer_def fill_shard_def entries_of_def shards_stored_def)

lemma consume_all_inv:
  assumes "wf d" "consumer_at now dir files c d" "length (files @ content_files recs) < 2 ^ 32"
    and "consume_all U save now dir recs c d = Some (d', Ok c')"
  shows "wf d' \<and> c_fnb c' = fold (\<lambda>r B. fst (insert_with U (br_path r) (br_dir r) (br_size r) (br_mtime r) B)) recs (c_fnb c) \<and>
    consumer_at now dir (files @ content_files recs) c' d'"
  using assms
proof (induction recs arbitrary: files c d)
  case Nil
  then show ?case by (auto simp: content_files_def List.map_filter_simps)
next
  case (Cons rec recs)
  note cf = content_files_Cons [of rec recs]
  obtain d1 c1 where r: "consume_rec U save now dir rec c d = Some (d1, Ok c1)"
    "consume_all U save now dir recs c1 d1 = Some (d', Ok c')"
    using Cons.prems(4) by (auto simp: then_build_Ok)
  have "length (files @ content_files [rec]) < 2 ^ 32" using Cons.prems(3) cf by simp
  from consume_rec_inv [OF Cons.prems(1,2) this r(1)] have s: "wf d1"
    "c_fnb c1 = fst (insert_with U (br_path rec) (br_dir rec) (br_size rec) (br_mtime rec) (c_fnb c))"
    "consumer_at now dir (files @ content_files [rec]) c1 d1" by simp_all
  have "length ((files @ content_files [rec]) @ content_files recs) < 2 ^ 32" using Cons.prems(3) cf by simp
  from Cons.IH [OF s(1,3) this r(2)] show ?case using s(2) cf by simp
qed

lemma consume_inv:
  assumes "wf d" "length (content_files recs) < 2 ^ 32"
    and "consume Z U save mkdir_ok now dir recs d = Some (d', Ok out)"
  shows "wf d' \<and> finish Z (filename_builder U now recs) = Some (out_fn_bytes out) \<and>
    out_content_docs out = of_nat (length (content_files recs)) \<and>
    (let parts = all_parts (content_files recs) in concat parts = content_files recs \<and> [] \<notin> set parts \<and>
      out_entries out = entries_of parts \<and> shards_stored now dir parts d')"
proof -
  let ?files = "content_files recs"
  have mk: "mkdir_ok" using assms(3) by (cases mkdir_ok) (simp_all add: consume_def)
  obtain d1 c1 d2 c2 F where run: "consume_all U save now dir recs (new_consumer now) d = Some (d1, Ok c1)"
    "(if shard_doc_count (c_shard c1) > 0 then flush_shard save now dir c1 d1 else Some (d1, Ok c1)) = Some (d2, Ok c2)"
    "finish Z (c_fnb c2) = Some F" "d' = d2" "out_fn_bytes out = F" "out_content_docs out = c_content_docs c2"
    "out_entries out = c_entries c2"
  proof -
    have "then_build (consume_all U save now dir recs (new_consumer now) d) (\<lambda>d c.
      then_build (if shard_doc_count (c_shard c) > 0 then flush_shard save now dir c d else Some (d, Ok c)) (\<lambda>d c.
      case finish Z (c_fnb c) of
        None \<Rightarrow> None
      | Some fn_bytes \<Rightarrow>
          Some (d, Ok \<lparr>out_fn_bytes = fn_bytes, out_content_docs = c_content_docs c, out_entries = c_entries c,
            out_filename_docs = doc_count (c_fnb c), out_shards_written = c_shards_written c\<rparr>))) = Some (d', Ok out)"
      using assms(3) mk by (simp add: consume_def)
    then show thesis unfolding then_build_Ok by (elim exE conjE) (rule that, (auto split: option.splits)[7])
  qed
  obtain parts rest where cut: "cut_shards ?files = (parts, rest)" by fastforce
  have inv: "wf d1" "consumer_inv now dir ?files parts rest c1 d1" "c_fnb c1 = filename_builder U now recs"
    using consume_all_inv [OF assms(1) consumer_at_start _ run(1)] assms(2) cut by (simp_all add: filename_builder_def new_consumer_def)
  have c1: "c_shard c1 = fill_shard rest (new_shard (c_shard_id c1) (c_base_docid c1))" "?files = concat parts @ rest"
    "[] \<notin> set parts" "c_entries c1 = entries_of parts" "shards_stored now dir parts d1"
    "c_content_docs c1 = of_nat (length ?files)"
    using inv(2) by (simp_all add: consumer_inv_def)
  have n: "shard_doc_count (c_shard c1) > 0 \<longleftrightarrow> rest \<noteq> []"
  proof -
    have l: "length rest < 2 ^ 32" using assms(2) c1(2) by simp
    have "shard_doc_count (c_shard c1) = of_nat (length rest)" unfolding c1(1) by (rule doc_count_fill)
    then show ?thesis using l by (simp add: word_less_nat_alt)
  qed
  have ap: "all_parts ?files = parts @ (if rest = [] then [] else [rest])" by (simp add: all_parts_def cut)
  show ?thesis
  proof (cases "rest = []")
    case True
    then show ?thesis unfolding Let_def ap using run inv c1 n by auto
  next
    case False
    then have "flush_shard save now dir c1 d1 = Some (d2, Ok c2)" using run(2) n by simp
    from flush_inv [OF inv(1,2) assms(2) False this] show ?thesis using run inv(3) c1 False
      unfolding Let_def ap by auto
  qed
qed

lemma build_inv:
  assumes "wf d" "length (content_files (build_records schedule G root opts tree)) < 2 ^ 32" "butlast out_db \<noteq> dir"
    and "build_content_index_with_progress Z U G schedule save mkdir_ok now root tree out_db dir opts d = Some (d', Ok report)"
  shows "let parts = all_parts (content_files (build_records schedule G root opts tree)) in
    concat parts = content_files (build_records schedule G root opts tree) \<and> [] \<notin> set parts \<and>
    shards_stored now dir parts d' \<and>
    reads d' out_db = finish Z (filename_builder U now (build_records schedule G root opts tree)) \<and>
    reads d' (join_dir dir (lit ''MANIFEST'')) = Some (manifest_encode
      \<lparr>build_time = now, total_content_docs = of_nat (length (concat parts)), shards = entries_of parts\<rparr>)"
proof -
  let ?recs = "build_records schedule G root opts tree" and ?M = "join_dir dir (lit ''MANIFEST'')"
  define enc where "enc out = manifest_encode \<lparr>build_time = now, total_content_docs = out_content_docs out, shards = out_entries out\<rparr>" for out :: consumer_out
  obtain d1 out d2 where run: "consume Z U save mkdir_ok now dir ?recs d = Some (d1, Ok out)"
    "save out_db (out_fn_bytes out) d1 = (d2, Ok ())" "save ?M (enc out) d2 = (d', Ok ())"
    using assms(4) by (auto simp: build_content_index_with_progress_def build_records_def Let_def then_build_Ok enc_def
        split: prod.splits)
  define parts where "parts = all_parts (content_files ?recs)"
  have p: "wf d1" "finish Z (filename_builder U now ?recs) = Some (out_fn_bytes out)"
    "out_content_docs out = of_nat (length (content_files ?recs))" "concat parts = content_files ?recs" "[] \<notin> set parts"
    "out_entries out = entries_of parts" "shards_stored now dir parts d1"
    using consume_inv [OF assms(1,2) run(1)] by (simp_all add: Let_def parts_def)
  have wf2: "wf d2" by (rule save_wf [OF p(1) run(2)])
  have tmp_dir: "temporary out_db = Some q \<Longrightarrow> butlast q = butlast out_db" for q
    by (auto simp: temporary_def tmp_of_def)
  have in_dir: "butlast (join_dir dir n) = dir" for n by (simp add: join_dir_def)
  have "reads d' (join_dir dir (shard_name i)) = reads d1 (join_dir dir (shard_name i))" for i
  proof -
    have "reads d' (join_dir dir (shard_name i)) = reads d2 (join_dir dir (shard_name i))"
      by (rule save_frame [OF wf2 run(3)])
        (use manifest_apart(1) [of i] shard_not_temporary [of i] in \<open>simp_all add: temporary_join eq_commute [of _ "shard_name i"]\<close>)
    also have "\<dots> = reads d1 (join_dir dir (shard_name i))"
      by (rule save_frame [OF p(1) run(2)]) (use assms(3) in_dir [of "shard_name i"] tmp_dir in metis)+
    finally show ?thesis .
  qed
  then have "shards_stored now dir parts d'" using p(7) by (simp add: shards_stored_def)
  moreover have "reads d' out_db = Some (out_fn_bytes out)"
  proof (rule save_twice [OF p(1) run(2,3)])
    show "out_db \<noteq> ?M" using assms(3) in_dir by metis
    show "temporary ?M \<noteq> Some out_db" using assms(3) in_dir by (auto simp: temporary_join)
  qed
  moreover have "reads d' ?M = Some (enc out)" by (rule save_done [OF wf2 run(3)])
  ultimately show ?thesis using p by (auto simp: enc_def Let_def simp flip: parts_def)
qed

subsection \<open>A build returns\<close>

definition reliable :: bool where
  "reliable \<longleftrightarrow> (\<forall>p bs d. wf d \<longrightarrow> name_of p \<noteq> None \<longrightarrow> (\<exists>d'. save p bs d = (d', Ok ())))"

definition returns :: "'a building \<Rightarrow> bool" where
  "returns m \<longleftrightarrow> m \<noteq> None \<and> (reliable \<longrightarrow> (\<exists>d x. m = Some (d, Ok x)))"

lemma returns_Ok [simp]: "returns (Some (d, Ok x))"
  by (simp add: returns_def)

lemma returns_then:
  assumes "returns m" "\<And>d x. m = Some (d, Ok x) \<Longrightarrow> returns (f d x)"
  shows "returns (then_build m f)"
proof (cases m)
  case (Some a)
  obtain d r where a: "a = (d, r)" by (cases a)
  show ?thesis
  proof (cases r)
    case (Ok x)
    then show ?thesis using assms(2) Some a by (simp add: then_build_def)
  qed (use assms(1) Some a in \<open>simp_all add: then_build_def returns_def\<close>)
qed (use assms(1) in \<open>simp add: returns_def\<close>)

lemma save_returns:
  "wf d \<Longrightarrow> name_of p \<noteq> None \<Longrightarrow> returns (case save p bs d of (d', r) \<Rightarrow> Some (d', bind_o r (\<lambda>_. Ok x)))"
proof (cases "save p bs d")
  case (Pair a b)
  assume "wf d" "name_of p \<noteq> None"
  then have "reliable \<Longrightarrow> b = Ok ()" using Pair unfolding reliable_def by (metis prod.inject)
  then show ?thesis using Pair by (auto simp: returns_def)
qed

lemma flush_returns:
  assumes "wf d" "consumer_inv now dir files parts rest c d" "files_ok rest"
  shows "returns (flush_shard save now dir c d)"
proof -
  have "c_shard c = fill_shard rest (new_shard (c_shard_id c) (c_base_docid c))" using assms(2) by (simp add: consumer_inv_def)
  then obtain F where "finish_shard now (c_shard c) = Some F"
    using finish_shard_parts [OF fill_new [OF assms(3), of "c_shard_id c" "c_base_docid c"], of now] by auto
  then show ?thesis using save_returns [OF assms(1), of "join_dir dir (shard_name (c_shard_id c))"]
    by (simp add: flush_shard_def Let_def)
qed

lemma consume_rec_returns:
  assumes "wf d" "consumer_at now dir files c d" "files_ok (files @ content_files [rec])"
  shows "returns (consume_rec U save now dir rec c d)"
proof (cases "br_content rec")
  case None
  then show ?thesis by (simp add: consume_rec_def Let_def)
next
  case (Some bs)
  let ?f = "(br_path rec, br_dir rec, br_size rec, br_mtime rec, bs)"
  let ?c = "c\<lparr>c_fnb := fst (insert_with U (br_path rec) (br_dir rec) (br_size rec) (br_mtime rec) (c_fnb c)),
      c_shard := add_file (br_path rec) (br_dir rec) (br_size rec) (br_mtime rec) bs (c_shard c),
      c_content_docs := c_content_docs c + 1\<rparr>"
  have cf: "content_files [rec] = [?f]" using Some by (simp add: content_files_def List.map_filter_simps)
  obtain parts rest where cut: "cut_shards files = (parts, rest)" by fastforce
  have inv: "consumer_inv now dir (files @ [?f]) parts (rest @ [?f]) ?c d"
    using assms(2) cut by (simp add: consumer_inv_def fill_shard_snoc)
  have "files_ok (rest @ [?f])" using assms(2,3) cut by (auto simp: cf files_ok_def consumer_inv_def)
  from flush_returns [OF assms(1) inv this] show ?thesis using Some
    by (simp add: consume_rec_def Let_def returns_then)
qed

lemma consume_all_returns:
  assumes "wf d" "consumer_at now dir files c d" "files_ok (files @ content_files recs)"
  shows "returns (consume_all U save now dir recs c d)"
  using assms
proof (induction recs arbitrary: files c d)
  case (Cons rec recs)
  note cf = content_files_Cons [of rec recs]
  have all: "files_ok ((files @ content_files [rec]) @ content_files recs)" using Cons.prems(3) by (metis cf append_assoc)
  then have ok: "files_ok (files @ content_files [rec])" by (simp add: files_ok_def)
  have "returns (consume_all U save now dir recs c1 d1)" if r: "consume_rec U save now dir rec c d = Some (d1, Ok c1)" for d1 c1
  proof -
    have "length (files @ content_files [rec]) < 2 ^ 32" using ok by (simp add: files_ok_def)
    from consume_rec_inv [OF Cons.prems(1,2) this r] have
      "wf d1" "consumer_at now dir (files @ content_files [rec]) c1 d1" by simp_all
    then show ?thesis by (rule Cons.IH [OF _ _ all])
  qed
  then show ?case using consume_rec_returns [OF Cons.prems(1,2) ok] by (simp add: returns_then)
qed simp

lemma filename_builder_wf:
  assumes "length recs < 2 ^ 32" "\<forall>r\<in>set recs. valid_utf8 (br_path r) \<and> length (br_path r) < 2 ^ 32"
  shows "wf_builder U (filename_builder U now recs)"
proof -
  let ?ins = "\<lambda>r B. fst (insert_with U (br_path r) (br_dir r) (br_size r) (br_mtime r) B)"
  have "wf_builder U (fold ?ins rs B)"
    if "wf_builder U B" "length (b_paths B) + length rs < 2 ^ 32"
      "\<forall>r\<in>set rs. valid_utf8 (br_path r) \<and> length (br_path r) < 2 ^ 32" for rs B
    using that
  proof (induction rs arbitrary: B)
    case (Cons r rs)
    have "b_paths (?ins r B) = b_paths B @ [br_path r]" by (simp add: insert_with_def Let_def)
    then show ?case using Cons.prems wf_insert [of U B "br_path r" "br_dir r" "br_size r" "br_mtime r"]
      by (simp add: Cons.IH)
  qed simp
  from this [of "set_build_time now new_builder" recs] show ?thesis
    using assms by (simp add: filename_builder_def) (simp add: set_build_time_def new_builder_def)
qed

lemma content_files_ok:
  assumes "length recs < 2 ^ 32" "\<forall>r\<in>set recs. valid_utf8 (br_path r) \<and> length (br_path r) < 2 ^ 32"
  shows "files_ok (content_files recs)"
proof -
  have "length (content_files recs) \<le> length recs" by (simp add: content_files_def List.map_filter_def)
  then have "length (content_files recs) < 2 ^ 32" using assms(1) by linarith
  moreover have "list_all (\<lambda>f. valid_utf8 (fst f) \<and> length (fst f) < 2 ^ 32) (content_files recs)"
    using assms(2) by (auto simp: content_files_def List.map_filter_def list_all_iff)
  ultimately show ?thesis by (simp add: files_ok_def)
qed

lemma consume_returns:
  assumes "wf d" "length recs < 2 ^ 32" "\<forall>r\<in>set recs. valid_utf8 (br_path r) \<and> length (br_path r) < 2 ^ 32"
  shows "returns (consume Z U save True now dir recs d)"
proof -
  let ?files = "content_files recs"
  have fok: "files_ok ?files" by (rule content_files_ok [OF assms(2,3)])
  then have small: "length ?files < 2 ^ 32" by (simp add: files_ok_def)
  obtain F where F: "finish Z (filename_builder U now recs) = Some F"
    using finish_parts [OF filename_builder_wf [OF assms(2,3)], of Z U now] by blast
  have "returns (then_build (if shard_doc_count (c_shard c1) > 0 then flush_shard save now dir c1 d1 else Some (d1, Ok c1)) (\<lambda>d c.
      case finish Z (c_fnb c) of
        None \<Rightarrow> None
      | Some fn_bytes \<Rightarrow>
          Some (d, Ok \<lparr>out_fn_bytes = fn_bytes, out_content_docs = c_content_docs c, out_entries = c_entries c,
            out_filename_docs = doc_count (c_fnb c), out_shards_written = c_shards_written c\<rparr>)))"
    if r: "consume_all U save now dir recs (new_consumer now) d = Some (d1, Ok c1)" for d1 c1
  proof -
    obtain parts rest where cut: "cut_shards ?files = (parts, rest)" by fastforce
    have inv: "wf d1" "consumer_inv now dir ?files parts rest c1 d1" "c_fnb c1 = filename_builder U now recs"
      using consume_all_inv [OF assms(1) consumer_at_start _ r] small cut by (simp_all add: filename_builder_def new_consumer_def)
    have "files_ok rest" using inv(2) fok by (simp add: consumer_inv_def files_ok_def)
    from flush_returns [OF inv(1,2) this]
    have "returns (if shard_doc_count (c_shard c1) > 0 then flush_shard save now dir c1 d1 else Some (d1, Ok c1))" by simp
    then show ?thesis
    proof (rule returns_then)
      fix d2 c2
      assume "(if shard_doc_count (c_shard c1) > 0 then flush_shard save now dir c1 d1 else Some (d1, Ok c1)) = Some (d2, Ok c2)"
      then have "c_fnb c2 = c_fnb c1"
        by (auto simp: flush_shard_def Let_def bind_o_eq_Ok split: if_splits option.splits prod.splits)
      then show "returns (case finish Z (c_fnb c2) of
          None \<Rightarrow> None
        | Some fn_bytes \<Rightarrow>
            Some (d2, Ok \<lparr>out_fn_bytes = fn_bytes, out_content_docs = c_content_docs c2, out_entries = c_entries c2,
              out_filename_docs = doc_count (c_fnb c2), out_shards_written = c_shards_written c2\<rparr>))"
        by (simp add: F inv(3))
    qed
  qed
  then show ?thesis using consume_all_returns [OF assms(1) consumer_at_start, of recs U] fok by (simp add: consume_def returns_then)
qed

lemma save_then:
  assumes "wf d1" "name_of p \<noteq> None" "\<And>d2. wf d2 \<Longrightarrow> returns (f d2 ())"
  shows "returns (case save p bs d1 of (d, r) \<Rightarrow> then_build (Some (d, r)) f)"
proof (cases "save p bs d1")
  case (Pair a b)
  have "reliable \<Longrightarrow> b = Ok ()" using assms(1,2) Pair unfolding reliable_def by (metis prod.inject)
  then have "returns (Some (a, b))" by (auto simp: returns_def)
  then have "returns (then_build (Some (a, b)) f)" by (rule returns_then) (use assms(3) save_wf [OF assms(1) Pair] in auto)
  then show ?thesis by (simp add: Pair)
qed

lemma build_returns:
  assumes "wf d" "name_of out_db \<noteq> None" "length (build_records schedule G root opts tree) < 2 ^ 32"
    and "\<forall>r\<in>set (build_records schedule G root opts tree). valid_utf8 (br_path r) \<and> length (br_path r) < 2 ^ 32"
  shows "returns (build_content_index_with_progress Z U G schedule save True now root tree out_db dir opts d)"
proof -
  have small: "length (content_files (build_records schedule G root opts tree)) < 2 ^ 32"
    using content_files_ok [OF assms(3,4)] by (simp add: files_ok_def)
  note cr = consume_returns [OF assms(1,3,4), of Z U now dir, unfolded build_records_def]
  have wf1: "wf d1" if "consume Z U save True now dir (List.map_filter fst (schedule (walk (visit_content
      (skip_list (co_extra_skip opts)) (compile_ignore_matcher G root (co_ignore_patterns opts)) (co_max_file_size opts)) tree))) d =
      Some (d1, Ok out)" for d1 out
    using that consume_inv [OF assms(1) small] unfolding build_records_def by blast
  show ?thesis
    unfolding build_content_index_with_progress_def Let_def
    by (rule returns_then [OF cr], rule save_then [OF wf1], assumption, rule assms(2), rule save_then, assumption)
      simp_all
qed

end

lemma reliable_disk: "disk.reliable (\<lambda>op. True) k"
  unfolding disk.reliable_def using file_save_succeeds by blast


subsection \<open>Properties\<close>

text \<open>
  C5. After a content build that reports success the files on disk agree with each other and with
  the walk. The records with content are cut into consecutive runs; the shard file of each run
  holds the shard built from it, with the docids counting on from run to run; the manifest lists
  these shards, ids, first docids and counts; and the filename database holds all the records.
\<close>

theorem content_build_exact:
  assumes "disk_wf d" and "length (content_files (build_records schedule G root opts tree)) < 2 ^ 32"
    and "butlast out_db \<noteq> dir"
    and "build_content_index_with_progress Z U G schedule (file_save succeeds k) mkdir_ok now root tree out_db dir opts d =
      Some (d', Ok report)"
  shows "\<exists>parts. concat parts = content_files (build_records schedule G root opts tree) \<and>
    (\<forall>i<length parts. shard_of now parts i \<noteq> None \<and>
      reads d' (join_dir dir (shard_name (of_nat i))) = shard_of now parts i) \<and>
    reads d' (join_dir dir (lit ''MANIFEST'')) = Some (manifest_encode
      \<lparr>build_time = now, total_content_docs = of_nat (length (concat parts)), shards = entries_of parts\<rparr>) \<and>
    reads d' out_db = finish Z (filename_builder U now (build_records schedule G root opts tree))"
  using disk.build_inv [OF assms] unfolding shards_stored_def Let_def by blast

definition demo_tree :: walk_tree where
  "demo_tree = WalkNode (WalkEntry \<lparr>we_path = [0x61], we_name = [0x61], we_dir = False, we_meta = Some (4, Some 7),
     we_stat = Some (True, 4), we_read = Some [0x41, 0x62, 0x43, 0x0A]\<rparr>) []"

definition demo_disk :: disk where
  "demo_disk = \<lparr>entries = (\<lambda>p. None), inode_data = (\<lambda>n. []), inode_synced = (\<lambda>n. False), next_inode = 0\<rparr>"

abbreviation demo_gitignore :: gitignore_crate where
  "demo_gitignore \<equiv> \<lparr>gi_line_ok = (\<lambda>l. True), gi_build = (\<lambda>root ls. None)\<rparr>"

lemma demo_records:
  "build_records (\<lambda>vs. vs) demo_gitignore [0x2E] default_content_options demo_tree =
     [\<lparr>br_path = [0x61], br_dir = False, br_size = 4, br_mtime = 7, br_content = Some [0x41, 0x62, 0x43, 0x0A]\<rparr>]"
proof -
  let ?ws = "windows 3 (map fold_byte [0x41, 0x62, 0x43, 0x0A])"
  have "card (set ?ws) \<le> length ?ws" by (rule card_length)
  then have "\<not> TRIGRAM_MAX < distinct_trigrams [0x41, 0x62, 0x43, 0x0A]"
    by (simp add: distinct_trigrams_def TRIGRAM_MAX_def windows_def)
  moreover have "from_utf8 [0x61] = Some [0x61]" by (simp add: from_utf8_def valid_ascii)
  ultimately show ?thesis
    by (simp add: build_records_def demo_tree_def visit_content_def pruned_name_def matched_ignored_def
        compile_ignore_matcher_def default_content_options_def classify_def DEFAULT_MAX_FILE_SIZE_def NUL_SCAN_BYTES_def
        entry_size_mtime_def List.map_filter_simps)
qed

lemma demo_disk_wf: "disk_wf demo_disk"
  by (simp add: disk_wf_def demo_disk_def)

theorem content_build_exact_witness:
  "\<exists>d' report. build_content_index_with_progress stored_zstd ascii_tables demo_gitignore (\<lambda>vs. vs)
      (file_save (\<lambda>op. True) 0) True 5 [0x2E] demo_tree [Normal [0x64]] [Normal [0x65]] default_content_options demo_disk =
      Some (d', Ok report) \<and>
    reads d' [Normal [0x64]] = finish stored_zstd (filename_builder ascii_tables 5
      (build_records (\<lambda>vs. vs) demo_gitignore [0x2E] default_content_options demo_tree))"
proof -
  let ?run = "build_content_index_with_progress stored_zstd ascii_tables demo_gitignore (\<lambda>vs. vs)
      (file_save (\<lambda>op. True) 0) True 5 [0x2E] demo_tree [Normal [0x64]] [Normal [0x65]] default_content_options demo_disk"
  have "disk.returns (\<lambda>op. True) 0 ?run"
    by (rule disk.build_returns [OF demo_disk_wf]) (simp_all add: demo_records name_of_def valid_ascii)
  then obtain d' report where run: "?run = Some (d', Ok report)"
    using reliable_disk unfolding disk.returns_def by blast
  have "length (content_files (build_records (\<lambda>vs. vs) demo_gitignore [0x2E] default_content_options demo_tree)) < 2 ^ 32"
    by (simp add: demo_records content_files_def List.map_filter_simps)
  from content_build_exact [OF demo_disk_wf this _ run] run show ?thesis by auto
qed



end
