(* ===== verification/Search.thy ===== *)
theory Search
  imports RegexQuery Lines Overlay Bfs Manifest BoolQuery "HOL-Library.List_Lexorder" "HOL-Library.Product_Lexorder"
    "HOL-Library.AList"
begin

section \<open>Serving a search (crates/deepfindd/src/lib.rs)\<close>

text \<open>
  A search asks every selected database for filename and content matches, lets the hot overlay
  replace what it shadows, merges by path, filters, sorts and streams the result. The code that
  runs one search is modelled from the snapshot of the databases it takes to the frames it sends.
  The regex crate is a parameter, and so is the order in which a hash map is iterated.
\<close>

subsection \<open>What a search works on\<close>

text \<open>A compiled pair of expressions, on strings and on bytes.\<close>

record compiled =
  re_path :: "str \<Rightarrow> bool"
  re_bytes :: "bytes \<Rightarrow> bool"
  re_starts :: "bytes \<Rightarrow> nat list"

record engines =
  en_zstd :: zstd
  en_unicode :: unicode
  en_memmem :: finder
  en_find_iter :: find_iter
  en_regex :: "str \<Rightarrow> string + compiled"

text \<open>A database entry as one search sees it: the shard set and the overlay are snapshots.\<close>

record db_entry =
  e_name :: str
  e_root :: "bytes option"
  e_db_path :: bytes
  e_db :: db_reader
  e_shards :: "bytes list"
  e_overlay :: overlay

definition load_shard_set :: "(bytes \<Rightarrow> bytes option) \<Rightarrow> bytes \<Rightarrow> bytes list res" where
  "load_shard_set fs content_dir =
     bind_o (manifest_read (fs (path_join content_dir (lit ''MANIFEST'')))) (\<lambda>m. case m of
       None \<Rightarrow> Ok []
     | Some manifest \<Rightarrow> Ok (List.map_filter (\<lambda>entry. fs (path_join content_dir (shard_file entry))) (shards manifest)))"

subsection \<open>The content layer\<close>

type_synonym hit = "str \<times> lite_meta \<times> match_kind"

text \<open>A shard that does not open is skipped.\<close>

fun over_shards :: "(shard_reader \<Rightarrow> 'b list res) \<Rightarrow> bytes list \<Rightarrow> 'b list \<Rightarrow> 'b list res" where
  "over_shards f [] out = Ok out"
| "over_shards f (src # snap) out = (case open_shard src of
     Ok r \<Rightarrow> bind_o (f r) (\<lambda>hits. over_shards f snap (out @ hits))
   | Err e \<Rightarrow> over_shards f snap out
   | Panic \<Rightarrow> Panic)"

fun shard_hits :: "shard_reader \<Rightarrow> bytes option \<Rightarrow> u32 list \<Rightarrow> hit list \<Rightarrow> hit list res" where
  "shard_hits r scope [] out = Ok out"
| "shard_hits r scope (d # docids) out = (case shard_path r d of
     Err e \<Rightarrow> shard_hits r scope docids out
   | Panic \<Rightarrow> Panic
   | Ok path \<Rightarrow>
       if \<not> in_scope path scope then shard_hits r scope docids out
       else bind_o (unwrap_or default_meta (shard_meta r d)) (\<lambda>meta.
         shard_hits r scope docids (out @ [(path, meta, Content)])))"

definition shards_query ::
  "engines \<Rightarrow> bytes list \<Rightarrow> bytes \<Rightarrow> bytes \<Rightarrow> bool \<Rightarrow> bytes option \<Rightarrow> u32 option \<Rightarrow> hit list res" where
  "shards_query E snap folded needle case_sensitive scope per_shard_limit =
     over_shards (\<lambda>r.
       bind_o (unwrap_or [] (candidates (shard_posting r) (shard_verify (en_memmem E) r) (s_num_docs r)
         folded needle case_sensitive per_shard_limit)) (\<lambda>docids.
       shard_hits r scope docids [])) snap []"

definition shards_query_regex ::
  "engines \<Rightarrow> bytes list \<Rightarrow> bytes \<Rightarrow> compiled \<Rightarrow> bytes option \<Rightarrow> u32 option \<Rightarrow> hit list res" where
  "shards_query_regex E snap atom_folded re scope per_shard_limit =
     over_shards (\<lambda>r.
       bind_o (unwrap_or [] (content_regex_docids (en_memmem E) r atom_folded (re_bytes re) per_shard_limit)) (\<lambda>docids.
       shard_hits r scope docids [])) snap []"

subsection \<open>Line hits\<close>

record line_query =
  lq_folded :: bytes
  lq_needle :: bytes
  lq_case_sensitive :: bool
  lq_re :: "compiled option"
  lq_scope :: "bytes option"
  lq_limit :: "u32 option"
  lq_context :: "u32 option"

text \<open>The lines of the matches of one file, each line number once.\<close>

fun render_hits :: "bytes \<Rightarrow> str \<Rightarrow> u32 option \<Rightarrow> nat list \<Rightarrow> u32 set \<Rightarrow> line_hit list \<Rightarrow> line_hit list res" where
  "render_hits content path ctx [] seen out = Ok out"
| "render_hits content path ctx (off # offsets) seen out = (case ctx of
     Some n \<Rightarrow> bind_o (context_block content off n) (\<lambda>(first, block).
       if first \<in> seen then render_hits content path ctx offsets seen out
       else render_hits content path ctx offsets (insert first seen)
         (out @ [\<lparr>lh_path = path, lh_line_no = first, lh_text = block\<rparr>]))
   | None \<Rightarrow>
       let no = line_number content off in
       if no \<in> seen then render_hits content path ctx offsets seen out
       else bind_o (line_text content off) (\<lambda>line.
         render_hits content path ctx offsets (insert no seen)
           (out @ [\<lparr>lh_path = path, lh_line_no = no, lh_text = line\<rparr>])))"

definition match_offsets :: "engines \<Rightarrow> line_query \<Rightarrow> bytes \<Rightarrow> nat list" where
  "match_offsets E q content = (case lq_re q of
     Some rx \<Rightarrow> re_starts rx content
   | None \<Rightarrow>
       let vneedle = (if lq_case_sensitive q then lq_needle q else lq_folded q) in
       literal_match_offsets (en_find_iter E) content vneedle (lq_case_sensitive q))"

fun shard_lines :: "engines \<Rightarrow> line_query \<Rightarrow> shard_reader \<Rightarrow> u32 list \<Rightarrow> line_hit list \<Rightarrow> line_hit list res" where
  "shard_lines E q r [] out = Ok out"
| "shard_lines E q r (d # docids) out = (case shard_path r d of
     Err e \<Rightarrow> shard_lines E q r docids out
   | Panic \<Rightarrow> Panic
   | Ok path \<Rightarrow>
       if \<not> in_scope path (lq_scope q) then shard_lines E q r docids out
       else case shard_content r d of
         Err e \<Rightarrow> shard_lines E q r docids out
       | Panic \<Rightarrow> Panic
       | Ok content \<Rightarrow>
           bind_o (render_hits content path (lq_context q) (match_offsets E q content) {} out) (\<lambda>out.
           shard_lines E q r docids out))"

definition query_lines :: "engines \<Rightarrow> bytes list \<Rightarrow> line_query \<Rightarrow> line_hit list res" where
  "query_lines E snap q =
     over_shards (\<lambda>r.
       bind_o (unwrap_or [] (case lq_re q of
           Some rx \<Rightarrow> content_regex_docids (en_memmem E) r (lq_folded q) (re_bytes rx) (lq_limit q)
         | None \<Rightarrow> candidates (shard_posting r) (shard_verify (en_memmem E) r) (s_num_docs r)
             (lq_folded q) (lq_needle q) (lq_case_sensitive q) (lq_limit q))) (\<lambda>docids.
       shard_lines E q r docids [])) snap []"

definition usize_max :: nat where "usize_max = 2 ^ 64 - 1"

definition cap_of :: "u32 option \<Rightarrow> nat" where
  "cap_of limit = (case limit of Some l \<Rightarrow> unat l | None \<Rightarrow> usize_max)"

fun overlay_lines_loop :: "engines \<Rightarrow> overlay \<Rightarrow> line_query \<Rightarrow> u32 list \<Rightarrow> line_hit list \<Rightarrow> line_hit list res" where
  "overlay_lines_loop E ov q [] out = Ok out"
| "overlay_lines_loop E ov q (d # ds) out =
     (if length out \<ge> cap_of (lq_limit q) then Ok out
      else case overlay_path ov d of
        None \<Rightarrow> overlay_lines_loop E ov q ds out
      | Some path \<Rightarrow>
          if path \<in> tombstones ov \<or> \<not> in_scope path (lq_scope q) then overlay_lines_loop E ov q ds out
          else case overlay_content ov d of
            None \<Rightarrow> overlay_lines_loop E ov q ds out
          | Some content \<Rightarrow>
              bind_o (render_hits content path (lq_context q) (match_offsets E q content) {} out) (\<lambda>out.
              overlay_lines_loop E ov q ds out))"

definition overlay_line_hits :: "engines \<Rightarrow> overlay \<Rightarrow> line_query \<Rightarrow> line_hit list res" where
  "overlay_line_hits E ov q = overlay_lines_loop E ov q (all_docids (of_nat (overlay_len ov))) []"

subsection \<open>Merging by path\<close>

text \<open>A hash map from paths, as the list of its entries.\<close>

type_synonym merged = "(str \<times> (lite_meta \<times> match_kind)) list"

fun combine_kind :: "match_kind \<Rightarrow> match_kind \<Rightarrow> match_kind" where
  "combine_kind Filename Content = Both"
| "combine_kind Content Filename = Both"
| "combine_kind Both b = Both"
| "combine_kind a Both = Both"
| "combine_kind a b = b"

definition merge_in :: "str \<Rightarrow> lite_meta \<Rightarrow> match_kind \<Rightarrow> nat \<Rightarrow> merged \<Rightarrow> merged" where
  "merge_in path meta kind cap m =
     (if length m \<ge> cap \<and> map_of m path = None then m
      else case map_of m path of
        Some (meta', existing) \<Rightarrow> AList.update path (meta', combine_kind existing kind) m
      | None \<Rightarrow> m @ [(path, (meta, kind))])"

definition override_in :: "str \<Rightarrow> lite_meta \<Rightarrow> match_kind \<Rightarrow> nat \<Rightarrow> merged \<Rightarrow> merged" where
  "override_in path meta kind cap m = (case map_of m path of
     Some (_, k) \<Rightarrow> AList.update path (meta, combine_kind k kind) m
   | None \<Rightarrow> if length m < cap then m @ [(path, (meta, kind))] else m)"

subsection \<open>One database\<close>

record query_ctx =
  qc_folded :: bytes
  qc_needle :: str
  qc_case_sensitive :: bool
  qc_fn_case :: bool
  qc_re_content :: "compiled option"
  qc_scope :: "bytes option"
  qc_eff_limit :: "u32 option"
  qc_limit :: "u32 option"
  qc_want_fn :: bool
  qc_want_ct :: bool
  qc_path_mode :: path_mode

text \<open>\<open>path.rsplit('/').next()\<close>.\<close>

definition last_piece :: "str \<Rightarrow> str" where
  "last_piece path = last (split_on slash path)"

definition basename_hit :: "unicode \<Rightarrow> query_ctx \<Rightarrow> str \<Rightarrow> bool" where
  "basename_hit U ctx path =
     (let bn = last_piece path in
      if qc_fn_case ctx then sublist (qc_needle ctx) bn
      else sublist (to_lowercase U (qc_needle ctx)) (to_lowercase U bn))"

fun filename_loop :: "engines \<Rightarrow> query_ctx \<Rightarrow> db_reader \<Rightarrow> nat \<Rightarrow> u32 list \<Rightarrow> merged \<Rightarrow> merged res" where
  "filename_loop E ctx db merge_cap [] m = Ok m"
| "filename_loop E ctx db merge_cap (d # ds) m =
     (if length m \<ge> merge_cap then Ok m
      else case doc_path (en_zstd E) db d of
        Err e \<Rightarrow> filename_loop E ctx db merge_cap ds m
      | Panic \<Rightarrow> Panic
      | Ok path \<Rightarrow>
          if \<not> in_scope path (qc_scope ctx) then filename_loop E ctx db merge_cap ds m
          else if qc_path_mode ctx = Basename \<and> \<not> basename_hit (en_unicode E) ctx path
          then filename_loop E ctx db merge_cap ds m
          else bind_o (unwrap_or default_meta (doc_meta db d)) (\<lambda>meta.
            filename_loop E ctx db merge_cap ds (merge_in path meta Filename merge_cap m)))"

definition overlay_merge :: "bytes option \<Rightarrow> nat \<Rightarrow> match_kind \<Rightarrow> (str \<times> lite_meta) list \<Rightarrow> merged \<Rightarrow> merged" where
  "overlay_merge scope merge_cap kind hits m =
     fold (\<lambda>(path, meta) m. if in_scope path scope then override_in path meta kind merge_cap m else m) hits m"

definition filename_layer :: "engines \<Rightarrow> query_ctx \<Rightarrow> db_entry \<Rightarrow> nat \<Rightarrow> merged res" where
  "filename_layer E ctx entry merge_cap =
     (if qc_want_fn ctx then
       bind_o (unwrap_or [] (query_docids (en_zstd E) (en_unicode E) (e_db entry) (qc_needle ctx) (qc_fn_case ctx)
         (qc_eff_limit ctx))) (\<lambda>fn_docids.
       filename_loop E ctx (e_db entry) merge_cap fn_docids [])
      else Ok [])"

definition content_layer :: "engines \<Rightarrow> query_ctx \<Rightarrow> db_entry \<Rightarrow> nat \<Rightarrow> merged \<Rightarrow> merged res" where
  "content_layer E ctx entry merge_cap m =
     (if qc_want_ct ctx then
       bind_o (case qc_re_content ctx of
           Some re \<Rightarrow> shards_query_regex E (e_shards entry) (qc_folded ctx) re (qc_scope ctx) (qc_limit ctx)
         | None \<Rightarrow> shards_query E (e_shards entry) (qc_folded ctx) (qc_needle ctx) (qc_case_sensitive ctx)
             (qc_scope ctx) (qc_limit ctx)) (\<lambda>content.
       Ok (fold (\<lambda>(path, meta, kind). merge_in path meta kind merge_cap) content m))
      else Ok m)"

definition overlay_layer :: "engines \<Rightarrow> query_ctx \<Rightarrow> overlay \<Rightarrow> nat \<Rightarrow> merged \<Rightarrow> merged res" where
  "overlay_layer E ctx ov merge_cap m =
     (let m = (if shadows_anything ov then filter (\<lambda>e. \<not> suppresses ov (fst e)) m else m);
          m = (if qc_want_fn ctx
               then overlay_merge (qc_scope ctx) merge_cap Filename
                 (filename_query (en_unicode E) ov (qc_needle ctx) (qc_fn_case ctx) (qc_path_mode ctx = Basename) (qc_limit ctx)) m
               else m) in
      if qc_want_ct ctx then
        bind_o (case qc_re_content ctx of
            Some re \<Rightarrow> Ok (content_regex_hits ov (re_bytes re) (qc_limit ctx))
          | None \<Rightarrow> content_query (en_memmem E) ov (qc_folded ctx) (qc_needle ctx) (qc_case_sensitive ctx) (qc_limit ctx))
          (\<lambda>hits. Ok (overlay_merge (qc_scope ctx) merge_cap Content hits m))
      else Ok m)"

definition query_entry :: "engines \<Rightarrow> query_ctx \<Rightarrow> db_entry \<Rightarrow> nat \<Rightarrow> merged res" where
  "query_entry E ctx entry merge_cap =
     bind_o (filename_layer E ctx entry merge_cap) (\<lambda>m.
     bind_o (content_layer E ctx entry merge_cap m) (\<lambda>m.
     overlay_layer E ctx (e_overlay entry) merge_cap m))"

end
