(* ===== verification/SearchExact.thy ===== *)
theory SearchExact
  imports Search
begin

section \<open>What a search over one database finds\<close>

text \<open>
  The merge of the layers, read path by path: which paths a search over one database returns, with
  which kind, and whose metadata. The cold layers answer for the paths the overlay does not shadow,
  the overlay alone for the others.
\<close>


subsection \<open>The merge, path by path\<close>

definition kinds :: "merged \<Rightarrow> str \<Rightarrow> match_kind option" where
  "kinds m p = map_option snd (map_of m p)"

definition join_kind :: "match_kind \<Rightarrow> match_kind option \<Rightarrow> match_kind option" where
  "join_kind k x = Some (case x of None \<Rightarrow> k | Some a \<Rightarrow> combine_kind a k)"

lemma join_kind_idem [simp]: "join_kind k (join_kind k x) = join_kind k x"
  by (cases k; cases x; cases "the x") (simp_all add: join_kind_def)

lemma kinds_Nil [simp]: "kinds [] p = None"
  by (simp add: kinds_def)

lemma map_of_update: "map_of (AList.update p v m) q = (if q = p then Some v else map_of m q)"
  by (simp add: update_conv')

lemma map_of_snoc: "map_of m p = None \<Longrightarrow> map_of (m @ [(p, v)]) q = (if q = p then Some v else map_of m q)"
  by (auto simp: map_add_def split: option.split)

lemma length_update: "map_of m p \<noteq> None \<Longrightarrow> length (AList.update p v m) = length m"
  by (induction m) auto

lemma update_keys: "map_of m p \<noteq> None \<Longrightarrow> map fst (AList.update p v m) = map fst m"
  by (induction m) auto

lemma merge_in_map:
  assumes "length m < cap"
  shows "map_of (merge_in p meta k cap m) q =
    (if q = p then Some (case map_of m p of None \<Rightarrow> (meta, k) | Some (meta', a) \<Rightarrow> (meta', combine_kind a k)) else map_of m q)"
  using assms by (auto simp: merge_in_def map_of_update map_of_snoc simp del: map_of_append split: option.split)

lemma override_in_map:
  assumes "length m < cap"
  shows "map_of (override_in p meta k cap m) q =
    (if q = p then Some (meta, case map_of m p of None \<Rightarrow> k | Some (meta', a) \<Rightarrow> combine_kind a k) else map_of m q)"
  using assms by (auto simp: override_in_def map_of_update map_of_snoc simp del: map_of_append split: option.split)

lemma merge_in_shape:
  "length (merge_in p meta k cap m) \<le> Suc (length m)"
  "distinct (map fst m) \<Longrightarrow> distinct (map fst (merge_in p meta k cap m))"
  "length (override_in p meta k cap m) \<le> Suc (length m)"
  "distinct (map fst m) \<Longrightarrow> distinct (map fst (override_in p meta k cap m))"
  by (auto simp: merge_in_def override_in_def length_update update_keys map_of_eq_None_iff split: option.split)

text \<open>A cap that is never reached drops nothing: merging hits of one kind.\<close>

lemma merge_fold:
  assumes "length m + length hits \<le> cap"
  shows "kinds (fold (\<lambda>(p, meta). merge_in p meta k cap) hits m) q =
      (if q \<in> fst ` set hits then join_kind k (kinds m q) else kinds m q) \<and>
    length (fold (\<lambda>(p, meta). merge_in p meta k cap) hits m) \<le> length m + length hits \<and>
    (distinct (map fst m) \<longrightarrow> distinct (map fst (fold (\<lambda>(p, meta). merge_in p meta k cap) hits m)))"
  using assms
proof (induction hits arbitrary: m)
  case (Cons h hits)
  obtain p meta where h: "h = (p, meta)" by (cases h)
  let ?m = "merge_in p meta k cap m"
  have l: "length ?m \<le> Suc (length m)" by (rule merge_in_shape)
  have "kinds ?m q = (if q = p then join_kind k (kinds m q) else kinds m q)" for q
    using Cons.prems by (auto simp: kinds_def merge_in_map join_kind_def split: option.split)
  moreover note Cons.IH [of ?m] merge_in_shape(2) [of m p meta k cap]
  ultimately show ?case using Cons.prems l by (auto simp: h)
qed simp

lemma overlay_merge_map:
  assumes "length m + length hits \<le> cap"
  shows "kinds (overlay_merge scope cap k hits m) q =
      (if q \<in> fst ` set hits \<and> in_scope q scope then join_kind k (kinds m q) else kinds m q) \<and>
    length (overlay_merge scope cap k hits m) \<le> length m + length hits \<and>
    (distinct (map fst m) \<longrightarrow> distinct (map fst (overlay_merge scope cap k hits m)))"
  using assms
proof (induction hits arbitrary: m)
  case (Cons h hits)
  obtain p meta where h: "h = (p, meta)" by (cases h)
  show ?case
  proof (cases "in_scope p scope")
    case True
    let ?m = "override_in p meta k cap m"
    have l: "length ?m \<le> Suc (length m)" by (rule merge_in_shape)
    have "kinds ?m q = (if q = p then join_kind k (kinds m q) else kinds m q)" for q
      using Cons.prems by (auto simp: kinds_def override_in_map join_kind_def split: option.split)
    moreover note Cons.IH [of ?m] merge_in_shape(4) [of m p meta k cap]
    ultimately show ?thesis using Cons.prems l True by (auto simp: h overlay_merge_def)
  next
    case False
    then show ?thesis using Cons.IH [of m] Cons.prems by (auto simp: h overlay_merge_def)
  qed
qed (simp add: overlay_merge_def)

text \<open>What the overlay shadows has the overlay's metadata.\<close>

definition fresh :: "overlay \<Rightarrow> merged \<Rightarrow> bool" where
  "fresh w m \<longleftrightarrow> (\<forall>p meta k. map_of m p = Some (meta, k) \<longrightarrow> suppresses w p \<longrightarrow> (\<exists>c. live w p = Some (meta, c)))"

lemma overlay_merge_fresh:
  assumes "length m + length hits \<le> cap" "fresh w m" "\<forall>(p, meta)\<in>set hits. \<exists>c. live w p = Some (meta, c)"
  shows "fresh w (overlay_merge scope cap k hits m)"
  using assms
proof (induction hits arbitrary: m)
  case (Cons h hits)
  obtain p meta where h: "h = (p, meta)" by (cases h)
  show ?case
  proof (cases "in_scope p scope")
    case True
    let ?m = "override_in p meta k cap m"
    have "length ?m + length hits \<le> cap" using Cons.prems(1) merge_in_shape(3) [of p meta k cap m] by simp
    moreover have "fresh w ?m" using Cons.prems by (auto simp: fresh_def override_in_map h split: if_splits)
    ultimately show ?thesis using Cons.IH [of ?m] Cons.prems(3) True by (simp add: h overlay_merge_def)
  next
    case False
    then show ?thesis using Cons by (simp add: h overlay_merge_def)
  qed
qed (simp add: overlay_merge_def)

lemma map_of_filter_key: "map_of (filter (\<lambda>e. P (fst e)) m) p = (if P p then map_of m p else None)"
  by (induction m) auto

lemma fresh_dropped: "fresh w (filter (\<lambda>e. \<not> suppresses w (fst e)) m)"
  unfolding fresh_def map_of_filter_key [of "\<lambda>p. \<not> suppresses w p"] by auto

subsection \<open>What the layers find\<close>

definition shard_paths :: "shard_reader \<Rightarrow> u32 \<Rightarrow> str" where
  "shard_paths r d = (case shard_path r d of Ok p \<Rightarrow> p | _ \<Rightarrow> [])"

lemma shard_good_reads:
  assumes "shard_good memmem r" "d < s_num_docs r"
  shows "shard_path r d = Ok (shard_paths r d)" "\<exists>m. shard_meta r d = Ok m"
proof -
  obtain bt B cs table F where F: "shard_finished bt B cs table F" "r = shard_opened bt B table F"
    using assms(1) by (auto simp: shard_good_def)
  have n: "length cs < 2 ^ 32" "length (sb_paths B) = length cs" "length (sb_meta B) = length cs"
    using finished_rep [OF F(1)] by (simp_all add: shard_rep_def)
  have "d < of_nat (length cs)" using assms(2) n by (simp add: F(2))
  then obtain i where i: "i < length cs" "d = of_nat i" using n(1) by (rule docid_of_nat)
  obtain k sz mt where m: "sb_meta B ! i = (k, sz, mt)" by (cases "sb_meta B ! i")
  show "shard_path r d = Ok (shard_paths r d)"
    using shard_path_finished [OF F(1), of i] i n by (simp add: F(2) shard_paths_def)
  show "\<exists>m. shard_meta r d = Ok m"
    using shard_meta_finished [OF F(1), of i k sz mt] i n m by (auto simp: F(2))
qed

lemma shard_hits_good:
  assumes "shard_good memmem r" "\<forall>d\<in>set ds. d < s_num_docs r"
  shows "\<exists>hits. shard_hits r scope ds out = Ok (out @ hits) \<and> length hits \<le> length ds \<and>
    (\<forall>h\<in>set hits. snd (snd h) = Content) \<and> fst ` set hits = {p. \<exists>d\<in>set ds. shard_paths r d = p \<and> in_scope p scope}"
  using assms(2)
proof (induction ds arbitrary: out)
  case (Cons d ds)
  obtain m where m: "shard_meta r d = Ok m" using shard_good_reads(2) [OF assms(1)] Cons.prems by auto
  have p: "shard_path r d = Ok (shard_paths r d)" using shard_good_reads(1) [OF assms(1)] Cons.prems by simp
  show ?case
  proof (cases "in_scope (shard_paths r d) scope")
    case True
    let ?h = "(shard_paths r d, m, Content)"
    obtain hits where "shard_hits r scope ds (out @ [?h]) = Ok ((out @ [?h]) @ hits)" "length hits \<le> length ds"
      "\<forall>h\<in>set hits. snd (snd h) = Content" "fst ` set hits = {p. \<exists>d\<in>set ds. shard_paths r d = p \<and> in_scope p scope}"
      using Cons.IH [of "out @ [?h]"] Cons.prems by auto
    then show ?thesis using True by (intro exI [of _ "?h # hits"]) (auto simp: p m)
  next
    case False
    then show ?thesis using Cons.IH [of out] Cons.prems by (force simp: p)
  qed
qed simp

definition shards_good :: "finder \<Rightarrow> bytes list \<Rightarrow> bool" where
  "shards_good memmem snap \<longleftrightarrow> (\<forall>src\<in>set snap. \<exists>r. open_shard src = Ok r \<and> shard_good memmem r)"

definition content_found :: "bytes list \<Rightarrow> bytes \<Rightarrow> bool \<Rightarrow> str \<Rightarrow> bool" where
  "content_found snap q cs p \<longleftrightarrow> (\<exists>src\<in>set snap. \<exists>r d. open_shard src = Ok r \<and> d < s_num_docs r \<and>
     shard_paths r d = p \<and> content_hit (content_of r d) (if cs then q else fold_bytes q) cs)"

lemma length_filter_docids: "length (filter P (all_docids n)) < 2 ^ 32"
proof -
  have "length (filter P (all_docids n)) \<le> unat n" using length_filter_le [of P "all_docids n"] by simp
  also have "\<dots> < 2 ^ 32" by simp
  finally show ?thesis .
qed

lemma shards_query_good:
  assumes "shards_good (en_memmem E) snap"
  shows "\<exists>hits. shards_query E snap (fold_bytes q) q cs scope None = Ok hits \<and> length hits \<le> length snap * 2 ^ 32 \<and>
    (\<forall>h\<in>set hits. snd (snd h) = Content) \<and> fst ` set hits = {p. content_found snap q cs p \<and> in_scope p scope}"
proof -
  define f where "f r = bind_o (unwrap_or [] (candidates (shard_posting r) (shard_verify (en_memmem E) r) (s_num_docs r)
      (fold_bytes q) q cs None)) (\<lambda>docids. shard_hits r scope docids [])" for r
  have "\<exists>hits. over_shards f snap out = Ok (out @ hits) \<and> length hits \<le> length snap * 2 ^ 32 \<and>
    (\<forall>h\<in>set hits. snd (snd h) = Content) \<and> fst ` set hits = {p. content_found snap q cs p \<and> in_scope p scope}" for out
    using assms
  proof (induction snap arbitrary: out)
    case (Cons src snap)
    obtain r where r: "open_shard src = Ok r" "shard_good (en_memmem E) r" using Cons.prems by (auto simp: shards_good_def)
    let ?n = "if cs then q else fold_bytes q"
    let ?ds = "filter (\<lambda>d. content_hit (content_of r d) ?n cs) (all_docids (s_num_docs r))"
    have "candidates (shard_posting r) (shard_verify (en_memmem E) r) (s_num_docs r) (fold_bytes q) q cs None =
        Ok (take_limit None ?ds)"
      by (rule shard.candidates_exact [OF r(2)]) (rule content_hit_trigrams)
    then have f: "f r = shard_hits r scope ?ds []" by (simp add: f_def take_limit_def)
    obtain h1 where h1: "f r = Ok h1" "length h1 \<le> length ?ds" "\<forall>h\<in>set h1. snd (snd h) = Content"
      "fst ` set h1 = {p. \<exists>d\<in>set ?ds. shard_paths r d = p \<and> in_scope p scope}"
      using shard_hits_good [OF r(2), of ?ds scope "[]"] by (auto simp: f set_all_docids)
    have "shards_good (en_memmem E) snap" using Cons.prems by (simp add: shards_good_def)
    from Cons.IH [OF this] obtain h2 where h2: "over_shards f snap (out @ h1) = Ok ((out @ h1) @ h2)"
      "length h2 \<le> length snap * 2 ^ 32" "\<forall>h\<in>set h2. snd (snd h) = Content"
      "fst ` set h2 = {p. content_found snap q cs p \<and> in_scope p scope}" by blast
    have "fst ` set (h1 @ h2) = {p. content_found (src # snap) q cs p \<and> in_scope p scope}"
      unfolding set_append image_Un h1(4) h2(4) by (auto simp: content_found_def r(1) set_all_docids)
    moreover have "length (h1 @ h2) \<le> length (src # snap) * 2 ^ 32"
      using h1(2) h2(2) length_filter_docids [of "\<lambda>d. content_hit (content_of r d) ?n cs" "s_num_docs r"] by simp
    ultimately show ?case using h1(1,3) h2(1,3) by (intro exI [of _ "h1 @ h2"]) (auto simp: r(1))
  qed (simp add: content_found_def)
  from this [of "[]"] show ?thesis by (simp add: shards_query_def f_def [abs_def])
qed


lemma good_doc_meta:
  assumes "db_good Z U r" "d < r_num_docs r"
  shows "\<exists>m. doc_meta r d = Ok m"
proof -
  obtain B table F where F: "finished Z U B table F" "r = db_opened Z B F"
    using assms(1) by (auto simp: db_good_def)
  have n: "length (b_paths B) < 2 ^ 32" using F(1) by (simp add: finished_def wf_builder_def)
  have "d < of_nat (length (b_paths B))" using assms(2) F(2) by simp
  then obtain i where i: "i < length (b_paths B)" "d = of_nat i" using n by (rule docid_of_nat)
  obtain k sz mt where "b_meta B ! i = (k, sz, mt)" by (cases "b_meta B ! i")
  then show ?thesis using doc_meta_finished [OF F(1) i(1)] i(2) F(2) by auto
qed

text \<open>The filename layer merges one hit per matching document that passes the filters.\<close>

definition name_kept :: "engines \<Rightarrow> query_ctx \<Rightarrow> str \<Rightarrow> bool" where
  "name_kept E ctx p \<longleftrightarrow> in_scope p (qc_scope ctx) \<and> (qc_path_mode ctx = Basename \<longrightarrow> basename_hit (en_unicode E) ctx p)"

lemma filename_loop_good:
  assumes "db_good (en_zstd E) U db" "\<forall>d\<in>set ds. d < r_num_docs db" "length m + length ds \<le> cap"
  shows "\<exists>hits. filename_loop E ctx db cap ds m = Ok (fold (\<lambda>(p, meta). merge_in p meta Filename cap) hits m) \<and>
    length hits \<le> length ds \<and>
    fst ` set hits = {p. name_kept E ctx p \<and> (\<exists>d\<in>set ds. path_of (en_zstd E) db d = p)}"
  using assms(2,3)
proof (induction ds arbitrary: m)
  case (Cons d ds)
  let ?p = "path_of (en_zstd E) db d"
  have p: "doc_path (en_zstd E) db d = Ok ?p" using good_doc_path(1) [OF assms(1)] Cons.prems(1) by simp
  obtain meta where meta: "doc_meta db d = Ok meta" using good_doc_meta [OF assms(1)] Cons.prems(1) by auto
  have m: "\<not> length m \<ge> cap" using Cons.prems(2) by simp
  show ?case
  proof (cases "name_kept E ctx ?p")
    case True
    let ?m = "merge_in ?p meta Filename cap m"
    have "length ?m + length ds \<le> cap" using merge_in_shape(1) [of ?p meta Filename cap m] Cons.prems(2) by simp
    from Cons.IH [OF _ this] Cons.prems(1) obtain hits where
      "filename_loop E ctx db cap ds ?m = Ok (fold (\<lambda>(p, meta). merge_in p meta Filename cap) hits ?m)"
      "length hits \<le> length ds" "fst ` set hits = {p. name_kept E ctx p \<and> (\<exists>d\<in>set ds. path_of (en_zstd E) db d = p)}"
      by auto
    then show ?thesis using True m p meta
      by (intro exI [of _ "(?p, meta) # hits"]) (auto simp: name_kept_def)
  next
    case False
    have "length m + length ds \<le> cap" using Cons.prems(2) by simp
    from Cons.IH [OF _ this] Cons.prems(1) obtain hits where
      "filename_loop E ctx db cap ds m = Ok (fold (\<lambda>(p, meta). merge_in p meta Filename cap) hits m)"
      "length hits \<le> length ds" "fst ` set hits = {p. name_kept E ctx p \<and> (\<exists>d\<in>set ds. path_of (en_zstd E) db d = p)}"
      by auto
    then show ?thesis using False m p by (intro exI [of _ hits]) (auto simp: name_kept_def)
  qed
qed simp

lemma overlay_hits_short:
  assumes "overlay_ok w" "distinct hits" "\<forall>(p, m)\<in>set hits. \<exists>c. live w p = Some (m, c)"
  shows "length hits < 2 ^ 32"
proof -
  have at: "\<exists>c. live w (fst h) = Some (snd h, c)" if "h \<in> set hits" for h using assms(3) that by (cases h) auto
  have "inj_on fst (set hits)"
  proof (rule inj_onI)
    fix x y assume "x \<in> set hits" "y \<in> set hits" "fst x = fst y"
    then show "x = y" using at [of x] at [of y] by (auto simp: prod_eq_iff)
  qed
  then have "length hits = card (fst ` set hits)" using assms(2) by (simp add: card_image distinct_card)
  also have "\<dots> \<le> card (set (o_paths w))"
    using assms(3) live_iff [OF assms(1)] by (intro card_mono) (fastforce simp: in_set_conv_nth)+
  also have "\<dots> \<le> length (o_paths w)" by (rule card_length)
  also have "\<dots> < 2 ^ 32" by (rule overlay_okD(1) [OF assms(1)])
  finally show ?thesis .
qed

subsection \<open>A search over one database\<close>

definition cold_name :: "engines \<Rightarrow> query_ctx \<Rightarrow> db_entry \<Rightarrow> str \<Rightarrow> bool" where
  "cold_name E ctx entry p \<longleftrightarrow> (qc_path_mode ctx = Basename \<longrightarrow> basename_hit (en_unicode E) ctx p) \<and>
     (\<exists>d < r_num_docs (e_db entry). path_of (en_zstd E) (e_db entry) d = p) \<and>
     query_matches (en_unicode E) (qc_needle ctx) (qc_fn_case ctx) p"

definition filename_found :: "engines \<Rightarrow> query_ctx \<Rightarrow> db_entry \<Rightarrow> str \<Rightarrow> bool" where
  "filename_found E ctx entry p \<longleftrightarrow>
     (if suppresses (e_overlay entry) p
      then live (e_overlay entry) p \<noteq> None \<and>
        name_hit (en_unicode E) (qc_needle ctx) (qc_fn_case ctx) (qc_path_mode ctx = Basename) p
      else cold_name E ctx entry p)"

definition text_found :: "query_ctx \<Rightarrow> db_entry \<Rightarrow> str \<Rightarrow> bool" where
  "text_found ctx entry p \<longleftrightarrow>
     (let needle = qc_needle ctx; cs = qc_case_sensitive ctx in
      if suppresses (e_overlay entry) p
      then \<exists>m c. live (e_overlay entry) p = Some (m, Some c) \<and> content_hit c (if cs then needle else fold_bytes needle) cs
      else content_found (e_shards entry) needle cs p)"

definition layers_kind :: "bool \<Rightarrow> bool \<Rightarrow> match_kind option" where
  "layers_kind f c = (if f then Some (if c then Both else Filename) else if c then Some Content else None)"


text \<open>A merge that holds what the two layers found.\<close>

definition holds_layers :: "(str \<Rightarrow> bool) \<Rightarrow> (str \<Rightarrow> bool) \<Rightarrow> nat \<Rightarrow> merged \<Rightarrow> bool" where
  "holds_layers f c n m \<longleftrightarrow>
     (\<forall>p. kinds m p = layers_kind (f p) (c p)) \<and> length m \<le> n \<and> distinct (map fst m)"

lemma holds_layersI:
  "(\<And>p. kinds m p = layers_kind (f p) (c p)) \<Longrightarrow> length m \<le> n' \<Longrightarrow> n' \<le> n \<Longrightarrow> distinct (map fst m) \<Longrightarrow>
    holds_layers f c n m"
  by (simp add: holds_layers_def)

lemma holds_layersD:
  assumes "holds_layers f c n m"
  shows "kinds m p = layers_kind (f p) (c p)" "length m \<le> n" "distinct (map fst m)"
  using assms by (simp_all add: holds_layers_def)

lemma holds_layers_cong:
  "holds_layers f c n m \<Longrightarrow> (\<And>p. f p = f' p) \<Longrightarrow> (\<And>p. c p = c' p) \<Longrightarrow> n \<le> n' \<Longrightarrow> holds_layers f' c' n' m"
  by (auto simp: holds_layers_def)

lemma holds_nothing: "holds_layers (\<lambda>p. False) (\<lambda>p. False) 0 []"
  by (simp add: holds_layers_def layers_kind_def)

lemma layer_names:
  assumes "db_good (en_zstd E) (en_unicode E) (e_db entry)" "case_ok (en_zstd E) (en_unicode E) (e_db entry) (qc_fn_case ctx)"
    "valid_utf8 (qc_needle ctx)" "qc_eff_limit ctx = None" "2 ^ 32 \<le> cap"
  shows "\<exists>m. filename_layer E ctx entry cap = Ok m \<and>
    holds_layers (\<lambda>p. qc_want_fn ctx \<and> in_scope p (qc_scope ctx) \<and> cold_name E ctx entry p) (\<lambda>p. False) (2 ^ 32) m"
proof (cases "qc_want_fn ctx")
  case True
  let ?db = "e_db entry"
  let ?ds = "filter (\<lambda>d. query_matches (en_unicode E) (qc_needle ctx) (qc_fn_case ctx) (path_of (en_zstd E) ?db d))
      (all_docids (r_num_docs ?db))"
  have ds: "query_docids (en_zstd E) (en_unicode E) ?db (qc_needle ctx) (qc_fn_case ctx) None = Ok ?ds"
    using query_docids_exact [OF assms(1-3), of None] by (simp add: take_limit_def)
  have l: "length ?ds < 2 ^ 32" by (rule length_filter_docids)
  then have l': "length ([] :: merged) + length ?ds \<le> cap" using assms(5) by simp
  have "\<forall>d\<in>set ?ds. d < r_num_docs ?db" by (auto simp: set_all_docids)
  from filename_loop_good [OF assms(1) this l'] obtain hits where
    h: "filename_loop E ctx ?db cap ?ds [] = Ok (fold (\<lambda>(p, meta). merge_in p meta Filename cap) hits [])"
    "length hits \<le> length ?ds" "fst ` set hits = {p. name_kept E ctx p \<and> (\<exists>d\<in>set ?ds. path_of (en_zstd E) ?db d = p)}"
    by blast
  have cap: "length ([] :: merged) + length hits \<le> cap" using h(2) l' by simp
  have "holds_layers (\<lambda>p. qc_want_fn ctx \<and> in_scope p (qc_scope ctx) \<and> cold_name E ctx entry p) (\<lambda>p. False) (2 ^ 32)
      (fold (\<lambda>(p, meta). merge_in p meta Filename cap) hits [])"
    by (rule holds_layersI [where n' = "length hits"])
      (use merge_fold [OF cap, of Filename] le_trans [OF h(2) less_imp_le [OF l]] in
        \<open>auto simp: h(3) True set_all_docids layers_kind_def join_kind_def cold_name_def name_kept_def\<close>)
  then show ?thesis using True h(1) by (simp add: filename_layer_def assms(4) ds)
next
  case False
  then show ?thesis using holds_nothing by (auto simp: filename_layer_def elim: holds_layers_cong)
qed

lemma join_layers [simp]:
  "join_kind Filename (layers_kind f c) = layers_kind True c"
  "join_kind Content (layers_kind f c) = layers_kind f True"
  by (simp_all add: layers_kind_def join_kind_def)

lemma layer_content:
  assumes "holds_layers f (\<lambda>p. False) n m" "\<forall>h\<in>set content. snd (snd h) = Content" "n + length content \<le> cap"
  shows "holds_layers f (\<lambda>p. p \<in> fst ` set content) (n + length content)
    (fold (\<lambda>(p, meta, kind). merge_in p meta kind cap) content m)"
proof -
  define hits where "hits = map (\<lambda>(p, meta, kind). (p, meta)) content"
  have "fold (\<lambda>(p, meta, kind). merge_in p meta kind cap) content m = fold (\<lambda>(p, meta). merge_in p meta Content cap) hits m"
    using assms(2) unfolding hits_def by (induction content arbitrary: m) auto
  moreover have "fst ` set hits = fst ` set content" "length hits = length content"
    by (force simp: hits_def)+
  moreover have "length m + length hits \<le> cap" using assms(1,3) by (simp add: holds_layers_def hits_def)
  note merge_fold [OF this, of Content]
  ultimately show ?thesis using holds_layersD [OF assms(1)]
    by (intro holds_layersI [where n' = "length m + length content"]) auto
qed

lemma layer_drop:
  assumes "holds_layers f c n m"
  shows "holds_layers (\<lambda>p. P p \<and> f p) (\<lambda>p. P p \<and> c p) n (filter (\<lambda>e. P (fst e)) m)"
proof -
  have "length (filter (\<lambda>e. P (fst e)) m) \<le> n" using assms length_filter_le [of "\<lambda>e. P (fst e)" m] unfolding holds_layers_def by linarith
  moreover have "kinds (filter (\<lambda>e. P (fst e)) m) p = (if P p then kinds m p else None)" for p
    by (simp add: kinds_def map_of_filter_key [where P = P])
  moreover have "distinct (map fst (filter (\<lambda>e. P (fst e)) m))"
    using assms by (auto simp: holds_layers_def distinct_map intro: inj_on_subset)
  ultimately show ?thesis using assms by (simp add: holds_layers_def layers_kind_def)
qed

lemma layer_overlay:
  assumes "holds_layers f c n m" "n + length hits \<le> cap"
  shows "holds_layers (\<lambda>p. f p \<or> p \<in> fst ` set hits \<and> in_scope p scope) c (n + length hits)
      (overlay_merge scope cap Filename hits m)"
    "holds_layers f (\<lambda>p. c p \<or> p \<in> fst ` set hits \<and> in_scope p scope) (n + length hits)
      (overlay_merge scope cap Content hits m)"
proof -
  have "length m + length hits \<le> cap" using assms by (simp add: holds_layers_def)
  note * = overlay_merge_map [OF this, of scope] and m = holds_layersD [OF assms(1)]
  show "holds_layers (\<lambda>p. f p \<or> p \<in> fst ` set hits \<and> in_scope p scope) c (n + length hits)
      (overlay_merge scope cap Filename hits m)"
    by (rule holds_layersI [where n' = "length m + length hits"]) (use *[of Filename] m in auto)
  show "holds_layers f (\<lambda>p. c p \<or> p \<in> fst ` set hits \<and> in_scope p scope) (n + length hits)
      (overlay_merge scope cap Content hits m)"
    by (rule holds_layersI [where n' = "length m + length hits"]) (use *[of Content] m in auto)
qed


definition entry_good :: "engines \<Rightarrow> bool \<Rightarrow> db_entry \<Rightarrow> bool" where
  "entry_good E cs entry \<longleftrightarrow>
     db_good (en_zstd E) (en_unicode E) (e_db entry) \<and> case_ok (en_zstd E) (en_unicode E) (e_db entry) cs \<and>
     shards_good (en_memmem E) (e_shards entry) \<and> length (e_shards entry) < 2 ^ 31 \<and> overlay_ok (e_overlay entry)"

definition literal_ctx :: "query_ctx \<Rightarrow> bool" where
  "literal_ctx ctx \<longleftrightarrow> valid_utf8 (qc_needle ctx) \<and> qc_folded ctx = fold_bytes (qc_needle ctx) \<and>
     qc_re_content ctx = None \<and> qc_eff_limit ctx = None \<and> qc_limit ctx = None"

lemma unwrap_or_Ok [simp]: "unwrap_or a (Ok x) = Ok x"
  by (simp add: unwrap_or_def)

lemma layer_texts:
  assumes "shards_good (en_memmem E) (e_shards entry)" "literal_ctx ctx" "holds_layers f (\<lambda>p. False) n m"
    "n + length (e_shards entry) * 2 ^ 32 \<le> cap"
  shows "\<exists>m'. content_layer E ctx entry cap m = Ok m' \<and>
    holds_layers f (\<lambda>p. qc_want_ct ctx \<and> in_scope p (qc_scope ctx) \<and>
      content_found (e_shards entry) (qc_needle ctx) (qc_case_sensitive ctx) p) (n + length (e_shards entry) * 2 ^ 32) m'"
proof (cases "qc_want_ct ctx")
  case True
  note lit = assms(2) [unfolded literal_ctx_def]
  obtain hits where h: "shards_query E (e_shards entry) (qc_folded ctx) (qc_needle ctx) (qc_case_sensitive ctx) (qc_scope ctx) None = Ok hits"
    "length hits \<le> length (e_shards entry) * 2 ^ 32" "\<forall>h\<in>set hits. snd (snd h) = Content"
    "fst ` set hits = {p. content_found (e_shards entry) (qc_needle ctx) (qc_case_sensitive ctx) p \<and> in_scope p (qc_scope ctx)}"
    using shards_query_good [OF assms(1)] lit by metis
  have "n + length hits \<le> cap" using h(2) assms(4) by linarith
  note holds_layers_cong [OF layer_content [OF assms(3) h(3) this]]
  then have "holds_layers f (\<lambda>p. qc_want_ct ctx \<and> in_scope p (qc_scope ctx) \<and>
      content_found (e_shards entry) (qc_needle ctx) (qc_case_sensitive ctx) p) (n + length (e_shards entry) * 2 ^ 32)
      (fold (\<lambda>(path, meta, kind). merge_in path meta kind cap) hits m)"
    using h(2,4) True by (auto simp: conj_commute)
  then show ?thesis using h(1) True lit by (simp add: content_layer_def)
next
  case False
  then show ?thesis by (auto simp: content_layer_def intro: holds_layers_cong [OF assms(3)])
qed

lemma nothing_shadowed: "overlay_ok w \<Longrightarrow> \<not> shadows_anything w \<Longrightarrow> \<not> suppresses w p"
  using overlay_okD(5) [of w p] by (fastforce simp: shadows_anything_def suppresses_def)


text \<open>The overlay on top: what it shadows is decided by it alone.\<close>

lemma overlay_layer_names:
  assumes "overlay_ok ov" "holds_layers f c n m" "n + 2 ^ 32 \<le> cap" "fresh ov m"
    "want \<Longrightarrow> \<exists>hs. hits = hs \<and> distinct hs \<and> set hs = {(p, meta). \<exists>c. live ov p = Some (meta, c) \<and> P p c}"
  shows "let m' = (if want then overlay_merge scope cap Filename hits m else m) in
    holds_layers (\<lambda>p. f p \<or> want \<and> in_scope p scope \<and> (\<exists>meta c. live ov p = Some (meta, c) \<and> P p c)) c (n + 2 ^ 32) m' \<and> fresh ov m'"
    "let m' = (if want then overlay_merge scope cap Content hits m else m) in
    holds_layers f (\<lambda>p. c p \<or> want \<and> in_scope p scope \<and> (\<exists>meta c. live ov p = Some (meta, c) \<and> P p c)) (n + 2 ^ 32) m' \<and> fresh ov m'"
proof -
  have hits: "length hits \<le> 2 ^ 32" "\<forall>(p, meta)\<in>set hits. \<exists>c. live ov p = Some (meta, c)"
    "p \<in> fst ` set hits \<longleftrightarrow> (\<exists>meta c. live ov p = Some (meta, c) \<and> P p c)" if want for p
  proof -
    have h: "distinct hits" "set hits = {(p, meta). \<exists>c. live ov p = Some (meta, c) \<and> P p c}" using assms(5) that by auto
    then show live: "\<forall>(p, meta)\<in>set hits. \<exists>c. live ov p = Some (meta, c)" by auto
    show "length hits \<le> 2 ^ 32" using overlay_hits_short [OF assms(1) h(1) live] by simp
    show "p \<in> fst ` set hits \<longleftrightarrow> (\<exists>meta c. live ov p = Some (meta, c) \<and> P p c)" unfolding h(2) by force
  qed
  have n: "n + length hits \<le> cap" if want using hits(1) assms(3) that by simp
  have l: "length m + length hits \<le> cap" if want using n [OF that] holds_layersD(2) [OF assms(2)] by simp
  show "let m' = (if want then overlay_merge scope cap Filename hits m else m) in
    holds_layers (\<lambda>p. f p \<or> want \<and> in_scope p scope \<and> (\<exists>meta c. live ov p = Some (meta, c) \<and> P p c)) c (n + 2 ^ 32) m' \<and> fresh ov m'"
  proof (cases want)
    case True
    then have "holds_layers (\<lambda>p. f p \<or> want \<and> in_scope p scope \<and> (\<exists>meta c. live ov p = Some (meta, c) \<and> P p c)) c (n + 2 ^ 32) (overlay_merge scope cap Filename hits m)"
      by (intro holds_layers_cong [OF layer_overlay(1) [OF assms(2) n]] add_left_mono hits(1)) (auto simp: hits(3))
    then show ?thesis using True overlay_merge_fresh [OF l assms(4) hits(2)] by (simp add: Let_def)
  next
    case False
    then show ?thesis using assms(2,4) by (auto elim: holds_layers_cong)
  qed
  show "let m' = (if want then overlay_merge scope cap Content hits m else m) in
    holds_layers f (\<lambda>p. c p \<or> want \<and> in_scope p scope \<and> (\<exists>meta c. live ov p = Some (meta, c) \<and> P p c)) (n + 2 ^ 32) m' \<and> fresh ov m'"
  proof (cases want)
    case True
    then have "holds_layers f (\<lambda>p. c p \<or> want \<and> in_scope p scope \<and> (\<exists>meta c. live ov p = Some (meta, c) \<and> P p c)) (n + 2 ^ 32) (overlay_merge scope cap Content hits m)"
      by (intro holds_layers_cong [OF layer_overlay(2) [OF assms(2) n]] add_left_mono hits(1)) (auto simp: hits(3))
    then show ?thesis using True overlay_merge_fresh [OF l assms(4) hits(2)] by (simp add: Let_def)
  next
    case False
    then show ?thesis using assms(2,4) by (auto elim: holds_layers_cong)
  qed
qed

lemma live_texts: "{(p, m). \<exists>c. live ov p = Some (m, c) \<and> (\<exists>b. c = Some b \<and> Q b)} = {(p, m). \<exists>c. live ov p = Some (m, Some c) \<and> Q c}"
  by auto

lemma overlay_layer_exact:
  assumes "memmem_ok (en_memmem E)" "overlay_ok ov" "literal_ctx ctx" "holds_layers f c n m" "n + 2 ^ 32 + 2 ^ 32 \<le> cap"
  shows "\<exists>m'. overlay_layer E ctx ov cap m = Ok m' \<and> fresh ov m' \<and>
    holds_layers
      (\<lambda>p. \<not> suppresses ov p \<and> f p \<or> qc_want_fn ctx \<and> in_scope p (qc_scope ctx) \<and>
        (\<exists>meta c. live ov p = Some (meta, c) \<and>
          name_hit (en_unicode E) (qc_needle ctx) (qc_fn_case ctx) (qc_path_mode ctx = Basename) p))
      (\<lambda>p. \<not> suppresses ov p \<and> c p \<or> qc_want_ct ctx \<and> in_scope p (qc_scope ctx) \<and>
        (\<exists>meta c. live ov p = Some (meta, c) \<and> (\<exists>b. c = Some b \<and>
          content_hit b (if qc_case_sensitive ctx then qc_needle ctx else fold_bytes (qc_needle ctx)) (qc_case_sensitive ctx))))
      (n + 2 ^ 32 + 2 ^ 32) m'"
proof -
  note lit = assms(3) [unfolded literal_ctx_def]
  define m1 where "m1 = (if shadows_anything ov then filter (\<lambda>e. \<not> suppresses ov (fst e)) m else m)"
  have m1: "m1 = filter (\<lambda>e. \<not> suppresses ov (fst e)) m"
  proof (cases "shadows_anything ov")
    case False
    then have "\<not> suppresses ov p" for p using nothing_shadowed assms(2) by blast
    then show ?thesis by (simp add: m1_def)
  qed (simp add: m1_def)
  have cold: "holds_layers (\<lambda>p. \<not> suppresses ov p \<and> f p) (\<lambda>p. \<not> suppresses ov p \<and> c p) n m1" "fresh ov m1"
    unfolding m1 by (rule layer_drop [OF assms(4), of "\<lambda>p. \<not> suppresses ov p"], rule fresh_dropped)
  have cap: "n + 2 ^ 32 \<le> cap" "n + 2 ^ 32 + 2 ^ 32 \<le> cap" using assms(5) by simp_all
  let ?names = "filename_query (en_unicode E) ov (qc_needle ctx) (qc_fn_case ctx) (qc_path_mode ctx = Basename) None"
  have names: "\<exists>hs. ?names = hs \<and> distinct hs \<and> set hs = {(p, meta). \<exists>c. live ov p = Some (meta, c) \<and>
      name_hit (en_unicode E) (qc_needle ctx) (qc_fn_case ctx) (qc_path_mode ctx = Basename) p}"
    using filename_query_view [OF assms(2), of "en_unicode E" "qc_needle ctx" "qc_fn_case ctx" "qc_path_mode ctx = Basename" None]
    by (simp add: take_limit_def)
  define m2 where "m2 = (if qc_want_fn ctx then overlay_merge (qc_scope ctx) cap Filename ?names m1 else m1)"
  note m2 = overlay_layer_names(1) [OF assms(2) cold(1) cap(1) cold(2) names, where scope = "qc_scope ctx" and want = "qc_want_fn ctx", unfolded Let_def, folded m2_def]
  obtain hits where hits: "content_query (en_memmem E) ov (fold_bytes (qc_needle ctx)) (qc_needle ctx) (qc_case_sensitive ctx) None = Ok hits"
    "distinct hits" "set hits = {(p, meta). \<exists>c. live ov p = Some (meta, c) \<and> (\<exists>b. c = Some b \<and>
      content_hit b (if qc_case_sensitive ctx then qc_needle ctx else fold_bytes (qc_needle ctx)) (qc_case_sensitive ctx))}"
    using content_query_view [OF assms(2,1), of "qc_needle ctx" "qc_case_sensitive ctx" None]
    unfolding live_texts take_limit_def by auto
  then have texts: "\<exists>hs. hits = hs \<and> distinct hs \<and> set hs = {(p, meta). \<exists>c. live ov p = Some (meta, c) \<and> (\<exists>b. c = Some b \<and>
      content_hit b (if qc_case_sensitive ctx then qc_needle ctx else fold_bytes (qc_needle ctx)) (qc_case_sensitive ctx))}" by blast
  define m3 where "m3 = (if qc_want_ct ctx then overlay_merge (qc_scope ctx) cap Content hits m2 else m2)"
  note m3 = overlay_layer_names(2) [OF assms(2) m2 [THEN conjunct1] cap(2) m2 [THEN conjunct2] texts,
    where scope = "qc_scope ctx" and want = "qc_want_ct ctx", unfolded Let_def, folded m3_def]
  have "overlay_layer E ctx ov cap m = Ok m3"
    by (simp add: overlay_layer_def m3_def m2_def m1_def lit hits(1))
  then show ?thesis using m3 by blast
qed


definition demo_engines :: engines where
  "demo_engines = \<lparr>en_zstd = stored_zstd, en_unicode = ascii_tables, en_memmem = naive_find,
     en_find_iter = (\<lambda>hay needle. filter (\<lambda>i. take (length needle) (drop i hay) = needle) [0..<length hay]),
     en_regex = (\<lambda>r. Inl ''unsupported'')\<rparr>"

definition demo_ctx :: query_ctx where
  "demo_ctx = \<lparr>qc_folded = lit ''abc'', qc_needle = lit ''abc'', qc_case_sensitive = False, qc_fn_case = False,
     qc_re_content = None, qc_scope = None, qc_eff_limit = None, qc_limit = None, qc_want_fn = True, qc_want_ct = True,
     qc_path_mode = FullPath\<rparr>"

text \<open>An entry over the demo database and shard; the overlay replaced one file and deleted another.\<close>

definition demo_entry :: "bytes \<Rightarrow> bytes \<Rightarrow> overlay \<Rightarrow> db_entry" where
  "demo_entry F S w = \<lparr>e_name = lit ''default'', e_root = None, e_db_path = lit ''index.dfdb'',
     e_db = db_opened stored_zstd demo_builder F, e_shards = [S], e_overlay = w\<rparr>"

lemma demo_entry_ok:
  "\<exists>F S w. finish stored_zstd demo_builder = Some F \<and> apply_records demo_records empty_overlay = Ok w \<and>
     entry_good demo_engines False (demo_entry F S w) \<and> live w = [[0x61] \<mapsto> (default_meta, Some [0x78, 0x79, 0x7A])] \<and>
     tombstones w = {[0x62]} \<and> (\<exists>table. finished stored_zstd ascii_tables demo_builder table F)"
proof -
  obtain F where F: "finish stored_zstd demo_builder = Some F" using finish_finished [OF demo_wf] by blast
  obtain table where fin: "finished stored_zstd ascii_tables demo_builder table F"
    using finish_Some_finished [OF demo_wf F demo_length [OF F]] by auto
  obtain S t2 where S: "finish_shard 5 (fill_shard demo_files (new_shard 1 0)) = Some S"
    "length S < 2 ^ 32 \<longrightarrow> shard_finished 5 (fill_shard demo_files (new_shard 1 0)) (map file_content demo_files) t2 S"
    using finish_shard_parts [OF fill_new [OF demo_files_ok, of 1 0], of 5] by blast
  have S2: "shard_finished 5 (fill_shard demo_files (new_shard 1 0)) (map file_content demo_files) t2 S"
    using S demo_shard_length [OF S(1)] by blast
  have l: "length (o_paths empty_overlay) + length demo_records < 2 ^ 32"
    by (simp add: demo_records_def empty_overlay_def)
  obtain w where w: "apply_records demo_records empty_overlay = Ok w" "overlay_ok w"
    "view_of w = fold record_spec demo_records (view_of empty_overlay)"
    using records_refine [OF overlay_ok_empty l] by auto
  have lv: "live w = [[0x61] \<mapsto> (default_meta, Some [0x78, 0x79, 0x7A])]" "tombstones w = {[0x62]}"
    using w(3) by (auto simp: view_of_def view_empty [unfolded view_of_def] demo_records_def fun_eq_iff)
  have "shard_good naive_find (shard_opened 5 (fill_shard demo_files (new_shard 1 0)) t2 S)"
    using naive_find_ok S2 unfolding shard_good_def by blast
  then have "shards_good naive_find [S]" using open_shard_finished [OF S2] by (simp add: shards_good_def)
  moreover have "db_good stored_zstd ascii_tables (db_opened stored_zstd demo_builder F)"
    using fin stored_zstd_ok by (auto simp: db_good_def)
  ultimately have "entry_good demo_engines False (demo_entry F S w)"
    using w(2) by (simp add: entry_good_def demo_engines_def demo_entry_def case_ok_def)
  then show ?thesis using F w(1) lv fin by blast
qed

lemma demo_ctx_ok: "literal_ctx demo_ctx"
proof -
  have "valid_utf8 (lit ''abc'')" by (rule valid_ascii) code_simp
  moreover have "fold_bytes (lit ''abc'') = lit ''abc''" by code_simp
  ultimately show ?thesis by (simp add: literal_ctx_def demo_ctx_def)
qed

lemma demo_found:
  "\<exists>F S w. finish stored_zstd demo_builder = Some F \<and> apply_records demo_records empty_overlay = Ok w \<and>
     entry_good demo_engines False (demo_entry F S w) \<and> filename_found demo_engines demo_ctx (demo_entry F S w) (lit ''abc'') \<and>
     \<not> filename_found demo_engines demo_ctx (demo_entry F S w) (lit ''a'') \<and> \<not> text_found demo_ctx (demo_entry F S w) (lit ''a'')"
proof -
  obtain F S w table where e: "finish stored_zstd demo_builder = Some F" "apply_records demo_records empty_overlay = Ok w"
    "entry_good demo_engines False (demo_entry F S w)" "live w = [[0x61] \<mapsto> (default_meta, Some [0x78, 0x79, 0x7A])]"
    "tombstones w = {[0x62]}" "finished stored_zstd ascii_tables demo_builder table F"
    using demo_entry_ok by blast
  let ?e = "demo_entry F S w"
  have ov: "overlay_ok w" using e(3) by (simp add: entry_good_def demo_entry_def)
  have sup: "suppresses w p \<longleftrightarrow> p = [0x61] \<or> p = [0x62]" for p
    using suppresses_view [OF ov, of p] by (simp add: e(4,5))
  have abc: "lit ''abc'' = [0x61, 0x62, 0x63]" "lit ''a'' = [0x61]" by code_simp+
  have "query_matches ascii_tables (lit ''abc'') False (lit ''abc'')" by code_simp
  moreover have "lit ''abc'' \<in> path_of stored_zstd (db_opened stored_zstd demo_builder F) `
      {d. d < r_num_docs (db_opened stored_zstd demo_builder F)}"
    using arg_cong [where f = set, OF finished_paths [OF e(6) stored_zstd_ok]]
    unfolding set_map set_all_docids abc by (simp add: demo_paths)
  ultimately have 1: "filename_found demo_engines demo_ctx ?e (lit ''abc'')"
    by (auto simp: filename_found_def cold_name_def demo_entry_def demo_engines_def demo_ctx_def sup abc)
  have 2: "\<not> filename_found demo_engines demo_ctx ?e (lit ''a'')"
  proof -
    have "\<not> name_hit ascii_tables (lit ''abc'') False False [0x61]" by code_simp
    then show ?thesis by (simp add: filename_found_def demo_entry_def demo_engines_def demo_ctx_def sup abc(2))
  qed
  have 3: "\<not> text_found demo_ctx ?e (lit ''a'')"
  proof -
    have "\<not> content_hit [0x78, 0x79, 0x7A] (fold_bytes (lit ''abc'')) False" by code_simp
    then show ?thesis by (simp add: text_found_def demo_entry_def demo_ctx_def sup e(4) abc(2))
  qed
  show ?thesis using e(1-3) 1 2 3 by blast
qed

lemma query_entry_holds:
  assumes "memmem_ok (en_memmem E)" and "entry_good E (qc_fn_case ctx) entry" and "literal_ctx ctx"
  shows "\<exists>m. query_entry E ctx entry usize_max = Ok m \<and> fresh (e_overlay entry) m \<and>
    holds_layers (\<lambda>p. qc_want_fn ctx \<and> in_scope p (qc_scope ctx) \<and> filename_found E ctx entry p)
      (\<lambda>p. qc_want_ct ctx \<and> in_scope p (qc_scope ctx) \<and> text_found ctx entry p)
      ((3 + length (e_shards entry)) * 2 ^ 32) m"
proof -
  let ?ov = "e_overlay entry" and ?n = "2 ^ 32 + length (e_shards entry) * 2 ^ 32 :: nat"
  note ok = assms(2) [unfolded entry_good_def] and lit = assms(3) [unfolded literal_ctx_def]
  have "length (e_shards entry) * 2 ^ 32 \<le> 2 ^ 31 * 2 ^ 32" using ok by (intro mult_right_mono) auto
  then have cap: "2 ^ 32 \<le> usize_max" "?n \<le> usize_max" "?n + 2 ^ 32 + 2 ^ 32 \<le> usize_max"
    by (simp_all add: usize_max_def)
  obtain m1 where m1: "filename_layer E ctx entry usize_max = Ok m1"
    "holds_layers (\<lambda>p. qc_want_fn ctx \<and> in_scope p (qc_scope ctx) \<and> cold_name E ctx entry p) (\<lambda>p. False) (2 ^ 32) m1"
    using layer_names [of E entry ctx usize_max] ok lit cap(1) by auto
  obtain m2 where m2: "content_layer E ctx entry usize_max m1 = Ok m2"
    "holds_layers (\<lambda>p. qc_want_fn ctx \<and> in_scope p (qc_scope ctx) \<and> cold_name E ctx entry p)
      (\<lambda>p. qc_want_ct ctx \<and> in_scope p (qc_scope ctx) \<and>
        content_found (e_shards entry) (qc_needle ctx) (qc_case_sensitive ctx) p) ?n m2"
    using layer_texts [OF _ assms(3) m1(2) cap(2)] ok by blast
  have ov: "overlay_ok ?ov" using ok by simp
  note m3 = overlay_layer_exact [OF assms(1) ov assms(3) m2(2) cap(3)]
  obtain m where m: "overlay_layer E ctx ?ov usize_max m2 = Ok m" "fresh ?ov m"
    "holds_layers (\<lambda>p. \<not> suppresses ?ov p \<and> qc_want_fn ctx \<and> in_scope p (qc_scope ctx) \<and> cold_name E ctx entry p \<or>
        qc_want_fn ctx \<and> in_scope p (qc_scope ctx) \<and> (\<exists>meta c. live ?ov p = Some (meta, c) \<and>
          name_hit (en_unicode E) (qc_needle ctx) (qc_fn_case ctx) (qc_path_mode ctx = Basename) p))
      (\<lambda>p. \<not> suppresses ?ov p \<and> qc_want_ct ctx \<and> in_scope p (qc_scope ctx) \<and>
          content_found (e_shards entry) (qc_needle ctx) (qc_case_sensitive ctx) p \<or>
        qc_want_ct ctx \<and> in_scope p (qc_scope ctx) \<and> (\<exists>meta c. live ?ov p = Some (meta, c) \<and> (\<exists>b. c = Some b \<and>
          content_hit b (if qc_case_sensitive ctx then qc_needle ctx else fold_bytes (qc_needle ctx)) (qc_case_sensitive ctx))))
      (?n + 2 ^ 32 + 2 ^ 32) m"
    using m3 by blast
  have "holds_layers (\<lambda>p. qc_want_fn ctx \<and> in_scope p (qc_scope ctx) \<and> filename_found E ctx entry p)
      (\<lambda>p. qc_want_ct ctx \<and> in_scope p (qc_scope ctx) \<and> text_found ctx entry p)
      ((3 + length (e_shards entry)) * 2 ^ 32) m"
    by (rule holds_layers_cong [OF m(3)])
      (auto simp: filename_found_def text_found_def Let_def suppresses_view [OF ov] algebra_simps)
  then show ?thesis using m m1(1) m2(1) by (auto simp: query_entry_def)
qed

subsection \<open>Properties\<close>

text \<open>
  C3. A search over one database is exact. Over a built filename database, built shards and any
  replayed overlay, an unlimited literal search ends without an error and returns each path once,
  with kind Filename, Content or Both as the filename layer, the content layer or both find it in
  scope. A path the overlay shadows is found exactly when its live version matches, and carries
  that version's metadata; any other path exactly when an indexed path or the content stored in
  some shard matches.
\<close>

theorem query_entry_exact:
  assumes "memmem_ok (en_memmem E)" and "entry_good E (qc_fn_case ctx) entry" and "literal_ctx ctx"
  shows "\<exists>m. query_entry E ctx entry usize_max = Ok m \<and> distinct (map fst m) \<and> fresh (e_overlay entry) m \<and>
    (\<forall>p. kinds m p = layers_kind
      (qc_want_fn ctx \<and> in_scope p (qc_scope ctx) \<and> filename_found E ctx entry p)
      (qc_want_ct ctx \<and> in_scope p (qc_scope ctx) \<and> text_found ctx entry p))"
  using query_entry_holds [OF assms] by (fastforce simp: holds_layers_def)

theorem query_entry_exact_witness:
  "\<exists>F S w m. finish stored_zstd demo_builder = Some F \<and> apply_records demo_records empty_overlay = Ok w \<and>
     query_entry demo_engines demo_ctx (demo_entry F S w) usize_max = Ok m \<and>
     kinds m (lit ''abc'') \<noteq> None \<and> kinds m (lit ''a'') = None"
proof -
  obtain F S w where e: "finish stored_zstd demo_builder = Some F" "apply_records demo_records empty_overlay = Ok w"
    "entry_good demo_engines False (demo_entry F S w)" "filename_found demo_engines demo_ctx (demo_entry F S w) (lit ''abc'')"
    "\<not> filename_found demo_engines demo_ctx (demo_entry F S w) (lit ''a'')" "\<not> text_found demo_ctx (demo_entry F S w) (lit ''a'')"
    using demo_found by blast
  let ?e = "demo_entry F S w"
  have n: "memmem_ok (en_memmem demo_engines)" using naive_find_ok by (simp add: demo_engines_def)
  have c: "entry_good demo_engines (qc_fn_case demo_ctx) ?e" using e(3) by (simp add: demo_ctx_def)
  have w: "qc_want_fn demo_ctx" "qc_want_ct demo_ctx" "in_scope p (qc_scope demo_ctx)" for p
    by (simp_all add: demo_ctx_def in_scope_def)
  from query_entry_exact [OF n c demo_ctx_ok] obtain m where
    "query_entry demo_engines demo_ctx ?e usize_max = Ok m" "kinds m (lit ''abc'') \<noteq> None"
    "kinds m (lit ''a'') = None" using e(4-6) by (auto simp: layers_kind_def w)
  then show ?thesis using e(1,2) by blast
qed

end
