(* ===== verification/Server.thy ===== *)
theory Server
  imports SearchExact Build Config "HOL-Library.Multiset"
begin

section \<open>A request from frame to frames (crates/deepfindd/src/lib.rs)\<close>

text \<open>
  What the daemon does with one request on the snapshot of the databases it takes: the selection
  of databases, the search over each, the merge, the filters, the order and the frames of the
  answer; and the resolution of an index request. The transport is left out; \<open>shuffle\<close> is the order
  in which a hash map is iterated.
\<close>

subsection \<open>Selection\<close>

definition select :: "str option \<Rightarrow> db_entry list \<Rightarrow> db_entry list" where
  "select name es = (case name of Some n \<Rightarrow> filter (\<lambda>e. e_name e = n) es | None \<Rightarrow> es)"

definition select_named :: "str list \<Rightarrow> db_entry list \<Rightarrow> db_entry list" where
  "select_named names es = filter (\<lambda>e. e_name e \<in> set names) es"

subsection \<open>Order\<close>

fun kind_weight :: "match_kind \<Rightarrow> nat" where
  "kind_weight Both = 0"
| "kind_weight Content = 1"
| "kind_weight Filename = 2"

definition entry_depth :: "str \<Rightarrow> u32" where
  "entry_depth path = of_nat (length (filter (\<lambda>b. b = slash) (strip_dot path)))"

fun sort_entries :: "sort_mode \<Rightarrow> hit list \<Rightarrow> hit list" where
  "sort_entries SortNone es = es"
| "sort_entries SortPath es = sort_key fst es"
| "sort_entries SortKind es = sort_key (\<lambda>(p, m, k). kind_weight k) es"
| "sort_entries SortDefault es = sort_key (\<lambda>(p, m, k). (kind_weight k, entry_depth p, p)) es"

subsection \<open>One search\<close>

definition STREAM_CHUNK :: nat where "STREAM_CHUNK = 512"

definition quoted :: "str \<Rightarrow> str" where
  "quoted s = 0x27 # s @ [0x27]"

fun join_names :: "str list \<Rightarrow> str" where
  "join_names [] = []"
| "join_names [n] = n"
| "join_names (n # ns) = n @ lit '', '' @ join_names ns"

definition unknown_db :: "str \<Rightarrow> db_entry list \<Rightarrow> str" where
  "unknown_db name es =
     (let available = map e_name es in
      if available = [] then
        lit ''no registered DBs found; run '' @ quoted (lit ''deepfind db add <name> <root>'') @ lit '' first''
      else lit ''no registered DB named '' @ quoted name @ lit ''; available: '' @ join_names available)"

definition lines_of_entries :: "engines \<Rightarrow> line_query \<Rightarrow> db_entry list \<Rightarrow> line_hit list res" where
  "lines_of_entries E q es =
     fold_o (\<lambda>entry all.
       bind_o (query_lines E (e_shards entry) q) (\<lambda>hits.
       let all = all @ hits; ov = e_overlay entry;
           all = (if shadows_anything ov then filter (\<lambda>h. \<not> suppresses ov (lh_path h)) all else all) in
       bind_o (overlay_line_hits E ov q) (\<lambda>hits. Ok (all @ hits)))) es []"

definition merge_entries :: "engines \<Rightarrow> (merged \<Rightarrow> merged) \<Rightarrow> query_ctx \<Rightarrow> nat \<Rightarrow> db_entry list \<Rightarrow> merged res" where
  "merge_entries E shuffle ctx merge_cap es =
     fold_o (\<lambda>entry m.
       bind_o (query_entry E ctx entry merge_cap) (\<lambda>per.
       Ok (fold (\<lambda>(path, meta, kind). merge_in path meta kind merge_cap) (shuffle per) m))) es []"

definition expr_of :: "str option \<Rightarrow> expr option" where
  "expr_of e = (case e of None \<Rightarrow> None | Some s \<Rightarrow> (case parse_expr s of Some (Inr x) \<Rightarrow> Some x | _ \<Rightarrow> None))"

text \<open>The filters behind the merge; the times of the \<open>-newer\<close> files are looked up before.\<close>

definition keep_entry ::
  "search_options \<Rightarrow> compiled option \<Rightarrow> expr option \<Rightarrow> (str \<Rightarrow> i64 option) \<Rightarrow> str \<times> lite_meta \<times> match_kind \<Rightarrow> bool" where
  "keep_entry opts re bfs file_mtime entry = (case entry of (p, m, k) \<Rightarrow>
     passes p opts \<and>
     (if k = Filename then (case re of None \<Rightarrow> True | Some r \<Rightarrow> re_path r p) else True) \<and>
     (case bfs of
        Some e \<Rightarrow> eval_expr e p m (\<lambda>f. if f \<in> set (newer_files e) then file_mtime f else None)
      | None \<Rightarrow> True))"

definition batch_frames :: "hit list \<Rightarrow> response_frame list" where
  "batch_frames es =
     map (\<lambda>chunk. Batch (map (\<lambda>(p, m, k). p) chunk) (map (\<lambda>(p, m, k). m) chunk) (map (\<lambda>(p, m, k). k) chunk))
       (chunks STREAM_CHUNK es) @
     [Done (fold (\<lambda>chunk total. total + of_nat (length chunk)) (chunks STREAM_CHUNK es) 0)]"

definition line_frames :: "line_hit list \<Rightarrow> response_frame list" where
  "line_frames hits = map Lines (chunks STREAM_CHUNK hits) @ [Done (of_nat (length hits))]"

definition compile_regex :: "engines \<Rightarrow> bool \<Rightarrow> str option \<Rightarrow> compiled option res" where
  "compile_regex E case_sensitive regex = (case regex of
     None \<Rightarrow> Ok None
   | Some r \<Rightarrow> (case en_regex E (if case_sensitive then r else lit ''(?i)'' @ r) of
       Inl e \<Rightarrow> Err (Io (''bad regex: '' @ e))
     | Inr re \<Rightarrow> Ok (Some re)))"

definition search_needle :: "search_request \<Rightarrow> str" where
  "search_needle req = (case so_regex (sr_opts req) of
     Some r \<Rightarrow> (case longest_literal_atom r of Some a \<Rightarrow> a | None \<Rightarrow> [])
   | None \<Rightarrow> sr_query req)"

definition search_ctx :: "engines \<Rightarrow> search_request \<Rightarrow> compiled option \<Rightarrow> query_ctx" where
  "search_ctx E req re =
     (let opts = sr_opts req; needle = search_needle req;
          case_sensitive = sensitive (so_case_mode opts) (sr_query req) in
      \<lparr>qc_folded = fold_bytes (to_lowercase (en_unicode E) needle), qc_needle = needle,
       qc_case_sensitive = case_sensitive, qc_fn_case = (if re \<noteq> None then False else case_sensitive),
       qc_re_content = re, qc_scope = sr_scope req,
       qc_eff_limit = (if sr_scope req \<noteq> None then None else sr_limit req), qc_limit = sr_limit req,
       qc_want_fn = layer_filename (so_layers opts), qc_want_ct = layer_content (so_layers opts),
       qc_path_mode = so_path_mode opts\<rparr>)"

definition search_lines :: "engines \<Rightarrow> search_request \<Rightarrow> compiled option \<Rightarrow> line_query" where
  "search_lines E req re =
     (let ctx = search_ctx E req re in
      \<lparr>lq_folded = qc_folded ctx, lq_needle = qc_needle ctx, lq_case_sensitive = qc_case_sensitive ctx, lq_re = re,
       lq_scope = sr_scope req, lq_limit = sr_limit req, lq_context = so_context_lines (sr_opts req)\<rparr>)"

definition search_merge_cap :: "search_request \<Rightarrow> nat" where
  "search_merge_cap req =
     (let opts = sr_opts req in
      if so_extensions opts = [] \<and> so_types opts = [] \<and> so_excludes opts = [] \<and> so_globs opts = [] \<and> so_max_depth opts = None
      then cap_of (sr_limit req) else usize_max)"

definition handle_search ::
  "engines \<Rightarrow> (merged \<Rightarrow> merged) \<Rightarrow> (str \<Rightarrow> i64 option) \<Rightarrow> db_entry list \<Rightarrow> search_request \<Rightarrow> response_frame list res" where
  "handle_search E shuffle file_mtime snapshot req =
     (let opts = sr_opts req in
      bind_o (compile_regex E (sensitive (so_case_mode opts) (sr_query req)) (so_regex opts)) (\<lambda>re.
      let selected = map e_name (select (sr_db req) snapshot) in
      if sr_db req \<noteq> None \<and> selected = [] then Ok [Error (unknown_db (the (sr_db req)) snapshot)]
      else if so_line_numbers opts \<or> so_context_lines opts \<noteq> None then
        bind_o (lines_of_entries E (search_lines E req re) (select_named selected snapshot)) (\<lambda>hits.
        Ok (line_frames hits))
      else
        bind_o (merge_entries E shuffle (search_ctx E req re) (search_merge_cap req) (select_named selected snapshot)) (\<lambda>m.
        let bfs = expr_of (so_expr opts);
            es = filter (keep_entry opts re bfs file_mtime) (shuffle m);
            es = sort_entries (so_sort_order opts) es in
        Ok (batch_frames (take (cap_of (sr_limit req)) es)))))"

subsection \<open>An index request\<close>

text \<open>The build an index request asks for; the name of a database not registered is an error.\<close>

definition resolve_index ::
  "registry \<Rightarrow> bytes \<Rightarrow> bytes \<Rightarrow> bytes \<Rightarrow> index_request \<Rightarrow> str + bytes \<times> bytes \<times> bytes \<times> content_options" where
  "resolve_index reg home_dir default_db_path default_parent req =
     (let opts = \<lparr>co_max_file_size = (if ir_max_file_size req = 0 then DEFAULT_MAX_FILE_SIZE else ir_max_file_size req),
            co_extra_skip = ir_skip req, co_one_file_system = ir_one_file_system req, co_hidden = ir_hidden req,
            co_ignore_patterns = []\<rparr> in
      case ir_db req of
        Some name \<Rightarrow> (case List.find (\<lambda>r. db_name r = name) (db_records reg) of
          Some r \<Rightarrow> Inr (db_root r, db_path r, content_dir r, opts)
        | None \<Rightarrow> Inl (lit ''no registered DB named '' @ quoted name))
      | None \<Rightarrow> Inr (case ir_root req of Some root \<Rightarrow> root | None \<Rightarrow> home_dir, default_db_path,
          path_join default_parent (lit ''content''), opts))"

text \<open>\<open>spawn_build\<close> tells whether it accepted the build.\<close>

definition handle_index_request ::
  "(bytes \<times> bytes \<times> bytes \<times> content_options \<Rightarrow> bool) \<Rightarrow> registry \<Rightarrow> bytes \<Rightarrow> bytes \<Rightarrow> bytes \<Rightarrow> index_request \<Rightarrow> bool \<times> str" where
  "handle_index_request spawn_build reg home_dir default_db_path default_parent req =
     (case resolve_index reg home_dir default_db_path default_parent req of
        Inl message \<Rightarrow> (False, message)
      | Inr build \<Rightarrow>
          if spawn_build build
          then (True, lit ''indexing in background; run '' @ quoted (lit ''deepfind status'') @ lit '' for progress'')
          else (False, lit ''already indexing''))"

definition handle_request ::
  "engines \<Rightarrow> (merged \<Rightarrow> merged) \<Rightarrow> (str \<Rightarrow> i64 option) \<Rightarrow> (bytes \<times> bytes \<times> bytes \<times> content_options \<Rightarrow> bool) \<Rightarrow>
   registry \<Rightarrow> bytes \<Rightarrow> bytes \<Rightarrow> bytes \<Rightarrow> db_entry list \<Rightarrow> request \<Rightarrow> response_frame list res" where
  "handle_request E shuffle file_mtime spawn_build reg home_dir default_db_path default_parent snapshot request = (case request of
     Search req \<Rightarrow> handle_search E shuffle file_mtime snapshot req
   | Index req \<Rightarrow> (case handle_index_request spawn_build reg home_dir default_db_path default_parent req of
       (accepted, message) \<Rightarrow> Ok [IndexAck accepted message]))"

subsection \<open>Frames\<close>

text \<open>What a client reads off the frames.\<close>

fun frame_hits :: "response_frame \<Rightarrow> hit list" where
  "frame_hits (Batch paths metas ks) = zip paths (zip metas ks)"
| "frame_hits f = []"

fun frame_lines :: "response_frame \<Rightarrow> line_hit list" where
  "frame_lines (Lines hits) = hits"
| "frame_lines f = []"

definition answer_hits :: "response_frame list \<Rightarrow> hit list" where
  "answer_hits fs = concat (map frame_hits fs)"

definition answer_lines :: "response_frame list \<Rightarrow> line_hit list" where
  "answer_lines fs = concat (map frame_lines fs)"

text \<open>A lone error; or batches of at most 512 results or lines, then their number.\<close>

definition batch_ok :: "response_frame \<Rightarrow> bool" where
  "batch_ok f \<longleftrightarrow> (\<exists>paths metas ks. f = Batch paths metas ks \<and> 0 < length paths \<and> length paths \<le> STREAM_CHUNK \<and>
     length metas = length paths \<and> length ks = length paths)"

definition lines_ok :: "response_frame \<Rightarrow> bool" where
  "lines_ok f \<longleftrightarrow> (\<exists>hits. f = Lines hits \<and> 0 < length hits \<and> length hits \<le> STREAM_CHUNK)"

definition answer_ok :: "response_frame list \<Rightarrow> bool" where
  "answer_ok fs \<longleftrightarrow> (\<exists>msg. fs = [Error msg]) \<or>
     (\<exists>body. fs = body @ [Done (of_nat (length (answer_hits body) + length (answer_lines body)))] \<and>
       (list_all batch_ok body \<or> list_all lines_ok body))"

lemma chunks_ne: "c \<in> set (chunks k xs) \<Longrightarrow> c \<noteq> []"
  by (induction k xs rule: chunks.induct) (subst (asm) (2) chunks.simps, auto split: if_splits)

lemma stream_chunk: "c \<in> set (chunks STREAM_CHUNK xs) \<Longrightarrow> 0 < length c \<and> length c \<le> STREAM_CHUNK"
  using chunks_ne chunks_length by blast

lemma concat_stream [simp]: "concat (chunks STREAM_CHUNK xs) = xs"
  by (simp add: STREAM_CHUNK_def)

lemma zip_columns: "zip (map (\<lambda>(p, m, k). p) es) (zip (map (\<lambda>(p, m, k). m) es) (map (\<lambda>(p, m, k). k) es)) = es"
  by (induction es) auto

lemma sum_lengths: "fold (\<lambda>c t. t + of_nat (length c)) cs t = t + (of_nat (length (concat cs)) :: u32)"
  by (induction cs arbitrary: t) (simp_all add: add.assoc)

lemma answer_hits_batches: "answer_hits (batch_frames es) = es"
  by (simp add: answer_hits_def batch_frames_def comp_def zip_columns)

lemma batch_frames_ok: "answer_ok (batch_frames es)"
proof -
  let ?body = "map (\<lambda>chunk. Batch (map (\<lambda>(p, m, k). p) chunk) (map (\<lambda>(p, m, k). m) chunk) (map (\<lambda>(p, m, k). k) chunk))
      (chunks STREAM_CHUNK es)"
  have "list_all batch_ok ?body" using stream_chunk by (auto simp: list_all_iff batch_ok_def)
  moreover have "answer_hits ?body = es" by (simp add: answer_hits_def comp_def zip_columns)
  moreover have "answer_lines ?body = []" by (simp add: answer_lines_def comp_def)
  ultimately show ?thesis unfolding answer_ok_def batch_frames_def
    by (intro disjI2 exI [of _ ?body]) (simp add: sum_lengths)
qed

lemma line_frames_ok: "answer_ok (line_frames hits)"
proof -
  let ?body = "map Lines (chunks STREAM_CHUNK hits)"
  have "list_all lines_ok ?body" using stream_chunk by (auto simp: list_all_iff lines_ok_def)
  moreover have "answer_lines ?body = hits" by (simp add: answer_lines_def comp_def)
  moreover have "answer_hits ?body = []" by (simp add: answer_hits_def comp_def)
  ultimately show ?thesis unfolding answer_ok_def line_frames_def by (intro disjI2 exI [of _ ?body]) simp
qed

lemma search_frames:
  "handle_search E shuffle file_mtime snapshot req = Ok fs \<Longrightarrow>
     fs = [Error (unknown_db (the (sr_db req)) snapshot)] \<or> (\<exists>hits. fs = line_frames hits) \<or>
     (\<exists>es. fs = batch_frames (take (cap_of (sr_limit req)) es))"
  by (auto simp: handle_search_def Let_def bind_o_eq_Ok split: if_splits)

subsection \<open>Merging the databases\<close>

lemma kinds_Cons: "kinds ((p, meta, k) # m) q = (if q = p then Some k else kinds m q)"
  by (simp add: kinds_def)

lemma fold_merge_kinds:
  assumes "length m + length per \<le> cap" "distinct (map fst per)"
  shows "kinds (fold (\<lambda>(p, meta, k). merge_in p meta k cap) per m) q =
      (case kinds per q of None \<Rightarrow> kinds m q | Some k \<Rightarrow> join_kind k (kinds m q)) \<and>
    length (fold (\<lambda>(p, meta, k). merge_in p meta k cap) per m) \<le> length m + length per \<and>
    (distinct (map fst m) \<longrightarrow> distinct (map fst (fold (\<lambda>(p, meta, k). merge_in p meta k cap) per m)))"
  using assms
proof (induction per arbitrary: m)
  case (Cons h per)
  obtain p meta k where h: "h = (p, meta, k)" by (cases h)
  let ?m = "merge_in p meta k cap m"
  have l: "length ?m \<le> Suc (length m)" by (rule merge_in_shape)
  have "kinds ?m q = (if q = p then join_kind k (kinds m q) else kinds m q)" for q
    using Cons.prems by (auto simp: kinds_def merge_in_map join_kind_def split: option.split)
  moreover have "kinds per p = None" using Cons.prems(2) by (simp add: h kinds_def map_of_eq_None_iff)
  moreover have "length ?m + length per \<le> cap" "distinct (map fst per)" using Cons.prems l by simp_all
  note Cons.IH [OF this] merge_in_shape(2) [of m p meta k cap]
  ultimately show ?case using l by (auto simp: h kinds_Cons split: option.split)
qed simp

lemma map_of_shuffled:
  assumes "distinct (map fst xs)" "mset ys = mset xs"
  shows "map_of ys = map_of xs" "distinct (map fst ys)" "length ys = length xs"
proof -
  have "mset (map fst ys) = mset (map fst xs)" using assms(2) by simp
  then show d: "distinct (map fst ys)" using assms(1) by (metis mset_eq_imp_distinct_iff)
  show "length ys = length xs" using assms(2) by (metis size_mset)
  show "map_of ys = map_of xs"
  proof
    fix k
    have "map_of ys k = Some v \<longleftrightarrow> map_of xs k = Some v" for v
      using d assms by (metis map_of_eq_Some_iff mset_eq_setD)
    then show "map_of ys k = map_of xs k" by (metis option.exhaust)
  qed
qed

definition iteration_order :: "(merged \<Rightarrow> merged) \<Rightarrow> bool" where
  "iteration_order shuffle \<longleftrightarrow> (\<forall>m. mset (shuffle m) = mset m)"

lemma join_layers_kind:
  "(case layers_kind f c of None \<Rightarrow> layers_kind f' c' | Some k \<Rightarrow> join_kind k (layers_kind f' c')) =
     layers_kind (f \<or> f') (c \<or> c')"
  by (auto simp: layers_kind_def join_kind_def)

lemma merge_entries_holds:
  assumes "memmem_ok (en_memmem E)" "literal_ctx ctx" "iteration_order shuffle"
    "\<forall>e\<in>set es. entry_good E (qc_fn_case ctx) e" "sum_list (map (\<lambda>e. 3 + length (e_shards e)) es) < 2 ^ 31"
  shows "\<exists>m. merge_entries E shuffle ctx usize_max es = Ok m \<and>
    holds_layers (\<lambda>p. qc_want_fn ctx \<and> in_scope p (qc_scope ctx) \<and> (\<exists>e\<in>set es. filename_found E ctx e p))
      (\<lambda>p. qc_want_ct ctx \<and> in_scope p (qc_scope ctx) \<and> (\<exists>e\<in>set es. text_found ctx e p))
      (sum_list (map (\<lambda>e. 3 + length (e_shards e)) es) * 2 ^ 32) m"
proof -
  define step where "step = (\<lambda>entry m. bind_o (query_entry E ctx entry usize_max) (\<lambda>per.
       Ok (fold (\<lambda>(path, meta, kind). merge_in path meta kind usize_max) (shuffle per) m)))"
  define S where "S = (\<lambda>es :: db_entry list. sum_list (map (\<lambda>e. 3 + length (e_shards e)) es))"
  have "\<exists>m'. fold_o step es m = Ok m' \<and>
      holds_layers (\<lambda>p. f p \<or> qc_want_fn ctx \<and> in_scope p (qc_scope ctx) \<and> (\<exists>e\<in>set es. filename_found E ctx e p))
        (\<lambda>p. c p \<or> qc_want_ct ctx \<and> in_scope p (qc_scope ctx) \<and> (\<exists>e\<in>set es. text_found ctx e p)) ((n + S es) * 2 ^ 32) m'"
    if "holds_layers f c (n * 2 ^ 32) m" "n + S es < 2 ^ 31" "\<forall>e\<in>set es. entry_good E (qc_fn_case ctx) e" for f c n m
    using that
  proof (induction es arbitrary: f c n m)
    case Nil
    then show ?case by (auto simp: S_def elim: holds_layers_cong)
  next
    case (Cons e es)
    let ?F = "\<lambda>p. qc_want_fn ctx \<and> in_scope p (qc_scope ctx) \<and> filename_found E ctx e p"
      and ?C = "\<lambda>p. qc_want_ct ctx \<and> in_scope p (qc_scope ctx) \<and> text_found ctx e p"
    obtain per where per: "query_entry E ctx e usize_max = Ok per"
      "holds_layers ?F ?C ((3 + length (e_shards e)) * 2 ^ 32) per"
      using query_entry_holds [OF assms(1) _ assms(2)] Cons.prems(3) by fastforce
    have "mset (shuffle per) = mset per" using assms(3) by (simp add: iteration_order_def)
    note sh = map_of_shuffled [OF holds_layersD(3) [OF per(2)] this]
    let ?n = "n + (3 + length (e_shards e))"
    let ?m = "fold (\<lambda>(path, meta, kind). merge_in path meta kind usize_max) (shuffle per) m"
    have n: "?n + S es < 2 ^ 31" using Cons.prems(2) by (simp add: S_def)
    have l: "length m + length (shuffle per) \<le> ?n * 2 ^ 32"
      using holds_layersD(2) [OF Cons.prems(1)] holds_layersD(2) [OF per(2)] sh(3) by (simp add: algebra_simps)
    also have "\<dots> \<le> 2 ^ 31 * 2 ^ 32" using n by (intro mult_right_mono) auto
    also have "\<dots> \<le> usize_max" by (simp add: usize_max_def)
    finally have cap: "length m + length (shuffle per) \<le> usize_max" .
    have q: "kinds (shuffle per) q = layers_kind (?F q) (?C q)" for q
      using holds_layersD(1) [OF per(2), of q] by (simp add: kinds_def sh(1))
    note fm = fold_merge_kinds [OF cap sh(2)]
    have "kinds ?m q = layers_kind (?F q \<or> f q) (?C q \<or> c q)" for q
      using conjunct1 [OF fm, of q] unfolding q holds_layersD(1) [OF Cons.prems(1)] join_layers_kind .
    moreover have "length ?m \<le> length m + length (shuffle per)" "distinct (map fst ?m)"
      using fm holds_layersD(3) [OF Cons.prems(1)] by blast+
    ultimately have "holds_layers (\<lambda>p. ?F p \<or> f p) (\<lambda>p. ?C p \<or> c p) (?n * 2 ^ 32) ?m"
      using le_trans [OF _ l] by (intro holds_layersI) auto
    from Cons.IH [OF this n] Cons.prems(3) obtain m' where m': "fold_o step es ?m = Ok m'"
      "holds_layers (\<lambda>p. (?F p \<or> f p) \<or> qc_want_fn ctx \<and> in_scope p (qc_scope ctx) \<and> (\<exists>e\<in>set es. filename_found E ctx e p))
        (\<lambda>p. (?C p \<or> c p) \<or> qc_want_ct ctx \<and> in_scope p (qc_scope ctx) \<and> (\<exists>e\<in>set es. text_found ctx e p)) ((?n + S es) * 2 ^ 32) m'"
      by auto
    have "fold_o step (e # es) m = Ok m'" using m'(1) by (simp add: step_def per(1))
    moreover have "(?n + S es) * 2 ^ 32 \<le> (n + S (e # es)) * 2 ^ 32" by (simp add: S_def)
    then have "holds_layers (\<lambda>p. f p \<or> qc_want_fn ctx \<and> in_scope p (qc_scope ctx) \<and> (\<exists>e\<in>set (e # es). filename_found E ctx e p))
        (\<lambda>p. c p \<or> qc_want_ct ctx \<and> in_scope p (qc_scope ctx) \<and> (\<exists>e\<in>set (e # es). text_found ctx e p)) ((n + S (e # es)) * 2 ^ 32) m'"
      by (rule holds_layers_cong [OF m'(2), rotated -1]) auto
    ultimately show ?case by blast
  qed
  from this [of "\<lambda>p. False" "\<lambda>p. False" 0 "[]"] holds_nothing assms(4,5)
  show ?thesis by (simp add: merge_entries_def step_def S_def)
qed


subsection \<open>A whole search\<close>

lemma selected_again: "select_named (map e_name (select name es)) es = select name es"
  by (cases name) (auto simp: select_def select_named_def intro: filter_cong)

lemma sort_entries_mset: "mset (sort_entries mode es) = mset es"
  by (cases mode) simp_all

lemma answer_set:
  assumes "mset es = mset (filter P (shuffle m))" "iteration_order shuffle" "distinct (map fst m)"
  shows "distinct (map fst es)" "(\<exists>meta. (p, meta, k) \<in> set es \<and> P (p, meta, k)) \<longleftrightarrow> (\<exists>meta. map_of m p = Some (meta, k) \<and> P (p, meta, k))"
    "set es \<subseteq> set m" "\<forall>e\<in>set es. P e"
proof -
  have mm: "mset (shuffle m) = mset m" using assms(2) by (simp add: iteration_order_def)
  note sh = map_of_shuffled [OF assms(3) mm]
  have "mset (map fst es) = mset (map fst (filter P (shuffle m)))" using assms(1) by simp
  moreover have "distinct (map fst (filter P (shuffle m)))" using sh(2) by (simp add: distinct_map_filter)
  ultimately show "distinct (map fst es)" by (metis mset_eq_imp_distinct_iff)
  have se: "set es = {e \<in> set m. P e}" using mset_eq_setD [OF assms(1)] mset_eq_setD [OF mm] by auto
  then show "set es \<subseteq> set m" "\<forall>e\<in>set es. P e" by auto
  show "(\<exists>meta. (p, meta, k) \<in> set es \<and> P (p, meta, k)) \<longleftrightarrow> (\<exists>meta. map_of m p = Some (meta, k) \<and> P (p, meta, k))"
    using assms(3) by (auto simp: se)
qed

text \<open>The requests the theorem is about: no expression, no limit, and paths rather than lines.\<close>

definition plain_request :: "engines \<Rightarrow> search_request \<Rightarrow> bool" where
  "plain_request E req \<longleftrightarrow>
     so_regex (sr_opts req) = None \<and> so_expr (sr_opts req) = None \<and> \<not> so_line_numbers (sr_opts req) \<and>
     so_context_lines (sr_opts req) = None \<and> sr_limit req = None \<and> valid_utf8 (sr_query req) \<and>
     fold_bytes (to_lowercase (en_unicode E) (sr_query req)) = fold_bytes (sr_query req)"

definition sort_rank :: "hit \<Rightarrow> nat \<times> u32 \<times> str" where
  "sort_rank h = (case h of (p, m, k) \<Rightarrow> (kind_weight k, entry_depth p, p))"

lemma plain_ctx: "plain_request E req \<Longrightarrow> literal_ctx (search_ctx E req None)"
  by (simp add: plain_request_def literal_ctx_def search_ctx_def search_needle_def Let_def)

subsection \<open>Searches that miss\<close>

text \<open>An expression without a literal run has the empty needle, and the filename layer answers that with nothing.\<close>

lemma atomless_regex_no_names:
  assumes "so_regex (sr_opts req) = Some r" "longest_literal_atom r = None"
  shows "filename_layer E (search_ctx E req re) entry cap = Ok []"
  using assms by (simp add: filename_layer_def search_ctx_def search_needle_def query_docids_def Let_def)

text \<open>
  The needle is folded after a Unicode lowercasing, the content only after an ASCII one: a capital
  letter beyond ASCII does not find itself.
\<close>

lemma accented_capital_missed:
  assumes "so_regex (sr_opts req) = None" "so_case_mode (sr_opts req) = Smart" "sr_query req = [0xC3, 0x89]"
    "to_lowercase (en_unicode E) [0xC3, 0x89] = [0xC3, 0xA9]"
  shows "\<not> qc_case_sensitive (search_ctx E req None) \<and>
    \<not> content_hit [0xC3, 0x89] (qc_folded (search_ctx E req None)) False \<and> sublist (sr_query req) [0xC3, 0x89]"
proof -
  have "\<not> list_ex is_ascii_uppercase ([0xC3, 0x89] :: str)" by code_simp
  moreover have "\<not> content_hit [0xC3, 0x89] (fold_bytes [0xC3, 0xA9]) False" by code_simp
  ultimately show ?thesis using assms by (simp add: search_ctx_def search_needle_def Let_def)
qed

text \<open>The content layer limits each shard before it looks at the scope.\<close>

lemma bind_o_Ok_right: "bind_o x Ok = x"
  by (cases x) simp_all

definition demo_request :: search_request where
  "demo_request = \<lparr>sr_query = lit ''abc'', sr_scope = None, sr_limit = None, sr_opts = default_options, sr_db = None\<rparr>"

lemma demo_plain: "plain_request demo_engines demo_request"
proof -
  have "valid_utf8 (lit ''abc'')" by (rule valid_ascii) code_simp
  moreover have "fold_bytes (to_lowercase ascii_tables (lit ''abc'')) = fold_bytes (lit ''abc'')" by code_simp
  ultimately show ?thesis by (simp add: plain_request_def demo_request_def demo_engines_def default_options_def)
qed

lemma demo_search_ctx: "search_ctx demo_engines demo_request None = demo_ctx" "\<not> list_ex is_ascii_uppercase (lit ''abc'')"
proof -
  have "fold_bytes (to_lowercase ascii_tables (lit ''abc'')) = lit ''abc''" by code_simp
  moreover show "\<not> list_ex is_ascii_uppercase (lit ''abc'')" by code_simp
  ultimately show "search_ctx demo_engines demo_request None = demo_ctx"
    by (simp add: search_ctx_def search_needle_def demo_request_def demo_engines_def default_options_def demo_ctx_def
        default_layers_def Let_def)
qed

subsection \<open>Properties\<close>

text \<open>
  C2. A plain search is answered exactly. Whatever the order in which hash maps are iterated, an
  unlimited literal search over the selected databases is answered without an error; the answer holds
  each path once, those in scope that pass the filters and that some selected database finds in a
  requested layer, with kind Both where both layers do; and in the default order it is sorted by
  kind, depth and path.
\<close>

theorem search_exact:
  assumes "memmem_ok (en_memmem E)" and "plain_request E req" and "iteration_order shuffle"
    and "selected = select (sr_db req) snapshot" and "sr_db req \<noteq> None \<longrightarrow> selected \<noteq> []"
    and "\<forall>e\<in>set selected. entry_good E (sensitive (so_case_mode (sr_opts req)) (sr_query req)) e"
    and "sum_list (map (\<lambda>e. 3 + length (e_shards e)) selected) < 2 ^ 31"
  shows "\<exists>fs. handle_search E shuffle file_mtime snapshot req = Ok fs \<and> answer_ok fs \<and>
    distinct (map fst (answer_hits fs)) \<and>
    (\<forall>p k. (\<exists>meta. (p, meta, k) \<in> set (answer_hits fs)) \<longleftrightarrow>
      passes p (sr_opts req) \<and> in_scope p (sr_scope req) \<and>
      layers_kind
        (layer_filename (so_layers (sr_opts req)) \<and> (\<exists>e\<in>set selected. filename_found E (search_ctx E req None) e p))
        (layer_content (so_layers (sr_opts req)) \<and> (\<exists>e\<in>set selected. text_found (search_ctx E req None) e p)) = Some k) \<and>
    (so_sort_order (sr_opts req) = SortDefault \<longrightarrow> sorted (map sort_rank (answer_hits fs)))"
proof -
  let ?ctx = "search_ctx E req None" and ?opts = "sr_opts req"
  note plain = assms(2) [unfolded plain_request_def]
  have cs: "qc_fn_case ?ctx = sensitive (so_case_mode ?opts) (sr_query req)"
    "qc_want_fn ?ctx = layer_filename (so_layers ?opts)" "qc_want_ct ?ctx = layer_content (so_layers ?opts)"
    "qc_scope ?ctx = sr_scope req" by (simp_all add: search_ctx_def Let_def)
  have "\<forall>e\<in>set selected. entry_good E (qc_fn_case ?ctx) e" using assms(6) cs(1) by simp
  from merge_entries_holds [OF assms(1) plain_ctx [OF assms(2)] assms(3) this assms(7)] obtain m where
    m: "merge_entries E shuffle ?ctx usize_max selected = Ok m"
    "holds_layers (\<lambda>p. qc_want_fn ?ctx \<and> in_scope p (qc_scope ?ctx) \<and> (\<exists>e\<in>set selected. filename_found E ?ctx e p))
      (\<lambda>p. qc_want_ct ?ctx \<and> in_scope p (qc_scope ?ctx) \<and> (\<exists>e\<in>set selected. text_found ?ctx e p))
      (sum_list (map (\<lambda>e. 3 + length (e_shards e)) selected) * 2 ^ 32) m" by blast
  define P where "P = keep_entry ?opts None None file_mtime"
  have P: "P (p, meta, k) = passes p ?opts" for p meta k by (simp add: P_def keep_entry_def)
  define es where "es = sort_entries (so_sort_order ?opts) (filter P (shuffle m))"
  have es: "mset es = mset (filter P (shuffle m))" unfolding es_def by (rule sort_entries_mset)
  note ans = answer_set [OF es assms(3) holds_layersD(3) [OF m(2)]]
  have "length es \<le> length m"
    using arg_cong [where f = size, OF es] assms(3) length_filter_le [of P "shuffle m"]
    by (metis iteration_order_def size_mset)
  also have "\<dots> \<le> 2 ^ 31 * 2 ^ 32"
    using holds_layersD(2) [OF m(2)] assms(7) by (meson less_imp_le mult_le_mono1 le_trans)
  also have "\<dots> \<le> usize_max" by (simp add: usize_max_def)
  finally have len: "length es \<le> usize_max" .
  have h: "handle_search E shuffle file_mtime snapshot req = Ok (batch_frames es)"
    using plain assms(4,5) m(1) len
    by (auto simp: handle_search_def Let_def compile_regex_def selected_again search_merge_cap_def cap_of_def expr_of_def
        es_def P_def)
  have kind: "(\<exists>meta. (p, meta, k) \<in> set es) \<longleftrightarrow> passes p ?opts \<and> kinds m p = Some k" for p k
    using ans(2) [of p k] ans(4) by (auto simp: P kinds_def)
  have "sorted (map sort_rank es)" if "so_sort_order ?opts = SortDefault"
    unfolding es_def that sort_entries.simps sort_rank_def [abs_def] by simp
  then show ?thesis
    using h batch_frames_ok [of es] ans(1)
    by (auto simp: answer_hits_batches kind holds_layersD(1) [OF m(2)] cs layers_kind_def split: if_splits)
qed


theorem search_exact_witness:
  "\<exists>F S w fs. finish stored_zstd demo_builder = Some F \<and> apply_records demo_records empty_overlay = Ok w \<and>
     handle_search demo_engines rev (\<lambda>f. None) [demo_entry F S w] demo_request = Ok fs \<and>
     (\<exists>meta k. (lit ''abc'', meta, k) \<in> set (answer_hits fs)) \<and> \<not> (\<exists>meta k. (lit ''a'', meta, k) \<in> set (answer_hits fs))"
proof -
  obtain F S w where e: "finish stored_zstd demo_builder = Some F" "apply_records demo_records empty_overlay = Ok w"
    "entry_good demo_engines False (demo_entry F S w)" "filename_found demo_engines demo_ctx (demo_entry F S w) (lit ''abc'')"
    "\<not> filename_found demo_engines demo_ctx (demo_entry F S w) (lit ''a'')" "\<not> text_found demo_ctx (demo_entry F S w) (lit ''a'')"
    using demo_found by blast
  let ?es = "[demo_entry F S w]"
  have n: "memmem_ok (en_memmem demo_engines)" using naive_find_ok by (simp add: demo_engines_def)
  have sel: "?es = select (sr_db demo_request) ?es" "sr_db demo_request \<noteq> None \<longrightarrow> ?es \<noteq> []"
    by (simp_all add: demo_request_def select_def)
  have it: "iteration_order rev" by (simp add: iteration_order_def)
  have ok: "\<forall>e\<in>set ?es. entry_good demo_engines (sensitive (so_case_mode (sr_opts demo_request)) (sr_query demo_request)) e"
    using e(3) by (simp add: demo_request_def default_options_def demo_search_ctx(2) [simplified])
  have cap: "sum_list (map (\<lambda>e. 3 + length (e_shards e)) ?es) < 2 ^ 31" by (simp add: demo_entry_def)
  have p: "passes p default_options" for p by (simp add: passes_def default_options_def)
  from search_exact [OF n demo_plain it sel ok cap, of "\<lambda>f. None"] obtain fs where
    fs: "handle_search demo_engines rev (\<lambda>f. None) ?es demo_request = Ok fs"
    "\<forall>p k. (\<exists>meta. (p, meta, k) \<in> set (answer_hits fs)) \<longleftrightarrow>
      layers_kind (filename_found demo_engines demo_ctx (demo_entry F S w) p) (text_found demo_ctx (demo_entry F S w) p) = Some k"
    unfolding demo_search_ctx by (auto simp: demo_request_def default_options_def default_layers_def in_scope_def
        p [unfolded default_options_def default_layers_def])
  have "\<exists>meta k. (lit ''abc'', meta, k) \<in> set (answer_hits fs)" "\<not> (\<exists>meta k. (lit ''a'', meta, k) \<in> set (answer_hits fs))"
    using spec [OF fs(2), of "lit ''abc''"] spec [OF fs(2), of "lit ''a''"] e(4-6)
    by (simp_all add: layers_kind_def) blast
  then show ?thesis using e(1,2) fs(1) by blast
qed

text \<open>
  C24. Every answer has the shape the protocol promises: a lone error frame, or batches of at most
  512 results (columns of one length) or of at most 512 lines, none empty, closed by one frame with
  their number. A limit bounds the results.
\<close>

theorem search_answer_ok:
  assumes "handle_search E shuffle file_mtime snapshot req = Ok fs"
  shows "answer_ok fs \<and> length (answer_hits fs) \<le> cap_of (sr_limit req)"
proof -
  have "fs = [Error (unknown_db (the (sr_db req)) snapshot)] \<or> (\<exists>hits. fs = line_frames hits) \<or>
      (\<exists>es. fs = batch_frames (take (cap_of (sr_limit req)) es))"
    using assms by (rule search_frames)
  moreover have "answer_hits (line_frames hits) = []" for hits
    by (simp add: answer_hits_def line_frames_def comp_def concat_eq_Nil_conv)
  moreover have "answer_hits [Error msg] = []" "answer_ok [Error msg]" for msg
    by (simp_all add: answer_hits_def answer_ok_def)
  ultimately show ?thesis using line_frames_ok batch_frames_ok by (auto simp: answer_hits_batches)
qed

theorem search_answer_ok_witness:
  "\<exists>fs. handle_search demo_engines rev (\<lambda>f. None) [] (demo_request\<lparr>sr_db := Some (lit ''x'')\<rparr>) = Ok fs \<and> answer_ok fs"
proof -
  have "handle_search demo_engines rev (\<lambda>f. None) [] (demo_request\<lparr>sr_db := Some (lit ''x'')\<rparr>) =
      Ok [Error (unknown_db (lit ''x'') [])]"
    by (simp add: handle_search_def demo_request_def default_options_def compile_regex_def select_def)
  from this search_answer_ok [OF this] show ?thesis by blast
qed

subsection \<open>The limit and the scope of the content layer\<close>

text \<open>Whether a file contains the query, and the hit it becomes. A shard that was built from files.\<close>

definition contains :: "bytes \<Rightarrow> bool \<Rightarrow> content_file \<Rightarrow> bool" where
  "contains q case_sensitive f = (if case_sensitive then sublist q (file_content f)
     else sublist (fold_bytes q) (fold_bytes (file_content f)))"

definition file_hit :: "content_file \<Rightarrow> hit" where
  "file_hit f = (case f of (path, dir, sz, mt, content) \<Rightarrow> (path, \<lparr>is_dir = dir, file_size = sz, mtime = mt\<rparr>, Content))"

definition written_shard :: "content_file list \<Rightarrow> bytes \<Rightarrow> bool" where
  "written_shard files S \<longleftrightarrow> files_ok files \<and> length S < 2 ^ 32 \<and>
     (\<exists>bt k base. finish_shard bt (fill_shard files (new_shard k base)) = Some S)"

lemma shard_hits_written:
  assumes "shard_finished bt (fill_shard files (new_shard k base)) (map file_content files) table S" "\<forall>i\<in>set is. i < length files"
  shows "shard_hits (shard_opened bt (fill_shard files (new_shard k base)) table S) scope (map of_nat is) out =
    Ok (out @ map file_hit (filter (\<lambda>f. in_scope (fst f) scope) (map ((!) files) is)))"
  using assms(2)
proof (induction "is" arbitrary: out)
  case (Cons i "is")
  let ?B = "fill_shard files (new_shard k base)"
  have fields: "sb_paths ?B = map fst files" "sb_meta ?B = map (\<lambda>(path, dir, sz, mt, c). (if dir then 1 else 0, sz, mt)) files"
    using fill_shard_fields [of files "new_shard k base"] by (simp_all add: new_shard_def)
  obtain path dir sz mt content where f: "files ! i = (path, dir, sz, mt, content)" by (cases "files ! i")
  have "shard_path (shard_opened bt ?B table S) (of_nat i) = Ok path"
    "shard_meta (shard_opened bt ?B table S) (of_nat i) = Ok \<lparr>is_dir = dir, file_size = sz, mtime = mt\<rparr>"
    using shard_path_finished [OF assms(1), of i] shard_meta_finished [OF assms(1), of i "if dir then 1 else 0" sz mt] Cons.prems f
    by (simp_all add: fields)
  then show ?case using Cons by (simp add: f file_hit_def)
qed simp

lemma nth_filter_indices: "map ((!) xs) (filter (\<lambda>i. P (xs ! i)) [0..<length xs]) = filter P xs"
proof -
  have "filter P (map ((!) xs) [0..<length xs]) = map ((!) xs) (filter (\<lambda>i. P (xs ! i)) [0..<length xs])"
    by (simp add: filter_map comp_def)
  then show ?thesis by (simp add: map_nth)
qed

lemma written_shard_query:
  assumes "written_shard files S" "memmem_ok memmem"
  shows "\<exists>r. open_shard S = Ok r \<and>
    bind_o (unwrap_or [] (candidates (shard_posting r) (shard_verify memmem r) (s_num_docs r) (fold_bytes q) q cs limit))
      (\<lambda>docids. shard_hits r scope docids []) =
    Ok (map file_hit (filter (\<lambda>f. in_scope (fst f) scope) (take_limit limit (filter (contains q cs) files))))"
proof -
  obtain bt k base where ok: "files_ok files" "length S < 2 ^ 32" and fin: "finish_shard bt (fill_shard files (new_shard k base)) = Some S"
    using assms(1) unfolding written_shard_def by blast
  obtain table where f: "shard_finished bt (fill_shard files (new_shard k base)) (map file_content files) table S"
    using finish_shard_parts [OF fill_new [OF ok(1)], of bt k base] fin ok(2) by auto
  let ?r = "shard_opened bt (fill_shard files (new_shard k base)) table S"
  let ?is = "filter (\<lambda>i. contains q cs (files ! i)) [0..<length files]"
  have "candidates (shard_posting ?r) (shard_verify memmem ?r) (s_num_docs ?r) (fold_bytes q) q cs limit =
      Ok (take_limit limit (map of_nat (filter (\<lambda>d. if cs then sublist q (map file_content files ! d)
        else sublist (fold_bytes q) (fold_bytes (map file_content files ! d))) [0..<length (map file_content files)])))"
    by (rule search_finished [OF f assms(2)])
  also have "filter (\<lambda>d. if cs then sublist q (map file_content files ! d)
        else sublist (fold_bytes q) (fold_bytes (map file_content files ! d))) [0..<length (map file_content files)] = ?is"
    by (rule filter_cong) (auto simp: contains_def)
  finally have c: "candidates (shard_posting ?r) (shard_verify memmem ?r) (s_num_docs ?r) (fold_bytes q) q cs limit =
      Ok (map of_nat (take_limit limit ?is))" by (simp add: take_limit_map)
  have "\<forall>i\<in>set (take_limit limit ?is). i < length files" using set_take_limit [of limit ?is] by auto
  from shard_hits_written [OF f this, of scope "[]"]
  have h: "shard_hits ?r scope (map of_nat (take_limit limit ?is)) [] =
      Ok (map file_hit (filter (\<lambda>f. in_scope (fst f) scope) (take_limit limit (filter (contains q cs) files))))"
    by (simp add: take_limit_map nth_filter_indices)
  have "open_shard S = Ok ?r \<and> bind_o (unwrap_or [] (candidates (shard_posting ?r) (shard_verify memmem ?r) (s_num_docs ?r)
      (fold_bytes q) q cs limit)) (\<lambda>docids. shard_hits ?r scope docids []) =
    Ok (map file_hit (filter (\<lambda>f. in_scope (fst f) scope) (take_limit limit (filter (contains q cs) files))))"
    unfolding c using open_shard_finished [OF f] h by simp
  then show ?thesis by blast
qed

text \<open>
  C36. The content layer cuts at the limit before it looks at the scope. Over any shards that were
  built from files, a literal query gives of each shard, in the order of its files, those of the first
  \<open>limit\<close> files containing it that lie in the scope, with their metadata, and nothing else: a file in
  scope that contains the query is not found when \<open>limit\<close> others before it in its shard do, and when
  none of these is in scope nothing is found.
\<close>

theorem limit_cuts_before_scope:
  assumes "list_all2 written_shard docs snap" and "memmem_ok (en_memmem E)"
  shows "shards_query E snap (fold_bytes q) q cs scope limit =
    Ok (concat (map (\<lambda>files. map file_hit (filter (\<lambda>f. in_scope (fst f) scope)
      (take_limit limit (filter (contains q cs) files)))) docs))"
proof -
  define g where "g r = bind_o (unwrap_or [] (candidates (shard_posting r) (shard_verify (en_memmem E) r) (s_num_docs r)
      (fold_bytes q) q cs limit)) (\<lambda>docids. shard_hits r scope docids [])" for r
  have "over_shards g snap out = Ok (out @ concat (map (\<lambda>files. map file_hit (filter (\<lambda>f. in_scope (fst f) scope)
      (take_limit limit (filter (contains q cs) files)))) docs))" for out
    using assms(1)
  proof (induction docs snap arbitrary: out rule: list_all2_induct)
    case (Cons files docs S snap)
    obtain r where r: "open_shard S = Ok r" "g r = Ok (map file_hit (filter (\<lambda>f. in_scope (fst f) scope)
        (take_limit limit (filter (contains q cs) files))))"
      using written_shard_query [OF Cons.hyps(1) assms(2)] unfolding g_def by blast
    then show ?case by (simp add: Cons.IH)
  qed simp
  from this [of "[]"] show ?thesis by (simp add: shards_query_def g_def [abs_def])
qed

theorem limit_cuts_before_scope_witness:
  "\<exists>S. written_shard demo_files S \<and>
     shards_query demo_engines [S] (fold_bytes (lit ''abc'')) (lit ''abc'') False (Some (lit ''b'')) (Some 1) = Ok [] \<and>
     (\<exists>hit. shards_query demo_engines [S] (fold_bytes (lit ''abc'')) (lit ''abc'') False (Some (lit ''b'')) None = Ok [hit] \<and> fst hit = lit ''b'')"
proof -
  obtain S where S: "finish_shard 5 (fill_shard demo_files (new_shard 1 0)) = Some S"
    using finish_shard_parts [OF fill_new [OF demo_files_ok]] by blast
  then have w: "written_shard demo_files S" using demo_files_ok demo_shard_length [OF S] unfolding written_shard_def by blast
  then have "list_all2 written_shard [demo_files] [S]" by simp
  moreover have "memmem_ok (en_memmem demo_engines)" using naive_find_ok by (simp add: demo_engines_def)
  ultimately have q: "shards_query demo_engines [S] (fold_bytes (lit ''abc'')) (lit ''abc'') False (Some (lit ''b'')) limit =
      Ok (concat (map (\<lambda>files. map file_hit (filter (\<lambda>f. in_scope (fst f) (Some (lit ''b'')))
        (take_limit limit (filter (contains (lit ''abc'') False) files)))) [demo_files]))" for limit
    by (rule limit_cuts_before_scope)
  have c: "contains (lit ''abc'') False ([0x61], False, 4, 7, [0x41, 0x62, 0x43, 0x0A])"
    "contains (lit ''abc'') False ([0x62], True, 0, 9, [0x61, 0x62, 0x63])" by code_simp+
  have "\<not> in_scope [0x61] (Some (lit ''b''))" "in_scope [0x62] (Some (lit ''b''))" by code_simp+
  note sc = this
  have d: "filter (contains (lit ''abc'') False) demo_files = demo_files" unfolding demo_files_def by (simp only: filter.simps c if_True)
  have "shards_query demo_engines [S] (fold_bytes (lit ''abc'')) (lit ''abc'') False (Some (lit ''b'')) (Some 1) = Ok []"
    unfolding q list.map d by (simp add: take_limit_def demo_files_def sc(1))
  moreover have "shards_query demo_engines [S] (fold_bytes (lit ''abc'')) (lit ''abc'') False (Some (lit ''b'')) None =
      Ok [file_hit ([0x62], True, 0, 9, [0x61, 0x62, 0x63])]"
    unfolding q list.map d by (simp add: take_limit_def demo_files_def sc)
  moreover have "fst (file_hit ([0x62], True, 0, 9, [0x61, 0x62, 0x63])) = lit ''b''" by code_simp
  ultimately show ?thesis using w by blast
qed

end
