(* ===== verification/Handles.thy ===== *)
theory Handles
  imports SearchExact Build Config Wal
begin

section \<open>The databases a daemon serves (crates/deepfindd/src/lib.rs)\<close>

text \<open>
  A daemon holds a list of open databases. Each has its filename reader and two handles that are
  shared with the watcher of its root: the shards, replaced as a whole by a reload, and the overlay,
  which is backed by a log. A reload of the list keeps the handles of the databases that survive it.
  Files are read as \<open>fs\<close> says, the logs are \<open>wal_file\<close>s.
\<close>

subsection \<open>\<open>Path::parent\<close> and \<open>Path::with_extension\<close>\<close>

definition path_parent :: "bytes \<Rightarrow> bytes option" where
  "path_parent p =
     (if components p = [] \<or> last (components p) = RootDir then None
      else
        let pieces = split_on slash p;
            front = trim_pieces (butlast (trim_pieces pieces)) in
        Some (if front \<noteq> [] then join_pieces front
          else if has_root p then [slash]
          else if hd pieces = [dot] \<and> components p \<noteq> [CurDir] then [dot]
          else []))"

definition file_stem :: "bytes \<Rightarrow> bytes" where
  "file_stem n = (case rposition (\<lambda>b. b = dot) n of None \<Rightarrow> n | Some i \<Rightarrow> if i = 0 then n else take i n)"

definition with_extension :: "bytes \<Rightarrow> bytes \<Rightarrow> bytes" where
  "with_extension p ext = (case file_name p of
     None \<Rightarrow> p
   | Some n \<Rightarrow> join_pieces (butlast (trim_pieces (split_on slash p)) @
       [file_stem n @ (if ext = [] then [] else [dot] @ ext)]))"

definition parent_or :: "bytes \<Rightarrow> bytes option \<Rightarrow> bytes" where
  "parent_or fallback p = (case p of Some d \<Rightarrow> d | None \<Rightarrow> fallback)"

subsection \<open>The overlay handle\<close>

record overlay_handle =
  oh_data :: overlay
  oh_store :: bool

text \<open>\<open>readable\<close> and \<open>opens\<close>: whether the log can be read and opened for appending.\<close>

definition handle_open ::
  "bincode \<Rightarrow> bool \<Rightarrow> bool \<Rightarrow> wal_file option \<Rightarrow> (overlay_handle \<times> wal_file option) res" where
  "handle_open bc readable opens file =
     (let recs = (if readable then replay bc file else []) in
      bind_o (apply_records recs empty_overlay) (\<lambda>ov.
      Ok (\<lparr>oh_data = ov, oh_store = opens\<rparr>,
        if opens then Some (case file of None \<Rightarrow> fresh_file | Some f \<Rightarrow> f) else file)))"

definition handle_len :: "overlay_handle \<Rightarrow> nat" where
  "handle_len h = overlay_len (oh_data h)"

text \<open>\<open>breaks r\<close>: the append of \<open>r\<close> fails after so many bytes. Failures are logged and the loop goes on.\<close>

fun append_all :: "bincode \<Rightarrow> (wal_record \<Rightarrow> nat option) \<Rightarrow> wal_record list \<Rightarrow> wal_file \<Rightarrow> wal_file" where
  "append_all bc breaks [] f = f"
| "append_all bc breaks (r # recs) f = append_all bc breaks recs (case breaks r of
     None \<Rightarrow> store_step bc (Append r) f
   | Some k \<Rightarrow> store_step bc (Torn r k) f)"

definition record_and_apply ::
  "bincode \<Rightarrow> (wal_record \<Rightarrow> nat option) \<Rightarrow> bool \<Rightarrow> wal_record list \<Rightarrow> overlay_handle \<times> wal_file \<Rightarrow>
   (overlay_handle \<times> wal_file) res" where
  "record_and_apply bc breaks syncs recs = (\<lambda>(h, f).
     let f = (if oh_store h then let f = append_all bc breaks recs f in if syncs then sync f else f else f) in
     bind_o (apply_records recs (oh_data h)) (\<lambda>next. Ok (h\<lparr>oh_data := next\<rparr>, f)))"

definition clear_handle :: "bool \<Rightarrow> overlay_handle \<times> wal_file \<Rightarrow> overlay_handle \<times> wal_file" where
  "clear_handle truncates = (\<lambda>(h, f).
     (h\<lparr>oh_data := empty_overlay\<rparr>, if oh_store h \<and> truncates then Wal.truncate f else f))"

subsection \<open>The open databases\<close>

record live_entry =
  l_name :: str
  l_root :: "bytes option"
  l_db_path :: bytes
  l_db :: db_reader
  l_shards :: nat
  l_overlay :: nat

text \<open>Handles are numbered; \<open>d_shards\<close> holds the directory and the shard set of each.\<close>

record daemon =
  d_entries :: "live_entry list"
  d_shards :: "nat \<Rightarrow> bytes \<times> bytes list"
  d_overlays :: "nat \<Rightarrow> overlay_handle"
  d_wals :: "bytes \<Rightarrow> wal_file option"
  d_next :: nat

type_synonym files = "bytes \<Rightarrow> bytes option"

definition wal_path :: "bytes \<Rightarrow> bytes" where
  "wal_path path = path_join (parent_or [dot] (path_parent path)) (lit ''overlay.wal'')"

definition entry_dir :: "bytes \<Rightarrow> bytes" where
  "entry_dir path = (case path_parent path of
     Some p \<Rightarrow> path_join p (lit ''content'') | None \<Rightarrow> lit ''content'')"

definition open_entry ::
  "bincode \<Rightarrow> bool \<Rightarrow> bool \<Rightarrow> files \<Rightarrow> str \<Rightarrow> bytes \<Rightarrow> bytes option \<Rightarrow> daemon \<Rightarrow> (live_entry option \<times> daemon) res" where
  "open_entry bc readable opens fs name path root d = (case fs path of
     None \<Rightarrow> Ok (None, d)
   | Some src \<Rightarrow> (case open_db src of
       Err e \<Rightarrow> Ok (None, d)
     | Panic \<Rightarrow> Panic
     | Ok db \<Rightarrow>
         let dir = entry_dir path; wal = wal_path path; n = d_next d in
         bind_o (load_shard_set fs dir) (\<lambda>set.
         bind_o (handle_open bc readable opens (d_wals d wal)) (\<lambda>(h, f).
         Ok (Some \<lparr>l_name = name, l_root = root, l_db_path = path, l_db = db, l_shards = n, l_overlay = n\<rparr>,
           d\<lparr>d_shards := (d_shards d)(n := (dir, set)), d_overlays := (d_overlays d)(n := h),
             d_wals := (d_wals d)(wal := f), d_next := n + 1\<rparr>)))))"

text \<open>The registry is read from the directory two levels above the default database.\<close>

definition registry_dir :: "bytes \<Rightarrow> bytes" where
  "registry_dir path = parent_or [dot] (Option.bind (path_parent path) path_parent)"

fun open_records ::
  "bincode \<Rightarrow> bool \<Rightarrow> bool \<Rightarrow> files \<Rightarrow> db_record list \<Rightarrow> live_entry list \<Rightarrow> daemon \<Rightarrow> (live_entry list \<times> daemon) res" where
  "open_records bc readable opens fs [] es d = Ok (es, d)"
| "open_records bc readable opens fs (rec # recs) es d =
     bind_o (open_entry bc readable opens fs (db_name rec) (db_path rec) (Some (db_root rec)) d) (\<lambda>(e, d).
     open_records bc readable opens fs recs (case e of Some e \<Rightarrow> es @ [e] | None \<Rightarrow> es) d)"

definition open_dbset ::
  "bincode \<Rightarrow> bool \<Rightarrow> bool \<Rightarrow> files \<Rightarrow> (bytes \<Rightarrow> registry) \<Rightarrow> bytes \<Rightarrow> daemon \<Rightarrow> (live_entry list \<times> daemon) res" where
  "open_dbset bc readable opens fs load_registry default_path d =
     bind_o (open_entry bc readable opens fs (lit ''default'') default_path None d) (\<lambda>(e, d).
     open_records bc readable opens fs (db_records (load_registry (registry_dir default_path)))
       (case e of Some e \<Rightarrow> [e] | None \<Rightarrow> []) d)"

definition reuse_handles_from :: "live_entry list \<Rightarrow> live_entry list \<Rightarrow> live_entry list" where
  "reuse_handles_from old es = map (\<lambda>e. case List.find (\<lambda>x. l_db_path x = l_db_path e) old of
     Some x \<Rightarrow> e\<lparr>l_shards := l_shards x, l_overlay := l_overlay x\<rparr> | None \<Rightarrow> e) es"

definition reload_shards :: "files \<Rightarrow> nat \<Rightarrow> daemon \<Rightarrow> daemon res" where
  "reload_shards fs n d = (let dir = fst (d_shards d n) in
     bind_o (load_shard_set fs dir) (\<lambda>set. Ok (d\<lparr>d_shards := (d_shards d)(n := (dir, set))\<rparr>)))"

text \<open>What a search sees of an entry.\<close>

definition entry_view :: "daemon \<Rightarrow> live_entry \<Rightarrow> db_entry" where
  "entry_view d e = \<lparr>e_name = l_name e, e_root = l_root e, e_db_path = l_db_path e, e_db = l_db e,
     e_shards = snd (d_shards d (l_shards e)), e_overlay = oh_data (d_overlays d (l_overlay e))\<rparr>"


subsection \<open>The overlay and its log\<close>

text \<open>
  What happens to a handle and its log: batches of records whose appends and whose sync may fail,
  compactions whose truncation may fail, write-outs by the system, restarts of the daemon and crashes
  of the machine, between the batches or inside of one. \<open>DiesInBatch breaks n recs\<close>: the daemon dies
  when it has appended \<open>n\<close> of the records, the last of them cut short where \<open>breaks\<close> says so.
  \<open>CrashInBatch\<close>: the machine stops there, with the file written out up to the given byte, or not
  written out at all. A handle that comes up again reads and opens its log as the two flags say. A
  crash after the sync of a batch is \<open>MachineCrash\<close> after it: the overlay in memory is lost anyway.
\<close>

datatype handle_op = LogBatch "wal_record \<Rightarrow> nat option" bool "wal_record list" | LogClear bool | WriteBack nat
  | Reopen bool bool | MachineCrash bool bool
  | DiesInBatch "wal_record \<Rightarrow> nat option" nat "wal_record list" bool bool
  | CrashInBatch "wal_record \<Rightarrow> nat option" nat "wal_record list" "nat option" bool bool

definition reopened :: "bincode \<Rightarrow> bool \<Rightarrow> bool \<Rightarrow> wal_file \<Rightarrow> (overlay_handle \<times> wal_file) res" where
  "reopened bc readable opens f = bind_o (handle_open bc readable opens (Some f)) (\<lambda>(h, f'). Ok (h, the f'))"

text \<open>The file when a batch has got so far.\<close>

definition batch_begun :: "bincode \<Rightarrow> (wal_record \<Rightarrow> nat option) \<Rightarrow> nat \<Rightarrow> wal_record list \<Rightarrow> overlay_handle \<times> wal_file \<Rightarrow> wal_file" where
  "batch_begun bc breaks n recs = (\<lambda>(h, f). if oh_store h then append_all bc breaks (take n recs) f else f)"

fun handle_step :: "bincode \<Rightarrow> handle_op \<Rightarrow> overlay_handle \<times> wal_file \<Rightarrow> (overlay_handle \<times> wal_file) res" where
  "handle_step bc (LogBatch breaks syncs recs) s = record_and_apply bc breaks syncs recs s"
| "handle_step bc (LogClear truncates) s = Ok (clear_handle truncates s)"
| "handle_step bc (WriteBack k) s = Ok (fst s, store_step bc (Flush k) (snd s))"
| "handle_step bc (Reopen readable opens) s = reopened bc readable opens (snd s)"
| "handle_step bc (MachineCrash readable opens) s = reopened bc readable opens (store_step bc Restart (snd s))"
| "handle_step bc (DiesInBatch breaks n recs readable opens) s = reopened bc readable opens (batch_begun bc breaks n recs s)"
| "handle_step bc (CrashInBatch breaks n recs written readable opens) s =
     (let f = batch_begun bc breaks n recs s;
        f = (case written of None \<Rightarrow> f | Some k \<Rightarrow> store_step bc (Flush k) f) in
      reopened bc readable opens (store_step bc Restart f))"

fun op_records :: "handle_op \<Rightarrow> wal_record list" where
  "op_records (LogBatch breaks syncs recs) = recs"
| "op_records (DiesInBatch breaks n recs readable opens) = recs"
| "op_records (CrashInBatch breaks n recs written readable opens) = recs"
| "op_records op = []"

definition op_bytes :: "bincode \<Rightarrow> handle_op \<Rightarrow> nat" where
  "op_bytes bc op = length (frames bc (op_records op))"

subsection \<open>What is promised of them\<close>

text \<open>
  A log holds records in order and then its tail: nothing (\<open>Whole\<close>), at most a record cut short
  (\<open>Cut\<close>), or a record cut short with others behind it (\<open>Buried\<close>), since the store appends to what it
  finds. \<open>log_one\<close>: one append, of as many bytes of the frame as are written.
\<close>

datatype log_tail = Whole | Cut | Buried

type_synonym log_content = "wal_record list \<times> log_tail"

definition frame_written :: "bincode \<Rightarrow> (wal_record \<Rightarrow> nat option) \<Rightarrow> wal_record \<Rightarrow> nat" where
  "frame_written bc breaks r = (case breaks r of None \<Rightarrow> length (frame bc r) | Some k \<Rightarrow> min k (length (frame bc r)))"

fun log_one :: "bincode \<Rightarrow> (wal_record \<Rightarrow> nat option) \<Rightarrow> wal_record \<Rightarrow> log_content \<Rightarrow> log_content" where
  "log_one bc breaks r (recs, t) = (let w = frame_written bc breaks r in
     if w = 0 then (recs, t)
     else if t \<noteq> Whole then (recs, Buried)
     else if w < length (frame bc r) then (recs, Cut)
     else (recs @ [r], Whole))"

text \<open>What a restart may read: the records, and anything at all behind a buried one.\<close>

fun replayed :: "log_content \<Rightarrow> view set" where
  "replayed (recs, t) = {fold record_spec (recs @ extra) (Map.empty, {}) | extra. t = Buried \<or> extra = []}"

text \<open>What may have been written out of a log.\<close>

fun written_out :: "log_content \<Rightarrow> log_content set" where
  "written_out (recs, t) = {(take j recs, t') | j t'. j \<le> length recs \<and> (if j = length recs then t' = t else t' \<noteq> Buried)}"

text \<open>
  \<open>p_now\<close>: the view queries get, \<open>p_log\<close> and \<open>p_disk\<close>: the log as the daemon and as the disk has it.
  \<open>p_stale\<close>: the log was truncated and the disk may still have the one before. \<open>p_open\<close>: the log
  could be opened.
\<close>

record promise =
  p_now :: view
  p_log :: log_content
  p_disk :: log_content
  p_stale :: bool
  p_open :: bool

definition back_up :: "bool \<Rightarrow> bool \<Rightarrow> promise \<Rightarrow> promise set" where
  "back_up readable opens g = {g\<lparr>p_now := v, p_open := opens\<rparr> | v. v \<in> (if readable then replayed (p_log g) else {(Map.empty, {})})}"

definition log_some :: "bincode \<Rightarrow> (wal_record \<Rightarrow> nat option) \<Rightarrow> wal_record list \<Rightarrow> promise \<Rightarrow> promise" where
  "log_some bc breaks recs g = (if p_open g then g\<lparr>p_log := fold (log_one bc breaks) recs (p_log g)\<rparr> else g)"

definition write_some :: "promise \<Rightarrow> promise set" where
  "write_some g = {g\<lparr>p_disk := c, p_stale := False\<rparr> | c. c \<in> written_out (p_log g) \<and>
     (\<not> p_stale g \<longrightarrow> length (fst (p_disk g)) \<le> length (fst c))}"

definition lost_memory :: "promise \<Rightarrow> promise" where
  "lost_memory g = g\<lparr>p_log := p_disk g, p_stale := False\<rparr>"

fun outcomes :: "bincode \<Rightarrow> handle_op \<Rightarrow> promise \<Rightarrow> promise set" where
  "outcomes bc (LogBatch breaks syncs recs) g =
     (let g' = (log_some bc breaks recs g)\<lparr>p_now := fold record_spec recs (p_now g)\<rparr> in
      {if syncs \<and> p_open g then g'\<lparr>p_disk := p_log g', p_stale := False\<rparr> else g'})"
| "outcomes bc (LogClear truncates) g =
     (let g' = g\<lparr>p_now := (Map.empty, {})\<rparr> in
      {if p_open g \<and> truncates then g'\<lparr>p_log := ([], Whole), p_stale := True\<rparr> else g'})"
| "outcomes bc (WriteBack k) g = write_some g"
| "outcomes bc (Reopen readable opens) g = back_up readable opens g"
| "outcomes bc (MachineCrash readable opens) g = back_up readable opens (lost_memory g)"
| "outcomes bc (DiesInBatch breaks n recs readable opens) g = back_up readable opens (log_some bc breaks (take n recs) g)"
| "outcomes bc (CrashInBatch breaks n recs written readable opens) g =
     (let g' = log_some bc breaks (take n recs) g in
      \<Union>w\<in>(if written = None then {g'} else write_some g'). back_up readable opens (lost_memory w))"

definition fresh_promise :: promise where
  "fresh_promise = \<lparr>p_now = (Map.empty, {}), p_log = ([], Whole), p_disk = ([], Whole), p_stale = False, p_open = True\<rparr>"

definition promised :: "bincode \<Rightarrow> handle_op list \<Rightarrow> promise set" where
  "promised bc ops = fold (\<lambda>op G. \<Union> (outcomes bc op ` G)) ops {fresh_promise}"

text \<open>Where no append, sync, truncation or opening fails and no crash falls inside a batch, it comes
  to two views: the overlay's and the disk's.\<close>

fun intact :: "handle_op \<Rightarrow> bool" where
  "intact (LogBatch breaks syncs recs) \<longleftrightarrow> list_all (\<lambda>r. breaks r = None) recs \<and> syncs"
| "intact (LogClear truncates) \<longleftrightarrow> truncates"
| "intact (WriteBack k) \<longleftrightarrow> True"
| "intact (Reopen readable opens) \<longleftrightarrow> readable \<and> opens"
| "intact (MachineCrash readable opens) \<longleftrightarrow> readable \<and> opens"
| "intact _ \<longleftrightarrow> False"

fun handle_spec :: "handle_op \<Rightarrow> view \<times> view \<Rightarrow> view \<times> view" where
  "handle_spec (LogBatch breaks syncs recs) (now, dur) = (fold record_spec recs now, fold record_spec recs now)"
| "handle_spec (LogClear truncates) (now, dur) = ((Map.empty, {}), dur)"
| "handle_spec (WriteBack k) (now, dur) = (now, now)"
| "handle_spec (MachineCrash readable opens) (now, dur) = (dur, dur)"
| "handle_spec op s = s"

subsection \<open>The log holds what is promised\<close>

fun holds :: "bincode \<Rightarrow> bytes \<Rightarrow> log_content \<Rightarrow> bool" where
  "holds bc bs (recs, t) \<longleftrightarrow> (\<forall>r\<in>set recs. loggable bc r) \<and>
     (\<exists>u. bs = frames bc recs @ u \<and> (t = Whole \<longrightarrow> u = []) \<and> (t = Cut \<longrightarrow> cut_off u))"

definition handle_inv :: "bincode \<Rightarrow> nat \<Rightarrow> overlay_handle \<times> wal_file \<Rightarrow> promise \<Rightarrow> bool" where
  "handle_inv bc n s g \<longleftrightarrow>
     oh_store (fst s) = p_open g \<and> overlay_ok (oh_data (fst s)) \<and> view_of (oh_data (fst s)) = p_now g \<and>
     4 * length (o_paths (oh_data (fst s))) \<le> n \<and> length (seen (snd s)) \<le> n \<and> length (kept (snd s)) \<le> n \<and>
     holds bc (seen (snd s)) (p_log g) \<and> holds bc (kept (snd s)) (p_disk g) \<and>
     (\<not> p_stale g \<longrightarrow> prefix (kept (snd s)) (seen (snd s)) \<and> prefix (fst (p_disk g)) (fst (p_log g)))"

lemma frame_length: "loggable bc r \<Longrightarrow> 4 \<le> length (frame bc r)"
  by (auto elim: loggableE)

lemma frames_length: "\<forall>r\<in>set recs. loggable bc r \<Longrightarrow> 4 * length recs \<le> length (frames bc recs)"
  by (induction recs) (auto dest!: frame_length)

lemma cut_off_Nil [simp]: "cut_off []"
  by (simp add: cut_off_def)

lemma cut_off_take: "cut_off u \<Longrightarrow> cut_off (take i u)"
  by (cases "i < 4") (auto simp: cut_off_def min_def)

text \<open>Decoding only adds to what it has, at most one record for four bytes.\<close>

lemma decode_from_more:
  "\<exists>extra. decode_from bc bs p out = out @ extra \<and> 4 * length extra \<le> length bs - p"
proof (induction bc bs p out rule: decode_from.induct)
  case (1 bc bs p out)
  show ?case
  proof (cases "p + 4 \<le> length bs \<and> \<not> p + 4 + of_le (take 4 (drop p bs)) > length bs \<and>
      dec_body bc (take (of_le (take 4 (drop p bs))) (drop (p + 4) bs)) \<noteq> None")
    case True
    then obtain rec k where d: "dec_body bc (take (of_le (take 4 (drop p bs))) (drop (p + 4) bs)) = Some (rec, k)" by auto
    have step: "decode_from bc bs p out = decode_from bc bs (p + 4 + of_le (take 4 (drop p bs))) (out @ [rec])"
      using True d by (subst decode_from.simps) (simp add: Let_def)
    have "\<exists>extra. decode_from bc bs (p + 4 + of_le (take 4 (drop p bs))) (out @ [rec]) = (out @ [rec]) @ extra \<and>
        4 * length extra \<le> length bs - (p + 4 + of_le (take 4 (drop p bs)))"
      using True d by (intro 1) auto
    then obtain extra where "decode_from bc bs p out = (out @ [rec]) @ extra"
      "4 * length extra \<le> length bs - (p + 4 + of_le (take 4 (drop p bs)))" unfolding step by blast
    then show ?thesis using True by (intro exI [of _ "rec # extra"]) auto
  next
    case False
    then have "decode_from bc bs p out = out" by (subst decode_from.simps) (auto simp: Let_def split: option.split prod.split)
    then show ?thesis by simp
  qed
qed

lemma replay_count: "4 * length (decode_records bc bs) \<le> length bs"
  using decode_from_more [of bc bs 0 "[]"] by (auto simp: decode_records_def)

lemma holds_replay:
  assumes "bincode_ok bc" "holds bc bs (recs, t)"
  shows "\<exists>extra. decode_records bc bs = recs @ extra \<and> (t = Buried \<or> extra = [])"
proof -
  obtain u where u: "bs = frames bc recs @ u" "t = Whole \<longrightarrow> u = []" "t = Cut \<longrightarrow> cut_off u" "\<forall>r\<in>set recs. loggable bc r"
    using assms(2) by auto
  show ?thesis
  proof (cases "t = Buried")
    case True
    have "decode_records bc bs = decode_from bc bs (length (frames bc recs)) recs"
      using decode_frames [OF assms(1) u(4), of "[]" u "[]"] by (simp add: decode_records_def u(1))
    then show ?thesis using decode_from_more [of bc bs "length (frames bc recs)" recs] True by auto
  next
    case False
    then have "cut_off u" using u(2,3) by (cases t) auto
    then show ?thesis using decode_cut_off [OF assms(1) u(4)] by (simp add: u(1))
  qed
qed

text \<open>A part that is written out.\<close>

lemma holds_take:
  assumes "holds bc bs (recs, t)"
  shows "\<exists>j t'. j \<le> length recs \<and> (if j = length recs then t' = t else t' = Cut) \<and> holds bc (take k bs) (take j recs, t') \<and>
    (j < length recs \<longrightarrow> k < length (frames bc (take (Suc j) recs)))"
proof -
  obtain u where u: "bs = frames bc recs @ u" "t = Whole \<longrightarrow> u = []" "t = Cut \<longrightarrow> cut_off u" "\<forall>r\<in>set recs. loggable bc r"
    using assms by auto
  show ?thesis
  proof (cases "k \<le> length (frames bc recs)")
    case True
    obtain j m where j: "j \<le> length recs" "take k (frames bc recs) = frames bc (take j recs) @ m"
      "if j < length recs then m = take (k - length (frames bc (take j recs))) (frame bc (recs ! j)) \<and>
         k - length (frames bc (take j recs)) < length (frame bc (recs ! j)) else m = []"
      "length (frames bc (take j recs)) \<le> k" using take_frames [OF True] by blast
    have l: "\<forall>r\<in>set (take j recs). loggable bc r" using u(4) by (meson in_set_takeD)
    show ?thesis
    proof (cases "j < length recs")
      case cut: True
      then have "cut_off m" "k < length (frames bc (take (Suc j) recs))"
        using j(3,4) frame_cut_off [of bc "recs ! j"] u(4) by (auto simp: take_Suc_conv_app_nth)
      then show ?thesis using cut j(2) l True by (intro exI [of _ j] exI [of _ Cut]) (auto simp: u(1))
    next
      case False
      then show ?thesis using j(1,2,3) u(4) True by (intro exI [of _ "length recs"] exI [of _ t]) (auto simp: u(1))
    qed
  next
    case False
    then show ?thesis using u cut_off_take [of u] by (intro exI [of _ "length recs"] exI [of _ t]) auto
  qed
qed

lemma written_part:
  assumes "holds bc bs l" "holds bc (kept f) (old, t)" "prefix (kept f) (take k bs)" "prefix old (fst l)"
  shows "\<exists>c \<in> written_out l. holds bc (take k bs) c \<and> prefix (fst c) (fst l) \<and> length old \<le> length (fst c)"
proof -
  obtain recs t where l: "l = (recs, t)" by (cases l)
  obtain j t' where j: "j \<le> length recs" "if j = length recs then t' = t else t' = Cut" "holds bc (take k bs) (take j recs, t')"
    "j < length recs \<longrightarrow> k < length (frames bc (take (Suc j) recs))" using holds_take assms(1) unfolding l by blast
  have "length old \<le> j"
  proof (rule ccontr)
    assume "\<not> length old \<le> j"
    moreover obtain rest where r: "recs = old @ rest" using assms(4) by (auto simp: l prefix_def)
    ultimately have s: "Suc j \<le> length old" "j < length recs" by simp_all
    then have "old = take (Suc j) recs @ drop (Suc j) old" by (simp add: r)
    then have "length (frames bc (take (Suc j) recs)) \<le> length (frames bc old)"
      by (metis frames_simps(3) length_append le_add1)
    moreover have "length (frames bc old) \<le> length (kept f)" using assms(2) by auto
    moreover have "length (kept f) \<le> k" using prefix_length_le [OF assms(3)] by simp
    ultimately show False using j(4) s(2) by simp
  qed
  moreover have "(take j recs, t') \<in> written_out l"
    unfolding l written_out.simps using j(1,2) by (intro CollectI exI [of _ j] exI [of _ t']) auto
  ultimately show ?thesis using j(1,3) by (intro bexI [of _ "(take j recs, t')"]) (auto simp: l take_is_prefix)
qed

lemma log_one_holds:
  assumes "holds bc (seen f) l" "loggable bc r"
  shows "holds bc (seen (append_all bc breaks [r] f)) (log_one bc breaks r l) \<and> prefix (fst l) (fst (log_one bc breaks r l))"
proof -
  obtain recs t where l: "l = (recs, t)" by (cases l)
  obtain u where u: "seen f = frames bc recs @ u" "t = Whole \<longrightarrow> u = []" "t = Cut \<longrightarrow> cut_off u" "\<forall>r\<in>set recs. loggable bc r"
    using assms(1) unfolding l by auto
  let ?w = "frame_written bc breaks r"
  have "seen (append_all bc breaks [r] f) = seen f @ take ?w (frame bc r)"
    using assms(2) by (cases "breaks r") (auto simp: frame_written_def append_def encode_record_frame min_def)
  then have s: "seen (append_all bc breaks [r] f) = frames bc recs @ u @ take ?w (frame bc r)" by (simp add: u(1))
  have w: "?w \<le> length (frame bc r)" by (simp add: frame_written_def split: option.split)
  consider "?w = 0" | "?w \<noteq> 0" "t \<noteq> Whole" | "?w \<noteq> 0" "t = Whole" "?w < length (frame bc r)" | "?w \<noteq> 0" "t = Whole" "?w = length (frame bc r)"
    using w by linarith
  then show ?thesis
  proof cases
    case 3
    then show ?thesis using s u frame_cut_off [OF assms(2) 3(3)] by (simp add: l Let_def)
  next
    case 4
    then show ?thesis using s u assms(2) by (simp add: l Let_def)
  qed (use s u in \<open>simp_all add: l Let_def\<close>)
qed

lemma append_all_Cons: "append_all bc breaks (r # recs) f = append_all bc breaks recs (append_all bc breaks [r] f)"
  by simp

lemma append_one_kept: "kept (append_all bc breaks [r] f) = kept f"
  by (cases "encode_record bc r") (auto simp: append_def split: option.split)

lemma append_one_seen: "prefix (seen f) (seen (append_all bc breaks [r] f)) \<and>
  length (seen (append_all bc breaks [r] f)) \<le> length (seen f) + length (frame bc r)"
  by (auto simp: append_def encode_record_def frame_def split: option.split outcome.split sum.split)

lemma append_all_kept: "kept (append_all bc breaks recs f) = kept f"
proof (induction recs arbitrary: f)
  case (Cons r recs)
  show ?case unfolding append_all_Cons [of bc breaks r recs] Cons.IH append_one_kept ..
qed simp

lemma append_all_seen: "prefix (seen f) (seen (append_all bc breaks recs f)) \<and>
  length (seen (append_all bc breaks recs f)) \<le> length (seen f) + length (frames bc recs)"
proof (induction recs arbitrary: f)
  case (Cons r recs)
  show ?case unfolding append_all_Cons [of bc breaks r recs]
    using Cons.IH [of "append_all bc breaks [r] f"] append_one_seen [of f bc breaks r]
    by (auto intro: prefix_order.trans)
qed simp

lemma log_all_holds:
  assumes "holds bc (seen f) l" "\<forall>r\<in>set recs. loggable bc r"
  shows "holds bc (seen (append_all bc breaks recs f)) (fold (log_one bc breaks) recs l) \<and> prefix (fst l) (fst (fold (log_one bc breaks) recs l))"
  using assms
proof (induction recs arbitrary: f l)
  case (Cons r recs)
  have one: "holds bc (seen (append_all bc breaks [r] f)) (log_one bc breaks r l)" "prefix (fst l) (fst (log_one bc breaks r l))"
    using log_one_holds [OF Cons.prems(1), of r breaks] Cons.prems(2) by simp_all
  show ?case unfolding append_all_Cons [of bc breaks r recs] fold_simps using Cons.IH [OF one(1)] Cons.prems(2) one(2)
    by (auto intro: prefix_order.trans)
qed simp

text \<open>Coming up again: the log replays to the records it was written with.\<close>

lemma reopen_holds:
  assumes "bincode_ok bc" "holds bc (seen f) l" "length (seen f) \<le> n" "n < 2 ^ 34"
  shows "\<exists>w. handle_open bc readable opens (Some f) = Ok (\<lparr>oh_data = w, oh_store = opens\<rparr>, Some f) \<and> overlay_ok w \<and>
    view_of w \<in> (if readable then replayed l else {(Map.empty, {})}) \<and> 4 * length (o_paths w) \<le> n"
proof -
  obtain recs t where l: "l = (recs, t)" by (cases l)
  obtain extra where e: "decode_records bc (seen f) = recs @ extra" "t = Buried \<or> extra = []"
    using holds_replay assms(1,2) unfolding l by blast
  define all where "all = (if readable then recs @ extra else [])"
  have size: "4 * length all \<le> n" using replay_count [of bc "seen f"] assms(3) e(1) by (simp add: all_def)
  have "length (o_paths empty_overlay) + length all < 2 ^ 32" using size assms(4) by (simp add: empty_overlay_def)
  from records_refine [OF overlay_ok_empty this] obtain w where "apply_records all empty_overlay = Ok w" "overlay_ok w"
    "view_of w = fold record_spec all (Map.empty, {})" "length (o_paths w) \<le> length all"
    unfolding view_empty by (auto simp: empty_overlay_def)
  moreover have "handle_open bc readable opens (Some f) = bind_o (apply_records all empty_overlay) (\<lambda>ov.
      Ok (\<lparr>oh_data = ov, oh_store = opens\<rparr>, Some f))"
    by (simp add: handle_open_def all_def replay_def e(1) Let_def)
  ultimately show ?thesis using e(2) size by (auto simp: all_def l)
qed

lemma reopened_back_up:
  assumes "bincode_ok bc" "handle_inv bc n (h, f) g" "n < 2 ^ 34"
  shows "\<exists>s. reopened bc readable opens f = Ok s \<and> (\<exists>g'\<in>back_up readable opens g. handle_inv bc n s g')"
proof -
  have inv: "holds bc (seen f) (p_log g)" "length (seen f) \<le> n" using assms(2) by (simp_all add: handle_inv_def)
  obtain w where w: "handle_open bc readable opens (Some f) = Ok (\<lparr>oh_data = w, oh_store = opens\<rparr>, Some f)" "overlay_ok w"
    "view_of w \<in> (if readable then replayed (p_log g) else {(Map.empty, {})})" "4 * length (o_paths w) \<le> n"
    using reopen_holds [OF assms(1) inv assms(3)] by blast
  then have "g\<lparr>p_now := view_of w, p_open := opens\<rparr> \<in> back_up readable opens g" unfolding back_up_def by blast
  moreover have "handle_inv bc n (\<lparr>oh_data = w, oh_store = opens\<rparr>, f) (g\<lparr>p_now := view_of w, p_open := opens\<rparr>)"
    using assms(2) w(2,4) by (simp add: handle_inv_def)
  ultimately show ?thesis using w(1) by (auto simp: reopened_def)
qed

lemma lost_memory_inv:
  "handle_inv bc n (h, f) g \<Longrightarrow> handle_inv bc n (h, store_step bc Restart f) (lost_memory g)"
  by (simp add: handle_inv_def lost_memory_def)

lemma write_some_inv:
  assumes "handle_inv bc n (h, f) g"
  shows "\<exists>g'\<in>write_some g. handle_inv bc n (h, store_step bc (Flush k) f) g'"
proof -
  have inv: "holds bc (seen f) (p_log g)" "holds bc (kept f) (p_disk g)"
    "\<not> p_stale g \<longrightarrow> prefix (kept f) (seen f) \<and> prefix (fst (p_disk g)) (fst (p_log g))" "length (seen f) \<le> n"
    using assms by (simp_all add: handle_inv_def)
  define m where "m = max k (if prefix (kept f) (seen f) then length (kept f) else 0)"
  have flush: "store_step bc (Flush k) f = f\<lparr>kept := take m (seen f)\<rparr>" by (simp add: m_def)
  obtain old t where disk: "p_disk g = (old, t)" by (cases "p_disk g")
  have "\<exists>c \<in> written_out (p_log g). holds bc (take m (seen f)) c \<and> prefix (fst c) (fst (p_log g)) \<and>
    (\<not> p_stale g \<longrightarrow> length old \<le> length (fst c))"
  proof (cases "p_stale g")
    case True
    have "holds bc (kept fresh_file) ([], Whole)" by (simp add: fresh_file_def)
    from written_part [OF inv(1) this, of m] True show ?thesis by (auto simp: fresh_file_def)
  next
    case False
    then have p: "prefix (kept f) (seen f)" "prefix old (fst (p_log g))" using inv(3) disk by simp_all
    then have "prefix (kept f) (take m (seen f))" by (auto simp: m_def prefix_def)
    from written_part [OF inv(1) inv(2)[unfolded disk] this p(2)] show ?thesis by blast
  qed
  then obtain c where c: "c \<in> written_out (p_log g)" "holds bc (take m (seen f)) c" "prefix (fst c) (fst (p_log g))"
    "\<not> p_stale g \<longrightarrow> length old \<le> length (fst c)" by blast
  have "g\<lparr>p_disk := c, p_stale := False\<rparr> \<in> write_some g"
    unfolding write_some_def disk fst_conv using c(1,4) by blast
  moreover have "handle_inv bc n (h, f\<lparr>kept := take m (seen f)\<rparr>) (g\<lparr>p_disk := c, p_stale := False\<rparr>)"
    using assms c(2,3) inv(4) by (simp add: handle_inv_def take_is_prefix)
  ultimately show ?thesis unfolding flush by blast
qed

lemma log_some_inv:
  assumes "handle_inv bc n (h, f) g" "\<forall>r\<in>set recs. loggable bc r" "length (frames bc recs) \<le> m"
  shows "handle_inv bc (n + m) (h, if oh_store h then append_all bc breaks recs f else f) (log_some bc breaks recs g)"
proof (cases "p_open g")
  case True
  have inv: "oh_store h" "holds bc (seen f) (p_log g)" "length (seen f) \<le> n" "length (kept f) \<le> n"
    "\<not> p_stale g \<longrightarrow> prefix (kept f) (seen f) \<and> prefix (fst (p_disk g)) (fst (p_log g))"
    using assms(1) True by (simp_all add: handle_inv_def)
  note all = log_all_holds [OF inv(2) assms(2), of breaks] append_all_seen [of f bc breaks recs]
  have "length (seen (append_all bc breaks recs f)) \<le> n + m" using all(2) inv(3) assms(3) by linarith
  moreover have "\<not> p_stale g \<longrightarrow> prefix (kept f) (seen (append_all bc breaks recs f)) \<and>
      prefix (fst (p_disk g)) (fst (fold (log_one bc breaks) recs (p_log g)))"
    using inv(5) all by (meson prefix_order.trans)
  ultimately show ?thesis using assms(1) True all(1) inv(1,4) by (simp add: handle_inv_def log_some_def append_all_kept)
next
  case False
  then show ?thesis using assms(1) by (simp add: handle_inv_def log_some_def)
qed

lemma batch_begun_inv:
  assumes "handle_inv bc n (h, f) g" "\<forall>r\<in>set recs. loggable bc r"
  shows "handle_inv bc (n + length (frames bc recs)) (h, batch_begun bc breaks i recs (h, f)) (log_some bc breaks (take i recs) g)"
proof -
  have "frames bc recs = frames bc (take i recs) @ frames bc (drop i recs)" by (simp flip: frames_simps(3))
  then have "length (frames bc (take i recs)) \<le> length (frames bc recs)" by simp
  moreover have "\<forall>r\<in>set (take i recs). loggable bc r" using assms(2) by (meson in_set_takeD)
  ultimately show ?thesis unfolding batch_begun_def prod.case by (intro log_some_inv [OF assms(1)])
qed

lemma batch_inv:
  assumes "handle_inv bc n (h, f) g" "\<forall>r\<in>set recs. loggable bc r" "n + length (frames bc recs) < 2 ^ 34"
  shows "\<exists>s. record_and_apply bc breaks syncs recs (h, f) = Ok s \<and>
    (\<exists>g'\<in>outcomes bc (LogBatch breaks syncs recs) g. handle_inv bc (n + length (frames bc recs)) s g')"
proof -
  let ?f = "if oh_store h then append_all bc breaks recs f else f"
  let ?g = "log_some bc breaks recs g"
  have h: "oh_store h = p_open g" "overlay_ok (oh_data h)" "view_of (oh_data h) = p_now g" "4 * length (o_paths (oh_data h)) \<le> n"
    using assms(1) by (simp_all add: handle_inv_def)
  have four: "4 * length recs \<le> length (frames bc recs)" by (rule frames_length [OF assms(2)])
  have "length (o_paths (oh_data h)) + length recs < 2 ^ 32" using h(4) four assms(3) by simp
  from records_refine [OF h(2) this] obtain w where w: "apply_records recs (oh_data h) = Ok w" "overlay_ok w"
    "view_of w = fold record_spec recs (p_now g)" "length (o_paths w) \<le> length (o_paths (oh_data h)) + length recs"
    using h(3) by auto
  have now: "p_open ?g = p_open g" by (simp add: log_some_def)
  have "handle_inv bc (n + length (frames bc recs)) (h, ?f) ?g" by (rule log_some_inv [OF assms(1,2) order_refl])
  then have "handle_inv bc (n + length (frames bc recs)) (h\<lparr>oh_data := w\<rparr>, if oh_store h \<and> syncs then sync ?f else ?f)
      (if syncs \<and> p_open g then ?g\<lparr>p_now := fold record_spec recs (p_now g), p_disk := p_log ?g, p_stale := False\<rparr>
       else ?g\<lparr>p_now := fold record_spec recs (p_now g)\<rparr>)"
    using w(2,3,4) h(4) four by (auto simp: handle_inv_def sync_def h(1) now)
  moreover have "record_and_apply bc breaks syncs recs (h, f) = Ok (h\<lparr>oh_data := w\<rparr>, if oh_store h \<and> syncs then sync ?f else ?f)"
    by (simp add: record_and_apply_def w(1) Let_def)
  ultimately show ?thesis by (auto simp: Let_def)
qed

lemma clear_inv:
  assumes "handle_inv bc n (h, f) g"
  shows "\<exists>g'\<in>outcomes bc (LogClear truncates) g. handle_inv bc n (clear_handle truncates (h, f)) g'"
  using assms by (auto simp: handle_inv_def clear_handle_def Wal.truncate_def view_empty Let_def) (auto simp: empty_overlay_def)

lemma handle_step_inv:
  assumes "bincode_ok bc" "handle_inv bc n (h, f) g" "n + op_bytes bc op < 2 ^ 34" "\<forall>r\<in>set (op_records op). loggable bc r"
  shows "\<exists>s. handle_step bc op (h, f) = Ok s \<and> (\<exists>g'\<in>outcomes bc op g. handle_inv bc (n + op_bytes bc op) s g')"
proof (cases op)
  case (LogBatch breaks syncs recs)
  then show ?thesis using batch_inv [OF assms(2), of recs] assms(3,4) by (simp add: op_bytes_def del: outcomes.simps)
next
  case (LogClear truncates)
  then show ?thesis using clear_inv [OF assms(2)] by (simp add: op_bytes_def del: outcomes.simps)
next
  case (WriteBack k)
  then show ?thesis using write_some_inv [OF assms(2)] by (simp add: op_bytes_def del: store_step.simps)
next
  case (Reopen readable opens)
  then show ?thesis using reopened_back_up [OF assms(1,2)] assms(3) by (simp add: op_bytes_def)
next
  case (MachineCrash readable opens)
  then show ?thesis using reopened_back_up [OF assms(1) lost_memory_inv [OF assms(2)]] assms(3)
    by (simp add: op_bytes_def del: store_step.simps)
next
  case (DiesInBatch breaks i recs readable opens)
  then show ?thesis using reopened_back_up [OF assms(1) batch_begun_inv [OF assms(2)]] assms(3,4) by (simp add: op_bytes_def)
next
  case (CrashInBatch breaks i recs written readable opens)
  let ?f = "batch_begun bc breaks i recs (h, f)"
  let ?g = "log_some bc breaks (take i recs) g"
  let ?n = "n + length (frames bc recs)"
  have inv: "handle_inv bc ?n (h, ?f) ?g" using batch_begun_inv [OF assms(2)] assms(4) by (simp add: CrashInBatch)
  have n: "?n < 2 ^ 34" using assms(3) by (simp add: CrashInBatch op_bytes_def)
  show ?thesis
  proof (cases written)
    case None
    then show ?thesis using reopened_back_up [OF assms(1) lost_memory_inv [OF inv] n]
      by (simp add: CrashInBatch op_bytes_def Let_def del: store_step.simps)
  next
    case (Some k)
    obtain g' where g': "g' \<in> write_some ?g" "handle_inv bc ?n (h, store_step bc (Flush k) ?f) g'"
      using write_some_inv [OF inv] by blast
    then show ?thesis using reopened_back_up [OF assms(1) lost_memory_inv [OF g'(2)] n] Some
      by (fastforce simp: CrashInBatch op_bytes_def Let_def simp del: store_step.simps)
  qed
qed

definition run_handle :: "bincode \<Rightarrow> handle_op list \<Rightarrow> overlay_handle \<times> wal_file \<Rightarrow> (overlay_handle \<times> wal_file) res" where
  "run_handle bc ops = fold_o (handle_step bc) ops"

text \<open>What may be logged, with a codec that keeps its promise; one of the outcomes is the handle's.\<close>

definition loggable_op :: "bincode \<Rightarrow> handle_op \<Rightarrow> bool" where
  "loggable_op bc op \<longleftrightarrow> bincode_ok bc \<and> (\<forall>r\<in>set (op_records op). loggable bc r)"

definition keeps_promise :: "bincode \<Rightarrow> nat \<Rightarrow> overlay_handle \<times> wal_file \<Rightarrow> promise set \<Rightarrow> bool" where
  "keeps_promise bc n s G \<longleftrightarrow> (\<exists>g\<in>G. handle_inv bc n s g)"

interpretation handles: bounded_run "handle_step bc" "\<lambda>op G. \<Union> (outcomes bc op ` G)" "keeps_promise bc" "op_bytes bc"
    "loggable_op bc" "2 ^ 34" for bc
proof unfold_locales
  fix n s G op
  assume k: "keeps_promise bc n s G" and n: "n + op_bytes bc op < 2 ^ 34" and l: "loggable_op bc op"
  from k obtain g where "g \<in> G" "handle_inv bc n s g" by (auto simp: keeps_promise_def)
  then show "\<exists>s'. handle_step bc op s = Ok s' \<and> keeps_promise bc (n + op_bytes bc op) s' (\<Union> (outcomes bc op ` G))"
    using handle_step_inv [of bc n "fst s" "snd s" g op] n l by (fastforce simp: keeps_promise_def loggable_op_def)
qed

lemma fresh_inv: "handle_inv bc 0 (\<lparr>oh_data = empty_overlay, oh_store = True\<rparr>, fresh_file) fresh_promise"
  by (simp add: handle_inv_def fresh_file_def fresh_promise_def view_empty) (simp add: empty_overlay_def)

lemma open_fresh: "handle_open bc True True None = Ok (\<lparr>oh_data = empty_overlay, oh_store = True\<rparr>, Some fresh_file)"
  by (simp add: handle_open_def replay_def apply_records_def)

lemma run_handle_inv:
  assumes "bincode_ok bc" "sum_list (map (op_bytes bc) ops) < 2 ^ 34" "\<forall>op\<in>set ops. \<forall>r\<in>set (op_records op). loggable bc r"
  shows "\<exists>h f. run_handle bc ops (\<lparr>oh_data = empty_overlay, oh_store = True\<rparr>, fresh_file) = Ok (h, f) \<and>
    (\<exists>g\<in>promised bc ops. handle_inv bc (sum_list (map (op_bytes bc) ops)) (h, f) g)"
proof -
  have "keeps_promise bc 0 (\<lparr>oh_data = empty_overlay, oh_store = True\<rparr>, fresh_file) {fresh_promise}"
    using fresh_inv by (auto simp: keeps_promise_def)
  from handles.run_refines [OF this, of ops] assms show ?thesis
    by (fastforce simp: keeps_promise_def run_handle_def loggable_op_def promised_def)
qed

text \<open>Intact runs: the log is whole and the disk has it, or it is empty and the disk may have the one before.\<close>

definition plain_promise :: "view \<times> view \<Rightarrow> promise \<Rightarrow> bool" where
  "plain_promise v g \<longleftrightarrow> (\<exists>recs old. p_log g = (recs, Whole) \<and> p_disk g = (old, Whole) \<and> p_open g \<and>
     p_now g = fst v \<and> fst v = fold record_spec recs (Map.empty, {}) \<and> snd v = fold record_spec old (Map.empty, {}) \<and>
     (if p_stale g then recs = [] else old = recs))"

lemma written_out_Whole: "c \<in> written_out (recs, Whole) \<Longrightarrow> \<exists>j t. c = (take j recs, t) \<and> t \<noteq> Buried"
  by (auto split: if_splits intro: exI [of _ "length recs"])

lemma log_intact:
  "list_all (\<lambda>r. breaks r = None) new \<Longrightarrow> \<forall>r\<in>set new. loggable bc r \<Longrightarrow>
   fold (log_one bc breaks) new (recs, Whole) = (recs @ new, Whole)"
proof (induction new arbitrary: recs)
  case (Cons r new)
  then have "frame_written bc breaks r = length (frame bc r)" "4 \<le> length (frame bc r)"
    by (simp_all add: frame_written_def frame_length)
  then have "log_one bc breaks r (recs, Whole) = (recs @ [r], Whole)" by (cases "frame bc r") (simp_all add: Let_def)
  then show ?case using Cons by simp
qed simp

lemma plain_write:
  assumes "plain_promise v g" "g' \<in> write_some g"
  shows "plain_promise (fst v, fst v) g'"
proof -
  obtain recs old where p: "p_log g = (recs, Whole)" "p_disk g = (old, Whole)" "p_open g" "p_now g = fst v"
    "fst v = fold record_spec recs (Map.empty, {})" "if p_stale g then recs = [] else old = recs"
    using assms(1) unfolding plain_promise_def by blast
  obtain j t' where g': "g' = g\<lparr>p_disk := (take j recs, t'), p_stale := False\<rparr>" "j \<le> length recs"
    "if j = length recs then t' = Whole else t' \<noteq> Buried" "\<not> p_stale g \<longrightarrow> length old \<le> j"
    using assms(2) p(1,2) by (auto simp: write_some_def)
  then have "j = length recs" using p(6) by (auto split: if_splits)
  then show ?thesis using p g' by (auto simp: plain_promise_def)
qed

lemma plain_back_up:
  "plain_promise v g \<Longrightarrow> g' \<in> back_up True True g \<Longrightarrow> plain_promise v g'"
  unfolding plain_promise_def back_up_def by fastforce

lemma plain_outcome:
  assumes "plain_promise v g" "intact op" "\<forall>r\<in>set (op_records op). loggable bc r" "g' \<in> outcomes bc op g"
  shows "plain_promise (handle_spec op v) g'"
proof -
  obtain now dur where v: "v = (now, dur)" by (cases v)
  show ?thesis
  proof (cases op)
    case (LogBatch breaks syncs recs)
    then have "list_all (\<lambda>r. breaks r = None) recs" "syncs" "\<forall>r\<in>set recs. loggable bc r" using assms(2,3) by simp_all
    from log_intact [OF this(1,3)] this(2) show ?thesis using assms(1,4)
      by (auto simp: LogBatch v plain_promise_def log_some_def Let_def)
  next
    case (LogClear truncates)
    then show ?thesis using assms by (auto simp: v plain_promise_def Let_def)
  next
    case (WriteBack k)
    then show ?thesis using plain_write [OF assms(1)] assms(4) by (simp add: v)
  next
    case (Reopen readable opens)
    then show ?thesis using plain_back_up [OF assms(1)] assms(2,4) by (simp add: v)
  next
    case (MachineCrash readable opens)
    have "plain_promise (dur, dur) (lost_memory g\<lparr>p_now := dur\<rparr>)" using assms(1) by (auto simp: v plain_promise_def lost_memory_def)
    moreover have "back_up True True (lost_memory g\<lparr>p_now := dur\<rparr>) = back_up True True (lost_memory g)" by (auto simp: back_up_def)
    ultimately show ?thesis using plain_back_up assms(2,4) by (simp add: MachineCrash v)
  qed (use assms(2) in auto)
qed

lemma plain_promised:
  assumes "list_all intact ops" "\<forall>op\<in>set ops. \<forall>r\<in>set (op_records op). loggable bc r" "g \<in> promised bc ops"
  shows "plain_promise (fold handle_spec ops ((Map.empty, {}), (Map.empty, {}))) g"
proof -
  have "\<forall>g\<in>fold (\<lambda>op G. \<Union> (outcomes bc op ` G)) ops G. plain_promise (fold handle_spec ops v) g" if "\<forall>g\<in>G. plain_promise v g" for v G
    using assms(1,2) that
  proof (induction ops arbitrary: v G)
    case (Cons op ops)
    have "\<forall>g\<in>\<Union> (outcomes bc op ` G). plain_promise (handle_spec op v) g" using Cons.prems plain_outcome by fastforce
    then show ?case unfolding fold_simps using Cons.prems by (intro Cons.IH) auto
  qed simp
  moreover have "plain_promise ((Map.empty, {}), (Map.empty, {})) fresh_promise"
    by (simp add: plain_promise_def fresh_promise_def)
  ultimately show ?thesis using assms(3) unfolding promised_def by blast
qed

subsection \<open>Properties\<close>

text \<open>
  C9. The overlay of a database and its log agree. From a fresh log, after any sequence of change
  batches whose appends and syncs may fail, compactions, write-outs by the system, restarts of the
  daemon and crashes of the machine, also inside a batch, no step panics and one of the promised
  outcomes has happened: the overlay is that outcome's view, that is every record since the last
  compaction or restart whatever the log has done; a restart replays the records of the log in order
  up to the first one cut short, and nothing else as long as nothing was appended behind that one; and
  a crash does so with what the disk has, which is what the last sync found or a later part of it.
  Where nothing fails and no crash falls inside a batch this is the overlay of the records since the
  last compaction, through every restart, and a crash undoes at most a compaction's truncation.
\<close>

theorem overlay_handle_refines:
  assumes "bincode_ok bc" and "sum_list (map (op_bytes bc) ops) < 2 ^ 34"
    and "\<forall>op\<in>set ops. \<forall>r\<in>set (op_records op). loggable bc r"
  shows "\<exists>h f h' f'. handle_open bc True True None = Ok (h, Some f) \<and> run_handle bc ops (h, f) = Ok (h', f') \<and>
    overlay_ok (oh_data h') \<and>
    (\<exists>g\<in>promised bc ops. view_of (oh_data h') = p_now g \<and>
      (\<exists>h''. handle_open bc True True (Some f') = Ok (h'', Some f') \<and> view_of (oh_data h'') \<in> replayed (p_log g)) \<and>
      (\<exists>h'' f''. handle_open bc True True (Some (store_step bc Restart f')) = Ok (h'', Some f'') \<and>
         view_of (oh_data h'') \<in> replayed (p_disk g))) \<and>
    (list_all intact ops \<longrightarrow> view_of (oh_data h') = fst (fold handle_spec ops ((Map.empty, {}), (Map.empty, {}))))"
proof -
  obtain h f g where r: "run_handle bc ops (\<lparr>oh_data = empty_overlay, oh_store = True\<rparr>, fresh_file) = Ok (h, f)"
    "g \<in> promised bc ops" "handle_inv bc (sum_list (map (op_bytes bc) ops)) (h, f) g" using run_handle_inv [OF assms] by blast
  then have inv: "overlay_ok (oh_data h)" "view_of (oh_data h) = p_now g" "holds bc (seen f) (p_log g)" "holds bc (kept f) (p_disk g)"
    "length (seen f) \<le> sum_list (map (op_bytes bc) ops)" "length (kept f) \<le> sum_list (map (op_bytes bc) ops)"
    by (simp_all add: handle_inv_def)
  have "p_now g = fst (fold handle_spec ops ((Map.empty, {}), (Map.empty, {})))" if "list_all intact ops"
    using plain_promised [OF that assms(3) r(2)] by (auto simp: plain_promise_def)
  moreover obtain w where "handle_open bc True True (Some f) = Ok (\<lparr>oh_data = w, oh_store = True\<rparr>, Some f)" "view_of w \<in> replayed (p_log g)"
    using reopen_holds [OF assms(1) inv(3,5) assms(2), of True True] by auto
  moreover obtain w' where "handle_open bc True True (Some (store_step bc Restart f)) =
      Ok (\<lparr>oh_data = w', oh_store = True\<rparr>, Some (store_step bc Restart f))" "view_of w' \<in> replayed (p_disk g)"
    using reopen_holds [of bc "store_step bc Restart f" "p_disk g" "sum_list (map (op_bytes bc) ops)" True True] assms(1,2) inv(4,6) by auto
  ultimately show ?thesis using open_fresh r(1,2) inv(1,2) by fastforce
qed

text \<open>A crash inside a batch after an intact run: every batch before it and a first part of this one
  come back, or, if the disk has not seen the last truncation, the log from before it.\<close>

lemma crash_inside_batch:
  assumes "bincode_ok bc" "sum_list (map (op_bytes bc) (ops @ [CrashInBatch (\<lambda>r. None) n recs written True True])) < 2 ^ 34"
    "\<forall>op\<in>set (ops @ [CrashInBatch (\<lambda>r. None) n recs written True True]). \<forall>r\<in>set (op_records op). loggable bc r" "list_all intact ops"
  shows "\<exists>h f. run_handle bc (ops @ [CrashInBatch (\<lambda>r. None) n recs written True True])
      (\<lparr>oh_data = empty_overlay, oh_store = True\<rparr>, fresh_file) = Ok (h, f) \<and>
    (case fold handle_spec ops ((Map.empty, {}), (Map.empty, {})) of (now, dur) \<Rightarrow>
      view_of (oh_data h) = dur \<or> (\<exists>i\<le>n. view_of (oh_data h) = fold record_spec (take i recs) now))"
proof -
  let ?op = "CrashInBatch (\<lambda>r. None) n recs written True True"
  obtain now dur where v: "fold handle_spec ops ((Map.empty, {}), (Map.empty, {})) = (now, dur)"
    by (cases "fold handle_spec ops ((Map.empty, {}), (Map.empty, {}))")
  obtain h f g' where r: "run_handle bc (ops @ [?op]) (\<lparr>oh_data = empty_overlay, oh_store = True\<rparr>, fresh_file) = Ok (h, f)"
    "g' \<in> promised bc (ops @ [?op])" "view_of (oh_data h) = p_now g'"
    using run_handle_inv [OF assms(1-3)] by (auto simp: handle_inv_def)
  then obtain g where g: "g \<in> promised bc ops" "g' \<in> outcomes bc ?op g" by (auto simp: promised_def)
  have "plain_promise (now, dur) g" using plain_promised [OF assms(4) _ g(1)] assms(3) v by simp
  then obtain old past where p: "p_log g = (old, Whole)" "p_disk g = (past, Whole)" "p_open g"
    "now = fold record_spec old (Map.empty, {})" "dur = fold record_spec past (Map.empty, {})"
    "if p_stale g then old = [] else past = old" by (auto simp: plain_promise_def)
  have "\<forall>r\<in>set (take n recs). loggable bc r" using assms(3) by (auto dest: in_set_takeD)
  then have log: "log_some bc (\<lambda>r. None) (take n recs) g = g\<lparr>p_log := (old @ take n recs, Whole)\<rparr>"
    using log_intact [of "\<lambda>r. None" "take n recs" bc old] p(1,3) by (simp add: log_some_def list.pred_True)
  have "p_now g' = dur \<or> (\<exists>i\<le>n. p_now g' = fold record_spec (take i recs) now)"
  proof (cases written)
    case None
    then show ?thesis using g(2) p(2,5) by (auto simp: log back_up_def lost_memory_def)
  next
    case (Some k)
    then obtain w where w: "w \<in> write_some (g\<lparr>p_log := (old @ take n recs, Whole)\<rparr>)" "g' \<in> back_up True True (lost_memory w)"
      using g(2) by (auto simp: log)
    then obtain c where c: "c \<in> written_out (old @ take n recs, Whole)" "\<not> p_stale g \<longrightarrow> length past \<le> length (fst c)" "p_disk w = c"
      using p(2) unfolding write_some_def by fastforce
    then obtain j t where t: "c = (take j (old @ take n recs), t)" "t \<noteq> Buried" by (blast dest: written_out_Whole)
    have j: "p_now g' \<in> replayed (take j (old @ take n recs), t)" "t \<noteq> Buried" "\<not> p_stale g \<longrightarrow> length past \<le> j"
      using w(2) c(2,3) t unfolding back_up_def lost_memory_def by auto
    then have "length old \<le> j" using p(6) by (auto split: if_splits)
    moreover have "p_now g' = fold record_spec (take j (old @ take n recs)) (Map.empty, {})" using j(1,2) unfolding replayed.simps by simp
    ultimately have "p_now g' = fold record_spec (take (min (j - length old) n) recs) now" by (simp add: p(4))
    then show ?thesis by (meson min.cobounded2)
  qed
  then show ?thesis using r(1,3) by (simp add: v)
qed

theorem overlay_handle_refines_witness:
  "\<exists>h f h' f'. handle_open demo_bincode True True None = Ok (h, Some f) \<and>
     run_handle demo_bincode [LogBatch (\<lambda>r. None) True [Delete [7]], LogClear True, MachineCrash True True] (h, f) = Ok (h', f') \<and>
     view_of (oh_data h') = (Map.empty, {[7]})"
proof -
  let ?ops = "[LogBatch (\<lambda>r. None) True [Delete [7]], LogClear True, MachineCrash True True]"
  have "sum_list (map (op_bytes demo_bincode) ?ops) < 2 ^ 34"
    "\<forall>op\<in>set ?ops. \<forall>r\<in>set (op_records op). loggable demo_bincode r"
    by (simp_all add: loggable_def demo_bincode_def op_bytes_def frame_def)
  from overlay_handle_refines [OF demo_bincode_ok this] show ?thesis by auto
qed

text \<open>A batch cut short by a crash, and one behind it: the second is not replayed.\<close>

lemma torn_batch_demo:
  "map_outcome (\<lambda>(h, f). handle_len h) (run_handle demo_bincode
     [CrashInBatch (\<lambda>r. None) 1 [Delete (replicate 20 0)] (Some 5) True True, LogBatch (\<lambda>r. None) True [Delete [8]], Reopen True True]
     (\<lparr>oh_data = empty_overlay, oh_store = True\<rparr>, fresh_file)) = Ok 0"
  by code_simp

end
