(* ===== verification/Opened.thy ===== *)
theory Opened
  imports Handles
begin

section \<open>From a build to a search\<close>

text \<open>
  What a daemon finds when it opens what a build wrote: the files of the index directory, the shards
  the manifest lists, the filename database, and through them the records of the walk.
\<close>

subsection \<open>Paths of an index\<close>

definition clean_dir :: "bytes \<Rightarrow> bool" where
  "clean_dir a \<longleftrightarrow> a \<noteq> [] \<and> \<not> trivial_piece (last (split_on slash a))"

lemma join_split [simp]: "join_pieces (split_on slash a) = a"
proof (induction a)
  case (Cons b a)
  obtain p ps where p: "split_on slash a = p # ps" by (cases "split_on slash a") auto
  show ?case using Cons by (auto simp: p join_pieces_def)
qed (simp add: join_pieces_def)

lemma trim_snoc: "\<not> trivial_piece p \<Longrightarrow> trim_pieces (ps @ [p]) = ps @ [p]"
  by (auto simp: trim_pieces_def)

lemma trim_clean: "clean_dir a \<Longrightarrow> trim_pieces (split_on slash a) = split_on slash a"
  using trim_snoc [of "last (split_on slash a)" "butlast (split_on slash a)"] by (simp add: clean_dir_def)

lemma components_snoc: "a \<noteq> [] \<Longrightarrow> plain_name n \<Longrightarrow> components (a @ slash # n) = components a @ [Normal n]"
  by (simp add: components_child plain_name_component)

lemma parent_child:
  assumes "clean_dir a" "plain_name n"
  shows "path_parent (a @ slash # n) = Some a"
proof -
  have n: "\<not> trivial_piece n" using assms(2) by (simp add: plain_name_def trivial_piece_def)
  have "split_on slash (a @ slash # n) = split_on slash a @ [n]"
    using assms(2) by (simp add: split_on_append split_on_free plain_name_def)
  moreover have "trim_pieces (split_on slash a @ [n]) = split_on slash a @ [n]" by (rule trim_snoc [OF n])
  ultimately show ?thesis using assms components_snoc [of a n]
    by (simp add: path_parent_def trim_clean Let_def clean_dir_def)
qed

lemma join_clean:
  assumes "clean_dir a" "plain_name n"
  shows "path_join a n = a @ slash # n"
proof -
  have "last a \<noteq> slash"
  proof
    assume "last a = slash"
    then have "split_on slash a = split_on slash (butlast a) @ [[]]"
      using assms(1) split_on_append [of slash "butlast a" "[]"]
      by (metis append_butlast_last_id clean_dir_def split_on.simps(1))
    then show False using assms(1) by (simp add: clean_dir_def trivial_piece_def)
  qed
  then show ?thesis using assms by (cases n) (auto simp: path_join_def has_root_def plain_name_def clean_dir_def)
qed

lemma clean_child: "a \<noteq> [] \<Longrightarrow> plain_name n \<Longrightarrow> clean_dir (a @ slash # n)"
  by (simp add: clean_dir_def split_on_append split_on_free plain_name_def trivial_piece_def)

lemma plain_lits: "plain_name (lit ''content'')" "plain_name (lit ''MANIFEST'')" "plain_name (lit ''overlay.wal'')"
  by code_simp+

lemma length_show_nat: "length (show_nat n) \<le> n div 2 + 1"
proof (induction n rule: less_induct)
  case (less n)
  show ?case
  proof (cases "n < 10")
    case False
    have "length (show_nat n) = length (show_nat (n div 10)) + 1" using False by (subst show_nat.simps) simp
    also have "\<dots> \<le> n div 10 div 2 + 2" using less [of "n div 10"] False by simp
    also have "\<dots> \<le> n div 2 + 1" using False by linarith
    finally show ?thesis .
  qed (subst show_nat.simps, simp)
qed

lemma shard_name_bytes: "b \<in> set (shard_name i) \<Longrightarrow> unat b < 128 \<and> b \<noteq> slash"
proof -
  have "list_all digit (lit (show_nat (unat i)))" using show_nat_digits by blast
  then have "b \<in> set (lit (show_nat (unat i))) \<Longrightarrow> unat b < 128 \<and> b \<noteq> slash"
    by (auto simp: list_all_iff digit_def word_le_nat_alt)
  moreover have "list_all (\<lambda>b. unat b < 128 \<and> b \<noteq> slash) (lit ''shard-'' @ lit ''.dfcs'')" by code_simp
  ultimately show "b \<in> set (shard_name i) \<Longrightarrow> unat b < 128 \<and> b \<noteq> slash"
    unfolding shard_name_def lit_append lit_replicate by (auto simp: list_all_iff split: if_splits)
qed

lemma plain_shard_name: "plain_name (shard_name i)"
proof -
  have "length (shard_name i) > 2" by (simp add: shard_name_def lit_def)
  then show ?thesis using shard_name_bytes [of slash i] by (auto simp: plain_name_def)
qed

lemma shard_name_ok: "valid_utf8 (shard_name i)" "length (shard_name i) < 2 ^ 32"
proof -
  show "valid_utf8 (shard_name i)" using shard_name_bytes by (intro valid_ascii) blast
  have "length (show_nat (unat i)) \<le> unat i div 2 + 1" by (rule length_show_nat)
  also have "unat i div 2 < 2147483648" by (rule less_mult_imp_div_less) simp
  finally have "length (show_nat (unat i)) \<le> 2147483649" by simp
  then show "length (shard_name i) < 2 ^ 32" by (simp add: shard_name_def lit_def)
qed

lemma index_paths:
  assumes "clean_dir a" "plain_name n"
  shows "entry_dir (a @ slash # n) = a @ slash # lit ''content''"
    "components (a @ slash # n) = components a @ [Normal n]"
    "components (entry_dir (a @ slash # n)) = components a @ [Normal (lit ''content'')]"
    "plain_name m \<Longrightarrow> components (path_join (entry_dir (a @ slash # n)) m) = join_dir (components (entry_dir (a @ slash # n))) m"
proof -
  have a: "a \<noteq> []" using assms(1) by (simp add: clean_dir_def)
  show e: "entry_dir (a @ slash # n) = a @ slash # lit ''content''"
    using parent_child [OF assms] join_clean [OF assms(1) plain_lits(1)] by (simp add: entry_dir_def)
  show "components (a @ slash # n) = components a @ [Normal n]" by (rule components_snoc [OF a assms(2)])
  show "components (entry_dir (a @ slash # n)) = components a @ [Normal (lit ''content'')]"
    unfolding e by (rule components_snoc [OF a plain_lits(1)])
  show "components (path_join (entry_dir (a @ slash # n)) m) = join_dir (components (entry_dir (a @ slash # n))) m" if m: "plain_name m"
    unfolding e join_clean [OF clean_child [OF a plain_lits(1)] m]
    using components_snoc [OF _ m, of "a @ slash # lit ''content''"] by (simp add: join_dir_def)
qed


subsection \<open>Opening what a build wrote\<close>

text \<open>A shard file that opens and whose documents are the given files.\<close>

definition shard_holds :: "finder \<Rightarrow> bytes \<Rightarrow> content_file list \<Rightarrow> bool" where
  "shard_holds memmem S files \<longleftrightarrow> (\<exists>r. open_shard S = Ok r \<and> shard_good memmem r \<and>
     (\<forall>P. (\<exists>d < s_num_docs r. P (shard_paths r d) (content_of r d)) \<longleftrightarrow> (\<exists>f\<in>set files. P (fst f) (file_content f))))"

lemma built_shard:
  assumes "files_ok files" "finish_shard now (fill_shard files (new_shard k base)) = Some S" "length S < 2 ^ 32" "memmem_ok memmem"
  shows "shard_holds memmem S files"
proof -
  let ?B = "fill_shard files (new_shard k base)" and ?cs = "map file_content files"
  obtain table where fin: "shard_finished now ?B ?cs table S"
    using finish_shard_parts [OF fill_new [OF assms(1)], of now k base] assms(2,3) by auto
  let ?r = "shard_opened now ?B table S"
  have paths: "sb_paths ?B = map fst files" using fill_shard_fields [of files "new_shard k base"] by (simp add: new_shard_def)
  have n: "length files < 2 ^ 32" using assms(1) by (simp add: files_ok_def)
  have num: "s_num_docs ?r = of_nat (length files)" using finished_rep [OF fin] by (simp add: shard_rep_def paths)
  have at: "shard_paths ?r (of_nat i) = fst (files ! i)" "content_of ?r (of_nat i) = file_content (files ! i)"
    if "i < length files" for i
    using shard_path_finished [OF fin, of i] shard_content_finished [OF fin, of i] that
    by (simp_all add: shard_paths_def content_of_def paths)
  have ids: "(\<exists>d < s_num_docs ?r. Q d) \<longleftrightarrow> (\<exists>i < length files. Q (of_nat i))" for Q
  proof
    assume "\<exists>d < s_num_docs ?r. Q d"
    then obtain d where d: "d < of_nat (length files)" "Q d" unfolding num by blast
    from d(1) n obtain i where "i < length files" "d = of_nat i" by (rule docid_of_nat)
    then show "\<exists>i < length files. Q (of_nat i)" using d(2) by blast
  next
    assume "\<exists>i < length files. Q (of_nat i)"
    then obtain i where "i < length files" "Q (of_nat i)" by blast
    moreover have "(of_nat i :: u32) < of_nat (length files)" using \<open>i < length files\<close> n by (simp add: word_less_nat_alt)
    ultimately show "\<exists>d < s_num_docs ?r. Q d" unfolding num by blast
  qed
  have "(\<exists>d < s_num_docs ?r. P (shard_paths ?r d) (content_of ?r d)) \<longleftrightarrow> (\<exists>f\<in>set files. P (fst f) (file_content f))" for P
  proof -
    have "(\<exists>i < length files. P (shard_paths ?r (of_nat i)) (content_of ?r (of_nat i))) \<longleftrightarrow>
        (\<exists>i < length files. P (fst (files ! i)) (file_content (files ! i)))" using at by auto
    then show ?thesis unfolding ids by (metis in_set_conv_nth)
  qed
  moreover have "shard_good memmem ?r" using fin assms(4) unfolding shard_good_def by blast
  ultimately show ?thesis using open_shard_finished [OF fin] unfolding shard_holds_def by blast
qed

lemma found_in_shards:
  assumes "list_all2 (shard_holds memmem) snap docs"
  shows "shards_good memmem snap \<and> (content_found snap q cs p \<longleftrightarrow>
    (\<exists>f\<in>set (concat docs). fst f = p \<and> content_hit (file_content f) (if cs then q else fold_bytes q) cs))"
  using assms
proof (induction snap docs rule: list_all2_induct)
  case (Cons S snap files docs)
  let ?P = "\<lambda>path bs. path = p \<and> content_hit bs (if cs then q else fold_bytes q) cs"
  obtain r where r: "open_shard S = Ok r" "shard_good memmem r"
    "\<And>P. (\<exists>d < s_num_docs r. P (shard_paths r d) (content_of r d)) \<longleftrightarrow> (\<exists>f\<in>set files. P (fst f) (file_content f))"
    using Cons.hyps(1) unfolding shard_holds_def by blast
  have "content_found (S # snap) q cs p \<longleftrightarrow>
      (\<exists>d < s_num_docs r. ?P (shard_paths r d) (content_of r d)) \<or> content_found snap q cs p"
    by (auto simp: content_found_def r(1))
  moreover have "(\<exists>d < s_num_docs r. ?P (shard_paths r d) (content_of r d)) \<longleftrightarrow> (\<exists>f\<in>set files. ?P (fst f) (file_content f))"
    by (rule r(3))
  ultimately show ?case using Cons.IH r(1,2) by (auto simp: shards_good_def)
qed (simp add: shards_good_def content_found_def)

lemma load_listed:
  assumes "clean_dir a" "plain_name n" "length parts < 2 ^ 32"
    and "reads d (join_dir (components (entry_dir (a @ slash # n))) (lit ''MANIFEST'')) =
      Some (manifest_encode \<lparr>build_time = now, total_content_docs = tot, shards = entries_of parts\<rparr>)"
    and "\<And>i. i < length parts \<Longrightarrow>
      reads d (join_dir (components (entry_dir (a @ slash # n))) (shard_name (of_nat i))) = Some (S i)"
  shows "load_shard_set (\<lambda>p. reads d (components p)) (entry_dir (a @ slash # n)) = Ok (map S [0..<length parts])"
proof -
  let ?dir = "entry_dir (a @ slash # n)" and ?fs = "\<lambda>p. reads d (components p)"
  let ?m = "\<lparr>build_time = now, total_content_docs = tot, shards = entries_of parts\<rparr>"
  have "manifest_ok ?m"
    using assms(3) shard_name_ok by (auto simp: manifest_ok_def Manifest.entry_ok_def entries_of_def list_all_iff)
  then have "manifest_decode (manifest_encode ?m) = Ok (Some ?m)" using manifest_decode_encoded [of ?m "[]"] by simp
  then have "manifest_read (?fs (path_join ?dir (lit ''MANIFEST''))) = Ok (Some ?m)"
    using index_paths(4) [OF assms(1,2) plain_lits(2)] assms(4) by (simp add: manifest_read_def)
  moreover have "List.map_filter (\<lambda>entry. ?fs (path_join ?dir (shard_file entry))) (entries_of parts) =
      map (\<lambda>entry. the (?fs (path_join ?dir (shard_file entry)))) (entries_of parts)"
    using assms(5) index_paths(4) [OF assms(1,2) plain_shard_name]
    by (intro map_filter_all) (auto simp: entries_of_def)
  moreover have "map (\<lambda>entry. the (?fs (path_join ?dir (shard_file entry)))) (entries_of parts) = map S [0..<length parts]"
    using assms(5) index_paths(4) [OF assms(1,2) plain_shard_name] by (simp add: entries_of_def comp_def)
  ultimately show ?thesis by (simp add: load_shard_set_def)
qed

lemma load_built:
  assumes "clean_dir a" "plain_name n" "length parts < 2 ^ 32"
    and "shards_stored now (components (entry_dir (a @ slash # n))) parts d"
    and "reads d (join_dir (components (entry_dir (a @ slash # n))) (lit ''MANIFEST'')) =
      Some (manifest_encode \<lparr>build_time = now, total_content_docs = tot, shards = entries_of parts\<rparr>)"
  shows "load_shard_set (\<lambda>p. reads d (components p)) (entry_dir (a @ slash # n)) =
    Ok (map (\<lambda>i. the (shard_of now parts i)) [0..<length parts])"
  using assms(4) by (intro load_listed [OF assms(1-3,5)]) (auto simp: shards_stored_def)


lemma b_paths_builder: "b_paths (filename_builder U now recs) = map br_path recs"
proof -
  have "b_paths (fold (\<lambda>r B. fst (insert_with U (br_path r) (br_dir r) (br_size r) (br_mtime r) B)) recs B) =
      b_paths B @ map br_path recs" for B
    by (induction recs arbitrary: B) (simp_all add: insert_with_def Let_def)
  then show ?thesis by (simp add: filename_builder_def) (simp add: set_build_time_def new_builder_def)
qed

lemma in_content_files:
  "(\<exists>f\<in>set (content_files recs). P (fst f) (file_content f)) \<longleftrightarrow> (\<exists>r\<in>set recs. \<exists>bs. br_content r = Some bs \<and> P (br_path r) bs)"
  by (auto simp: content_files_def List.map_filter_def file_content_def) force

text \<open>The offsets of the formats have 32 bits: the files a build writes must be shorter.\<close>

definition build_fits :: "zstd \<Rightarrow> unicode \<Rightarrow> u64 \<Rightarrow> build_rec list \<Rightarrow> bool" where
  "build_fits Z U now recs \<longleftrightarrow> (\<forall>F. finish Z (filename_builder U now recs) = Some F \<longrightarrow> length F < 2 ^ 32) \<and>
     (let parts = all_parts (content_files recs) in
      \<forall>i S. i < length parts \<longrightarrow> shard_of now parts i = Some S \<longrightarrow> length S < 2 ^ 32)"

lemma files_ok_nth:
  assumes "files_ok (concat parts)" "i < length parts"
  shows "files_ok (parts ! i)"
proof -
  have "set (parts ! i) \<subseteq> set (concat parts)" using assms(2) by (auto intro: nth_mem)
  moreover have "length (parts ! i) \<le> length (concat parts)"
    using assms(2) unfolding length_concat by (intro member_le_sum_list) auto
  ultimately show ?thesis using assms(1) by (auto simp: files_ok_def list_all_iff)
qed

lemma stored_holds:
  assumes "files_ok (content_files recs)" "build_fits Z U now recs" "memmem_ok memmem"
    and "parts = all_parts (content_files recs)" "concat parts = content_files recs" "i < length parts"
    and "shard_of now parts i = Some S"
  shows "shard_holds memmem S (parts ! i)"
proof (rule built_shard)
  show "files_ok (parts ! i)" using assms(1,5,6) files_ok_nth [of parts i] by simp
  show "finish_shard now (fill_shard (parts ! i) (new_shard (of_nat i) (of_nat (base_of parts i)))) = Some S"
    using assms(7) by (simp add: shard_of_def)
  show "length S < 2 ^ 32" using assms(2,4,6,7) by (auto simp: build_fits_def Let_def)
qed (rule assms(3))

text \<open>What the files of a fresh build hold: the database of all records and shards with the records
  that have content. Files elsewhere may have changed since.\<close>

definition index_of :: "zstd \<Rightarrow> unicode \<Rightarrow> finder \<Rightarrow> build_rec list \<Rightarrow> db_reader \<Rightarrow> bytes list \<Rightarrow> bool" where
  "index_of Z U memmem recs db snap \<longleftrightarrow> db_good Z U db \<and> shards_good memmem snap \<and> length snap < 2 ^ 31 \<and>
     path_of Z db ` {i. i < r_num_docs db} = br_path ` set recs \<and>
     (\<forall>q cs p. content_found snap q cs p \<longleftrightarrow>
       (\<exists>r\<in>set recs. \<exists>bs. br_content r = Some bs \<and> br_path r = p \<and> content_hit bs (if cs then q else fold_bytes q) cs))"

lemma built_index:
  assumes "clean_dir a" "plain_name n" "zstd_ok Z" "memmem_ok memmem" "disk_wf d"
    and "length recs < 2 ^ 31" "\<forall>r\<in>set recs. valid_utf8 (br_path r) \<and> length (br_path r) < 2 ^ 32"
    and "recs = build_records schedule G root opts tree"
    and "build_content_index_with_progress Z U G schedule (file_save succeeds k) mkdir_ok now root tree
      (components (a @ slash # n)) (components (entry_dir (a @ slash # n))) opts d = Some (d', Ok report)"
    and "build_fits Z U now recs"
    and same: "\<And>q. q = components (a @ slash # n) \<or> butlast q = components (entry_dir (a @ slash # n)) \<Longrightarrow> reads d2 q = reads d' q"
  shows "\<exists>F db snap. reads d2 (components (a @ slash # n)) = Some F \<and> open_db F = Ok db \<and>
    load_shard_set (\<lambda>p. reads d2 (components p)) (entry_dir (a @ slash # n)) = Ok snap \<and> index_of Z U memmem recs db snap"
proof -
  let ?path = "a @ slash # n" and ?dir = "components (entry_dir (a @ slash # n))"
  have small: "length recs < 2 ^ 32" using assms(6) by simp
  have files: "files_ok (content_files recs)" by (rule disk.content_files_ok [OF small assms(7)])
  have apart: "butlast (components ?path) \<noteq> ?dir"
    using index_paths(2,3) [OF assms(1,2)] by (metis butlast_snoc not_Cons_self2 append_self_conv)
  have cf: "length (content_files (build_records schedule G root opts tree)) < 2 ^ 32"
    using files unfolding assms(8) by (simp add: files_ok_def)
  define parts where "parts = all_parts (content_files recs)"
  from disk.build_inv [OF assms(5) cf apart assms(9)] have parts:
    "concat parts = content_files recs" "[] \<notin> set parts" "shards_stored now ?dir parts d2"
    "reads d2 (components ?path) = finish Z (filename_builder U now recs)"
    "reads d2 (join_dir ?dir (lit ''MANIFEST'')) = Some (manifest_encode
      \<lparr>build_time = now, total_content_docs = of_nat (length (concat parts)), shards = entries_of parts\<rparr>)"
    unfolding assms(8) [symmetric] by (simp_all add: Let_def parts_def shards_stored_def same join_dir_def)
  have "length parts \<le> length (concat parts)" by (rule parts_length [OF parts(2)])
  also have "\<dots> \<le> length recs" unfolding parts(1) by (simp add: content_files_def List.map_filter_def)
  finally have np: "length parts < 2 ^ 31" using assms(6) by simp
  then have np': "length parts < 2 ^ 32" by simp
  let ?snap = "map (\<lambda>i. the (shard_of now parts i)) [0..<length parts]" and ?B = "filename_builder U now recs"
  have wf: "wf_builder U ?B" by (rule disk.filename_builder_wf [OF small assms(7)])
  obtain F where F: "finish Z ?B = Some F" using finish_finished [OF wf] by blast
  have lF: "length F < 2 ^ 32" using assms(10) F by (auto simp: build_fits_def)
  obtain table where fin: "finished Z U ?B table F" using finish_Some_finished [OF wf F lF] by auto
  have "db_good Z U (db_opened Z ?B F)" using fin assms(3) unfolding db_good_def by blast
  moreover have "path_of Z (db_opened Z ?B F) ` {i. i < r_num_docs (db_opened Z ?B F)} = br_path ` set recs"
    using arg_cong [where f = set, OF finished_paths [OF fin assms(3)]]
    unfolding set_map set_all_docids b_paths_builder by simp
  moreover have "list_all2 (shard_holds memmem) ?snap parts"
    using parts(3) stored_holds [OF files assms(10,4) parts_def parts(1)]
    by (auto simp: list_all2_conv_all_nth shards_stored_def)
  note found = found_in_shards [OF this, unfolded parts(1)]
  have "content_found ?snap q cs p \<longleftrightarrow>
      (\<exists>r\<in>set recs. \<exists>bs. br_content r = Some bs \<and> br_path r = p \<and> content_hit bs (if cs then q else fold_bytes q) cs)" for q cs p
    unfolding conjunct2 [OF found] by (rule in_content_files)
  ultimately have "index_of Z U memmem recs (db_opened Z ?B F) ?snap" using conjunct1 [OF found] np
    unfolding index_of_def by simp
  then show ?thesis using parts(4) F open_finished [OF fin] load_built [OF assms(1,2) np' parts(3,5)] by auto
qed

lemma opened_build:
  assumes "clean_dir a" "plain_name n" "zstd_ok Z" "memmem_ok memmem" "disk_wf d"
    and "length recs < 2 ^ 31" "\<forall>r\<in>set recs. valid_utf8 (br_path r) \<and> length (br_path r) < 2 ^ 32"
    and "recs = build_records schedule G root opts tree"
    and "build_content_index_with_progress Z U G schedule (file_save succeeds k) mkdir_ok now root tree
      (components (a @ slash # n)) (components (entry_dir (a @ slash # n))) opts d = Some (d', Ok report)"
    and "build_fits Z U now recs" and "d_wals dm (wal_path (a @ slash # n)) = None"
  shows "\<exists>e dm'. open_entry bc readable opens (\<lambda>p. reads d' (components p)) name (a @ slash # n) source dm = Ok (Some e, dm') \<and>
    index_of Z U memmem recs (e_db (entry_view dm' e)) (e_shards (entry_view dm' e)) \<and> e_overlay (entry_view dm' e) = empty_overlay"
proof -
  let ?path = "a @ slash # n" and ?fs = "\<lambda>p. reads d' (components p)"
  from built_index [OF assms(1-10), of d'] obtain F db snap where b: "reads d' (components ?path) = Some F" "open_db F = Ok db"
    "load_shard_set ?fs (entry_dir ?path) = Ok snap" "index_of Z U memmem recs db snap" by blast
  obtain h f where h: "handle_open bc readable opens (d_wals dm (wal_path ?path)) = Ok (h, f)" "oh_data h = empty_overlay"
    using assms(11) by (auto simp: handle_open_def replay_def apply_records_def)
  let ?e = "\<lparr>l_name = name, l_root = source, l_db_path = ?path, l_db = db, l_shards = d_next dm, l_overlay = d_next dm\<rparr>"
  let ?dm = "dm\<lparr>d_shards := (d_shards dm)(d_next dm := (entry_dir ?path, snap)),
      d_overlays := (d_overlays dm)(d_next dm := h), d_wals := (d_wals dm)(wal_path ?path := f), d_next := d_next dm + 1\<rparr>"
  have "open_entry bc readable opens ?fs name ?path source dm = Ok (Some ?e, ?dm)"
    by (simp add: open_entry_def b(1-3) h(1) Let_def)
  moreover have "entry_view ?dm ?e = \<lparr>e_name = name, e_root = source, e_db_path = ?path, e_db = db, e_shards = snap, e_overlay = empty_overlay\<rparr>"
    by (simp add: entry_view_def h(2))
  ultimately show ?thesis using b(4) by (intro exI [of _ ?e] exI [of _ ?dm]) simp
qed

subsection \<open>One file, indexed\<close>

abbreviation demo_recs :: "build_rec list" where
  "demo_recs \<equiv> build_records (\<lambda>vs. vs) demo_gitignore [0x2E] default_content_options demo_tree"

lemma demo_content: "content_files demo_recs = [([0x61], False, 4, 7, [0x41, 0x62, 0x43, 0x0A])]"
  by (simp add: demo_records content_files_def List.map_filter_simps)

lemma toc_bound: "length (concat (map toc_entry ls)) \<le> sum_list (map (\<lambda>t. 14 + length t) (map fst ls))"
proof -
  have e: "length (toc_entry l) \<le> 14 + length (fst l)" for l
    using length_varint [of "of_nat (length (fst l))"] by (cases l) (simp add: toc_entry_def)
  have "length (concat (map toc_entry ls)) \<le> sum_list (map (\<lambda>l. 14 + length (fst l)) ls)"
    unfolding length_concat map_map comp_def by (rule sum_list_mono) (rule e)
  then show ?thesis by (simp add: comp_def)
qed

lemma one_file_shard:
  assumes "finish_shard 5 (fill_shard [([0x61], False, 4, 7, [0x41, 0x62, 0x43, 0x0A])] (new_shard k base)) = Some S"
  shows "length S < 2 ^ 32"
proof -
  let ?files = "[([0x61], False, 4, 7, [0x41, 0x62, 0x43, 0x0A])] :: content_file list"
  let ?B = "fill_shard ?files (new_shard k base)"
  have ok: "files_ok ?files" by (simp add: files_ok_def valid_ascii)
  obtain F table where F: "finish_shard 5 ?B = Some F" "length table = shard_slots ?B * SLOT_LEN"
    "F = with_toc (concat (map snd (sections 5 ?B table))) (locs_from 0 (sections 5 ?B table))"
    using finish_shard_parts [OF fill_new [OF ok], of 5] by blast
  have m: "sb_try_map ?B = [(0x616263, [0]), (0x62630A, [0])]"
    by code_simp
  have slots: "shard_slots ?B = 4" unfolding shard_slots_def m by code_simp
  have b: "length (blobs (sb_try_map ?B)) \<le> 4000"
    using length_encode [of "deltas_of 0 [0]"] by (simp add: m blobs_def enc_posting_def)
  have f: "sb_paths ?B = [[0x61]]" "sb_meta ?B = [(0, 4, 7)]"
    using fill_shard_fields [of ?files "new_shard k base"] by (simp_all add: new_shard_def)
  have c: "length (sb_corpus ?B) = 4" "length (sb_offsets ?B) = 1"
    using fill_new [OF ok, of k base] by (simp_all add: shard_rep_def file_content_def)
  have s: "length (concat (map snd (sections 5 ?B table))) \<le> 5000"
    using b c F(2) slots by (simp add: sections_def shard_sections_def meta_data_def f fold_path_entry
        path_entry_def concat_fixed_length [of offset_bytes 12] concat_fixed_length [of meta_bytes META_REC_LEN]
        META_REC_LEN_def SLOT_LEN_def)
  have "length (concat (map toc_entry (locs_from 0 (sections 5 ?B table)))) < 1000"
    by (rule le_less_trans [OF toc_bound]) (simp add: known_tags_def)
  then show ?thesis using s F(1,3) assms by (simp add: with_toc_eq)
qed

lemma one_file_db:
  assumes "finish stored_zstd (filename_builder ascii_tables 5 demo_recs) = Some F"
  shows "length F < 2 ^ 32"
proof -
  let ?Z = stored_zstd and ?B = "filename_builder ascii_tables 5 demo_recs"
  have wf: "wf_builder ascii_tables ?B" by (rule disk.filename_builder_wf) (simp_all add: demo_records valid_ascii)
  obtain F' table where F': "finish ?Z ?B = Some F'"
    and F: "F' = db_header ?Z ?B @ db_docs ?Z ?B @ db_meta_sec ?B @ table @ blobs (b_try_map ?B)"
    and t: "length table = db_slots ?B * SLOT_LEN"
    using finish_parts [OF wf, of ?Z] by blast
  have p: "b_paths ?B = [[0x61]]" by (simp add: b_paths_builder demo_records)
  have m: "b_try_map ?B = []" unfolding demo_records by code_simp
  have meta: "b_meta ?B = [(0, 4, 7)]" unfolding demo_records by code_simp
  have slots: "db_slots ?B = db_slots new_builder" by (simp add: db_slots_def m new_builder_def)
  have sl: "db_slots new_builder \<le> 4" by code_simp
  have dict: "db_dict ?Z ?B = []" by (simp add: db_dict_def train_dict_def p MIN_DICT_CORPUS_def)
  have ch: "db_chunks ?B = [b_paths ?B]" by (simp add: db_chunks_def p chunks.simps BLOCK_PATHS_def)
  have "length (db_docs ?Z ?B) \<le> 100"
    unfolding db_docs_def db_index_def db_blocks_def dict ch
    by (simp add: pack_def zstd_encode_def stored_zstd_def option_default_def p path_entry_def)
  moreover have "length (db_meta_sec ?B) \<le> 100" by (simp add: db_meta_sec_def meta META_REC_LEN_def)
  ultimately have "length F' < 2 ^ 32" using sl by (simp add: F t slots SLOT_LEN_def HEADER_LEN_def m blobs_def)
  then show ?thesis using F' assms by simp
qed

lemma demo_fits: "build_fits stored_zstd ascii_tables 5 demo_recs"
proof -
  have "all_parts (content_files demo_recs) = [content_files demo_recs]"
    by (simp add: demo_content all_parts_def cut_shards_def cut_step_def SHARD_FLUSH_BYTES_def file_content_def)
  then show ?thesis using one_file_db one_file_shard
    by (auto simp: build_fits_def Let_def shard_of_def demo_content)
qed

definition demo_daemon :: daemon where
  "demo_daemon = \<lparr>d_entries = [], d_shards = (\<lambda>n. ([], [])),
     d_overlays = (\<lambda>n. \<lparr>oh_data = empty_overlay, oh_store = False\<rparr>), d_wals = (\<lambda>p. None), d_next = 0\<rparr>"

subsection \<open>Properties\<close>

text \<open>
  C1. What was indexed is found. After a content build that reports success, opening the database
  it wrote succeeds, and an unlimited literal search over it ends without an error and returns each
  path once: by name exactly the walked paths that match the query, by content exactly the paths of
  the walked files whose indexed bytes contain it, in scope and in the requested layers.
\<close>

theorem index_then_search:
  assumes "zstd_ok (en_zstd E)" and "memmem_ok (en_memmem E)" and "disk_wf d" and "clean_dir a" and "plain_name n"
    and "recs = build_records schedule G root opts tree" and "length recs < 2 ^ 31"
    and "\<forall>r\<in>set recs. valid_utf8 (br_path r) \<and> length (br_path r) < 2 ^ 32"
    and "build_content_index_with_progress (en_zstd E) (en_unicode E) G schedule (file_save succeeds k) mkdir_ok now root tree
      (components (a @ slash # n)) (components (entry_dir (a @ slash # n))) opts d = Some (d', Ok report)"
    and "build_fits (en_zstd E) (en_unicode E) now recs" and "d_wals dm (wal_path (a @ slash # n)) = None"
    and "literal_ctx ctx" and "qc_fn_case ctx \<longrightarrow> unicode_ok (en_unicode E) \<and> (\<forall>r\<in>set recs. \<not> has_sigma (br_path r))"
  shows "\<exists>e dm' m. open_entry bc readable opens (\<lambda>p. reads d' (components p)) name (a @ slash # n) source dm = Ok (Some e, dm') \<and>
    query_entry E ctx (entry_view dm' e) usize_max = Ok m \<and> distinct (map fst m) \<and>
    (\<forall>p. kinds m p = layers_kind
      (qc_want_fn ctx \<and> in_scope p (qc_scope ctx) \<and> (\<exists>r\<in>set recs. br_path r = p) \<and>
        query_matches (en_unicode E) (qc_needle ctx) (qc_fn_case ctx) p \<and>
        (qc_path_mode ctx = Basename \<longrightarrow> basename_hit (en_unicode E) ctx p))
      (qc_want_ct ctx \<and> in_scope p (qc_scope ctx) \<and> (\<exists>r\<in>set recs. \<exists>bs. br_content r = Some bs \<and> br_path r = p \<and>
        content_hit bs (if qc_case_sensitive ctx then qc_needle ctx else fold_bytes (qc_needle ctx)) (qc_case_sensitive ctx))))"
proof -
  from opened_build [OF assms(4,5,1,2,3,7,8,6,9-11), of bc readable opens name source] obtain e dm' where
    o: "open_entry bc readable opens (\<lambda>p. reads d' (components p)) name (a @ slash # n) source dm = Ok (Some e, dm')"
    and "index_of (en_zstd E) (en_unicode E) (en_memmem E) recs (e_db (entry_view dm' e)) (e_shards (entry_view dm' e))"
    and empty: "e_overlay (entry_view dm' e) = empty_overlay" by blast
  then have i: "db_good (en_zstd E) (en_unicode E) (e_db (entry_view dm' e))" "shards_good (en_memmem E) (e_shards (entry_view dm' e))"
    "length (e_shards (entry_view dm' e)) < 2 ^ 31"
    "path_of (en_zstd E) (e_db (entry_view dm' e)) ` {i. i < r_num_docs (e_db (entry_view dm' e))} = br_path ` set recs"
    "\<forall>q cs p. content_found (e_shards (entry_view dm' e)) q cs p \<longleftrightarrow>
      (\<exists>r\<in>set recs. \<exists>bs. br_content r = Some bs \<and> br_path r = p \<and> content_hit bs (if cs then q else fold_bytes q) cs)"
    by (simp_all add: index_of_def)
  let ?v = "entry_view dm' e"
  have paths: "(\<exists>i < r_num_docs (e_db ?v). path_of (en_zstd E) (e_db ?v) i = p) \<longleftrightarrow> (\<exists>r\<in>set recs. br_path r = p)" for p
    using arg_cong [where f = "\<lambda>S. p \<in> S", OF i(4)] by auto
  have "\<not> has_sigma (path_of (en_zstd E) (e_db ?v) i)" if "i < r_num_docs (e_db ?v)" "qc_fn_case ctx" for i
    using paths [of "path_of (en_zstd E) (e_db ?v) i"] that assms(13) by metis
  then have "case_ok (en_zstd E) (en_unicode E) (e_db ?v) (qc_fn_case ctx)" using assms(13) by (simp add: case_ok_def)
  then have ok: "entry_good E (qc_fn_case ctx) ?v" using i(1-3) empty by (simp add: entry_good_def)
  have sup: "\<not> suppresses (e_overlay ?v) p" for p by (simp add: empty suppresses_def empty_overlay_def)
  have found: "filename_found E ctx ?v p \<longleftrightarrow> (\<exists>r\<in>set recs. br_path r = p) \<and>
      query_matches (en_unicode E) (qc_needle ctx) (qc_fn_case ctx) p \<and>
      (qc_path_mode ctx = Basename \<longrightarrow> basename_hit (en_unicode E) ctx p)" for p
    using paths [of p] sup by (auto simp: filename_found_def cold_name_def)
  have texts: "text_found ctx ?v p \<longleftrightarrow> (\<exists>r\<in>set recs. \<exists>bs. br_content r = Some bs \<and> br_path r = p \<and>
        content_hit bs (if qc_case_sensitive ctx then qc_needle ctx else fold_bytes (qc_needle ctx)) (qc_case_sensitive ctx))" for p
    using sup i(5) by (simp add: text_found_def Let_def)
  show ?thesis
    using o query_entry_holds [OF assms(2) ok assms(12)] unfolding holds_layers_def found texts by blast
qed

theorem index_then_search_witness:
  "\<exists>d' report e dm m. build_content_index_with_progress stored_zstd ascii_tables demo_gitignore (\<lambda>vs. vs)
      (file_save (\<lambda>op. True) 0) True 5 [0x2E] demo_tree (components (lit ''d'' @ slash # lit ''index.dfdb''))
      (components (entry_dir (lit ''d'' @ slash # lit ''index.dfdb''))) default_content_options demo_disk = Some (d', Ok report) \<and>
    open_entry demo_bincode True True (\<lambda>p. reads d' (components p)) (lit ''default'') (lit ''d'' @ slash # lit ''index.dfdb'')
      None demo_daemon = Ok (Some e, dm) \<and>
    query_entry demo_engines demo_ctx (entry_view dm e) usize_max = Ok m \<and> kinds m (lit ''a'') = Some Content"
proof -
  let ?out = "components (lit ''d'' @ slash # lit ''index.dfdb'')" and ?dir = "components (entry_dir (lit ''d'' @ slash # lit ''index.dfdb''))"
  let ?run = "build_content_index_with_progress stored_zstd ascii_tables demo_gitignore (\<lambda>vs. vs)
      (file_save (\<lambda>op. True) 0) True 5 [0x2E] demo_tree ?out ?dir default_content_options demo_disk"
  have n: "name_of ?out \<noteq> None" by code_simp
  have "disk.returns (\<lambda>op. True) 0 ?run"
    by (rule disk.build_returns [OF demo_disk_wf n]) (simp_all add: demo_records valid_ascii)
  then obtain d' report where run: "?run = Some (d', Ok report)"
    using reliable_disk unfolding disk.returns_def by blast
  have e: "en_zstd demo_engines = stored_zstd" "en_unicode demo_engines = ascii_tables" "en_memmem demo_engines = naive_find"
    by (simp_all add: demo_engines_def)
  have paths: "clean_dir (lit ''d'')" "plain_name (lit ''index.dfdb'')" by code_simp+
  have wal: "d_wals demo_daemon (wal_path (lit ''d'' @ slash # lit ''index.dfdb'')) = None" by (simp add: demo_daemon_def)
  have small: "length demo_recs < 2 ^ 31" "\<forall>r\<in>set demo_recs. valid_utf8 (br_path r) \<and> length (br_path r) < 2 ^ 32"
    by (simp_all add: demo_records valid_ascii)
  have case_c: "qc_fn_case demo_ctx \<longrightarrow> unicode_ok (en_unicode demo_engines) \<and> (\<forall>r\<in>set demo_recs. \<not> has_sigma (br_path r))"
    by (simp add: demo_ctx_def)
  from index_then_search [of demo_engines, unfolded e, OF stored_zstd_ok naive_find_ok demo_disk_wf paths refl small run
      demo_fits wal demo_ctx_ok case_c [unfolded e], of demo_bincode True True "lit ''default''" None]
  obtain en dm m where q:
    "open_entry demo_bincode True True (\<lambda>p. reads d' (components p)) (lit ''default'') (lit ''d'' @ slash # lit ''index.dfdb'')
      None demo_daemon = Ok (Some en, dm)"
    "query_entry demo_engines demo_ctx (entry_view dm en) usize_max = Ok m"
    "\<forall>p. kinds m p = layers_kind
      (qc_want_fn demo_ctx \<and> in_scope p (qc_scope demo_ctx) \<and> (\<exists>r\<in>set demo_recs. br_path r = p) \<and>
        query_matches ascii_tables (qc_needle demo_ctx) (qc_fn_case demo_ctx) p \<and>
        (qc_path_mode demo_ctx = Basename \<longrightarrow> basename_hit ascii_tables demo_ctx p))
      (qc_want_ct demo_ctx \<and> in_scope p (qc_scope demo_ctx) \<and> (\<exists>r\<in>set demo_recs. \<exists>bs. br_content r = Some bs \<and> br_path r = p \<and>
        content_hit bs (if qc_case_sensitive demo_ctx then qc_needle demo_ctx else fold_bytes (qc_needle demo_ctx)) (qc_case_sensitive demo_ctx)))"
    by blast
  have "content_hit [0x41, 0x62, 0x43, 0x0A] (fold_bytes (lit ''abc'')) False" "\<not> query_matches ascii_tables (lit ''abc'') False (lit ''a'')"
    "lit ''a'' = [0x61]" by code_simp+
  then have "kinds m (lit ''a'') = Some Content"
    using spec [OF q(3), of "lit ''a''"] by (simp add: demo_records demo_ctx_def in_scope_def layers_kind_def)
  then show ?thesis using run q(1,2) by blast
qed

end
