(* ===== verification/Jobs.thy ===== *)
theory Jobs
  imports Handles
begin

section \<open>Background work (crates/deepfindd/src/lib.rs, index_job.rs)\<close>

text \<open>
  Builds run in threads of their own and are told apart by marker files: a thread builds a database
  only while it holds the marker of its path. Watchers fold changes of a root into the overlay they
  captured when they were started and compact it when it has grown. The daemon is a state machine
  whose steps are what one of these threads does between two points at which others can intervene.
\<close>

subsection \<open>Markers\<close>

definition marker :: "bytes \<Rightarrow> bytes" where
  "marker path = with_extension path (lit ''indexing'')"

definition is_marker :: "bytes \<Rightarrow> bool" where
  "is_marker p \<longleftrightarrow> extension p = Some (lit ''indexing'')"

text \<open>The files of a directory tree of depth two: plain files, and the files of each directory.\<close>

datatype dir_item = PlainFile bytes | SubDir bytes "bytes list"

fun stale_markers :: "dir_item \<Rightarrow> bytes list" where
  "stale_markers (PlainFile p) = (if is_marker p then [p] else [])"
| "stale_markers (SubDir p inner) = filter is_marker inner"

definition sweep_stale_markers :: "dir_item list \<Rightarrow> bytes set \<Rightarrow> bytes set" where
  "sweep_stale_markers items marks = marks - set (concat (map stale_markers items))"

definition try_acquire :: "bytes \<Rightarrow> bytes set \<Rightarrow> bytes set option" where
  "try_acquire path marks = (if marker path \<in> marks then None else Some (insert (marker path) marks))"

definition is_indexing :: "bytes \<Rightarrow> bytes set \<Rightarrow> bool" where
  "is_indexing path marks \<longleftrightarrow> marker path \<in> marks"

text \<open>What \<open>status\<close> shows of a build: the line its reporter last wrote.\<close>

definition read_progress :: "files \<Rightarrow> bytes \<Rightarrow> str option" where
  "read_progress fs path = (case fs (marker path) of
     None \<Rightarrow> None
   | Some bs \<Rightarrow> (case from_utf8 bs of
       None \<Rightarrow> None
     | Some s \<Rightarrow> (let s = trim s in if s = [] then None else Some s)))"

text \<open>The patterns of the settings apply to every build of the daemon.\<close>

definition tracked_options :: "settings \<Rightarrow> content_options \<Rightarrow> content_options" where
  "tracked_options conf opts = opts\<lparr>co_ignore_patterns := ignore_patterns conf\<rparr>"

subsection \<open>The watcher of a root\<close>

text \<open>\<open>str::parse\<close> at an unsigned type of 64 bits.\<close>

definition parse_unsigned :: "str \<Rightarrow> nat option" where
  "parse_unsigned s =
     (let ds = (case s of [] \<Rightarrow> [] | c # cs \<Rightarrow> if c = 0x2B then cs else s) in
      if ds \<noteq> [] \<and> list_all digit ds \<and> digits_val ds < 2 ^ 64 then Some (digits_val ds) else None)"

definition env_number :: "nat \<Rightarrow> str option \<Rightarrow> nat" where
  "env_number fallback var = (case Option.bind var parse_unsigned of
     Some n \<Rightarrow> if n > 0 then n else fallback | None \<Rightarrow> fallback)"

definition compaction_threshold :: "str option \<Rightarrow> nat" where
  "compaction_threshold var = env_number 2000 var"

definition SAFETY_NET_SECS :: nat where "SAFETY_NET_SECS = 24 * 60 * 60"

definition safety_net_interval :: "str option \<Rightarrow> nat" where
  "safety_net_interval var = env_number SAFETY_NET_SECS var"

definition is_self_write :: "bytes list \<Rightarrow> bytes \<Rightarrow> bool" where
  "is_self_write paths data_dir \<longleftrightarrow> list_ex (\<lambda>p. starts_with_path p data_dir) paths"

definition sent_paths :: "bool \<Rightarrow> bytes list \<Rightarrow> bytes \<Rightarrow> bytes list" where
  "sent_paths access paths data_dir = (if \<not> access \<and> \<not> is_self_write paths data_dir then paths else [])"

definition lexify :: "bytes \<Rightarrow> bytes \<Rightarrow> bytes \<Rightarrow> bytes" where
  "lexify event lexical_root canon_root = (case strip_path_prefix event canon_root of
     Some rel \<Rightarrow> path_join lexical_root rel | None \<Rightarrow> event)"

text \<open>The file system as \<open>metadata\<close> answers: directory, length, seconds of the modification time.\<close>

type_synonym stats = "bytes \<Rightarrow> (bool \<times> u64 \<times> nat option) option"

definition path_ignored :: "stats \<Rightarrow> (bytes \<Rightarrow> bool \<Rightarrow> gi_match) option \<Rightarrow> bytes \<Rightarrow> bool" where
  "path_ignored stat matcher path = (case matcher of
     None \<Rightarrow> False
   | Some m \<Rightarrow> is_ignored m path (case stat path of Some (dir, _) \<Rightarrow> dir | None \<Rightarrow> False))"

definition build_record :: "stats \<Rightarrow> (bytes \<Rightarrow> walk_entry) \<Rightarrow> u64 \<Rightarrow> bytes \<Rightarrow> wal_record" where
  "build_record stat entry_at max_file_size path =
     (let pstr = from_utf8_lossy path in
      case stat path of
        None \<Rightarrow> Delete pstr
      | Some (dir, len, modified) \<Rightarrow>
          Upsert pstr
            \<lparr>is_dir = dir, file_size = ucast len, mtime = (case modified of Some secs \<Rightarrow> of_nat secs | None \<Rightarrow> 0)\<rparr>
            (if dir then None
             else case classify (entry_at path) max_file_size of TextContent b \<Rightarrow> Some b | _ \<Rightarrow> None))"

definition batch_records ::
  "gitignore_crate \<Rightarrow> stats \<Rightarrow> (bytes \<Rightarrow> walk_entry) \<Rightarrow> u64 \<Rightarrow> settings \<Rightarrow> bytes \<Rightarrow> bytes \<Rightarrow> bytes list \<Rightarrow> wal_record list" where
  "batch_records G stat entry_at max_file_size conf root canon_root batch =
     (let matcher = compile_ignore_matcher G root (ignore_patterns conf) in
      map (build_record stat entry_at max_file_size)
        (filter (\<lambda>p. \<not> path_ignored stat matcher p) (map (\<lambda>p. lexify p root canon_root) batch)))"

text \<open>What the overlay should know of a path: what the file system says, or that it is gone.\<close>

definition on_disk :: "stats \<Rightarrow> (bytes \<Rightarrow> walk_entry) \<Rightarrow> u64 \<Rightarrow> bytes \<Rightarrow> (lite_meta \<times> bytes option) option" where
  "on_disk stat entry_at max_file_size path = map_option (\<lambda>(dir, len, modified).
     (\<lparr>is_dir = dir, file_size = ucast len, mtime = (case modified of Some secs \<Rightarrow> of_nat secs | None \<Rightarrow> 0)\<rparr>,
      if dir then None
      else case classify (entry_at path) max_file_size of TextContent b \<Rightarrow> Some b | _ \<Rightarrow> None)) (stat path)"

lemma record_of_disk:
  "record_spec (build_record stat entry_at m p) (lv, dd) = (case on_disk stat entry_at m p of
     None \<Rightarrow> (lv(from_utf8_lossy p := None), insert (from_utf8_lossy p) dd)
   | Some x \<Rightarrow> (lv(from_utf8_lossy p \<mapsto> x), dd - {from_utf8_lossy p}))"
  by (auto simp: build_record_def on_disk_def Let_def split: option.split)

lemma records_of_disk:
  assumes "\<forall>p\<in>set ps. from_utf8_lossy p = p"
  shows "fst (fold record_spec (map (build_record stat entry_at m) ps) v) p =
      (if p \<in> set ps then on_disk stat entry_at m p else fst v p) \<and>
    (p \<in> snd (fold record_spec (map (build_record stat entry_at m) ps) v) \<longleftrightarrow>
      (if p \<in> set ps then on_disk stat entry_at m p = None else p \<in> snd v))"
  using assms
proof (induction ps arbitrary: v)
  case (Cons q ps)
  obtain lv dd where v: "v = (lv, dd)" by (cases v)
  have q: "from_utf8_lossy q = q" using Cons.prems by simp
  have "\<forall>p\<in>set ps. from_utf8_lossy p = p" using Cons.prems by simp
  from Cons.IH [OF this] show ?case
    by (auto simp: v record_of_disk q split: option.split)
qed simp

text \<open>
  What a watcher records is what is on disk. For every changed path that is not ignored, as the
  build would name it, the overlay afterwards holds the metadata and the indexable text the file
  system has, or a tombstone when the path is gone; ignored paths and all others are as before.
\<close>

theorem batch_reflects_disk:
  assumes "\<forall>p\<in>set batch. valid_utf8 (lexify p root canon_root)"
  shows "let view' = fold record_spec (batch_records G stat entry_at m conf root canon_root batch) v in
    \<forall>p. fst view' p = (if p \<in> (\<lambda>q. lexify q root canon_root) ` set batch \<and>
          \<not> path_ignored stat (compile_ignore_matcher G root (ignore_patterns conf)) p
        then on_disk stat entry_at m p else fst v p) \<and>
      (p \<in> snd view' \<longleftrightarrow> (if p \<in> (\<lambda>q. lexify q root canon_root) ` set batch \<and>
          \<not> path_ignored stat (compile_ignore_matcher G root (ignore_patterns conf)) p
        then on_disk stat entry_at m p = None else p \<in> snd v))"
proof -
  let ?ps = "filter (\<lambda>p. \<not> path_ignored stat (compile_ignore_matcher G root (ignore_patterns conf)) p)
    (map (\<lambda>p. lexify p root canon_root) batch)"
  have "\<forall>p\<in>set ?ps. from_utf8_lossy p = p" using assms by (auto simp: lossy_valid)
  from records_of_disk [OF this, of stat entry_at m v] show ?thesis
    by (simp add: batch_records_def Let_def)
qed

definition gone :: "bytes \<Rightarrow> walk_entry" where
  "gone p = \<lparr>we_path = p, we_name = p, we_dir = False, we_meta = None, we_stat = None, we_read = None\<rparr>"

theorem batch_reflects_disk_witness:
  "let v = fold record_spec (batch_records demo_gitignore (\<lambda>p. None) gone 9 default_settings
     (lit ''/v'') (lit ''/p/v'') [lit ''/p/v/a'']) (Map.empty, {}) in
   fst v (lit ''/v/a'') = None \<and> lit ''/v/a'' \<in> snd v"
proof -
  have l: "lexify (lit ''/p/v/a'') (lit ''/v'') (lit ''/p/v'') = lit ''/v/a''" by code_simp
  have "valid_utf8 (lit ''/v/a'')" by code_simp
  then have "\<forall>p\<in>set [lit ''/p/v/a'']. valid_utf8 (lexify p (lit ''/v'') (lit ''/p/v''))" by (simp add: l)
  from batch_reflects_disk [OF this, of demo_gitignore "\<lambda>p. None" gone 9 default_settings "(Map.empty, {})"]
  show ?thesis by (simp add: l on_disk_def path_ignored_def compile_ignore_matcher_def default_settings_def Let_def)
qed

text \<open>\<open>registry_watcher\<close>: whether an event makes the registry be read again, and the time remembered.\<close>

definition registry_changed :: "nat option option \<Rightarrow> nat option \<Rightarrow> bool \<times> nat option" where
  "registry_changed modified last_mtime = (case modified of
     Some (Some t) \<Rightarrow> if last_mtime = Some t then (False, last_mtime) else (True, Some t)
   | _ \<Rightarrow> (False, last_mtime))"

subsection \<open>Build threads\<close>

text \<open>
  A build thread holds the marker of its path from \<open>try_acquire\<close> to the drop of its guard, which
  also happens when the build unwinds. Beside it runs the reporter of \<open>tracked_build\<close>, which writes
  its line to the marker, and so creates the file when it is not there, until it is told to stop. A
  starting daemon sweeps the markers it finds, one entry of the directory after the other; the
  watchers run by then, and their builds may. When the daemon is stopped or killed and started again
  its threads are gone and the markers are not, and the new process sweeps once. Which threads claim a
  path before the sweep is over is not told apart.
\<close>

datatype phase = Claimed | Building | Joining | Finishing

record builds =
  b_marks :: "bytes set"
  b_threads :: "nat \<Rightarrow> (bytes \<times> phase) option"
  b_reporters :: "nat \<Rightarrow> (bytes \<times> bool) option"
  b_swept :: bool

definition start_builds :: builds where
  "start_builds = \<lparr>b_marks = {}, b_threads = Map.empty, b_reporters = Map.empty, b_swept = False\<rparr>"

datatype build_event =
  Acquire nat bytes | StartReporter nat | Report nat | StopReporter nat | ReporterEnds nat | JoinReporter nat |
  Release nat | Unwind nat | SweepItem dir_item | SweepEnds | DaemonRestarts

inductive build_step :: "builds \<Rightarrow> build_event \<Rightarrow> builds \<Rightarrow> bool" where
  acquire: "b_threads s t = None \<Longrightarrow> b_reporters s t = None \<Longrightarrow> try_acquire p (b_marks s) = Some ms \<Longrightarrow>
    build_step s (Acquire t p) (s\<lparr>b_marks := ms, b_threads := (b_threads s)(t \<mapsto> (p, Claimed))\<rparr>)"
| start: "b_threads s t = Some (p, Claimed) \<Longrightarrow>
    build_step s (StartReporter t) (s\<lparr>b_threads := (b_threads s)(t \<mapsto> (p, Building)),
      b_reporters := (b_reporters s)(t \<mapsto> (p, False))\<rparr>)"
| report: "b_reporters s t = Some (p, stop) \<Longrightarrow>
    build_step s (Report t) (s\<lparr>b_marks := insert (marker p) (b_marks s)\<rparr>)"
| stop: "b_threads s t = Some (p, Building) \<Longrightarrow> b_reporters s t = Some (q, stop) \<Longrightarrow>
    build_step s (StopReporter t) (s\<lparr>b_threads := (b_threads s)(t \<mapsto> (p, Joining)),
      b_reporters := (b_reporters s)(t \<mapsto> (q, True))\<rparr>)"
| reporter_ends: "b_reporters s t = Some (p, True) \<Longrightarrow>
    build_step s (ReporterEnds t) (s\<lparr>b_reporters := (b_reporters s)(t := None)\<rparr>)"
| join: "b_threads s t = Some (p, Joining) \<Longrightarrow> b_reporters s t = None \<Longrightarrow>
    build_step s (JoinReporter t) (s\<lparr>b_threads := (b_threads s)(t \<mapsto> (p, Finishing))\<rparr>)"
| release: "b_threads s t = Some (p, Finishing) \<Longrightarrow>
    build_step s (Release t) (s\<lparr>b_marks := b_marks s - {marker p}, b_threads := (b_threads s)(t := None)\<rparr>)"
| unwind: "b_threads s t = Some (p, Building) \<Longrightarrow>
    build_step s (Unwind t) (s\<lparr>b_marks := b_marks s - {marker p}, b_threads := (b_threads s)(t := None)\<rparr>)"
| sweep: "\<not> b_swept s \<Longrightarrow>
    build_step s (SweepItem item) (s\<lparr>b_marks := sweep_stale_markers [item] (b_marks s)\<rparr>)"
| sweep_ends: "\<not> b_swept s \<Longrightarrow> build_step s SweepEnds (s\<lparr>b_swept := True\<rparr>)"
| restarts: "build_step s DaemonRestarts (s\<lparr>b_threads := Map.empty, b_reporters := Map.empty, b_swept := False\<rparr>)"

inductive_simps build_step_simps:
  "build_step s (Acquire t p) s'" "build_step s (StartReporter t) s'" "build_step s (Report t) s'"
  "build_step s (StopReporter t) s'" "build_step s (ReporterEnds t) s'" "build_step s (JoinReporter t) s'"
  "build_step s (Release t) s'" "build_step s (Unwind t) s'" "build_step s (SweepItem item) s'"
  "build_step s SweepEnds s'" "build_step s DaemonRestarts s'"

inductive build_run :: "builds \<Rightarrow> build_event list \<Rightarrow> builds \<Rightarrow> bool" where
  run_Nil: "build_run s [] s"
| run_Cons: "build_step s ev s1 \<Longrightarrow> build_run s1 evs s' \<Longrightarrow> build_run s (ev # evs) s'"

inductive_simps build_run_simps [simp]: "build_run s [] s'" "build_run s (ev # evs) s'"

text \<open>What every allowed event keeps, every run of allowed events keeps.\<close>

lemma run_keeps:
  assumes "build_run s evs s'" "P s" "\<forall>ev\<in>set evs. A ev"
    "\<And>s ev s'. build_step s ev s' \<Longrightarrow> A ev \<Longrightarrow> P s \<Longrightarrow> P s'"
  shows "P s'"
  using assms(1,2,3) by (induction rule: build_run.induct) (auto intro: assms(4))

text \<open>The reporter of a thread follows its phase.\<close>

fun in_phase :: "phase \<Rightarrow> bytes \<Rightarrow> (bytes \<times> bool) option \<Rightarrow> bool" where
  "in_phase Claimed p r \<longleftrightarrow> r = None"
| "in_phase Building p r \<longleftrightarrow> r = Some (p, False)"
| "in_phase Joining p r \<longleftrightarrow> r = Some (p, True) \<or> r = None"
| "in_phase Finishing p r \<longleftrightarrow> r = None"

definition phases_ok :: "builds \<Rightarrow> bool" where
  "phases_ok s \<longleftrightarrow> (\<forall>t p f. b_threads s t = Some (p, f) \<longrightarrow> in_phase f p (b_reporters s t))"

lemma phases_okD: "phases_ok s \<Longrightarrow> b_threads s t = Some (p, f) \<Longrightarrow> in_phase f p (b_reporters s t)"
  by (simp add: phases_ok_def)

lemma phases_ok_step: "build_step s ev s' \<Longrightarrow> phases_ok s \<Longrightarrow> phases_ok s'"
proof (induction rule: build_step.induct)
  case (stop s t p q b)
  then show ?case using phases_okD [OF stop(3,1)] by (simp add: phases_ok_def)
next
  case (reporter_ends s t p)
  have "in_phase f q None" if "b_threads s t = Some (q, f)" for q f
    using phases_okD [OF reporter_ends(2) that] reporter_ends(1) by (cases f) auto
  then show ?case using reporter_ends by (simp add: phases_ok_def)
qed (simp_all add: phases_ok_def)

lemma phases_ok_run: "build_run start_builds evs s \<Longrightarrow> phases_ok s"
  by (erule run_keeps [where P = phases_ok and A = "\<lambda>ev. True"]) (simp_all add: phases_ok_step, simp add: phases_ok_def start_builds_def)









text \<open>\<open>blocked m\<close>: the marker is on disk and no thread has it, so that none will remove it.
  \<open>orphaned p t\<close>: a reporter whose build has unwound.\<close>

definition blocked :: "bytes \<Rightarrow> builds \<Rightarrow> bool" where
  "blocked m s \<longleftrightarrow> m \<in> b_marks s \<and> (\<forall>u r. b_threads s u = Some r \<longrightarrow> marker (fst r) \<noteq> m)"

lemma blocked_step:
  "build_step s ev s' \<Longrightarrow> (\<forall>item. ev = SweepItem item \<longrightarrow> m \<notin> set (stale_markers item)) \<Longrightarrow> blocked m s \<Longrightarrow> blocked m s'"
  by (induction rule: build_step.induct)
    (fastforce simp: blocked_def try_acquire_def sweep_stale_markers_def split: if_splits)+

definition orphaned :: "bytes \<Rightarrow> nat \<Rightarrow> builds \<Rightarrow> bool" where
  "orphaned p t s \<longleftrightarrow> b_threads s t = None \<and> b_reporters s t = Some (p, False)"

lemma orphaned_step: "build_step s ev s' \<Longrightarrow> ev \<noteq> DaemonRestarts \<Longrightarrow> orphaned p t s \<Longrightarrow> orphaned p t s'"
  by (induction rule: build_step.induct) (auto simp: orphaned_def split: if_splits)

text \<open>From every phase the thread can go on to its end.\<close>

definition can_end :: "nat \<Rightarrow> bytes set \<Rightarrow> builds \<Rightarrow> bool" where
  "can_end t ms s \<longleftrightarrow> (\<exists>evs s'. build_run s evs s' \<and> b_threads s' t = None \<and> b_marks s' = ms)"

lemma can_end_now: "b_threads s t = None \<Longrightarrow> can_end t (b_marks s) s"
  unfolding can_end_def by (intro exI [of _ "[]"]) simp

lemma can_end_step: "build_step s ev s1 \<Longrightarrow> can_end t ms s1 \<Longrightarrow> can_end t ms s"
  unfolding can_end_def by (elim exE conjE) (rule exI, rule exI, rule conjI, erule (1) build_run.run_Cons, simp)

lemma build_finishes:
  assumes "phases_ok s" "b_threads s t = Some (p, f)"
  shows "can_end t (b_marks s - {marker p}) s"
proof -
  have fin: "can_end t (b_marks s - {marker p}) s" if "b_threads s t = Some (p, Finishing)" for s
    by (rule can_end_step [OF build_step.release [OF that]]) (use can_end_now [of "s\<lparr>b_marks := b_marks s - {marker p}, b_threads := (b_threads s)(t := None)\<rparr>" t] in simp)
  have joi: "can_end t (b_marks s - {marker p}) s" if "b_threads s t = Some (p, Joining)" "b_reporters s t = None" for s
    by (rule can_end_step [OF build_step.join [OF that]]) (use fin [of "s\<lparr>b_threads := (b_threads s)(t \<mapsto> (p, Finishing))\<rparr>"] in simp)
  have joi': "can_end t (b_marks s - {marker p}) s"
    if "b_threads s t = Some (p, Joining)" "b_reporters s t = Some (p, True)" for s
    by (rule can_end_step [OF build_step.reporter_ends [OF that(2)]])
      (use joi [of "s\<lparr>b_reporters := (b_reporters s)(t := None)\<rparr>"] that(1) in simp)
  have bui: "can_end t (b_marks s - {marker p}) s"
    if "b_threads s t = Some (p, Building)" "b_reporters s t = Some (p, False)" for s
    by (rule can_end_step [OF build_step.stop [OF that]])
      (use joi' [of "s\<lparr>b_threads := (b_threads s)(t \<mapsto> (p, Joining)), b_reporters := (b_reporters s)(t \<mapsto> (p, True))\<rparr>"] in simp)
  have cla: "can_end t (b_marks s - {marker p}) s" if "b_threads s t = Some (p, Claimed)" for s
    by (rule can_end_step [OF build_step.start [OF that]])
      (use bui [of "s\<lparr>b_threads := (b_threads s)(t \<mapsto> (p, Building)), b_reporters := (b_reporters s)(t \<mapsto> (p, False))\<rparr>"] in simp)
  show ?thesis using phases_okD [OF assms] assms(2) cla bui joi joi' fin by (cases f) auto
qed


text \<open>
  A build can always end, and then frees its path: from every reachable state in which a thread
  builds a path there is a run after which another build of the path can start.
\<close>

theorem build_releases:
  assumes "build_run start_builds evs s" "b_threads s t = Some (p, f)"
  shows "\<exists>evs' s'. build_run s evs' s' \<and> b_threads s' t = None \<and> \<not> is_indexing p (b_marks s') \<and>
    try_acquire p (b_marks s') \<noteq> None"
  using build_finishes [OF phases_ok_run [OF assms(1)] assms(2)]
  by (fastforce simp: can_end_def is_indexing_def try_acquire_def)

text \<open>
  C32. A build that unwinds blocks its database. The stop flag of the reporter is set after the build
  has returned only; when a build panics the guard removes the marker, but the reporter writes it
  again. From then on, whatever else happens and however often the daemon is started again, the
  database is reported as being indexed and no build of it can start, until a sweep comes across the
  marker; and as long as this daemon runs the reporter can write it again even then. A restart and its
  sweep free the database.
\<close>

theorem panicked_build_blocks:
  assumes "build_run start_builds evs s" "b_threads s t = Some (p, Building)"
    and "\<forall>u r. u \<noteq> t \<longrightarrow> b_threads s u = Some r \<longrightarrow> marker (fst r) \<noteq> marker p"
  shows "\<exists>s1. build_run s [Unwind t, Report t] s1 \<and>
    (\<forall>evs s2. build_run s1 evs s2 \<and> (\<forall>item. SweepItem item \<in> set evs \<longrightarrow> marker p \<notin> set (stale_markers item)) \<longrightarrow>
      is_indexing p (b_marks s2) \<and> try_acquire p (b_marks s2) = None) \<and>
    (\<forall>evs s2. build_run s1 evs s2 \<and> DaemonRestarts \<notin> set evs \<longrightarrow>
      (\<exists>s3. build_run s2 [Report t] s3 \<and> is_indexing p (b_marks s3) \<and> try_acquire p (b_marks s3) = None)) \<and>
    (\<forall>item. marker p \<in> set (stale_markers item) \<longrightarrow>
      (\<exists>s2. build_run s1 [DaemonRestarts, SweepItem item] s2 \<and> try_acquire p (b_marks s2) \<noteq> None))"
proof -
  have r: "b_reporters s t = Some (p, False)" using phases_okD [OF phases_ok_run [OF assms(1)] assms(2)] by simp
  let ?s = "s\<lparr>b_marks := insert (marker p) (b_marks s - {marker p}), b_threads := (b_threads s)(t := None)\<rparr>"
  have run: "build_run s [Unwind t, Report t] ?s" using assms(2) r by (auto simp: build_step_simps)
  have start: "blocked (marker p) ?s" "orphaned p t ?s" using assms(3) r by (auto simp: blocked_def orphaned_def)
  have "is_indexing p (b_marks s2) \<and> try_acquire p (b_marks s2) = None"
    if "build_run ?s evs s2" "\<forall>item. SweepItem item \<in> set evs \<longrightarrow> marker p \<notin> set (stale_markers item)" for evs s2
  proof -
    have "blocked (marker p) s2"
      by (rule run_keeps [OF that(1), where P = "blocked (marker p)" and A = "\<lambda>ev. \<forall>item. ev = SweepItem item \<longrightarrow> marker p \<notin> set (stale_markers item)"])
        (use start(1) that(2) blocked_step in auto)
    then show ?thesis by (simp add: blocked_def is_indexing_def try_acquire_def)
  qed
  moreover have "\<exists>s3. build_run s2 [Report t] s3 \<and> is_indexing p (b_marks s3) \<and> try_acquire p (b_marks s3) = None"
    if "build_run ?s evs s2" "DaemonRestarts \<notin> set evs" for evs s2
  proof -
    have "orphaned p t s2"
      by (rule run_keeps [OF that(1), where P = "orphaned p t" and A = "\<lambda>ev. ev \<noteq> DaemonRestarts"]) (use start(2) that(2) orphaned_step in auto)
    then show ?thesis by (auto simp: orphaned_def build_step_simps is_indexing_def try_acquire_def)
  qed
  moreover have "\<exists>s2. build_run ?s [DaemonRestarts, SweepItem item] s2 \<and> try_acquire p (b_marks s2) \<noteq> None"
    if "marker p \<in> set (stale_markers item)" for item
    using that by (auto simp: build_step_simps sweep_stale_markers_def try_acquire_def)
  ultimately show ?thesis using run by blast
qed

text \<open>A thread builds the path \<open>a\<close>, another has claimed \<open>b\<close>.\<close>

definition demo_builds :: builds where
  "demo_builds = \<lparr>b_marks = {marker [0x61], marker [0x62]}, b_threads = [0 \<mapsto> ([0x61], Building), 1 \<mapsto> ([0x62], Claimed)],
    b_reporters = [0 \<mapsto> ([0x61], False)], b_swept = False\<rparr>"

lemma demo_builds_run: "build_run start_builds [Acquire 0 [0x61], StartReporter 0, Acquire 1 [0x62]] demo_builds"
  by (simp add: build_step_simps start_builds_def try_acquire_def insert_commute demo_builds_def) code_simp

lemma demo_markers: "stale_markers (PlainFile (marker [0x61])) = [marker [0x61]]" "marker [0x62] \<noteq> marker [0x61]"
  by code_simp+

theorem panicked_build_blocks_witness:
  "\<exists>s1 s2. build_run demo_builds [Unwind 0, Report 0] s1 \<and>
     build_run s1 [DaemonRestarts, SweepItem (PlainFile (marker [0x61]))] s2 \<and> try_acquire [0x61] (b_marks s2) \<noteq> None"
proof -
  have t: "b_threads demo_builds 0 = Some ([0x61], Building)" by (simp add: demo_builds_def)
  have o: "\<forall>u r. u \<noteq> 0 \<longrightarrow> b_threads demo_builds u = Some r \<longrightarrow> marker (fst r) \<noteq> marker [0x61]"
    using demo_markers(2) by (auto simp: demo_builds_def split: if_splits)
  have "marker [0x61] \<in> set (stale_markers (PlainFile (marker [0x61])))" by (simp add: demo_markers(1) del: stale_markers.simps)
  then show ?thesis using panicked_build_blocks [OF demo_builds_run t o] by blast
qed


theorem build_releases_witness:
  "\<exists>evs s'. build_run demo_builds evs s' \<and> try_acquire [0x61] (b_marks s') \<noteq> None"
proof -
  have t: "b_threads demo_builds 0 = Some ([0x61], Building)" by (simp add: demo_builds_def)
  show ?thesis using build_releases [OF demo_builds_run t] by blast
qed

end
