(* ===== verification/Live.thy ===== *)
theory Live
  imports Jobs
begin

section \<open>The running daemon (crates/deepfindd/src/lib.rs, index_job.rs)\<close>

text \<open>
  What happens to the served databases while the daemon runs: the startup, the changes watchers
  record, rebuilds, compactions, reloads of the registry and the swap after a background build. The
  file system at the time of a step, and whether its system calls succeed, are the step's \<open>env\<close>.
\<close>

record env =
  ev_readable :: bool
  ev_opens :: bool
  ev_files :: files
  ev_registry :: "bytes \<Rightarrow> registry"
  ev_default :: bytes

definition open_again :: "bincode \<Rightarrow> env \<Rightarrow> daemon \<Rightarrow> (live_entry list \<times> daemon) res" where
  "open_again bc ev d = open_dbset bc (ev_readable ev) (ev_opens ev) (ev_files ev) (ev_registry ev) (ev_default ev) d"

definition reload_reusing :: "bincode \<Rightarrow> env \<Rightarrow> daemon \<Rightarrow> daemon res" where
  "reload_reusing bc ev d = bind_o (open_again bc ev d) (\<lambda>(fresh, d').
     Ok (d'\<lparr>d_entries := reuse_handles_from (d_entries d) fresh\<rparr>))"

text \<open>A watcher has the handles of the entry it was spawned for.\<close>

record watcher =
  w_root :: bytes
  w_path :: bytes
  w_shards :: nat
  w_overlay :: nat

definition watcher_of :: "live_entry \<Rightarrow> watcher option" where
  "watcher_of e = map_option (\<lambda>root. \<lparr>w_root = root, w_path = l_db_path e, w_shards = l_shards e, w_overlay = l_overlay e\<rparr>) (l_root e)"

definition serve_start :: "bincode \<Rightarrow> env \<Rightarrow> bool \<Rightarrow> daemon \<Rightarrow> (daemon \<times> watcher list) res" where
  "serve_start bc ev watch d = bind_o (open_again bc ev d) (\<lambda>(es, d').
     Ok (d'\<lparr>d_entries := es\<rparr>, if watch then List.map_filter watcher_of es else []))"

text \<open>The builds requested at startup and after a change of the registry: no index file yet.\<close>

definition missing_builds :: "env \<Rightarrow> bytes \<Rightarrow> db_record list" where
  "missing_builds ev data_dir = filter (\<lambda>rec. ev_files ev (db_path rec) = None) (db_records (ev_registry ev data_dir))"

definition finish_spawned :: "bincode \<Rightarrow> env \<Rightarrow> bool \<Rightarrow> bool \<Rightarrow> bytes \<Rightarrow> daemon \<Rightarrow> (daemon \<times> watcher option) res" where
  "finish_spawned bc ev built watch path d =
     (if built then bind_o (open_again bc ev d) (\<lambda>(fresh, d').
        Ok (d'\<lparr>d_entries := fresh\<rparr>,
          if watch then Option.bind (List.find (\<lambda>e. l_db_path e = path) fresh) watcher_of else None))
      else Ok (d, None))"

text \<open>A change of an overlay handle and of the log of its database.\<close>

definition on_handle ::
  "(overlay_handle \<times> wal_file \<Rightarrow> (overlay_handle \<times> wal_file) res) \<Rightarrow> nat \<Rightarrow> bytes \<Rightarrow> daemon \<Rightarrow> daemon res" where
  "on_handle g n wal d =
     bind_o (g (d_overlays d n, case d_wals d wal of Some f \<Rightarrow> f | None \<Rightarrow> fresh_file)) (\<lambda>(h, f).
     Ok (d\<lparr>d_overlays := (d_overlays d)(n := h),
         d_wals := (if oh_store h then (d_wals d)(wal := Some f) else d_wals d)\<rparr>))"

text \<open>\<open>built\<close>: whether the marker was acquired and the build under it reported success.\<close>

definition rebuild_and_swap :: "bincode \<Rightarrow> env \<Rightarrow> bool \<Rightarrow> nat \<Rightarrow> daemon \<Rightarrow> daemon res" where
  "rebuild_and_swap bc ev built shards_id d =
     (if built then bind_o (reload_shards (ev_files ev) shards_id d) (reload_reusing bc ev) else Ok d)"

definition compact_and_swap :: "bincode \<Rightarrow> env \<Rightarrow> bool \<Rightarrow> bool \<Rightarrow> bytes \<Rightarrow> nat \<Rightarrow> nat \<Rightarrow> daemon \<Rightarrow> daemon res" where
  "compact_and_swap bc ev built truncates path shards_id overlay_id d =
     (if built then
       bind_o (reload_shards (ev_files ev) shards_id d) (\<lambda>d.
       bind_o (on_handle (\<lambda>s. Ok (clear_handle truncates s)) overlay_id (wal_path path) d) (reload_reusing bc ev))
      else Ok d)"

text \<open>One round of the loop of a watcher: the batch goes to the overlay, which is compacted when large.\<close>

definition watch_round ::
  "bincode \<Rightarrow> env \<Rightarrow> (wal_record \<Rightarrow> nat option) \<Rightarrow> bool \<Rightarrow> nat \<Rightarrow> bool \<Rightarrow> bool \<Rightarrow> watcher \<Rightarrow> wal_record list \<Rightarrow> daemon \<Rightarrow> daemon res" where
  "watch_round bc ev breaks syncs threshold built truncates w recs d =
     bind_o (on_handle (record_and_apply bc breaks syncs recs) (w_overlay w) (wal_path (w_path w)) d) (\<lambda>d.
     if handle_len (d_overlays d (w_overlay w)) \<ge> threshold
     then compact_and_swap bc ev built truncates (w_path w) (w_shards w) (w_overlay w) d
     else Ok d)"

text \<open>One cycle of the safety net: every database with a root is rebuilt in turn.\<close>

definition safety_net_round :: "bincode \<Rightarrow> env \<Rightarrow> (bytes \<Rightarrow> bool) \<Rightarrow> daemon \<Rightarrow> daemon res" where
  "safety_net_round bc ev built d =
     fold_o (\<lambda>w. rebuild_and_swap bc ev (built (w_path w)) (w_shards w)) (List.map_filter watcher_of (d_entries d)) d"

subsection \<open>Opening never fails\<close>

lemma bind_no_panic: "m \<noteq> Panic \<Longrightarrow> (\<And>x. m = Ok x \<Longrightarrow> f x \<noteq> Panic) \<Longrightarrow> bind_o m f \<noteq> Panic"
  by (cases m) auto

lemma if_no_panic: "(c \<Longrightarrow> x \<noteq> Panic) \<Longrightarrow> (\<not> c \<Longrightarrow> y \<noteq> Panic) \<Longrightarrow> (if c then x else y) \<noteq> Panic"
  by simp

lemma read_at_no_panic: "read_at src off len \<noteq> Panic"
  by (simp add: read_at_def slice_def Let_def)

lemma read_at_length: "read_at src off len = Ok b \<Longrightarrow> length b = len"
  by (auto simp: read_at_def slice_def Let_def split: if_splits)

lemma rd_le_no_panic: "p + LENGTH('a) div 8 \<le> length bs \<Longrightarrow> (rd_le bs p :: 'a::len word res) \<noteq> Panic"
  using rd_le_in [of p bs, where 'a = 'a] by auto

lemma parse_index_no_panic:
  "\<forall>i\<in>set is. i * 16 + 16 \<le> length bs \<Longrightarrow> parse_index bs is start \<noteq> Panic"
proof (induction "is" arbitrary: start)
  case (Cons i "is")
  have "case_prod f x \<noteq> Panic" if "\<And>a b. f a b \<noteq> Panic" for f :: "'x \<Rightarrow> 'y \<Rightarrow> 'z res" and x using that by (cases x) simp
  with Cons show ?case unfolding parse_index.simps Let_def
    by (intro bind_no_panic rd_le_no_panic) auto
qed simp

lemma open_db_no_panic: "open_db src \<noteq> Panic"
  unfolding open_db_def Let_def
  by (intro bind_no_panic if_no_panic read_at_no_panic rd_le_no_panic parse_index_no_panic)
    (auto dest!: read_at_length simp: HEADER_LEN_def split: prod.split if_splits)

subsection \<open>What opening keeps\<close>

text \<open>Logs and overlays hold at most so many bytes and paths.\<close>

definition within :: "nat \<Rightarrow> daemon \<Rightarrow> bool" where
  "within n d \<longleftrightarrow> (\<forall>p f. d_wals d p = Some f \<longrightarrow> length (seen f) \<le> n) \<and>
     (\<forall>i. overlay_ok (oh_data (d_overlays d i)) \<and> length (o_paths (oh_data (d_overlays d i))) \<le> n)"

text \<open>The handles in use are left alone.\<close>

definition grows :: "daemon \<Rightarrow> daemon \<Rightarrow> bool" where
  "grows d d' \<longleftrightarrow> d_next d \<le> d_next d' \<and> d_entries d' = d_entries d \<and>
     (\<forall>i < d_next d. d_overlays d' i = d_overlays d i \<and> d_shards d' i = d_shards d i)"

definition new_in :: "daemon \<Rightarrow> live_entry \<Rightarrow> bool" where
  "new_in d e \<longleftrightarrow> d_next d \<le> l_shards e \<and> d_next d \<le> l_overlay e"

definition openable :: "files \<Rightarrow> bytes \<Rightarrow> bool" where
  "openable fs path \<longleftrightarrow> (case fs path of None \<Rightarrow> False | Some src \<Rightarrow> \<exists>r. open_db src = Ok r)"

definition served_from :: "files \<Rightarrow> live_entry \<Rightarrow> bool" where
  "served_from fs e \<longleftrightarrow> (\<exists>src. fs (l_db_path e) = Some src \<and> open_db src = Ok (l_db e))"

lemma grows_refl [simp]: "grows d d" by (simp add: grows_def)

lemma grows_trans: "grows d d1 \<Longrightarrow> grows d1 d2 \<Longrightarrow> grows d d2" by (simp add: grows_def)

lemma new_in_grows: "grows d d1 \<Longrightarrow> new_in d1 e \<Longrightarrow> new_in d e" by (simp add: grows_def new_in_def)

lemma replay_length: "(\<And>f. file = Some f \<Longrightarrow> length (seen f) \<le> n) \<Longrightarrow> length (replay bc file) \<le> n"
  using replay_count [of bc "seen (the file)"] by (cases "file") (force simp: replay_def)+

lemma handle_open_small:
  assumes "\<And>f. file = Some f \<Longrightarrow> length (seen f) \<le> n" "n < 2 ^ 32"
  shows "\<exists>h f'. handle_open bc readable opens file = Ok (h, f') \<and> overlay_ok (oh_data h) \<and> length (o_paths (oh_data h)) \<le> n \<and>
    (\<forall>f. f' = Some f \<longrightarrow> length (seen f) \<le> n)"
proof -
  let ?recs = "if readable then replay bc file else []"
  have l: "length ?recs \<le> n" using replay_length [OF assms(1)] by auto
  then have "length (o_paths empty_overlay) + length ?recs < 2 ^ 32" using assms(2) by (simp add: empty_overlay_def)
  from records_refine [OF overlay_ok_empty this] obtain w where
    "apply_records ?recs empty_overlay = Ok w" "overlay_ok w" "length (o_paths w) \<le> length ?recs"
    by (auto simp: empty_overlay_def)
  then show ?thesis using l assms(1) by (auto simp: handle_open_def fresh_file_def split: option.split)
qed

lemma load_shard_set_returns: "\<exists>set. load_shard_set fs dir = Ok set"
proof -
  obtain m where "manifest_read (fs (path_join dir (lit ''MANIFEST''))) = Ok m"
    using manifest_decode_returns by (fastforce simp: manifest_read_def split: option.split)
  then show ?thesis by (auto simp: load_shard_set_def split: option.split)
qed

lemma open_entry_small:
  assumes "within n d" "n < 2 ^ 32"
  shows "\<exists>e d'. open_entry bc readable opens fs name path root d = Ok (e, d') \<and> within n d' \<and> grows d d' \<and>
    (\<forall>x. e = Some x \<longrightarrow> new_in d x \<and> l_db_path x = path \<and> served_from fs x) \<and> (openable fs path \<longrightarrow> e \<noteq> None)"
proof (cases "fs path")
  case (Some src)
  show ?thesis
  proof (cases "open_db src")
    case (Ok db)
    obtain set where set: "load_shard_set fs (entry_dir path) = Ok set" using load_shard_set_returns by blast
    have "length (seen f) \<le> n" if "d_wals d (wal_path path) = Some f" for f using assms(1) that by (auto simp: within_def)
    from handle_open_small [OF this assms(2)] obtain h f' where
      "handle_open bc readable opens (d_wals d (wal_path path)) = Ok (h, f')" "overlay_ok (oh_data h)"
      "length (o_paths (oh_data h)) \<le> n" "\<forall>f. f' = Some f \<longrightarrow> length (seen f) \<le> n" by blast
    then show ?thesis using assms(1) by (auto simp: open_entry_def Some Ok set within_def grows_def new_in_def served_from_def Let_def)
  qed (use assms open_db_no_panic in \<open>auto simp: open_entry_def Some openable_def\<close>)
qed (use assms in \<open>auto simp: open_entry_def openable_def\<close>)

lemma open_records_small:
  assumes "within n d" "n < 2 ^ 32"
  shows "\<exists>new d'. open_records bc readable opens fs recs es d = Ok (es @ new, d') \<and> within n d' \<and> grows d d' \<and>
    (\<forall>x\<in>set new. new_in d x \<and> served_from fs x) \<and> (\<forall>rec\<in>set recs. openable fs (db_path rec) \<longrightarrow> db_path rec \<in> l_db_path ` set new)"
  using assms(1)
proof (induction recs arbitrary: es d)
  case (Cons rec recs)
  obtain e d1 where e: "open_entry bc readable opens fs (db_name rec) (db_path rec) (Some (db_root rec)) d = Ok (e, d1)"
    "within n d1" "grows d d1" "\<forall>x. e = Some x \<longrightarrow> new_in d x \<and> l_db_path x = db_path rec \<and> served_from fs x"
    "openable fs (db_path rec) \<longrightarrow> e \<noteq> None"
    using open_entry_small [OF Cons.prems assms(2), of bc readable opens fs "db_name rec" "db_path rec" "Some (db_root rec)"]
    by (elim exE conjE) (rule that)
  let ?es = "case e of Some e \<Rightarrow> es @ [e] | None \<Rightarrow> es" and ?one = "case e of Some e \<Rightarrow> [e] | None \<Rightarrow> []"
  obtain new d2 where r: "open_records bc readable opens fs recs ?es d1 = Ok (?es @ new, d2)" "within n d2" "grows d1 d2"
    "\<forall>x\<in>set new. new_in d1 x \<and> served_from fs x" "\<forall>rec\<in>set recs. openable fs (db_path rec) \<longrightarrow> db_path rec \<in> l_db_path ` set new"
    using Cons.IH [OF e(2), of ?es] by (elim exE conjE) (rule that)
  have one: "?es = es @ ?one" "\<forall>x\<in>set ?one. new_in d x \<and> served_from fs x"
    "openable fs (db_path rec) \<longrightarrow> db_path rec \<in> l_db_path ` set ?one"
    using e(4,5) by (auto split: option.splits)
  have "open_records bc readable opens fs (rec # recs) es d = Ok (es @ (?one @ new), d2)"
    using r(1) one(1) by (simp add: e(1))
  moreover have "\<forall>x\<in>set (?one @ new). new_in d x \<and> served_from fs x" using one(2) r(4) new_in_grows [OF e(3)] by auto
  moreover have "\<forall>r\<in>set (rec # recs). openable fs (db_path r) \<longrightarrow> db_path r \<in> l_db_path ` set (?one @ new)"
    using one(3) r(5) by (simp add: image_Un)
  ultimately show ?case using r(2) grows_trans [OF e(3) r(3)]
    by (intro exI [of _ "?one @ new"] exI [of _ d2] conjI) assumption+
qed simp

definition indexed :: "env \<Rightarrow> bytes \<Rightarrow> bool" where
  "indexed ev path \<longleftrightarrow> openable (ev_files ev) path \<and>
     (path = ev_default ev \<or> path \<in> db_path ` set (db_records (ev_registry ev (registry_dir (ev_default ev)))))"

lemma open_again_small:
  assumes "within n d" "n < 2 ^ 32"
  shows "\<exists>es d'. open_again bc ev d = Ok (es, d') \<and> within n d' \<and> grows d d' \<and> (\<forall>x\<in>set es. new_in d x \<and> served_from (ev_files ev) x) \<and>
    (\<forall>path. indexed ev path \<longrightarrow> path \<in> l_db_path ` set es)"
proof -
  let ?fs = "ev_files ev" and ?p = "ev_default ev"
  obtain e d1 where e: "open_entry bc (ev_readable ev) (ev_opens ev) ?fs (lit ''default'') ?p None d = Ok (e, d1)"
    "within n d1" "grows d d1" "\<forall>x. e = Some x \<longrightarrow> new_in d x \<and> l_db_path x = ?p \<and> served_from ?fs x" "openable ?fs ?p \<longrightarrow> e \<noteq> None"
    using open_entry_small [OF assms, of bc "ev_readable ev" "ev_opens ev" ?fs "lit ''default''" ?p None]
    by (elim exE conjE) (rule that)
  let ?one = "case e of Some e \<Rightarrow> [e] | None \<Rightarrow> []" and ?recs = "db_records (ev_registry ev (registry_dir ?p))"
  obtain new d2 where r: "open_records bc (ev_readable ev) (ev_opens ev) ?fs ?recs ?one d1 = Ok (?one @ new, d2)" "within n d2"
    "grows d1 d2" "\<forall>x\<in>set new. new_in d1 x \<and> served_from ?fs x" "\<forall>rec\<in>set ?recs. openable ?fs (db_path rec) \<longrightarrow> db_path rec \<in> l_db_path ` set new"
    using open_records_small [OF e(2) assms(2), of bc "ev_readable ev" "ev_opens ev" ?fs ?recs ?one] by (elim exE conjE) (rule that)
  have one: "\<forall>x\<in>set ?one. new_in d x \<and> served_from ?fs x" "openable ?fs ?p \<longrightarrow> ?p \<in> l_db_path ` set ?one"
    using e(4,5) by (auto split: option.splits)
  have "open_again bc ev d = Ok (?one @ new, d2)" using e(1) r(1) by (simp add: open_again_def open_dbset_def)
  moreover have "\<forall>x\<in>set (?one @ new). new_in d x \<and> served_from ?fs x" using one(1) r(4) new_in_grows [OF e(3)] by auto
  moreover have "path \<in> l_db_path ` set (?one @ new)" if i: "indexed ev path" for path
  proof (cases "path = ?p")
    case False
    then obtain rec where "rec \<in> set ?recs" "path = db_path rec" "openable ?fs path" using i by (auto simp: indexed_def)
    then show ?thesis using r(5) by auto
  qed (use i one(2) in \<open>auto simp: indexed_def\<close>)
  ultimately show ?thesis using r(2) grows_trans [OF e(3) r(3)]
    by (intro exI [of _ "?one @ new"] exI [of _ d2] conjI allI impI) assumption+
qed

subsection \<open>Watchers and the entries queries read\<close>

text \<open>The entries of a watched database have the watcher's handles.\<close>

definition attached :: "watcher \<Rightarrow> daemon \<Rightarrow> bool" where
  "attached w d \<longleftrightarrow> w_overlay w < d_next d \<and> w_shards w < d_next d \<and> w_path w \<in> l_db_path ` set (d_entries d) \<and>
     (\<forall>e\<in>set (d_entries d). l_db_path e = w_path w \<longrightarrow> l_shards e = w_shards w \<and> l_overlay e = w_overlay w)"

lemma in_reuse:
  assumes "e \<in> set (reuse_handles_from old es)"
  obtains e0 where "e0 \<in> set es" "l_db_path e = l_db_path e0" "l_db e = l_db e0"
    "(\<exists>x\<in>set old. l_db_path x = l_db_path e \<and> l_shards e = l_shards x \<and> l_overlay e = l_overlay x) \<or>
     (\<forall>x\<in>set old. l_db_path x \<noteq> l_db_path e)"
proof -
  obtain e0 where e0: "e0 \<in> set es" "e = (case List.find (\<lambda>x. l_db_path x = l_db_path e0) old of
     Some x \<Rightarrow> e0\<lparr>l_shards := l_shards x, l_overlay := l_overlay x\<rparr> | None \<Rightarrow> e0)"
    using assms by (auto simp: reuse_handles_from_def)
  show ?thesis
  proof (rule that [OF e0(1)])
    show "l_db_path e = l_db_path e0" "l_db e = l_db e0" by (simp_all add: e0(2) split: option.split)
    show "(\<exists>x\<in>set old. l_db_path x = l_db_path e \<and> l_shards e = l_shards x \<and> l_overlay e = l_overlay x) \<or>
     (\<forall>x\<in>set old. l_db_path x \<noteq> l_db_path e)"
    proof (cases "List.find (\<lambda>x. l_db_path x = l_db_path e0) old")
      case None
      then have "\<forall>x\<in>set old. l_db_path x \<noteq> l_db_path e0" by (auto simp: find_None_iff)
      then show ?thesis by (simp add: e0(2) None)
    next
      case (Some x)
      then have "x \<in> set old" "l_db_path x = l_db_path e0" by (auto simp: find_Some_iff)
      then show ?thesis by (intro disjI1 bexI [of _ x]) (simp_all add: e0(2) Some)
    qed
  qed
qed

lemma reuse_paths: "l_db_path ` set (reuse_handles_from old es) = l_db_path ` set es"
  by (force simp: reuse_handles_from_def image_image split: option.split)

lemma reload_reusing_ok:
  assumes "within n d" "n < 2 ^ 32" "attached w d" "indexed ev (w_path w)"
  shows "\<exists>d'. reload_reusing bc ev d = Ok d' \<and> within n d' \<and> attached w d' \<and>
    d_overlays d' (w_overlay w) = d_overlays d (w_overlay w) \<and> d_shards d' (w_shards w) = d_shards d (w_shards w) \<and>
    (\<forall>e\<in>set (d_entries d'). served_from (ev_files ev) e)"
proof -
  obtain es d1 where o: "open_again bc ev d = Ok (es, d1)" "within n d1" "grows d d1"
    "\<forall>x\<in>set es. new_in d x \<and> served_from (ev_files ev) x" "\<forall>path. indexed ev path \<longrightarrow> path \<in> l_db_path ` set es"
    using open_again_small [OF assms(1,2)] by blast
  let ?es = "reuse_handles_from (d_entries d) es"
  have served: "served_from (ev_files ev) e" if "e \<in> set ?es" for e
    by (rule in_reuse [OF that]) (use o(4) in \<open>auto simp: served_from_def\<close>)
  have same: "l_shards e = w_shards w \<and> l_overlay e = w_overlay w" if "e \<in> set ?es" "l_db_path e = w_path w" for e
    by (rule in_reuse [OF that(1)]) (use assms(3) that(2) in \<open>auto simp: attached_def\<close>)
  have "within n (d1\<lparr>d_entries := ?es\<rparr>)" using o(2) by (simp add: within_def)
  moreover have "attached w (d1\<lparr>d_entries := ?es\<rparr>)"
    using assms(3,4) o(3,5) same by (auto simp: attached_def grows_def reuse_paths)
  ultimately show ?thesis using o(1,3) served assms(3) by (auto simp: reload_reusing_def grows_def attached_def)
qed

lemma reload_shards_ok:
  "\<exists>set. load_shard_set fs (fst (d_shards d i)) = Ok set \<and>
     reload_shards fs i d = Ok (d\<lparr>d_shards := (d_shards d)(i := (fst (d_shards d i), set))\<rparr>)"
  using load_shard_set_returns [of fs "fst (d_shards d i)"] by (auto simp: reload_shards_def)

subsection \<open>Events\<close>

datatype live_event =
  Changed watcher "wal_record \<Rightarrow> nat option" bool "wal_record list" | Compacted watcher env bool bool |
  Rebuilt watcher env bool | Reloaded env

fun live_step :: "bincode \<Rightarrow> live_event \<Rightarrow> daemon \<Rightarrow> daemon res" where
  "live_step bc (Changed v breaks syncs recs) d =
     on_handle (record_and_apply bc breaks syncs recs) (w_overlay v) (wal_path (w_path v)) d"
| "live_step bc (Compacted v ev built truncates) d =
     compact_and_swap bc ev built truncates (w_path v) (w_shards v) (w_overlay v) d"
| "live_step bc (Rebuilt v ev built) d = rebuild_and_swap bc ev built (w_shards v) d"
| "live_step bc (Reloaded ev) d = reload_reusing bc ev d"

text \<open>What an event means for the overlay of \<open>w\<close>.\<close>

fun live_spec :: "watcher \<Rightarrow> live_event \<Rightarrow> view \<Rightarrow> view" where
  "live_spec w (Changed v breaks syncs recs) view = (if w_overlay v = w_overlay w then fold record_spec recs view else view)"
| "live_spec w (Compacted v ev built truncates) view = (if built \<and> w_overlay v = w_overlay w then (Map.empty, {}) else view)"
| "live_spec w _ view = view"

definition record_cost :: "bincode \<Rightarrow> wal_record \<Rightarrow> nat" where
  "record_cost bc r = (case enc_body bc r of Inl e \<Rightarrow> 1 | Inr b \<Rightarrow> 4 + length b)"

fun event_cost :: "bincode \<Rightarrow> live_event \<Rightarrow> nat" where
  "event_cost bc (Changed v breaks syncs recs) = sum_list (map (record_cost bc) recs)"
| "event_cost bc _ = 0"

fun finds :: "bytes \<Rightarrow> live_event \<Rightarrow> bool" where
  "finds path (Changed v breaks syncs recs) = True"
| "finds path (Compacted v ev built truncates) = indexed ev path"
| "finds path (Rebuilt v ev built) = indexed ev path"
| "finds path (Reloaded ev) = indexed ev path"

lemma append_all_length:
  "length (seen (append_all bc breaks recs f)) \<le> length (seen f) + sum_list (map (record_cost bc) recs)"
proof (induction recs arbitrary: f)
  case (Cons r recs)
  let ?f = "case breaks r of None \<Rightarrow> store_step bc (Append r) f | Some k \<Rightarrow> store_step bc (Torn r k) f"
  have "length (seen ?f) \<le> length (seen f) + record_cost bc r"
    by (auto simp: append_def encode_record_def record_cost_def split: option.split sum.split)
  then show ?case using Cons.IH [of ?f] by simp
qed simp

lemma length_cost: "length recs \<le> sum_list (map (record_cost bc) recs)"
  by (induction recs) (auto simp: record_cost_def split: sum.split)

lemma changed_ok:
  assumes "within n d" "n + sum_list (map (record_cost bc) recs) < 2 ^ 32"
  shows "\<exists>h ws. on_handle (record_and_apply bc breaks syncs recs) i wal d = Ok (d\<lparr>d_overlays := (d_overlays d)(i := h), d_wals := ws\<rparr>) \<and>
    within (n + sum_list (map (record_cost bc) recs)) (d\<lparr>d_overlays := (d_overlays d)(i := h), d_wals := ws\<rparr>) \<and>
    view_of (oh_data h) = fold record_spec recs (view_of (oh_data (d_overlays d i)))"
proof -
  let ?h = "d_overlays d i" and ?c = "sum_list (map (record_cost bc) recs)"
  let ?f = "case d_wals d wal of Some f \<Rightarrow> f | None \<Rightarrow> fresh_file"
  let ?g = "if oh_store ?h then let f = append_all bc breaks recs ?f in if syncs then sync f else f else ?f"
  have ok: "overlay_ok (oh_data ?h)" "length (o_paths (oh_data ?h)) + length recs < 2 ^ 32"
    using assms length_cost [of recs bc] by (auto simp: within_def intro: le_less_trans [OF add_mono])
  obtain w where w: "apply_records recs (oh_data ?h) = Ok w" "overlay_ok w"
    "view_of w = fold record_spec recs (view_of (oh_data ?h))" "length (o_paths w) \<le> length (o_paths (oh_data ?h)) + length recs"
    using records_refine [OF ok] by blast
  have f: "length (seen ?f) \<le> n" using assms(1) by (auto simp: within_def fresh_file_def split: option.split)
  then have g: "length (seen ?g) \<le> n + ?c"
    using append_all_length [of bc breaks recs ?f] by (auto simp: Let_def sync_def)
  have "length (o_paths w) \<le> n + ?c"
    using w(4) length_cost [of recs bc] assms(1) by (auto simp: within_def intro: order_trans [OF _ add_mono])
  then have "within (n + ?c) (d\<lparr>d_overlays := (d_overlays d)(i := ?h\<lparr>oh_data := w\<rparr>),
      d_wals := if oh_store ?h then (d_wals d)(wal := Some ?g) else d_wals d\<rparr>)"
    using assms(1) w(2) g by (auto simp: within_def intro: order_trans [OF _ le_add1])
  moreover have "on_handle (record_and_apply bc breaks syncs recs) i wal d = Ok (d\<lparr>d_overlays := (d_overlays d)(i := ?h\<lparr>oh_data := w\<rparr>),
      d_wals := if oh_store ?h then (d_wals d)(wal := Some ?g) else d_wals d\<rparr>)"
    by (simp add: on_handle_def record_and_apply_def Let_def w(1))
  moreover have "view_of (oh_data (?h\<lparr>oh_data := w\<rparr>)) = fold record_spec recs (view_of (oh_data ?h))" using w(3) by simp
  ultimately show ?thesis
    by (intro exI [of _ "?h\<lparr>oh_data := w\<rparr>"] exI [of _ "if oh_store ?h then (d_wals d)(wal := Some ?g) else d_wals d"] conjI)
qed

lemma cleared_ok:
  assumes "within n d"
  shows "\<exists>ws. on_handle (\<lambda>s. Ok (clear_handle truncates s)) i wal d =
      Ok (d\<lparr>d_overlays := (d_overlays d)(i := (d_overlays d i)\<lparr>oh_data := empty_overlay\<rparr>), d_wals := ws\<rparr>) \<and>
    within n (d\<lparr>d_overlays := (d_overlays d)(i := (d_overlays d i)\<lparr>oh_data := empty_overlay\<rparr>), d_wals := ws\<rparr>)"
proof -
  let ?f = "case d_wals d wal of Some f \<Rightarrow> f | None \<Rightarrow> fresh_file"
  let ?g = "if oh_store (d_overlays d i) \<and> truncates then Wal.truncate ?f else ?f"
  have "length (seen ?g) \<le> n" using assms by (auto simp: within_def fresh_file_def Wal.truncate_def split: option.split)
  moreover have "length (o_paths empty_overlay) \<le> n" by (simp add: empty_overlay_def)
  ultimately show ?thesis using assms
    by (intro exI [of _ "if oh_store (d_overlays d i) then (d_wals d)(wal := Some ?g) else d_wals d"])
      (auto simp: on_handle_def clear_handle_def within_def)
qed

lemma attached_upd [simp]:
  "attached w (d\<lparr>d_overlays := x\<rparr>) = attached w d" "attached w (d\<lparr>d_shards := y\<rparr>) = attached w d"
  "attached w (d\<lparr>d_wals := z\<rparr>) = attached w d"
  by (simp_all add: attached_def)

lemma within_shards [simp]: "within n (d\<lparr>d_shards := y\<rparr>) = within n d"
  by (simp add: within_def)

lemma live_step_ok:
  assumes "within n d" "n + event_cost bc x < 2 ^ 32" "attached w d" "finds (w_path w) x"
  shows "\<exists>d'. live_step bc x d = Ok d' \<and> within (n + event_cost bc x) d' \<and> attached w d' \<and>
    view_of (oh_data (d_overlays d' (w_overlay w))) = live_spec w x (view_of (oh_data (d_overlays d (w_overlay w))))"
proof (cases x)
  case (Changed v breaks syncs recs)
  from changed_ok [OF assms(1), of bc recs breaks syncs "w_overlay v" "wal_path (w_path v)"] assms(2) Changed
  obtain h ws where "on_handle (record_and_apply bc breaks syncs recs) (w_overlay v) (wal_path (w_path v)) d =
      Ok (d\<lparr>d_overlays := (d_overlays d)(w_overlay v := h), d_wals := ws\<rparr>)"
    "within (n + event_cost bc x) (d\<lparr>d_overlays := (d_overlays d)(w_overlay v := h), d_wals := ws\<rparr>)"
    "view_of (oh_data h) = fold record_spec recs (view_of (oh_data (d_overlays d (w_overlay v))))"
    by auto
  then show ?thesis using assms(3) Changed by auto
next
  case (Compacted v ev built truncates)
  obtain set where s: "reload_shards (ev_files ev) (w_shards v) d =
      Ok (d\<lparr>d_shards := (d_shards d)(w_shards v := (fst (d_shards d (w_shards v)), set))\<rparr>)" (is "_ = Ok ?d1")
    using reload_shards_ok by blast
  have w1: "within n ?d1" "attached w ?d1" using assms(1,3) by simp_all
  obtain ws where c: "on_handle (\<lambda>s. Ok (clear_handle truncates s)) (w_overlay v) (wal_path (w_path v)) ?d1 =
      Ok (?d1\<lparr>d_overlays := (d_overlays ?d1)(w_overlay v := (d_overlays ?d1 (w_overlay v))\<lparr>oh_data := empty_overlay\<rparr>), d_wals := ws\<rparr>)"
    "within n (?d1\<lparr>d_overlays := (d_overlays ?d1)(w_overlay v := (d_overlays ?d1 (w_overlay v))\<lparr>oh_data := empty_overlay\<rparr>), d_wals := ws\<rparr>)"
    using cleared_ok [OF w1(1)] by blast
  let ?d2 = "?d1\<lparr>d_overlays := (d_overlays ?d1)(w_overlay v := (d_overlays ?d1 (w_overlay v))\<lparr>oh_data := empty_overlay\<rparr>), d_wals := ws\<rparr>"
  have n: "n < 2 ^ 32" "indexed ev (w_path w)" using assms(2,4) Compacted by simp_all
  have "attached w ?d2" using assms(3) by simp
  from reload_reusing_ok [OF c(2) n(1) this n(2)] obtain d' where
    "reload_reusing bc ev ?d2 = Ok d'" "within n d'" "attached w d'" "d_overlays d' (w_overlay w) = d_overlays ?d2 (w_overlay w)"
    by blast
  then show ?thesis using s c(1) assms(1,3)
    by (cases built) (auto simp: Compacted compact_and_swap_def view_empty)
next
  case (Rebuilt v ev built)
  obtain set where s: "reload_shards (ev_files ev) (w_shards v) d =
      Ok (d\<lparr>d_shards := (d_shards d)(w_shards v := (fst (d_shards d (w_shards v)), set))\<rparr>)" (is "_ = Ok ?d1")
    using reload_shards_ok by blast
  have w1: "within n ?d1" "attached w ?d1" "n < 2 ^ 32" "indexed ev (w_path w)" using assms Rebuilt by simp_all
  from reload_reusing_ok [OF w1(1,3,2,4)] obtain d' where
    "reload_reusing bc ev ?d1 = Ok d'" "within n d'" "attached w d'" "d_overlays d' (w_overlay w) = d_overlays ?d1 (w_overlay w)"
    by blast
  then show ?thesis using s assms(1,3) by (cases built) (auto simp: Rebuilt rebuild_and_swap_def)
next
  case (Reloaded ev)
  have n: "n < 2 ^ 32" "indexed ev (w_path w)" using assms(2,4) Reloaded by simp_all
  show ?thesis using reload_reusing_ok [OF assms(1) n(1) assms(3) n(2), of bc] Reloaded by auto
qed

definition run_live :: "bincode \<Rightarrow> live_event list \<Rightarrow> daemon \<Rightarrow> daemon res" where
  "run_live bc evs = fold_o (live_step bc) evs"

text \<open>Rounds of the watcher and of the safety net are runs of events.\<close>

lemma watch_round_run:
  "watch_round bc ev breaks syncs threshold built truncates w recs d =
     bind_o (live_step bc (Changed w breaks syncs recs) d) (\<lambda>d.
       if handle_len (d_overlays d (w_overlay w)) \<ge> threshold then live_step bc (Compacted w ev built truncates) d else Ok d)"
  unfolding watch_round_def live_step.simps ..

lemma safety_net_run:
  "safety_net_round bc ev built d =
     run_live bc (map (\<lambda>w. Rebuilt w ev (built (w_path w))) (List.map_filter watcher_of (d_entries d))) d"
proof -
  have "fold_o (\<lambda>w. rebuild_and_swap bc ev (built (w_path w)) (w_shards w)) ws =
      fold_o (live_step bc) (map (\<lambda>w. Rebuilt w ev (built (w_path w))) ws)" for ws
    by (induction ws) (rule ext, simp)+
  then show ?thesis by (simp add: safety_net_round_def run_live_def)
qed

text \<open>The daemon as a watcher of its overlay sees it.\<close>

definition live_rel :: "watcher \<Rightarrow> nat \<Rightarrow> daemon \<Rightarrow> view \<Rightarrow> bool" where
  "live_rel w n d v \<longleftrightarrow> within n d \<and> attached w d \<and> view_of (oh_data (d_overlays d (w_overlay w))) = v"

interpretation live_run: bounded_run "live_step bc" "live_spec w" "live_rel w" "event_cost bc" "finds (w_path w)" "2 ^ 32" for bc w
proof
  fix n d v x
  assume "live_rel w n d v" "n + event_cost bc x < 2 ^ 32" "finds (w_path w) x"
  then show "\<exists>d'. live_step bc x d = Ok d' \<and> live_rel w (n + event_cost bc x) d' (live_spec w x v)"
    using live_step_ok [of n d bc x w] by (auto simp: live_rel_def)
qed

lemma run_live_ok:
  assumes "within n d" "n + sum_list (map (event_cost bc) evs) < 2 ^ 32" "attached w d" "\<forall>x\<in>set evs. finds (w_path w) x"
  shows "\<exists>d'. run_live bc evs d = Ok d' \<and> attached w d' \<and>
    view_of (oh_data (d_overlays d' (w_overlay w))) = fold (live_spec w) evs (view_of (oh_data (d_overlays d (w_overlay w))))"
proof -
  have "live_rel w n d (view_of (oh_data (d_overlays d (w_overlay w))))" using assms(1,3) by (simp add: live_rel_def)
  from live_run.run_refines [OF this assms(2,4)] show ?thesis by (auto simp: run_live_def live_rel_def)
qed

text \<open>What a search reads of the database of \<open>w\<close>.\<close>

lemma attached_view:
  assumes "attached w d" "e \<in> set (d_entries d)" "l_db_path e = w_path w"
  shows "e_overlay (entry_view d e) = oh_data (d_overlays d (w_overlay w))" "e_shards (entry_view d e) = snd (d_shards d (w_shards w))"
    "e_db (entry_view d e) = l_db e"
  using assms by (auto simp: attached_def entry_view_def)

lemma swap_fresh_ok:
  assumes "within n d" "n < 2 ^ 32"
  shows "\<exists>d' v. finish_spawned bc ev True watch path d = Ok (d', v) \<and> within n d' \<and> d_next d \<le> d_next d' \<and>
    (\<forall>e\<in>set (d_entries d'). new_in d e) \<and>
    (\<forall>x. v = Some x \<longrightarrow> (\<exists>e\<in>set (d_entries d'). watcher_of e = Some x \<and> l_db_path e = path))"
proof -
  obtain es d1 where o: "open_again bc ev d = Ok (es, d1)" "within n d1" "grows d d1"
    "\<forall>x\<in>set es. new_in d x \<and> served_from (ev_files ev) x"
    using open_again_small [OF assms] by blast
  have "\<exists>e\<in>set es. watcher_of e = Some x \<and> l_db_path e = path"
    if "Option.bind (List.find (\<lambda>e. l_db_path e = path) es) watcher_of = Some x" for x
    using that by (auto simp: bind_eq_Some_conv find_Some_iff)
  then show ?thesis using o by (auto simp: finish_spawned_def within_def grows_def)
qed

subsection \<open>Properties\<close>

text \<open>
  C8. What a watcher records is what queries read. While the daemon runs, whatever changes, failed
  log writes, rebuilds, compactions and registry reloads happen to any of its databases, in any
  order, no step fails, and every entry of a watched database that stays registered keeps the
  watcher's handles: its overlay is the watcher's changes since its last compaction.
\<close>

theorem live_updates_visible:
  assumes "within n d" and "n + sum_list (map (event_cost bc) evs) < 2 ^ 32" and "attached w d"
    and "\<forall>x\<in>set evs. finds (w_path w) x"
  shows "\<exists>d'. run_live bc evs d = Ok d' \<and> (\<exists>e\<in>set (d_entries d'). l_db_path e = w_path w) \<and>
    (\<forall>e\<in>set (d_entries d'). l_db_path e = w_path w \<longrightarrow> view_of (e_overlay (entry_view d' e)) =
      fold (live_spec w) evs (view_of (oh_data (d_overlays d (w_overlay w)))))"
proof -
  obtain d' where d': "run_live bc evs d = Ok d'" "attached w d'" "view_of (oh_data (d_overlays d' (w_overlay w))) =
      fold (live_spec w) evs (view_of (oh_data (d_overlays d (w_overlay w))))"
    using run_live_ok [OF assms] by blast
  then show ?thesis using attached_view [OF d'(2)] by (auto simp: attached_def)
qed

text \<open>
  C17. After a compaction whose build succeeded, the entries of the database read the new files and
  nothing else: the database file as it opens now, the shards that the manifest lists now, and an
  empty overlay.
\<close>

theorem compaction_refreshes:
  assumes "within n d" and "n < 2 ^ 32" and "attached w d" and "indexed ev (w_path w)"
  shows "\<exists>d' snap. compact_and_swap bc ev True truncates (w_path w) (w_shards w) (w_overlay w) d = Ok d' \<and>
    load_shard_set (ev_files ev) (fst (d_shards d (w_shards w))) = Ok snap \<and>
    (\<exists>e\<in>set (d_entries d'). l_db_path e = w_path w) \<and>
    (\<forall>e\<in>set (d_entries d'). l_db_path e = w_path w \<longrightarrow> e_overlay (entry_view d' e) = empty_overlay \<and>
      e_shards (entry_view d' e) = snap \<and>
      (\<exists>src. ev_files ev (w_path w) = Some src \<and> open_db src = Ok (e_db (entry_view d' e))))"
proof -
  obtain snap where s: "load_shard_set (ev_files ev) (fst (d_shards d (w_shards w))) = Ok snap"
    "reload_shards (ev_files ev) (w_shards w) d = Ok (d\<lparr>d_shards := (d_shards d)(w_shards w := (fst (d_shards d (w_shards w)), snap))\<rparr>)"
    using reload_shards_ok by blast
  let ?d1 = "d\<lparr>d_shards := (d_shards d)(w_shards w := (fst (d_shards d (w_shards w)), snap))\<rparr>"
  have w1: "within n ?d1" using assms(1) by simp
  obtain ws where c: "on_handle (\<lambda>s. Ok (clear_handle truncates s)) (w_overlay w) (wal_path (w_path w)) ?d1 =
      Ok (?d1\<lparr>d_overlays := (d_overlays ?d1)(w_overlay w := (d_overlays ?d1 (w_overlay w))\<lparr>oh_data := empty_overlay\<rparr>), d_wals := ws\<rparr>)"
    "within n (?d1\<lparr>d_overlays := (d_overlays ?d1)(w_overlay w := (d_overlays ?d1 (w_overlay w))\<lparr>oh_data := empty_overlay\<rparr>), d_wals := ws\<rparr>)"
    using cleared_ok [OF w1] by blast
  let ?d2 = "?d1\<lparr>d_overlays := (d_overlays ?d1)(w_overlay w := (d_overlays ?d1 (w_overlay w))\<lparr>oh_data := empty_overlay\<rparr>), d_wals := ws\<rparr>"
  have "attached w ?d2" using assms(3) by simp
  from reload_reusing_ok [OF c(2) assms(2) this assms(4)] obtain d' where r:
    "reload_reusing bc ev ?d2 = Ok d'" "attached w d'" "d_overlays d' (w_overlay w) = d_overlays ?d2 (w_overlay w)"
    "d_shards d' (w_shards w) = d_shards ?d2 (w_shards w)" "\<forall>e\<in>set (d_entries d'). served_from (ev_files ev) e"
    by blast
  have "compact_and_swap bc ev True truncates (w_path w) (w_shards w) (w_overlay w) d = Ok d'"
    using r(1) by (simp add: compact_and_swap_def s(2) c(1))
  then show ?thesis using s(1) r(2-5) attached_view [OF r(2)]
    by (intro exI [of _ d'] exI [of _ snap]) (auto simp: attached_def served_from_def)
qed

text \<open>
  C31. A background build cuts the earlier watchers off. The swap at its end opens every database
  again and does not take over the handles in use: it succeeds, but from then on no entry has the
  overlay of a watcher that was running, and what such a watcher records is seen by no query.
\<close>

theorem build_orphans_watchers:
  assumes "within n d" and "n + sum_list (map (record_cost bc) recs) < 2 ^ 32" and "attached w d"
  shows "\<exists>d' v d''. finish_spawned bc ev True watch path d = Ok (d', v) \<and>
    live_step bc (Changed w breaks syncs recs) d' = Ok d'' \<and> d_entries d'' = d_entries d' \<and>
    (\<forall>e\<in>set (d_entries d'). l_overlay e \<noteq> w_overlay w \<and> entry_view d'' e = entry_view d' e)"
proof -
  have "n < 2 ^ 32" using assms(2) by simp
  from swap_fresh_ok [OF assms(1) this] obtain d' v where d': "finish_spawned bc ev True watch path d = Ok (d', v)" "within n d'"
    "\<forall>e\<in>set (d_entries d'). new_in d e" by blast
  from changed_ok [OF d'(2) assms(2), of breaks syncs "w_overlay w" "wal_path (w_path w)"] obtain h ws where
    c: "on_handle (record_and_apply bc breaks syncs recs) (w_overlay w) (wal_path (w_path w)) d' =
      Ok (d'\<lparr>d_overlays := (d_overlays d')(w_overlay w := h), d_wals := ws\<rparr>)" by blast
  have "l_overlay e \<noteq> w_overlay w" if "e \<in> set (d_entries d')" for e
    using d'(3) that assms(3) by (auto simp: new_in_def attached_def)
  then show ?thesis using d'(1) c by (auto simp: entry_view_def)
qed

text \<open>
  C16. A damaged database never keeps the daemon from starting or reloading: whatever the index
  files, manifests and logs hold, opening the databases of the registry returns, each database whose
  file opens is served, and the handles in use are left alone.
\<close>

theorem daemon_opens_anything:
  assumes "within n d" and "n < 2 ^ 32"
  shows "\<exists>d' ws. serve_start bc ev watch d = Ok (d', ws) \<and>
    (\<forall>path. indexed ev path \<longrightarrow> (\<exists>e\<in>set (d_entries d'). l_db_path e = path \<and> served_from (ev_files ev) e)) \<and>
    (\<forall>i < d_next d. d_overlays d' i = d_overlays d i \<and> d_shards d' i = d_shards d i) \<and>
    (\<forall>w\<in>set ws. \<exists>e\<in>set (d_entries d'). watcher_of e = Some w)"
proof -
  obtain es d1 where o: "open_again bc ev d = Ok (es, d1)" "within n d1" "grows d d1"
    "\<forall>x\<in>set es. new_in d x \<and> served_from (ev_files ev) x" "\<forall>path. indexed ev path \<longrightarrow> path \<in> l_db_path ` set es"
    using open_again_small [OF assms] by blast
  have "\<exists>e\<in>set es. watcher_of e = Some w" if "w \<in> set (List.map_filter watcher_of es)" for w
    using that by (auto simp: map_filter_def)
  then show ?thesis using o by (fastforce simp: serve_start_def grows_def)
qed

text \<open>
  The search does not survive a damaged shard in the same way. A shard file whose table of
  contents is announced as empty is not skipped like one that does not open: its reader indexes the
  missing count and panics, and so does every content search of the database.
\<close>

theorem damaged_shard_panics:
  "open_shard (replicate 8 0) = Panic \<and>
   shards_query E (replicate 8 0 # snap) folded needle cs scope lim = Panic \<and>
   shards_query_regex E (replicate 8 0 # snap) folded re scope lim = Panic"
proof -
  have "open_shard (replicate 8 0) = Panic" by code_simp
  then show ?thesis by (simp add: shards_query_def shards_query_regex_def)
qed

subsection \<open>An example\<close>

text \<open>The file of a database without documents.\<close>

definition demo_index :: bytes where
  "demo_index = (case finish stored_zstd new_builder of Some F \<Rightarrow> F | None \<Rightarrow> [])"

lemma demo_index_opens: "\<exists>r. open_db demo_index = Ok r"
proof -
  let ?Z = stored_zstd and ?B = new_builder
  obtain F table where F: "finish ?Z ?B = Some F" "F = db_header ?Z ?B @ db_docs ?Z ?B @ db_meta_sec ?B @ table @ blobs (b_try_map ?B)"
    "length table = db_slots ?B * SLOT_LEN" "length F < 2 ^ 32 \<longrightarrow> finished ?Z ascii_tables ?B table F"
    using finish_parts [OF wf_new [of ascii_tables], of ?Z] by blast
  have p: "b_paths ?B = []" "b_meta ?B = []" "b_try_map ?B = []" by (simp_all add: new_builder_def)
  have dict: "db_dict ?Z ?B = []" by (simp add: db_dict_def train_dict_def p MIN_DICT_CORPUS_def)
  have ch: "db_chunks ?B = []" by (simp add: db_chunks_def p chunks.simps)
  have slots: "db_slots ?B \<le> 4" by code_simp
  have "length (db_docs ?Z ?B) \<le> 100" unfolding db_docs_def db_index_def db_blocks_def dict ch by (simp add: pack_def)
  then have "length F < 2 ^ 32" using slots by (simp add: F(2,3) SLOT_LEN_def HEADER_LEN_def p blobs_def db_meta_sec_def)
  then show ?thesis using F(1,4) open_finished by (simp add: demo_index_def)
qed

definition demo_env :: env where
  "demo_env = \<lparr>ev_readable = True, ev_opens = True,
     ev_files = (\<lambda>p. if p = lit ''d/w/index.dfdb'' then Some demo_index else None),
     ev_registry = (\<lambda>dir. \<lparr>registry_path = dir, db_records =
       [\<lparr>db_name = lit ''w'', db_root = lit ''w'', db_path = lit ''d/w/index.dfdb'', content_dir = lit ''d/w/content''\<rparr>]\<rparr>),
     ev_default = lit ''d/index.dfdb''\<rparr>"

definition demo_watcher :: watcher where
  "demo_watcher = \<lparr>w_root = lit ''w'', w_path = lit ''d/w/index.dfdb'', w_shards = 0, w_overlay = 0\<rparr>"

definition demo_served :: daemon where
  "demo_served = \<lparr>d_entries = [\<lparr>l_name = lit ''w'', l_root = Some (lit ''w''), l_db_path = lit ''d/w/index.dfdb'',
       l_db = \<lparr>r_src = [], r_num_docs = 0, r_build_time = 0, r_meta_off = 0, r_try_off = 0, r_slots = 0, r_dict = [],
         r_blocks = [], r_block_start = []\<rparr>, l_shards = 0, l_overlay = 0\<rparr>],
     d_shards = (\<lambda>i. (lit ''d/w/content'', [])),
     d_overlays = (\<lambda>i. \<lparr>oh_data = empty_overlay, oh_store = True\<rparr>), d_wals = (\<lambda>p. None), d_next = 1\<rparr>"

lemma demo_served_ok: "within 0 demo_served" "attached demo_watcher demo_served"
proof -
  show "attached demo_watcher demo_served" by (simp add: attached_def demo_watcher_def demo_served_def)
  have "o_paths empty_overlay = []" by (simp add: empty_overlay_def)
  then show "within 0 demo_served" by (simp add: within_def demo_served_def)
qed

lemma demo_indexed: "indexed demo_env (w_path demo_watcher)"
  using demo_index_opens by (simp add: indexed_def openable_def demo_env_def demo_watcher_def)

theorem live_updates_visible_witness:
  "\<exists>d'. run_live demo_bincode [Changed demo_watcher (\<lambda>r. None) True [Delete [7]], Reloaded demo_env] demo_served = Ok d' \<and>
     (\<exists>e\<in>set (d_entries d'). view_of (e_overlay (entry_view d' e)) = (Map.empty, {[7]}))"
proof -
  let ?evs = "[Changed demo_watcher (\<lambda>r. None) True [Delete [7]], Reloaded demo_env]"
  have c: "0 + sum_list (map (event_cost demo_bincode) ?evs) < 2 ^ 32" by (simp add: record_cost_def demo_bincode_def)
  have f: "\<forall>x\<in>set ?evs. finds (w_path demo_watcher) x" by (simp add: demo_indexed)
  have v: "fold (live_spec demo_watcher) ?evs (view_of (oh_data (d_overlays demo_served (w_overlay demo_watcher)))) = (Map.empty, {[7]})"
    by (simp add: demo_served_def view_empty)
  from live_updates_visible [OF demo_served_ok(1) c demo_served_ok(2) f] show ?thesis unfolding v by blast
qed

theorem compaction_refreshes_witness:
  "\<exists>d'. compact_and_swap demo_bincode demo_env True True (w_path demo_watcher) (w_shards demo_watcher) (w_overlay demo_watcher)
       demo_served = Ok d' \<and> (\<exists>e\<in>set (d_entries d'). open_db demo_index = Ok (e_db (entry_view d' e)))"
proof -
  have "ev_files demo_env (w_path demo_watcher) = Some demo_index" by (simp add: demo_env_def demo_watcher_def)
  then show ?thesis
    using compaction_refreshes [OF demo_served_ok(1) _ demo_served_ok(2) demo_indexed, of demo_bincode True] by auto
qed

theorem build_orphans_watchers_witness:
  "\<exists>d' v d''. finish_spawned demo_bincode demo_env True True (lit ''d/w/index.dfdb'') demo_served = Ok (d', v) \<and>
     live_step demo_bincode (Changed demo_watcher (\<lambda>r. None) True [Delete [7]]) d' = Ok d'' \<and>
     list_all (\<lambda>e. l_overlay e \<noteq> 0) (d_entries d')"
proof -
  have c: "0 + sum_list (map (record_cost demo_bincode) [Delete [7]]) < 2 ^ 32" by (simp add: record_cost_def demo_bincode_def)
  have w: "w_overlay demo_watcher = 0" by (simp add: demo_watcher_def)
  from build_orphans_watchers [OF demo_served_ok(1) c demo_served_ok(2), of demo_env True "lit ''d/w/index.dfdb''" "\<lambda>r. None" True]
  show ?thesis unfolding w list_all_iff by blast
qed

theorem daemon_opens_anything_witness:
  "\<exists>d' ws. serve_start demo_bincode demo_env True demo_served = Ok (d', ws) \<and> d_overlays d' 0 = d_overlays demo_served 0 \<and>
     (\<exists>e\<in>set (d_entries d'). l_db_path e = lit ''d/w/index.dfdb'')"
proof -
  have p: "w_path demo_watcher = lit ''d/w/index.dfdb''" by (simp add: demo_watcher_def)
  have n: "0 < d_next demo_served" by (simp add: demo_served_def)
  from daemon_opens_anything [OF demo_served_ok(1), of demo_bincode demo_env True] obtain d' ws where
    "serve_start demo_bincode demo_env True demo_served = Ok (d', ws)"
    "\<forall>path. indexed demo_env path \<longrightarrow> (\<exists>e\<in>set (d_entries d'). l_db_path e = path \<and> served_from (ev_files demo_env) e)"
    "\<forall>i < d_next demo_served. d_overlays d' i = d_overlays demo_served i \<and> d_shards d' i = d_shards demo_served i"
    by auto
  then show ?thesis using demo_indexed n unfolding p by blast
qed

end
