(* ===== verification/Client.thy ===== *)
theory Client
  imports Server Opened Jobs
begin

section \<open>The command line client (crates/deepfind/src/main.rs, launchd.rs; df-ipc paths.rs; singleton.rs)\<close>

text \<open>
  The client turns the arguments of a command into a request, reads the frames of the answer, falls
  back to a scan of its own or a build in its own process, and prints. Arguments are what clap gives.
  The socket is a function from the bytes of the request to the items of the answer; what a command
  prints and how it ends are values.
\<close>

subsection \<open>Paths\<close>

text \<open>\<open>HOME\<close>, unless it is unset or not Unicode.\<close>

definition home_dir :: "bytes option \<Rightarrow> bytes" where
  "home_dir var = (case var of Some p \<Rightarrow> p | None \<Rightarrow> lit ''/tmp'')"

definition data_dir :: "bytes \<Rightarrow> bytes" where
  "data_dir h = path_join h (lit ''.deep-find'')"

definition default_socket :: "bytes \<Rightarrow> bytes" where
  "default_socket h = path_join (data_dir h) (lit ''daemon.sock'')"

definition default_db :: "bytes \<Rightarrow> bytes" where
  "default_db h = path_join (path_join (data_dir h) (lit ''db'')) (lit ''index.dfdb'')"

definition lock_path :: "bytes \<Rightarrow> bytes" where
  "lock_path socket = path_join (parent_or [dot] (path_parent socket)) (lit ''daemon.lock'')"

definition LABEL :: str where "LABEL = lit ''cn.com.nadav.deepfind''"

definition plist_path :: "bytes \<Rightarrow> bytes" where
  "plist_path h = path_join (path_join (path_join h (lit ''Library'')) (lit ''LaunchAgents'')) (LABEL @ lit ''.plist'')"

text \<open>The agent's property list; the paths are not escaped.\<close>

definition xml :: "nat \<Rightarrow> str \<Rightarrow> str" where
  "xml tabs s = replicate tabs 9 @ s @ [10]"

definition string_el :: "str \<Rightarrow> str" where
  "string_el s = lit ''<string>'' @ s @ lit ''</string>''"

definition key_el :: "string \<Rightarrow> str" where
  "key_el k = xml 1 (lit ''<key>'' @ lit k @ lit ''</key>'')"

definition render_plist :: "bytes \<Rightarrow> bytes \<Rightarrow> bool \<Rightarrow> str" where
  "render_plist exe h watch =
     xml 0 (lit ''<?xml version=\"1.0\" encoding=\"UTF-8\"?>'') @
     xml 0 (lit ''<!DOCTYPE plist PUBLIC \"-//Apple//DTD PLIST 1.0//EN\" \"http://www.apple.com/DTDs/PropertyList-1.0.dtd\">'') @
     xml 0 (lit ''<plist version=\"1.0\">'') @ xml 0 (lit ''<dict>'') @
     key_el ''Label'' @ xml 1 (string_el LABEL) @
     key_el ''ProgramArguments'' @ xml 1 (lit ''<array>'') @ xml 2 (string_el (from_utf8_lossy exe)) @
       xml 2 (string_el (lit ''daemon'')) @ xml 1 (lit ''</array>'') @
     key_el ''RunAtLoad'' @ xml 1 (lit ''<true/>'') @ key_el ''KeepAlive'' @ xml 1 (lit ''<true/>'') @
     key_el ''ProcessType'' @ xml 1 (string_el (lit ''Background'')) @
     (if watch then key_el ''EnvironmentVariables'' @ xml 1 (lit ''<dict>'') @ xml 2 (lit ''<key>DEEPFIND_WATCH</key>'') @
        xml 2 (string_el (lit ''1'')) @ xml 1 (lit ''</dict>'') else []) @
     key_el ''StandardOutPath'' @ xml 1 (string_el (from_utf8_lossy (path_join h (lit ''.deep-find/logs/daemon.out.log'')))) @
     key_el ''StandardErrorPath'' @ xml 1 (string_el (from_utf8_lossy (path_join h (lit ''.deep-find/logs/daemon.err.log'')))) @
     xml 0 (lit ''</dict>'') @ xml 0 (lit ''</plist>'')"

subsection \<open>The arguments of a search\<close>

record search_args =
  sa_query :: str
  sa_limit :: "u32 option"
  sa_scope :: "bytes option"
  sa_extension :: "str list"
  sa_types :: "str list"
  sa_exclude :: "str list"
  sa_glob :: "str list"
  sa_max_depth :: "u32 option"
  sa_regex :: bool
  sa_color :: str
  sa_long :: bool
  sa_null :: bool
  sa_count :: bool
  sa_line_number :: bool
  sa_context :: "u32 option"
  sa_content :: bool
  sa_filename :: bool
  sa_basename :: bool
  sa_hidden :: bool
  sa_max_results :: "u32 option"
  sa_sort :: "str option"
  sa_expr :: "str option"
  sa_db :: "str option"
  sa_direct :: bool
  sa_ignore_case :: bool
  sa_case_sensitive :: bool

definition case_of_args :: "search_args \<Rightarrow> case_control" where
  "case_of_args a = (if sa_case_sensitive a then Sensitive else if sa_ignore_case a then Insensitive else Smart)"

definition sort_of_args :: "search_args \<Rightarrow> sort_mode" where
  "sort_of_args a = (if sa_sort a = Some (lit ''path'') then SortPath else if sa_sort a = Some (lit ''kind'') then SortKind
     else if sa_sort a = Some (lit ''none'') then SortNone else SortDefault)"

definition options_of_args :: "search_args \<Rightarrow> search_options" where
  "options_of_args a = \<lparr>so_direct = sa_direct a, so_extensions = sa_extension a, so_types = sa_types a,
     so_excludes = sa_exclude a, so_globs = sa_glob a, so_max_depth = sa_max_depth a,
     so_regex = (if sa_regex a then Some (sa_query a) else None), so_case_mode = case_of_args a,
     so_line_numbers = sa_line_number a, so_context_lines = sa_context a,
     so_layers = \<lparr>layer_filename = \<not> sa_content a \<or> sa_filename a, layer_content = \<not> sa_filename a \<or> sa_content a\<rparr>,
     so_path_mode = (if sa_basename a then Basename else FullPath), so_hidden = sa_hidden a,
     so_sort_order = sort_of_args a, so_expr = sa_expr a\<rparr>"

definition request_of_args :: "search_args \<Rightarrow> search_request" where
  "request_of_args a = \<lparr>sr_query = sa_query a, sr_scope = sa_scope a,
     sr_limit = (case sa_max_results a of Some n \<Rightarrow> Some n | None \<Rightarrow> sa_limit a),
     sr_opts = options_of_args a, sr_db = sa_db a\<rparr>"

subsection \<open>Reading the answer\<close>

fun show_ipc :: "ipc_error \<Rightarrow> str" where
  "show_ipc (IpcOther e) = lit ''ipc error: '' @ lit e"
| "show_ipc (IpcIo e) = lit ''io error: '' @ lit e"

text \<open>Encoding and decoding do not panic; the last case is never used.\<close>

primrec ipc_result :: "'a ipc \<Rightarrow> str + 'a" where
  "ipc_result (Ok x) = Inr x"
| "ipc_result (Err e) = Inl (show_ipc e)"
| "ipc_result Panic = Inl []"

text \<open>A batch with fewer metadata or kinds than paths is filled up.\<close>

fun unpack :: "str list \<Rightarrow> lite_meta list \<Rightarrow> match_kind list \<Rightarrow> hit list" where
  "unpack [] ms ks = []"
| "unpack (p # ps) ms ks =
     (p, (case ms of m # _ \<Rightarrow> m | [] \<Rightarrow> \<lparr>is_dir = False, file_size = 0, mtime = 0\<rparr>),
       (case ks of k # _ \<Rightarrow> k | [] \<Rightarrow> Filename)) # unpack ps (tl ms) (tl ks)"

type_synonym found = "hit list \<times> line_hit list"

text \<open>The items of the stream: a frame's bytes, or the error of the transport.\<close>

fun receive :: "response_frame codec \<Rightarrow> (str + bytes) list \<Rightarrow> found \<Rightarrow> str + found \<times> u32" where
  "receive c [] acc = Inl (lit ''daemon stream ended early'')"
| "receive c (Inl e # items) acc = Inl e"
| "receive c (Inr b # items) (out, lines) = (case ipc_result (decode_frame c b) of
     Inl e \<Rightarrow> Inl e
   | Inr (Batch paths meta kind) \<Rightarrow> receive c items (out @ unpack paths meta kind, lines)
   | Inr (Lines hits) \<Rightarrow> receive c items (out, lines @ hits)
   | Inr (Done n) \<Rightarrow> Inr ((out, lines), n)
   | Inr (IndexAck accepted message) \<Rightarrow> Inl (lit ''unexpected IndexAck'')
   | Inr (Error message) \<Rightarrow> Inl message)"

definition total_mismatch :: "found \<Rightarrow> u32 \<Rightarrow> bool" where
  "total_mismatch = (\<lambda>(out, lines) n. unat n \<noteq> length out \<and> unat n \<noteq> length lines)"

text \<open>\<open>connect\<close>: the error of connecting, or the connection.\<close>

type_synonym connection = "str + (bytes \<Rightarrow> str + (str + bytes) list)"

definition and_next :: "str + 'a \<Rightarrow> ('a \<Rightarrow> str + 'b) \<Rightarrow> str + 'b" where
  "and_next r f = (case r of Inl e \<Rightarrow> Inl e | Inr x \<Rightarrow> f x)"

lemma and_next_simps [simp]: "and_next (Inl e) f = Inl e" "and_next (Inr x) f = f x"
  by (simp_all add: and_next_def)

definition daemon_search ::
  "request codec \<Rightarrow> response_frame codec \<Rightarrow> connection \<Rightarrow> search_request \<Rightarrow> str + found \<times> u32" where
  "daemon_search qc fc connect req =
     and_next connect (\<lambda>talk. and_next (ipc_result (encode_request qc req)) (\<lambda>b.
     and_next (talk b) (\<lambda>items. receive fc items ([], []))))"

text \<open>The debug form of a frame that is not expected is left out of the message.\<close>

definition ack_of :: "response_frame \<Rightarrow> str + bool \<times> str" where
  "ack_of f = (case f of IndexAck accepted message \<Rightarrow> Inr (accepted, message) | Error message \<Rightarrow> Inl message
     | _ \<Rightarrow> Inl (lit ''unexpected response frame: ''))"

definition daemon_index_submit ::
  "request codec \<Rightarrow> response_frame codec \<Rightarrow> connection \<Rightarrow> index_request \<Rightarrow> str + bool \<times> str" where
  "daemon_index_submit qc fc connect req =
     and_next connect (\<lambda>talk. and_next (ipc_result (encode_index_request qc req)) (\<lambda>b.
     and_next (talk b) (\<lambda>items. case items of
       [] \<Rightarrow> Inl (lit ''daemon closed without ack'')
     | item # _ \<Rightarrow> and_next item (\<lambda>f. and_next (ipc_result (decode_frame fc f)) ack_of))))"

definition is_daemon_unreachable :: "str \<Rightarrow> bool" where
  "is_daemon_unreachable msg \<longleftrightarrow> sublist (lit ''Connection refused'') msg \<or> sublist (lit ''No such file'') msg \<or>
     sublist (lit ''connect'') msg"

subsection \<open>The scan without a daemon\<close>

definition scan_hit :: "unicode \<Rightarrow> search_options \<Rightarrow> str \<Rightarrow> str \<Rightarrow> bool" where
  "scan_hit U opts pattern s \<longleftrightarrow>
     (if sensitive (so_case_mode opts) pattern then sublist pattern s
      else sublist (to_lowercase U pattern) (to_lowercase U s)) \<and> passes s opts"

definition scan_entry :: "unicode \<Rightarrow> (bytes \<Rightarrow> bool \<Rightarrow> gi_match) option \<Rightarrow> search_options \<Rightarrow> str \<Rightarrow> walk_entry \<Rightarrow> hit option" where
  "scan_entry U matcher opts pattern e =
     (if (case matcher of Some m \<Rightarrow> is_ignored m (we_path e) (we_dir e) | None \<Rightarrow> False) then None
      else case from_utf8 (we_path e) of
        None \<Rightarrow> None
      | Some s \<Rightarrow> if scan_hit U opts pattern s
          then Some (s, \<lparr>is_dir = we_dir e, file_size = 0, mtime = 0\<rparr>, Filename) else None)"

text \<open>The walker gives entries and errors; the first error ends the scan.\<close>

fun scan_loop :: "(walk_entry \<Rightarrow> hit option) \<Rightarrow> nat \<Rightarrow> (str + walk_entry) list \<Rightarrow> hit list \<Rightarrow> str + hit list" where
  "scan_loop f cap [] out = Inr out"
| "scan_loop f cap (item # items) out =
     (if length out \<ge> cap then Inr out
      else case item of
        Inl e \<Rightarrow> Inl e
      | Inr entry \<Rightarrow> scan_loop f cap items (case f entry of Some h \<Rightarrow> out @ [h] | None \<Rightarrow> out))"

text \<open>\<open>traverse root hidden\<close>: the items of the walk with the crate's own filters.\<close>

definition direct_scan ::
  "unicode \<Rightarrow> gitignore_crate \<Rightarrow> settings \<Rightarrow> (bytes \<Rightarrow> bool \<Rightarrow> (str + walk_entry) list) \<Rightarrow> search_request \<Rightarrow> str + found" where
  "direct_scan U G conf traverse req =
     (let root = (case sr_scope req of Some s \<Rightarrow> s | None \<Rightarrow> [dot]);
          matcher = compile_ignore_matcher G root (ignore_patterns conf) in
      map_sum id (\<lambda>out. (out, []))
        (scan_loop (scan_entry U matcher (sr_opts req) (sr_query req)) (cap_of (sr_limit req))
          (traverse root (\<not> so_hidden (sr_opts req))) []))"

text \<open>How a search ends: with results, or with a message and a failure status.\<close>

definition cmd_search_found ::
  "(search_request \<Rightarrow> str + found \<times> u32) \<Rightarrow> (search_request \<Rightarrow> str + found) \<Rightarrow> search_request \<Rightarrow> str + found" where
  "cmd_search_found daemon direct req =
     (if so_direct (sr_opts req) then direct req
      else case daemon req of
        Inr (r, n) \<Rightarrow> Inr r
      | Inl msg \<Rightarrow> if is_daemon_unreachable msg then direct req else Inl msg)"

subsection \<open>Building the index\<close>

definition FRESH_THRESHOLD_SECS :: nat where "FRESH_THRESHOLD_SECS = 60"
definition STALE_THRESHOLD_SECS :: nat where "STALE_THRESHOLD_SECS = 7 * 86400"

text \<open>The reader of a database file; \<open>now\<close> in seconds, if the clock is past 1970.\<close>

definition open_reader :: "files \<Rightarrow> bytes \<Rightarrow> db_reader option" where
  "open_reader fs path = (case fs path of None \<Rightarrow> None | Some src \<Rightarrow> (case open_db src of Ok r \<Rightarrow> Some r | _ \<Rightarrow> None))"

definition index_build_age :: "nat option \<Rightarrow> db_reader option \<Rightarrow> nat option" where
  "index_build_age now reader = Option.bind reader (\<lambda>r.
     if r_build_time r = 0 then None else map_option (\<lambda>n. n - unat (r_build_time r)) now)"

definition stale_days :: "nat option \<Rightarrow> nat option" where
  "stale_days age = (case age of Some a \<Rightarrow> if a > STALE_THRESHOLD_SECS then Some (a div 86400) else None | None \<Rightarrow> None)"

record index_args =
  ia_root :: bytes
  ia_force :: bool
  ia_skip :: "str list"
  ia_max_file_size :: u64
  ia_no_content :: bool
  ia_one_file_system :: bool
  ia_hidden :: bool
  ia_foreground :: bool

definition skip_of_args :: "str option \<Rightarrow> index_args \<Rightarrow> str list" where
  "skip_of_args var a = ia_skip a @ (case var of None \<Rightarrow> [] | Some v \<Rightarrow>
     filter (\<lambda>t. t \<noteq> []) (map trim (split_on 0x3A v)))"

definition submitted :: "str option \<Rightarrow> index_args \<Rightarrow> index_request" where
  "submitted var a = \<lparr>ir_root = Some (ia_root a), ir_skip = skip_of_args var a, ir_max_file_size = ia_max_file_size a,
     ir_one_file_system = ia_one_file_system a, ir_hidden = ia_hidden a, ir_db = None\<rparr>"

definition own_options :: "settings \<Rightarrow> str option \<Rightarrow> index_args \<Rightarrow> content_options" where
  "own_options conf var a = \<lparr>co_max_file_size = ia_max_file_size a, co_extra_skip = skip_of_args var a,
     co_one_file_system = ia_one_file_system a, co_hidden = ia_hidden a, co_ignore_patterns = ignore_patterns conf\<rparr>"

subsection \<open>Printing\<close>

text \<open>\<open>&s[lo..hi]\<close> on a string panics off the character boundaries.\<close>

definition is_char_boundary :: "str \<Rightarrow> nat \<Rightarrow> bool" where
  "is_char_boundary s i \<longleftrightarrow> i = 0 \<or> i = length s \<or> i < length s \<and> \<not> cont_byte (s ! i)"

definition str_slice :: "str \<Rightarrow> nat \<Rightarrow> nat \<Rightarrow> str res" where
  "str_slice s lo hi = (if lo \<le> hi \<and> is_char_boundary s lo \<and> is_char_boundary s hi then slice s lo hi else Panic)"

definition C_MATCH :: str where "C_MATCH = 0x1B # lit ''[1;31m''"
definition C_RESET :: str where "C_RESET = 0x1B # lit ''[0m''"

definition highlight :: "unicode \<Rightarrow> str \<Rightarrow> str \<Rightarrow> str \<Rightarrow> bool \<Rightarrow> bool \<Rightarrow> str res" where
  "highlight U path q_lower pattern cs color =
     (if \<not> color \<or> pattern = [] then Ok path
      else
        let pl = to_lowercase U path in
        if \<not> cs \<and> length pl \<noteq> length path then Ok path
        else
          case (if cs then naive_find path pattern else naive_find pl q_lower) of
            None \<Rightarrow> Ok path
          | Some i \<Rightarrow>
              let end = i + length (if cs then pattern else q_lower) in
              bind_o (str_slice path 0 i) (\<lambda>before.
              bind_o (str_slice path i end) (\<lambda>hit.
              bind_o (str_slice path end (length path)) (\<lambda>after.
              Ok (before @ C_MATCH @ hit @ C_RESET @ after)))))"

definition trim_end_nl :: "str \<Rightarrow> str" where
  "trim_end_nl s = rev (dropWhile (\<lambda>b. b = 10) (rev s))"

fun number_lines :: "str \<Rightarrow> u8 \<Rightarrow> u32 \<Rightarrow> str list \<Rightarrow> str" where
  "number_lines path sep no [] = []"
| "number_lines path sep no (l # ls) =
     path @ [sep] @ lit (show_nat (unat no)) @ [0x3A] @ l @ [10] @ number_lines path sep (no + 1) ls"

definition line_block :: "bool \<Rightarrow> line_hit \<Rightarrow> str" where
  "line_block context_mode h =
     number_lines (lh_path h) (if context_mode then 0x2D else 0x3A) (lh_line_no h) (split_on 10 (trim_end_nl (lh_text h)))"

record output_mode =
  out_long :: bool
  out_color :: str
  out_null :: bool
  out_count :: bool
  out_line_number :: bool
  out_context :: "u32 option"
  out_case_sensitive :: bool

definition output_of_args :: "search_args \<Rightarrow> output_mode" where
  "output_of_args a = \<lparr>out_long = sa_long a, out_color = sa_color a, out_null = sa_null a, out_count = sa_count a,
     out_line_number = sa_line_number a, out_context = sa_context a,
     out_case_sensitive = sensitive (case_of_args a) (sa_query a)\<rparr>"

definition kind_mark :: "match_kind \<Rightarrow> str" where
  "kind_mark k = (case k of Filename \<Rightarrow> lit ''[f]'' | Content \<Rightarrow> lit ''[c]'' | Both \<Rightarrow> lit ''[b]'')"

text \<open>\<open>humansize\<close> is a parameter: it works in floating point.\<close>

definition result_line :: "unicode \<Rightarrow> (i64 \<Rightarrow> str) \<Rightarrow> output_mode \<Rightarrow> bool \<Rightarrow> str \<Rightarrow> hit \<Rightarrow> str res" where
  "result_line U humansize out color_on pattern = (\<lambda>(path, meta, kind).
     bind_o (highlight U path (to_lowercase U pattern) pattern (out_case_sensitive out) color_on) (\<lambda>shown.
     Ok (if out_long out
       then kind_mark kind @ [9] @ humansize (file_size meta) @ [9] @ shown @ (if is_dir meta then lit ''/'' else []) @ [10]
       else shown @ [10])))"

definition print_results :: "unicode \<Rightarrow> (i64 \<Rightarrow> str) \<Rightarrow> bool \<Rightarrow> found \<Rightarrow> output_mode \<Rightarrow> str \<Rightarrow> str res" where
  "print_results U humansize is_tty r out pattern = (case r of (results, lines) \<Rightarrow>
     if (out_line_number out \<or> out_context out \<noteq> None) \<and> lines \<noteq> [] then
       (if out_count out then Ok (lit (show_nat (length lines)) @ [10])
        else Ok (concat (map (line_block (out_context out \<noteq> None)) (sort_key (\<lambda>h. (lh_path h, lh_line_no h)) lines))))
     else if out_count out then Ok (lit (show_nat (length results)) @ [10])
     else if out_null out then Ok (concat (map (\<lambda>(path, _, _). path @ [0]) results))
     else
       let color_on = (if out_color out = lit ''always'' then True else if out_color out = lit ''never'' then False else is_tty) in
       bind_o (map_o (result_line U humansize out color_on pattern) results) (\<lambda>ls. Ok (concat ls)))"

text \<open>\<open>str::replace\<close> of the two bytes \<open>{}\<close> by the path.\<close>

fun fill_template :: "str \<Rightarrow> str \<Rightarrow> str" where
  "fill_template path (a # b # rest) =
     (if a = 0x7B \<and> b = 0x7D then path @ fill_template path rest else a # fill_template path (b # rest))"
| "fill_template path t = t"

definition exec_commands :: "hit list \<Rightarrow> str \<Rightarrow> str list" where
  "exec_commands results template = map (\<lambda>(path, _, _). fill_template path template) results"

subsection \<open>The answer arrives\<close>

text \<open>The other end of the socket: the daemon decodes the request and writes the frames of its answer, up to
  the first that cannot be encoded.\<close>

fun sent_frames :: "response_frame codec \<Rightarrow> response_frame list \<Rightarrow> bytes list" where
  "sent_frames c [] = []"
| "sent_frames c (f # fs) = (case encode_frame c f of Ok b \<Rightarrow> b # sent_frames c fs | _ \<Rightarrow> [])"

lemma sent_frames_all:
  "\<forall>f\<in>set fs. \<exists>b. encode_frame c f = Ok b \<Longrightarrow> map Inr (sent_frames c fs) = map (\<lambda>f. ipc_result (encode_frame c f)) fs"
  by (induction fs) auto

definition served ::
  "request codec \<Rightarrow> response_frame codec \<Rightarrow> (request \<Rightarrow> response_frame list res) \<Rightarrow> bytes \<Rightarrow> str + (str + bytes) list" where
  "served qc fc handle b = (case decode_request qc b of
     Ok req \<Rightarrow> (case handle req of
       Ok fs \<Rightarrow> Inr (map Inr (sent_frames fc fs))
     | _ \<Rightarrow> Inr [])
   | _ \<Rightarrow> Inr [])"

lemma unpack_zip: "length ms = length ps \<Longrightarrow> length ks = length ps \<Longrightarrow> unpack ps ms ks = zip ps (zip ms ks)"
proof (induction ps arbitrary: ms ks)
  case (Cons p ps)
  then show ?case by (cases ms; cases ks) auto
qed simp

lemma receive_frame:
  assumes "codec_ok c" "encode_frame c f = Ok b"
  shows "ipc_result (decode_frame c b) = Inr f"
  using decode_encode_with [OF assms(1), of "''encode frame: ''" f b "''decode frame: ''"] assms(2)
  by (simp add: encode_frame_def decode_frame_def)

lemma receive_body:
  assumes "codec_ok c" "\<forall>f\<in>set body. (\<exists>b. encode_frame c f = Ok b) \<and> (batch_ok f \<or> lines_ok f)"
  shows "receive c (map (\<lambda>f. ipc_result (encode_frame c f)) body @ items) (out, lines) =
    receive c items (out @ answer_hits body, lines @ answer_lines body)"
  using assms(2)
proof (induction body arbitrary: out lines)
  case (Cons f body)
  obtain b where b: "encode_frame c f = Ok b" using Cons.prems by auto
  have f: "batch_ok f \<or> lines_ok f" using Cons.prems by simp
  then consider ps ms ks where "f = Batch ps ms ks" "length ms = length ps" "length ks = length ps" | hits where "f = Lines hits"
    by (auto simp: batch_ok_def lines_ok_def)
  then show ?case using Cons.IH Cons.prems b receive_frame [OF assms(1) b]
    by cases (auto simp: unpack_zip answer_hits_def answer_lines_def)
qed (simp add: answer_hits_def answer_lines_def)

lemma answer_snoc_Done: "answer_hits (body @ [Done n]) = answer_hits body" "answer_lines (body @ [Done n]) = answer_lines body"
  by (simp_all add: answer_hits_def answer_lines_def)

lemma receive_answer:
  assumes "codec_ok c" "answer_ok fs" "\<forall>f\<in>set fs. \<exists>b. encode_frame c f = Ok b"
  shows "receive c (map (\<lambda>f. ipc_result (encode_frame c f)) fs) ([], []) = (case fs of
    [Error msg] \<Rightarrow> Inl msg
  | _ \<Rightarrow> Inr ((answer_hits fs, answer_lines fs), of_nat (length (answer_hits fs) + length (answer_lines fs))))"
proof (cases "\<exists>msg. fs = [Error msg]")
  case True
  then obtain msg b where "fs = [Error msg]" "encode_frame c (Error msg) = Ok b" using assms(3) by auto
  then show ?thesis using receive_frame [OF assms(1)] by simp
next
  case False
  then obtain body where body: "fs = body @ [Done (of_nat (length (answer_hits body) + length (answer_lines body)))]"
    "list_all batch_ok body \<or> list_all lines_ok body" using assms(2) by (auto simp: answer_ok_def)
  define n where "n = (of_nat (length (answer_hits body) + length (answer_lines body)) :: u32)"
  note body = body [folded n_def]
  obtain b where b: "encode_frame c (Done n) = Ok b" using assms(3) body(1) by auto
  have "\<forall>f\<in>set body. (\<exists>b. encode_frame c f = Ok b) \<and> (batch_ok f \<or> lines_ok f)"
    using assms(3) body by (auto simp: list_all_iff)
  from receive_body [OF assms(1) this, of "[ipc_result (encode_frame c (Done n))]" "[]" "[]"]
  have "receive c (map (\<lambda>f. ipc_result (encode_frame c f)) fs) ([], []) = Inr ((answer_hits body, answer_lines body), n)"
    using receive_frame [OF assms(1) b] by (simp add: body(1) b)
  moreover have "(case fs of [Error msg] \<Rightarrow> Inl msg | _ \<Rightarrow> Inr x) = Inr x" for x :: "found \<times> u32"
    using False by (auto split: list.split response_frame.split)
  ultimately show ?thesis by (simp add: body(1) answer_snoc_Done n_def)
qed

subsection \<open>Highlighting\<close>

lemma hd_valid:
  assumes "valid_utf8 b" "b \<noteq> []"
  shows "\<not> cont_byte (hd b)"
proof -
  obtain c cs where c: "chars b = c # cs" using assms encode_chars [OF assms(1)] by (cases "chars b") auto
  then have "b = encode_char c @ encode_str cs" "scalar c"
    using encode_chars [OF assms(1)] scalar_chars [OF assms(1), of c] by (auto simp: encode_str_def)
  then show ?thesis using encode_char_lead [of c] encode_char_nonempty [of c] by simp
qed

lemma boundary_split: "valid_utf8 b \<Longrightarrow> is_char_boundary (a @ b) (length a)"
  using hd_valid [of b] by (cases b) (auto simp: is_char_boundary_def nth_append)

lemma chars_append: "valid_utf8 a \<Longrightarrow> chars (a @ r) = chars a @ chars r"
  using chars_encode_append [of "chars a" r] scalar_chars [of a] by simp

lemma str_slice_parts:
  assumes "valid_utf8 a" "valid_utf8 b" "valid_utf8 c"
  shows "str_slice (a @ b @ c) 0 (length a) = Ok a" "str_slice (a @ b @ c) (length a) (length a + length b) = Ok b"
    "str_slice (a @ b @ c) (length a + length b) (length (a @ b @ c)) = Ok c"
proof -
  have v: "valid_utf8 (b @ c)" using assms by (simp add: valid_append)
  have b: "is_char_boundary (a @ b @ c) (length a)" by (rule boundary_split [OF v])
  have c: "is_char_boundary (a @ b @ c) (length a + length b)" using boundary_split [OF assms(3), of "a @ b"] by simp
  show "str_slice (a @ b @ c) 0 (length a) = Ok a" "str_slice (a @ b @ c) (length a) (length a + length b) = Ok b"
    "str_slice (a @ b @ c) (length a + length b) (length (a @ b @ c)) = Ok c"
    using b c by (simp_all add: str_slice_def slice_def) (simp_all add: is_char_boundary_def)
qed

text \<open>A map of the characters that keeps their encoded lengths keeps the offsets of matches.\<close>

lemma length_encode_map:
  "\<forall>c\<in>set cs. length (encode_char (l c)) = length (encode_char c) \<Longrightarrow> length (encode_str (map l cs)) = length (encode_str cs)"
  by (induction cs) (simp_all add: encode_str_def)

lemma find_mapped:
  assumes "valid_utf8 path" "valid_utf8 q"
    and "\<forall>c\<in>set (chars path). scalar (l c) \<and> length (encode_char (l c)) = length (encode_char c)"
    and "naive_find (encode_str (map l (chars path))) q = Some i"
  shows "\<exists>a b c. path = a @ b @ c \<and> length a = i \<and> length b = length q \<and> valid_utf8 a \<and> valid_utf8 b \<and> valid_utf8 c \<and>
    encode_str (map l (chars b)) = q"
proof -
  let ?cs = "chars path" and ?pl = "encode_str (map l (chars path))"
  have "occurs_at ?pl q i" using naive_find_ok assms(4) by (auto simp: memmem_ok_def split: option.splits)
  then obtain x z where pl: "?pl = x @ q @ z" "length x = i"
    by (intro that [of "take i ?pl" "drop (i + length q) ?pl"])
      (auto simp: occurs_at_def min_def, metis append_take_drop_id drop_drop add.commute)
  have "q @ z = [] \<or> \<not> cont_byte (hd (q @ z))"
  proof (cases "q = []")
    case True
    then have "i = 0" using assms(4) by (simp add: naive_find_def upt_conv_Cons del: upt_Suc)
    then show ?thesis using pl True hd_valid [of ?pl] valid_encode [of "map l ?cs"] assms(3) by (cases z) auto
  qed (use hd_valid [OF assms(2)] in simp)
  from split_at_lead [OF pl(1) this] obtain as bs where s: "map l ?cs = as @ bs" "x = encode_str as" "q @ z = encode_str bs" by blast
  have sc: "\<forall>c\<in>set bs. scalar c" using assms(3) s(1) by (metis (no_types, lifting) Un_iff image_iff list.set_map set_append)
  have bs: "bs = chars q @ chars z"
    using chars_encode_append [of "chars q" z] scalar_chars [OF assms(2)] chars_encode [of bs] sc s(3) assms(2) by simp
  define n m where "n = length as" and "m = length (chars q)"
  have parts: "?cs = take n ?cs @ take m (drop n ?cs) @ drop m (drop n ?cs)" by (simp only: append_take_drop_id)
  have m1: "map l (take n ?cs) = as" and m2: "map l (take m (drop n ?cs)) = chars q"
    using s(1) by (simp_all add: take_map [symmetric] drop_map [symmetric] bs n_def m_def)
  let ?a = "encode_str (take n ?cs)" and ?b = "encode_str (take m (drop n ?cs))" and ?c = "encode_str (drop m (drop n ?cs))"
  have set: "set (take n ?cs) \<subseteq> set ?cs" "set (take m (drop n ?cs)) \<subseteq> set ?cs" "set (drop m (drop n ?cs)) \<subseteq> set ?cs"
    by (meson set_take_subset set_drop_subset subset_trans)+
  have len: "length (encode_str (map l xs)) = length (encode_str xs)" if "set xs \<subseteq> set ?cs" for xs
    using that assms(3) by (intro length_encode_map) blast
  have val: "valid_utf8 (encode_str xs)" "chars (encode_str xs) = xs" if "set xs \<subseteq> set ?cs" for xs
    using that scalar_chars [OF assms(1)] valid_encode [of xs] chars_encode [of xs] by blast+
  have "encode_str ?cs = ?a @ ?b @ ?c" using parts by (metis encode_str_simps(3))
  then have "path = ?a @ ?b @ ?c" using encode_chars [OF assms(1)] by simp
  moreover have "length ?a = i" "length ?b = length q" "encode_str (map l (chars ?b)) = q"
    using len [OF set(1)] len [OF set(2)] pl(2) s(2) encode_chars [OF assms(2)] val(2) [OF set(2)] by (simp_all add: m1 m2)
  ultimately show ?thesis using val(1) set by blast
qed


text \<open>\<open>to_lowercase\<close> need not keep the offsets of the characters: a dotted capital I grows by a byte and a
  capital sharp s shrinks by one, and a path with both passes the length test.\<close>

lemma highlight_panics:
  assumes "lower_map U 0x130 = [0x69, 0x307]" "lower_map U 0x1E9E = [0xDF]"
  shows "highlight U (encode_str [0x130, 0x1E9E]) (encode_str [0xDF]) (encode_str [0xDF]) False True = Panic"
proof -
  have c: "chars (encode_str [0x130, 0x1E9E]) = [0x130, 0x1E9E]" by (rule chars_encode) (simp add: scalar_def)
  then have "to_lowercase U (encode_str [0x130, 0x1E9E]) = encode_str [0x69, 0x307, 0xDF]"
    unfolding to_lowercase_def by (subst lower_chars_no_sigma) (simp_all add: has_sigma_def assms)
  moreover have e: "encode_str [0x69, 0x307, 0xDF] = [0x69, 0xCC, 0x87, 0xC3, 0x9F]"
    "encode_str [0x130, 0x1E9E] = [0xC4, 0xB0, 0xE1, 0xBA, 0x9E]" "encode_str [0xDF] = [0xC3, 0x9F]"
    by (simp_all add: encode_char_def byte_def)
  moreover have "naive_find [0x69, 0xCC, 0x87, 0xC3, 0x9F] [0xC3, 0x9F] = Some 3"
    "str_slice [0xC4, 0xB0, 0xE1, 0xBA, 0x9E] 0 3 = Panic" by code_simp+
  ultimately show ?thesis by (simp only: highlight_def e) simp
qed

lemma to_lowercase_map:
  assumes "\<not> has_sigma p" and "\<forall>c\<in>set (chars p). \<exists>d. lower_map U c = [d]"
  shows "to_lowercase U p = encode_str (map (\<lambda>c. hd (lower_map U c)) (chars p))"
proof -
  have "concat (map (lower_map U) xs) = map (\<lambda>c. hd (lower_map U c)) xs" if "\<forall>c\<in>set xs. \<exists>d. lower_map U c = [d]" for xs
    using that by (induction xs) auto
  then show ?thesis
    unfolding to_lowercase_def using assms by (subst lower_chars_no_sigma) (simp_all add: has_sigma_def)
qed

lemma highlight_at:
  assumes "valid_utf8 a" "valid_utf8 b" "valid_utf8 c" and "color" "pattern \<noteq> []"
    and "cs \<or> length (to_lowercase U (a @ b @ c)) = length (a @ b @ c)"
    and "(if cs then naive_find (a @ b @ c) pattern else naive_find (to_lowercase U (a @ b @ c)) ql) = Some (length a)"
    and "length (if cs then pattern else ql) = length b"
  shows "highlight U (a @ b @ c) ql pattern cs color = Ok (a @ C_MATCH @ b @ C_RESET @ c)"
  using str_slice_parts [OF assms(1-3)] assms(4-6)
  unfolding highlight_def Let_def assms(7,8) option.case by auto

subsection \<open>Scans\<close>

lemma scan_loop_eq:
  assumes "length out \<le> cap"
  shows "scan_loop f cap items out =
    (let hits = out @ List.map_filter f (map projr (takeWhile (\<lambda>x. \<not> isl x) items)) in
     if cap \<le> length hits then Inr (take cap hits)
     else case dropWhile (\<lambda>x. \<not> isl x) items of [] \<Rightarrow> Inr hits | e # _ \<Rightarrow> Inl (projl e))"
  using assms
proof (induction f cap items out rule: scan_loop.induct)
  case (2 f cap item items out)
  show ?case
  proof (cases "length out \<ge> cap")
    case True
    then show ?thesis using 2(2) by (simp add: Let_def)
  next
    case False
    show ?thesis
    proof (cases item)
      case (Inl e)
      then show ?thesis using False by (simp add: map_filter_simps Let_def)
    next
      case (Inr entry)
      let ?out = "case f entry of Some h \<Rightarrow> out @ [h] | None \<Rightarrow> out"
      have "length ?out \<le> cap" using False by (auto split: option.split)
      from 2(1) [OF False Inr this] show ?thesis using False
        by (cases "f entry") (simp_all add: Inr map_filter_simps Let_def)
    qed
  qed
qed (simp add: map_filter_simps)

lemma scan_pair:
  "map_sum id (\<lambda>out. (out, ls)) (if c then Inr x else case d of [] \<Rightarrow> Inr y | e # _ \<Rightarrow> Inl (projl e)) =
     (if c then Inr (x, ls) else case d of [] \<Rightarrow> Inr (y, ls) | e # _ \<Rightarrow> Inl (projl e))"
  by (cases d) simp_all

subsection \<open>Properties\<close>

text \<open>
  The client shows what the daemon found. The frames of any answer of the daemon, encoded,
  sent and decoded, give the client exactly the results and the lines of the answer and their
  number, or the message of its error.
\<close>

theorem client_gets_answer:
  assumes "codec_ok qc" and "codec_ok fc" and "encode_request qc req = Ok b" and "\<forall>f\<in>set fs. \<exists>b. encode_frame fc f = Ok b"
    and "handle_search E shuffle file_mtime snapshot req = Ok fs"
  shows "daemon_search qc fc
      (Inr (served qc fc (handle_request E shuffle file_mtime spawn reg h path parent snapshot))) req =
    (case fs of [Error msg] \<Rightarrow> Inl msg
     | _ \<Rightarrow> Inr ((answer_hits fs, answer_lines fs), of_nat (length (answer_hits fs) + length (answer_lines fs))))"
proof -
  have "decode_request qc b = Ok (Search req)"
    using decode_encode_with [OF assms(1), of "''encode request: ''" "Search req" b "''decode request: ''"] assms(3)
    by (simp add: encode_request_def encode_request_enum_def decode_request_def)
  then have "served qc fc (handle_request E shuffle file_mtime spawn reg h path parent snapshot) b =
      Inr (map (\<lambda>f. ipc_result (encode_frame fc f)) fs)"
    using sent_frames_all [OF assms(4)] by (simp add: served_def handle_request_def assms(5))
  moreover have "answer_ok fs"
    using search_frames [OF assms(5)] line_frames_ok batch_frames_ok by (auto simp: answer_ok_def)
  ultimately show ?thesis
    using receive_answer [OF assms(2), of fs] assms(3,4) by (simp add: daemon_search_def)
qed

text \<open>
  The scan without a daemon returns the first matches of the walk, up to the limit: the entries
  whose path the settings do not ignore, contains the query and passes the filters. But an error of
  the walk that comes before the limit is reached fails the whole scan.
\<close>

theorem direct_scan_exact:
  "direct_scan U G conf traverse req =
    (let root = (case sr_scope req of Some s \<Rightarrow> s | None \<Rightarrow> [dot]);
         items = traverse root (\<not> so_hidden (sr_opts req)); cap = cap_of (sr_limit req);
         hits = List.map_filter (scan_entry U (compile_ignore_matcher G root (ignore_patterns conf)) (sr_opts req) (sr_query req))
           (map projr (takeWhile (\<lambda>x. \<not> isl x) items)) in
     if cap \<le> length hits then Inr (take cap hits, [])
     else case dropWhile (\<lambda>x. \<not> isl x) items of [] \<Rightarrow> Inr (hits, []) | e # _ \<Rightarrow> Inl (projl e))"
  by (simp add: direct_scan_def scan_loop_eq Let_def scan_pair)

text \<open>An occurrence in the path is one in the mapped path, at the same offset.\<close>

lemma mapped_occurs:
  assumes "valid_utf8 a" "valid_utf8 b" "\<forall>c\<in>set (chars (a @ b @ z)). length (encode_char (l c)) = length (encode_char c)"
  shows "occurs_at (encode_str (map l (chars (a @ b @ z)))) (encode_str (map l (chars b))) (length a)"
proof -
  have c: "chars (a @ b @ z) = chars a @ chars b @ chars z" using assms(1,2) by (simp add: chars_append)
  have "length (encode_str (map l (chars a))) = length (encode_str (chars a))" using assms(3) by (intro length_encode_map) (simp add: c)
  then have "length (encode_str (map l (chars a))) = length a" using encode_chars [OF assms(1)] by simp
  then show ?thesis by (simp add: c occurs_at_def)
qed

text \<open>A character as the search for the match sees it, and what it sees of a part of the path.\<close>

definition seen_char :: "unicode \<Rightarrow> bool \<Rightarrow> nat \<Rightarrow> nat" where
  "seen_char U cs c = (if cs then c else hd (lower_map U c))"

lemma seen_char_ok:
  assumes "valid_utf8 path" and "cs \<or> unicode_ok U \<and> \<not> has_sigma path"
    and "cs \<or> (\<forall>c\<in>set (chars path). \<exists>d. lower_map U c = [d] \<and> length (encode_char d) = length (encode_char c))"
  shows "\<forall>c\<in>set (chars path). scalar (seen_char U cs c) \<and> length (encode_char (seen_char U cs c)) = length (encode_char c)"
  using scalar_chars [OF assms(1)] assms(2,3) unfolding seen_char_def unicode_ok_def
  by (smt (verit, ccfv_SIG) list.sel(1) list.set_intros(1))

lemma seen_part:
  assumes "valid_utf8 p" "set (chars p) \<subseteq> set (chars path)" and "cs \<or> unicode_ok U \<and> \<not> has_sigma path"
    and "cs \<or> (\<forall>c\<in>set (chars path). \<exists>d. lower_map U c = [d] \<and> length (encode_char d) = length (encode_char c))"
  shows "encode_str (map (seen_char U cs) (chars p)) = (if cs then p else to_lowercase U p)"
proof (cases cs)
  case False
  then have "\<not> has_sigma p" "\<forall>c\<in>set (chars p). \<exists>d. lower_map U c = [d]"
    using assms(2-4) unfolding has_sigma_def by blast+
  then show ?thesis using to_lowercase_map [of p U] False by (simp add: seen_char_def [abs_def])
qed (use encode_chars [OF assms(1)] in \<open>simp add: seen_char_def [abs_def]\<close>)

text \<open>
  C40. The highlighted path is the path with marks around the first match. For a query of exact case,
  and for any query when lowercasing maps each character of the path to one of the same encoded length,
  no slice is off a character boundary. If color is on and the query is not empty and occurs in the
  path, both lowercased when the case does not matter, the marks stand around a part of the path that
  is the query up to case, and no such part begins before it; in every other case the path is unchanged.
\<close>

theorem highlight_marks:
  assumes "valid_utf8 path" and "valid_utf8 pattern" and "cs \<or> unicode_ok U \<and> \<not> has_sigma path"
    and "cs \<or> (\<forall>c\<in>set (chars path). \<exists>d. lower_map U c = [d] \<and> length (encode_char d) = length (encode_char c))"
  shows "if color \<and> pattern \<noteq> [] \<and>
      (if cs then sublist pattern path else sublist (to_lowercase U pattern) (to_lowercase U path))
    then \<exists>a b c. path = a @ b @ c \<and> (if cs then b = pattern else to_lowercase U b = to_lowercase U pattern) \<and>
      (\<forall>a' b' c'. path = a' @ b' @ c' \<and> valid_utf8 a' \<and> valid_utf8 b' \<and>
         (if cs then b' = pattern else to_lowercase U b' = to_lowercase U pattern) \<longrightarrow> length a \<le> length a') \<and>
      highlight U path (to_lowercase U pattern) pattern cs color = Ok (a @ C_MATCH @ b @ C_RESET @ c)
    else highlight U path (to_lowercase U pattern) pattern cs color = Ok path"
proof -
  define l where "l = seen_char U cs"
  define q where "q = (if cs then pattern else to_lowercase U pattern)"
  let ?hay = "encode_str (map l (chars path))"
  have l: "\<forall>c\<in>set (chars path). scalar (l c) \<and> length (encode_char (l c)) = length (encode_char c)"
    unfolding l_def by (rule seen_char_ok [OF assms(1,3,4)])
  have q: "valid_utf8 q" using assms(2,3) valid_to_lowercase [of U pattern] by (auto simp: q_def)
  have low: "encode_str (map l (chars p)) = (if cs then p else to_lowercase U p)" if "valid_utf8 p" "set (chars p) \<subseteq> set (chars path)" for p
    unfolding l_def by (rule seen_part [OF that assms(3,4)])
  have hay: "?hay = (if cs then path else to_lowercase U path)" using low [OF assms(1)] by simp
  have len: "cs \<or> length (to_lowercase U path) = length path"
    using length_encode_map [of "chars path" l] l encode_chars [OF assms(1)] hay by (auto split: if_splits)
  have f: "(if cs then naive_find path pattern else naive_find (to_lowercase U path) (to_lowercase U pattern)) = naive_find ?hay q"
    by (simp add: hay q_def)
  have sub: "(if cs then sublist pattern path else sublist (to_lowercase U pattern) (to_lowercase U path)) \<longleftrightarrow> naive_find ?hay q \<noteq> None"
    unfolding memmem_iff [OF naive_find_ok] hay q_def by simp
  show ?thesis
  proof (cases "color \<and> pattern \<noteq> [] \<and> naive_find ?hay q \<noteq> None")
    case True
    then obtain i where i: "naive_find ?hay q = Some i" by blast
    from find_mapped [OF assms(1) q l i] obtain a b c where p: "path = a @ b @ c" "length a = i" "length b = length q"
      and v: "valid_utf8 a" "valid_utf8 b" "valid_utf8 c" and b: "encode_str (map l (chars b)) = q" by blast
    have "set (chars b) \<subseteq> set (chars path)" unfolding p(1) by (auto simp: chars_append v)
    then have "if cs then b = pattern else to_lowercase U b = to_lowercase U pattern"
      using b low [OF v(2)] by (auto simp: q_def)
    moreover have "length a \<le> length a'" if o: "path = a' @ b' @ c'" "valid_utf8 a'" "valid_utf8 b'"
        "if cs then b' = pattern else to_lowercase U b' = to_lowercase U pattern" for a' b' c'
    proof -
      have "set (chars b') \<subseteq> set (chars path)" unfolding o(1) by (auto simp: chars_append o(2,3))
      then have "encode_str (map l (chars b')) = q" using low [OF o(3)] o(4) by (auto simp: q_def)
      then have "occurs_at ?hay q (length a')" using mapped_occurs [OF o(2,3), of c' l] l o(1) by simp
      then show ?thesis using naive_find_ok i p(2) unfolding memmem_ok_def by (metis (no_types, lifting) not_less option.case(2))
    qed
    moreover have "highlight U path (to_lowercase U pattern) pattern cs color = Ok (a @ C_MATCH @ b @ C_RESET @ c)"
      unfolding p(1) by (rule highlight_at [OF v])
        (use True f i len p in \<open>auto simp: q_def split: if_splits\<close>)
    ultimately show ?thesis unfolding sub using True p(1) by (simp only: simp_thms if_True) blast
  next
    case False
    then show ?thesis unfolding sub using f by (auto simp: highlight_def Let_def)
  qed
qed

text \<open>
  What counts as an unreachable daemon is read off the text of the error. An answer that breaks
  off is fatal and not made up for by a scan; and the refusal of a database whose name contains
  ``connect'' is taken for a connection that failed: the search goes on without the database.
\<close>

theorem fallback_misjudged:
  assumes "\<not> so_direct (sr_opts req)" and "sublist (lit ''connect'') name" and "snapshot \<noteq> []"
  shows "cmd_search_found (\<lambda>r. receive fc [] ([], [])) direct req = Inl (lit ''daemon stream ended early'') \<and>
    cmd_search_found (\<lambda>r. Inl (unknown_db name snapshot)) direct req = direct req"
proof -
  have "\<not> is_daemon_unreachable (lit ''daemon stream ended early'')" by code_simp
  moreover have "is_daemon_unreachable (unknown_db name snapshot)"
    using assms(2,3) unfolding is_daemon_unreachable_def unknown_db_def quoted_def Let_def
    by (auto simp: sublist_def) (metis append.assoc append_Cons)+
  ultimately show ?thesis using assms(1) by (simp add: cmd_search_found_def)
qed

text \<open>
  A build handed to the daemon is the build asked for. The request of \<open>deepfind index\<close> resolves to
  the default database and the root as it was typed, with the options of a build in the foreground,
  once the daemon has added the ignore patterns of the settings; only a size of 0, which in the
  foreground indexes no text, becomes the default size.
\<close>

theorem submit_same_build:
  "\<exists>opts. resolve_index reg h path parent (submitted var a) = Inr (ia_root a, path, path_join parent (lit ''content''), opts) \<and>
     tracked_options conf opts = (own_options conf var a)\<lparr>co_max_file_size :=
       if ia_max_file_size a = 0 then DEFAULT_MAX_FILE_SIZE else ia_max_file_size a\<rparr>"
  by (simp add: resolve_index_def submitted_def tracked_options_def own_options_def Let_def)

subsection \<open>Witnesses\<close>

theorem highlight_marks_witness:
  "\<exists>a b c. lit ''a/Bc'' = a @ b @ c \<and> to_lowercase ascii_tables b = lit ''b'' \<and>
     highlight ascii_tables (lit ''a/Bc'') (to_lowercase ascii_tables (lit ''B'')) (lit ''B'') False True =
       Ok (a @ C_MATCH @ b @ C_RESET @ c)"
proof -
  have v: "valid_utf8 (lit ''a/Bc'')" "valid_utf8 (lit ''B'')" by code_simp+
  have "\<not> has_sigma (lit ''a/Bc'')" by code_simp
  then have u: "False \<or> unicode_ok ascii_tables \<and> \<not> has_sigma (lit ''a/Bc'')" by simp
  have "chars (lit ''a/Bc'') = [97, 47, 66, 99]" by code_simp
  then have l: "False \<or> (\<forall>c\<in>set (chars (lit ''a/Bc'')). \<exists>d. lower_map ascii_tables c = [d] \<and> length (encode_char d) = length (encode_char c))"
    by (simp add: ascii_tables_def encode_char_def)
  have q: "sublist (to_lowercase ascii_tables (lit ''B'')) (to_lowercase ascii_tables (lit ''a/Bc''))" "lit ''B'' \<noteq> []"
    "to_lowercase ascii_tables (lit ''B'') = lit ''b''" by code_simp+
  have "True \<and> lit ''B'' \<noteq> [] \<and> (if False then sublist (lit ''B'') (lit ''a/Bc'')
      else sublist (to_lowercase ascii_tables (lit ''B'')) (to_lowercase ascii_tables (lit ''a/Bc'')))"
    using q(1,2) by (simp only: if_False simp_thms)
  from highlight_marks [OF v u l, of True, unfolded if_P [OF this]] show ?thesis unfolding if_False q(3) by blast
qed

theorem fallback_misjudged_witness:
  "cmd_search_found (\<lambda>r. Inl (unknown_db (lit ''reconnect'') [demo_entry [] [] empty_overlay])) (\<lambda>r. Inr ([], [])) demo_request = Inr ([], [])"
proof -
  have "\<not> so_direct (sr_opts demo_request)" by (simp add: demo_request_def default_options_def)
  moreover have "sublist (lit ''connect'') (lit ''reconnect'')" by code_simp
  ultimately show ?thesis
    using fallback_misjudged [of demo_request "lit ''reconnect''" "[demo_entry [] [] empty_overlay]"] by simp
qed

text \<open>Codecs for one message each.\<close>

definition demo_request_codec :: "request codec" where
  "demo_request_codec = \<lparr>encode_to_vec = (\<lambda>r. case r of Search q \<Rightarrow> if q = demo_request then Inr [1] else Inl ''other'' | _ \<Rightarrow> Inl ''other''),
     decode_from_slice = (\<lambda>b. Inr (Search demo_request, 1))\<rparr>"

definition demo_frame_codec :: "response_frame codec" where
  "demo_frame_codec = \<lparr>encode_to_vec = (\<lambda>f. case f of Done n \<Rightarrow> if n = 0 then Inr [2] else Inl ''other'' | _ \<Rightarrow> Inl ''other''),
     decode_from_slice = (\<lambda>b. Inr (Done 0, 1))\<rparr>"

theorem client_gets_answer_witness:
  "daemon_search demo_request_codec demo_frame_codec (Inr (served demo_request_codec demo_frame_codec
      (handle_request demo_engines rev (\<lambda>f. None) (\<lambda>b. True) \<lparr>registry_path = [], db_records = []\<rparr> [] [] [] []))) demo_request =
    Inr (([], []), 0)"
proof -
  have c: "codec_ok demo_request_codec" "codec_ok demo_frame_codec"
    by (auto simp: codec_ok_def demo_request_codec_def demo_frame_codec_def split: request.splits response_frame.splits if_splits)
  have q: "encode_request demo_request_codec demo_request = Ok [1]"
    by (simp add: encode_request_def encode_request_enum_def encode_with_def demo_request_codec_def)
  have f: "\<forall>f\<in>set [Done 0]. \<exists>b. encode_frame demo_frame_codec f = Ok b"
    by (simp add: encode_frame_def encode_with_def demo_frame_codec_def)
  have h: "handle_search demo_engines rev (\<lambda>f. None) [] demo_request = Ok [Done 0]"
    by (simp add: handle_search_def demo_request_def default_options_def compile_regex_def select_def select_named_def
        merge_entries_def batch_frames_def chunks.simps STREAM_CHUNK_def)
  show ?thesis using client_gets_answer [OF c q f h, of "\<lambda>b. True"] by (simp add: answer_hits_def answer_lines_def)
qed

end
