(* ===== verification/Interrupted.thy ===== *)
theory Interrupted
  imports Opened
begin

section \<open>Sizes of shards, and builds that do not end well (crates/df-index/src/content_build.rs)\<close>

text \<open>
  A shard is flushed as soon as the contents in it reach the threshold, so its size is bounded. The
  shards of a build take the names of the shards of the build before, one after the other, and the
  manifest is replaced last: a build that fails or is killed in between leaves the first of its own
  shards under the manifest of the old ones.
\<close>

subsection \<open>How large a shard gets\<close>

lemma cut_shards_inv:
  "case cut_shards files of (parts, rest) \<Rightarrow> concat parts @ rest = files \<and> [] \<notin> set parts \<and>
     corpus_size rest < SHARD_FLUSH_BYTES \<and>
     (\<forall>p\<in>set parts. SHARD_FLUSH_BYTES \<le> corpus_size p \<and> corpus_size (butlast p) < SHARD_FLUSH_BYTES)"
proof (induction files rule: rev_induct)
  case Nil
  then show ?case by (simp add: SHARD_FLUSH_BYTES_def)
next
  case (snoc f files)
  then show ?case by (auto simp: cut_step_def split: prod.splits)
qed

lemma all_parts_inv:
  "concat (all_parts files) = files" "[] \<notin> set (all_parts files)"
  "i < length (all_parts files) \<Longrightarrow> corpus_size (butlast (all_parts files ! i)) < SHARD_FLUSH_BYTES"
  "Suc i < length (all_parts files) \<Longrightarrow> SHARD_FLUSH_BYTES \<le> corpus_size (all_parts files ! i)"
proof -
  obtain parts rest where cut: "cut_shards files = (parts, rest)" by fastforce
  have inv: "concat parts @ rest = files" "[] \<notin> set parts" "corpus_size rest < SHARD_FLUSH_BYTES"
    "\<And>p. p \<in> set parts \<Longrightarrow> SHARD_FLUSH_BYTES \<le> corpus_size p \<and> corpus_size (butlast p) < SHARD_FLUSH_BYTES"
    using cut_shards_inv [of files] by (simp_all add: cut)
  have p: "all_parts files = parts @ (if rest = [] then [] else [rest])" by (simp add: all_parts_def cut)
  show "concat (all_parts files) = files" "[] \<notin> set (all_parts files)" using inv by (auto simp: p)
  have "corpus_size (butlast rest) \<le> corpus_size rest"
    by (cases rest rule: rev_cases) auto
  then show "i < length (all_parts files) \<Longrightarrow> corpus_size (butlast (all_parts files ! i)) < SHARD_FLUSH_BYTES"
    using inv(3,4) by (auto simp: p nth_append split: if_splits)
  show "Suc i < length (all_parts files) \<Longrightarrow> SHARD_FLUSH_BYTES \<le> corpus_size (all_parts files ! i)"
    using inv(4) by (auto simp: p nth_append split: if_splits)
qed

lemma part_size:
  assumes "i < length (all_parts files)" and "\<forall>f\<in>set files. length (file_content f) \<le> m"
  shows "corpus_size (all_parts files ! i) < SHARD_FLUSH_BYTES + m"
proof -
  let ?p = "all_parts files ! i"
  have "?p \<noteq> []" using all_parts_inv(2) [of files] nth_mem [OF assms(1)] by auto
  then have p: "?p = butlast ?p @ [last ?p]" by simp
  have "last ?p \<in> set (concat (all_parts files))" using assms(1) \<open>?p \<noteq> []\<close> by (auto intro!: bexI [OF _ nth_mem])
  then have "length (file_content (last ?p)) \<le> m" using assms(2) by (simp add: all_parts_inv(1))
  moreover have "corpus_size ?p = corpus_size (butlast ?p) + length (file_content (last ?p))"
    by (subst p) (simp del: append_butlast_last_id)
  ultimately show ?thesis using all_parts_inv(3) [OF assms(1)] by linarith
qed

lemma full_parts: "(length (all_parts files) - 1) * SHARD_FLUSH_BYTES \<le> corpus_size files"
proof -
  have "n \<le> length (all_parts files) - 1 \<Longrightarrow> n * SHARD_FLUSH_BYTES \<le> corpus_size (concat (take n (all_parts files)))" for n
  proof (induction n)
    case (Suc n)
    then have "SHARD_FLUSH_BYTES \<le> corpus_size (all_parts files ! n)" by (intro all_parts_inv(4)) simp
    moreover have "take (Suc n) (all_parts files) = take n (all_parts files) @ [all_parts files ! n]"
      using Suc.prems by (simp add: take_Suc_conv_app_nth)
    ultimately show ?case using Suc by simp
  qed simp
  from this [of "length (all_parts files) - 1"] have
    "(length (all_parts files) - 1) * SHARD_FLUSH_BYTES \<le> corpus_size (concat (take (length (all_parts files) - 1) (all_parts files)))" by simp
  also have "\<dots> \<le> corpus_size (concat (take (length (all_parts files) - 1) (all_parts files)) @ concat (drop (length (all_parts files) - 1) (all_parts files)))"
    by simp
  also have "\<dots> = corpus_size files"
    unfolding concat_append [symmetric] append_take_drop_id all_parts_inv(1) ..
  finally show ?thesis .
qed

lemma build_records_sizes:
  assumes "\<And>vs. set (schedule vs) \<subseteq> set vs" "f \<in> set (content_files (build_records schedule G root opts tree))"
  shows "length (file_content f) \<le> unat (co_max_file_size opts)"
proof -
  have visit: "visit_content skip matcher m ev = (st, Some r, t) \<Longrightarrow> br_content r = Some bs \<Longrightarrow> length bs \<le> unat m"
    for skip matcher m ev st t r bs
    by (auto simp: visit_content_def classify_def Let_def split: walk_event.splits if_splits option.splits prod.splits)
  have "v \<in> set (walk f t) \<Longrightarrow> \<exists>ev st. f ev = (st, v)" for f :: "walk_event \<Rightarrow> walk_state \<times> 'a" and v t
  proof (induction f t rule: walk.induct)
    case (1 visit ev children)
    obtain st x where "visit ev = (st, x)" by fastforce
    then show ?case using 1 by (cases st) auto
  qed
  then show ?thesis using assms visit
    by (fastforce simp: build_records_def content_files_def List.map_filter_def file_content_def)
qed

subsection \<open>What a failed build has written\<close>

text \<open>The files of an index that the first \<open>n\<close> shards of a build do not replace.\<close>

definition untouched :: "file_id \<Rightarrow> nat \<Rightarrow> disk \<Rightarrow> disk \<Rightarrow> bool" where
  "untouched dir n d0 d \<longleftrightarrow> (\<forall>q. butlast q \<noteq> dir \<longrightarrow> reads d q = reads d0 q) \<and>
     reads d (join_dir dir (lit ''MANIFEST'')) = reads d0 (join_dir dir (lit ''MANIFEST'')) \<and>
     (\<forall>i. n \<le> i \<longrightarrow> i < 2 ^ 32 \<longrightarrow> reads d (join_dir dir (shard_name (of_nat i))) = reads d0 (join_dir dir (shard_name (of_nat i))))"

lemma untouched_refl [simp]: "untouched dir n d d"
  by (simp add: untouched_def)

lemma butlast_join [simp]: "butlast (join_dir dir n) = dir"
  by (simp add: join_dir_def)

lemma of_nat_u32: "i < 2 ^ 32 \<Longrightarrow> j < 2 ^ 32 \<Longrightarrow> (of_nat i :: u32) = of_nat j \<longleftrightarrow> i = j"
  by (simp add: word_of_nat_eq_iff take_bit_nat_eq_self)

text \<open>The first shards are the given new ones and the rest is as it was.\<close>

definition after :: "u64 \<Rightarrow> file_id \<Rightarrow> content_file list list \<Rightarrow> disk \<Rightarrow> disk \<Rightarrow> bool" where
  "after now dir parts d0 d \<longleftrightarrow> shards_stored now dir parts d \<and> untouched dir (length parts) d0 d"

context file_store
begin

lemma shard_save:
  assumes "wf d" "save (join_dir dir (shard_name (of_nat m))) F d = (d', r)" "m < 2 ^ 32" "untouched dir m d0 d"
  shows "untouched dir (if r = Ok () then Suc m else m) d0 d'"
proof -
  let ?p = "join_dir dir (shard_name (of_nat m))"
  note frame = save_frame [OF assms(1,2)]
  have "reads d' q = reads d q" if "butlast q \<noteq> dir" for q
  proof (rule frame)
    show "q \<noteq> ?p" "temporary ?p \<noteq> Some q" using that by (auto simp: temporary_join)
  qed
  moreover have "reads d' (join_dir dir (lit ''MANIFEST'')) = reads d (join_dir dir (lit ''MANIFEST''))"
    by (rule frame) (use manifest_apart(1) [of "of_nat m"] manifest_apart(2) in
      \<open>simp_all add: temporary_join eq_commute [of "lit ''MANIFEST''"]\<close>)
  moreover have "reads d' (join_dir dir (shard_name (of_nat i))) = reads d (join_dir dir (shard_name (of_nat i)))"
    if "(if r = Ok () then Suc m else m) \<le> i" "i < 2 ^ 32" for i
  proof (cases "i = m")
    case True
    then show ?thesis using save_failed [OF assms(1,2)] that by (auto split: if_splits)
  next
    case False
    have "temporary ?p \<noteq> Some (join_dir dir (shard_name (of_nat i)))"
      using shard_not_temporary [of "of_nat i"] by (simp add: temporary_join eq_commute [of _ "shard_name (of_nat i)"])
    then show ?thesis using False of_nat_u32 [OF that(2) assms(3)] by (intro frame) auto
  qed
  ultimately show ?thesis using assms(4) by (auto simp: untouched_def split: if_splits)
qed

lemma flush_after:
  assumes wf: "wf d" and inv: "consumer_inv now dir files parts rest c d" and small: "length files < 2 ^ 32"
    and rest: "rest \<noteq> []" and u: "untouched dir (length parts) d0 d" and run: "flush_shard save now dir c d = Some (d', r)"
  shows "wf d' \<and> (case r of Ok c' \<Rightarrow> after now dir (parts @ [rest]) d0 d' | _ \<Rightarrow> after now dir parts d0 d')"
proof -
  let ?p = "\<lambda>i. join_dir dir (shard_name (of_nat i))"
  have c: "c_shard_id c = of_nat (length parts)" "shards_stored now dir parts d" "[] \<notin> set parts" "files = concat parts @ rest"
    using inv by (simp_all add: consumer_inv_def)
  have n: "length parts < 2 ^ 32" using parts_length [OF c(3)] small c(4) by simp
  obtain F r' where F: "save (?p (length parts)) F d = (d', r')" "(\<exists>c'. r = Ok c') \<longleftrightarrow> r' = Ok ()"
    using run c(1) by (auto simp: flush_shard_def Let_def bind_o_eq_Ok split: option.splits prod.splits)
  note unt = shard_save [OF wf F(1) n u]
  show ?thesis
  proof (cases "\<exists>c'. r = Ok c'")
    case True
    then obtain c' where r: "r = Ok c'" by blast
    from flush_inv [OF wf inv small rest run [unfolded r]] show ?thesis using unt F(2) True by (auto simp: r after_def)
  next
    case False
    then have "untouched dir (length parts) d0 d'" using unt F(2) by (simp split: if_splits)
    moreover have "shards_stored now dir parts d'"
      unfolding shards_stored_def
    proof (intro allI impI)
      fix i assume i: "i < length parts"
      then have i': "i < 2 ^ 32" using n by simp
      have "temporary (?p (length parts)) \<noteq> Some (?p i)"
        using shard_not_temporary [of "of_nat i"] by (simp add: temporary_join eq_commute [of _ "shard_name (of_nat i)"])
      then have "reads d' (?p i) = reads d (?p i)"
        using i of_nat_u32 [OF i' n] by (intro save_frame [OF wf F(1)]) auto
      then show "shard_of now parts i \<noteq> None \<and> reads d' (?p i) = shard_of now parts i"
        using c(2) i by (simp add: shards_stored_def)
    qed
    ultimately show ?thesis using False save_wf [OF wf F(1)] by (cases r) (simp_all add: after_def)
  qed
qed

text \<open>A step of the consumer has written some of the shards, all of them if it succeeds.\<close>

definition wrote :: "u64 \<Rightarrow> file_id \<Rightarrow> content_file list list \<Rightarrow> disk \<Rightarrow> disk \<Rightarrow> bool \<Rightarrow> bool" where
  "wrote now dir parts d0 d' ok \<longleftrightarrow> wf d' \<and>
     (\<exists>n\<le>length parts. after now dir (take n parts) d0 d' \<and> (ok \<longrightarrow> n = length parts))"

lemma wrote_all: "wf d' \<Longrightarrow> after now dir parts d0 d' \<Longrightarrow> wrote now dir parts d0 d' ok"
  unfolding wrote_def by (auto intro!: exI [of _ "length parts"])

lemma wrote_more:
  assumes "wrote now dir parts d0 d' False"
  shows "wrote now dir (parts @ parts') d0 d' False"
proof -
  obtain n where n: "n \<le> length parts" "after now dir (take n parts) d0 d'" "wf d'" using assms by (auto simp: wrote_def)
  then have "take n (parts @ parts') = take n parts" by simp
  then show ?thesis using n unfolding wrote_def by (intro conjI exI [of _ n]) auto
qed

lemma wrote_less: "wf d' \<Longrightarrow> after now dir parts d0 d' \<Longrightarrow> wrote now dir (parts @ parts') d0 d' False"
  by (intro wrote_more wrote_all)

lemma consume_rec_wrote:
  assumes wf: "wf d" and inv: "consumer_at now dir files c d" and small: "length (files @ content_files [rec]) < 2 ^ 32"
    and a: "after now dir (fst (cut_shards files)) d0 d" and run: "consume_rec U save now dir rec c d = Some (d', r)"
  shows "wrote now dir (fst (cut_shards (files @ content_files [rec]))) d0 d' (\<exists>c'. r = Ok c')"
proof (cases "br_content rec")
  case None
  then have "content_files [rec] = []" "d' = d" using run
    by (auto simp: content_files_def List.map_filter_simps consume_rec_def Let_def)
  then show ?thesis using wrote_all [OF wf a] by simp
next
  case (Some bs)
  let ?f = "(br_path rec, br_dir rec, br_size rec, br_mtime rec, bs)"
  let ?c = "c\<lparr>c_fnb := fst (insert_with U (br_path rec) (br_dir rec) (br_size rec) (br_mtime rec) (c_fnb c)),
      c_shard := add_file (br_path rec) (br_dir rec) (br_size rec) (br_mtime rec) bs (c_shard c),
      c_content_docs := c_content_docs c + 1\<rparr>"
  have cf: "content_files [rec] = [?f]" using Some by (simp add: content_files_def List.map_filter_simps)
  obtain parts rest where cut: "cut_shards files = (parts, rest)" by fastforce
  have inv': "consumer_inv now dir (files @ [?f]) parts (rest @ [?f]) ?c d"
    using inv cut by (simp add: consumer_inv_def fill_shard_snoc)
  then have size: "content_bytes (c_shard ?c) = corpus_size (rest @ [?f])"
    unfolding consumer_inv_def using content_bytes_fill by metis
  show ?thesis
  proof (cases "content_bytes (c_shard ?c) \<ge> SHARD_FLUSH_BYTES")
    case False
    then have "d' = d" using run Some by (auto simp: consume_rec_def Let_def)
    moreover have "fst (cut_shards (files @ content_files [rec])) = parts"
      using False size by (simp add: cf cut cut_step_def)
    ultimately show ?thesis using wrote_all [OF wf a] by (simp add: cut)
  next
    case True
    then obtain r1 where r1: "flush_shard save now dir ?c d = Some (d', r1)" "(\<exists>c'. r = Ok c') \<longleftrightarrow> (\<exists>c'. r1 = Ok c')"
      using run Some by (auto simp: consume_rec_def Let_def then_build_def split: option.splits outcome.splits)
    have l: "length (files @ [?f]) < 2 ^ 32" "untouched dir (length parts) d0 d" using small a by (simp_all add: cf cut after_def)
    have cut': "fst (cut_shards (files @ content_files [rec])) = parts @ [rest @ [?f]]"
      using True size by (simp add: cf cut cut_step_def)
    from flush_after [OF wf inv' l(1) _ l(2) r1(1)] show ?thesis
      unfolding cut' using r1(2) by (cases r1) (auto intro: wrote_all wrote_less)
  qed
qed

lemma cut_extends: "\<exists>ys. fst (cut_shards (xs @ zs)) = fst (cut_shards xs) @ ys"
proof (induction zs rule: rev_induct)
  case (snoc z zs)
  then show ?case unfolding append_assoc [symmetric] cut_shards_snoc
    by (auto simp: cut_step_def split: prod.splits)
qed simp

lemma consume_all_wrote:
  assumes "wf d" "consumer_at now dir files c d" "length (files @ content_files recs) < 2 ^ 32"
    and "after now dir (fst (cut_shards files)) d0 d" and "consume_all U save now dir recs c d = Some (d', r)"
  shows "wrote now dir (fst (cut_shards (files @ content_files recs))) d0 d' (\<exists>c'. r = Ok c')"
  using assms
proof (induction recs arbitrary: files c d)
  case Nil
  then show ?case using wrote_all by (auto simp: content_files_def List.map_filter_simps)
next
  case (Cons rec recs)
  note cf = content_files_Cons [of rec recs]
  have small: "length (files @ content_files [rec]) < 2 ^ 32" using Cons.prems(3) cf by simp
  obtain d1 r1 where r1: "consume_rec U save now dir rec c d = Some (d1, r1)"
    using Cons.prems(5) by (auto simp: then_build_def split: option.splits)
  note w = consume_rec_wrote [OF Cons.prems(1,2) small Cons.prems(4) r1]
  show ?case
  proof (cases "\<exists>c1. r1 = Ok c1")
    case True
    then obtain c1 where c1: "r1 = Ok c1" by blast
    have run: "consume_all U save now dir recs c1 d1 = Some (d', r)" using Cons.prems(5) by (simp add: r1 c1 then_build_def)
    from consume_rec_inv [OF Cons.prems(1,2) small r1 [unfolded c1]] have s: "wf d1"
      "consumer_at now dir (files @ content_files [rec]) c1 d1" by simp_all
    have "after now dir (fst (cut_shards (files @ content_files [rec]))) d0 d1" using w c1 by (auto simp: wrote_def)
    from Cons.IH [OF s _ this run] Cons.prems(3) show ?thesis by (simp add: cf)
  next
    case False
    then have "d' = d1" "\<nexists>c'. r = Ok c'" using Cons.prems(5) by (auto simp: r1 then_build_def split: outcome.splits)
    then show ?thesis using w False wrote_more cut_extends [of "files @ content_files [rec]" "content_files recs"]
      by (auto simp: cf)
  qed
qed

lemma consume_wrote:
  assumes "wf d" "length (content_files recs) < 2 ^ 32" "consume Z U save mkdir_ok now dir recs d = Some (d', r)"
  shows "wrote now dir (all_parts (content_files recs)) d d' (\<exists>out. r = Ok out)"
proof (cases mkdir_ok)
  case False
  then have "d' = d" "\<nexists>out. r = Ok out" using assms(3) by (auto simp: consume_def)
  then show ?thesis using assms(1) by (auto simp: wrote_def after_def shards_stored_def intro!: exI [of _ 0])
next
  case True
  let ?files = "content_files recs"
  obtain parts rest where cut: "cut_shards ?files = (parts, rest)" by fastforce
  have ap: "all_parts ?files = parts @ (if rest = [] then [] else [rest])" by (simp add: all_parts_def cut)
  obtain d1 r1 where r1: "consume_all U save now dir recs (new_consumer now) d = Some (d1, r1)"
    using assms(3) True by (auto simp: consume_def then_build_def split: option.splits)
  have start: "after now dir (fst (cut_shards [])) d d" by (simp add: after_def shards_stored_def)
  have w: "wrote now dir parts d d1 (\<exists>c'. r1 = Ok c')"
    using consume_all_wrote [OF assms(1) consumer_at_start _ start r1] assms(2) cut by simp
  show ?thesis
  proof (cases "\<exists>c1. r1 = Ok c1")
    case False
    then have "d' = d1" "\<nexists>out. r = Ok out" using assms(3) True by (auto simp: consume_def r1 then_build_def split: outcome.splits)
    then show ?thesis using w False wrote_more by (auto simp: ap)
  next
    case ok: True
    then obtain c1 where c1: "r1 = Ok c1" by blast
    have inv: "wf d1" "consumer_inv now dir ?files parts rest c1 d1"
      using consume_all_inv [OF assms(1) consumer_at_start _ r1 [unfolded c1]] assms(2) cut by simp_all
    have a: "after now dir parts d d1" using w c1 by (auto simp: wrote_def)
    obtain r2 d2 where r2: "(if shard_doc_count (c_shard c1) > 0 then flush_shard save now dir c1 d1 else Some (d1, Ok c1)) = Some (d2, r2)"
      "d' = d2" "(\<exists>out. r = Ok out) \<longleftrightarrow> (\<exists>c2. r2 = Ok c2)"
      using assms(3) True by (auto simp: consume_def r1 c1 then_build_def split: option.splits outcome.splits if_splits)
    have "shard_doc_count (c_shard c1) > 0 \<longleftrightarrow> rest \<noteq> []"
    proof -
      have "length rest < 2 ^ 32" "shard_doc_count (c_shard c1) = of_nat (length rest)"
        using inv(2) assms(2) doc_count_fill [of rest] by (auto simp: consumer_inv_def)
      then show ?thesis by (simp add: word_less_nat_alt)
    qed
    with r2(1) consider "rest = []" "d2 = d1" | "rest \<noteq> []" "flush_shard save now dir c1 d1 = Some (d2, r2)" by (auto split: if_splits)
    then show ?thesis
    proof cases
      case 1
      then show ?thesis using wrote_all [OF inv(1) a] by (simp add: r2(2) ap)
    next
      case 2
      have u: "untouched dir (length parts) d d1" using a by (simp add: after_def)
      from flush_after [OF inv assms(2) 2(1) u 2(2)] show ?thesis
        using r2(2,3) 2(1) by (cases r2) (auto simp: ap intro: wrote_all wrote_less)
    qed
  qed
qed

lemma build_wf:
  assumes "wf d" "length (content_files (build_records schedule G root opts tree)) < 2 ^ 32"
    and "build_content_index_with_progress Z U G schedule save mkdir_ok now root tree out_db dir opts d = Some (d', Ok report)"
  shows "wf d'"
proof -
  obtain d1 out d2 enc where "consume Z U save mkdir_ok now dir (build_records schedule G root opts tree) d = Some (d1, Ok out)"
    "save out_db (out_fn_bytes out) d1 = (d2, Ok ())" "save (join_dir dir (lit ''MANIFEST'')) enc d2 = (d', Ok ())"
    using assms(3) by (auto simp: build_content_index_with_progress_def build_records_def Let_def then_build_Ok split: prod.splits)
  then show ?thesis using consume_inv [OF assms(1,2)] save_wf by metis
qed

lemma build_frame:
  assumes wf: "wf d" and small: "length (content_files (build_records schedule G root opts tree)) < 2 ^ 32"
    and run: "build_content_index_with_progress Z U G schedule save mkdir_ok now root tree out_db dir opts d = Some (d', Ok x)"
    and q: "butlast q \<noteq> dir" "butlast q \<noteq> butlast out_db"
  shows "reads d' q = reads d q"
proof -
  let ?M = "join_dir dir (lit ''MANIFEST'')"
  obtain d1 out d2 enc where r: "consume Z U save mkdir_ok now dir (build_records schedule G root opts tree) d = Some (d1, Ok out)"
    "save out_db (out_fn_bytes out) d1 = (d2, Ok ())" "save ?M enc d2 = (d', Ok ())"
    using run by (auto simp: build_content_index_with_progress_def build_records_def Let_def then_build_Ok split: prod.splits)
  have wf1: "wf d1" and u: "reads d1 q = reads d q"
    using consume_wrote [OF wf small r(1)] q(1) by (auto simp: wrote_def after_def untouched_def)
  have tmp: "temporary p = Some t \<Longrightarrow> butlast t = butlast p" for p t by (auto simp: temporary_def tmp_of_def)
  have "reads d2 q = reads d1 q" by (rule save_frame [OF wf1 r(2)]) (use q(2) tmp in auto)
  moreover have "reads d' q = reads d2 q" by (rule save_frame [OF save_wf [OF wf1 r(2)] r(3)]) (use q(1) tmp in force)+
  ultimately show ?thesis using u by simp
qed

lemma index_failed:
  assumes wf1: "wf d1" and apart: "butlast out_db \<noteq> dir" and s2: "save out_db F d1 = (d2, r2)"
    and ends: "r2 \<noteq> Ok () \<and> d' = d2 \<or>
      (\<exists>enc r3. save (join_dir dir (lit ''MANIFEST'')) enc d2 = (d', r3) \<and> r3 \<noteq> Ok ())"
    and m: "m = lit ''MANIFEST'' \<or> (\<exists>i. m = shard_name i)"
  shows "reads d' (join_dir dir m) = reads d1 (join_dir dir m) \<and> (reads d' out_db = reads d1 out_db \<or> reads d' out_db = Some F)"
proof -
  let ?M = "join_dir dir (lit ''MANIFEST'')"
  have wf2: "wf d2" by (rule save_wf [OF wf1 s2])
  have tmp: "temporary out_db = Some q \<Longrightarrow> butlast q = butlast out_db" for q by (auto simp: temporary_def tmp_of_def)
  have "reads d2 (join_dir dir m) = reads d1 (join_dir dir m)"
    by (rule save_frame [OF wf1 s2]) (use apart tmp in auto)
  moreover have "reads d2 out_db = reads d1 out_db \<or> reads d2 out_db = Some F"
    using save_done [OF wf1, of out_db F d2] save_failed [OF wf1 s2] s2 by auto
  moreover have "reads d' (join_dir dir m) = reads d2 (join_dir dir m) \<and> reads d' out_db = reads d2 out_db"
    using ends
  proof
    assume "\<exists>enc r3. save ?M enc d2 = (d', r3) \<and> r3 \<noteq> Ok ()"
    then obtain enc r3 where s3: "save ?M enc d2 = (d', r3)" "r3 \<noteq> Ok ()" by blast
    have "reads d' out_db = reads d2 out_db"
      by (rule save_frame [OF wf2 s3(1)]) (use apart in \<open>auto simp: temporary_join\<close>)
    moreover have "reads d' (join_dir dir (shard_name i)) = reads d2 (join_dir dir (shard_name i))" for i
      using shard_not_temporary [of i] manifest_apart(1) [of i]
      by (intro save_frame [OF wf2 s3(1)]) (simp_all add: temporary_join eq_commute [of _ "shard_name i"])
    ultimately show ?thesis using m save_failed [OF wf2 s3] by auto
  qed simp
  ultimately show ?thesis by simp
qed

lemma build_failed:
  assumes wf: "wf d" and small: "length (content_files (build_records schedule G root opts tree)) < 2 ^ 32" and apart: "butlast out_db \<noteq> dir"
    and run: "build_content_index_with_progress Z U G schedule save mkdir_ok now root tree out_db dir opts d = Some (d', r)"
    and failed: "\<nexists>x. r = Ok x" and parts: "parts = all_parts (content_files (build_records schedule G root opts tree))"
  shows "\<exists>n\<le>length parts. shards_stored now dir (take n parts) d' \<and>
    (\<forall>i. n \<le> i \<longrightarrow> i < 2 ^ 32 \<longrightarrow> reads d' (join_dir dir (shard_name (of_nat i))) = reads d (join_dir dir (shard_name (of_nat i)))) \<and>
    reads d' (join_dir dir (lit ''MANIFEST'')) = reads d (join_dir dir (lit ''MANIFEST'')) \<and>
    (reads d' out_db = reads d out_db \<or>
      n = length parts \<and> reads d' out_db = finish Z (filename_builder U now (build_records schedule G root opts tree)))"
proof -
  let ?recs = "build_records schedule G root opts tree"
  note run' = run [unfolded build_content_index_with_progress_def Let_def, folded build_records_def]
  obtain d1 r1 where r1: "consume Z U save mkdir_ok now dir ?recs d = Some (d1, r1)"
    using run' by (auto simp: then_build_def split: option.splits)
  obtain n where n: "n \<le> length parts" "after now dir (take n parts) d d1" "(\<exists>out. r1 = Ok out) \<Longrightarrow> n = length parts" and wf1: "wf d1"
    using consume_wrote [OF wf small r1] parts by (auto simp: wrote_def)
  then have u: "untouched dir n d d1" "shards_stored now dir (take n parts) d1"
    by (simp_all add: after_def min_def split: if_splits)
  show ?thesis
  proof (cases "\<exists>out. r1 = Ok out")
    case False
    then have "d' = d1" using run' by (auto simp: r1 then_build_def split: outcome.splits)
    then show ?thesis using u n(1) apart by (auto simp: untouched_def)
  next
    case True
    then obtain out where out: "r1 = Ok out" by blast
    have F: "finish Z (filename_builder U now ?recs) = Some (out_fn_bytes out)"
      using consume_inv [OF wf small r1 [unfolded out]] by simp
    obtain d2 r2 where s2: "save out_db (out_fn_bytes out) d1 = (d2, r2)" by fastforce
    have "r2 \<noteq> Ok () \<and> d' = d2 \<or> (\<exists>enc r3. save (join_dir dir (lit ''MANIFEST'')) enc d2 = (d', r3) \<and> r3 \<noteq> Ok ())"
      using run' failed by (cases "r2 = Ok ()") (auto simp: r1 out s2 then_build_def split: outcome.splits prod.splits)
    note tail = index_failed [OF wf1 apart s2 this]
    show ?thesis
      using tail [of "lit ''MANIFEST''"] tail [of "shard_name _", OF disjI2, OF exI, OF refl] u F n True apart
      by (intro exI [of _ n]) (auto simp: untouched_def shards_stored_def)
  qed
qed

end

subsection \<open>Saves that fail\<close>

lemma failing_save: "snd (file_save (\<lambda>op. False) k p bs d) \<noteq> Ok ()"
  by (auto simp: file_save_def atomic_write_def Let_def split: option.splits prod.splits)

lemma failing_build:
  assumes "build_content_index_with_progress Z U G schedule (file_save (\<lambda>op. False) k) mkdir_ok now root tree out_db dir opts d = Some (d', r)"
  shows "\<nexists>x. r = Ok x"
proof
  assume "\<exists>x. r = Ok x"
  then obtain d1 F d2 where "file_save (\<lambda>op. False) k out_db F d1 = (d2, Ok ())"
    using assms by (auto simp: build_content_index_with_progress_def Let_def then_build_Ok split: prod.splits)
  then show False using failing_save [of k out_db F d1] by simp
qed

text \<open>A shard listed by the old manifest after \<open>m\<close> shards have been replaced.\<close>

lemma mixed_shard:
  assumes "memmem_ok memmem"
    and "files_ok (content_files recs1)" "build_fits Z U now1 recs1" "old = all_parts (content_files recs1)"
    and "files_ok (content_files recs2)" "build_fits Z U now2 recs2" "new = all_parts (content_files recs2)"
    and "shards_stored now1 dir old d1" "m \<le> length new" "shards_stored now2 dir (take m new) d2"
    and "\<forall>i. m \<le> i \<longrightarrow> i < 2 ^ 32 \<longrightarrow> reads d2 (join_dir dir (shard_name (of_nat i))) = reads d1 (join_dir dir (shard_name (of_nat i)))"
    and "i < length old" "length old < 2 ^ 32"
  shows "\<exists>F. reads d2 (join_dir dir (shard_name (of_nat i))) = Some F \<and>
    shard_holds memmem F ((take (length old) (take m new) @ drop m old) ! i)"
proof (cases "i < m")
  case True
  then have i': "i < length new" and sh: "shard_of now2 (take m new) i = shard_of now2 new i"
    using assms(9) by (simp_all add: shard_of_def base_of_def min_def)
  then obtain F where F: "reads d2 (join_dir dir (shard_name (of_nat i))) = Some F" "shard_of now2 new i = Some F"
    using spec [OF assms(10) [unfolded shards_stored_def], of i] True assms(9) by (auto simp: sh)
  have "(take (length old) (take m new) @ drop m old) ! i = new ! i" using True i' assms(9,12) by (simp add: nth_append min_def)
  then show ?thesis using F stored_holds [OF assms(5,6,1,7) _ i' F(2)] assms(7) all_parts_inv(1) by simp
next
  case False
  then obtain F where F: "reads d2 (join_dir dir (shard_name (of_nat i))) = Some F" "shard_of now1 old i = Some F"
    using assms(8,11-13) by (auto simp: shards_stored_def)
  have "(take (length old) (take m new) @ drop m old) ! i = old ! i" using False assms(9,12) by (simp add: nth_append min_def)
  then show ?thesis using F stored_holds [OF assms(2,3,1,4) _ assms(12) F(2)] assms(4) all_parts_inv(1) by simp
qed

subsection \<open>Properties\<close>

text \<open>
  C33. The contents in one shard are bounded. Every shard of a build holds less than the flush
  threshold and one largest file together, every shard but the last at least the threshold, and so
  there is at most one shard more than the contents fill.
\<close>

theorem shards_bounded:
  assumes "disk_wf d" and "\<And>vs. set (schedule vs) \<subseteq> set vs" and "files = content_files (build_records schedule G root opts tree)"
    and "length files < 2 ^ 32" and "butlast out_db \<noteq> dir"
    and "build_content_index_with_progress Z U G schedule (file_save succeeds k) mkdir_ok now root tree out_db dir opts d =
      Some (d', Ok report)"
  shows "\<exists>parts. concat parts = files \<and>
    reads d' (join_dir dir (lit ''MANIFEST'')) = Some (manifest_encode
      \<lparr>build_time = now, total_content_docs = of_nat (length files), shards = entries_of parts\<rparr>) \<and>
    (\<forall>i<length parts. reads d' (join_dir dir (shard_name (of_nat i))) = shard_of now parts i \<and>
      corpus_size (parts ! i) < SHARD_FLUSH_BYTES + unat (co_max_file_size opts) \<and>
      (Suc i < length parts \<longrightarrow> SHARD_FLUSH_BYTES \<le> corpus_size (parts ! i))) \<and>
    length parts \<le> corpus_size files div SHARD_FLUSH_BYTES + 1"
proof (intro exI conjI)
  let ?parts = "all_parts files"
  note inv = disk.build_inv [OF assms(1) assms(4) [unfolded assms(3)] assms(5,6), folded assms(3)]
  show c: "concat ?parts = files" by (rule all_parts_inv)
  show "reads d' (join_dir dir (lit ''MANIFEST'')) = Some (manifest_encode
      \<lparr>build_time = now, total_content_docs = of_nat (length files), shards = entries_of ?parts\<rparr>)"
    using inv c by (simp add: Let_def)
  have "\<forall>f\<in>set files. length (file_content f) \<le> unat (co_max_file_size opts)"
    using build_records_sizes [OF assms(2)] assms(3) by blast
  then show "\<forall>i<length ?parts. reads d' (join_dir dir (shard_name (of_nat i))) = shard_of now ?parts i \<and>
      corpus_size (?parts ! i) < SHARD_FLUSH_BYTES + unat (co_max_file_size opts) \<and>
      (Suc i < length ?parts \<longrightarrow> SHARD_FLUSH_BYTES \<le> corpus_size (?parts ! i))"
    using inv part_size all_parts_inv(4) by (auto simp: Let_def shards_stored_def)
  have "length ?parts - 1 \<le> corpus_size files div SHARD_FLUSH_BYTES"
    using full_parts [of files] by (simp add: less_eq_div_iff_mult_less_eq SHARD_FLUSH_BYTES_def)
  then show "length ?parts \<le> corpus_size files div SHARD_FLUSH_BYTES + 1" by simp
qed

text \<open>
  C26. A build that fails mixes old and new. When a build fails, or its process is killed before one of
  its saves, the manifest is still the one of the build before, but some number of its shards are
  already replaced: a content search finds the files of the new shards up to there and of the old
  shards from there on. A file whose old shard is replaced and whose new shard is not yet written
  is not found, although nothing has happened to it. The filename database is the old or the new one.
\<close>

theorem failed_build_mixes:
  assumes "memmem_ok (en_memmem E)" and "disk_wf d" and "clean_dir a" and "plain_name n"
    and "recs1 = build_records schedule1 G1 root1 opts1 tree1" and "recs2 = build_records schedule2 G2 root2 opts2 tree2"
    and "files_ok (content_files recs1)" and "files_ok (content_files recs2)"
    and "build_content_index_with_progress Z U G1 schedule1 (file_save succeeds1 k1) mk1 now1 root1 tree1
      (components (a @ slash # n)) (components (entry_dir (a @ slash # n))) opts1 d = Some (d1, Ok report)"
    and "build_content_index_with_progress Z U G2 schedule2 (file_save succeeds2 k2) mk2 now2 root2 tree2
      (components (a @ slash # n)) (components (entry_dir (a @ slash # n))) opts2 d1 = Some (d2, r)" and "\<nexists>x. r = Ok x"
    and "build_fits Z U now1 recs1" and "build_fits Z U now2 recs2"
    and "old = all_parts (content_files recs1)" and "new = all_parts (content_files recs2)"
  shows "\<exists>m\<le>length new. \<exists>snap hits. load_shard_set (\<lambda>p. reads d2 (components p)) (entry_dir (a @ slash # n)) = Ok snap \<and>
    shards_query E snap (fold_bytes q) q cs scope None = Ok hits \<and>
    fst ` set hits = {p. in_scope p scope \<and> (\<exists>f\<in>set (concat (take (length old) (take m new) @ drop m old)).
      fst f = p \<and> content_hit (file_content f) (if cs then q else fold_bytes q) cs)} \<and>
    (reads d2 (components (a @ slash # n)) = finish Z (filename_builder U now1 recs1) \<or>
      m = length new \<and> reads d2 (components (a @ slash # n)) = finish Z (filename_builder U now2 recs2))"
proof -
  let ?out = "components (a @ slash # n)" and ?dir = "components (entry_dir (a @ slash # n))"
  have apart: "butlast ?out \<noteq> ?dir"
    using index_paths(2,3) [OF assms(3,4)] by (metis butlast_snoc not_Cons_self2 append_self_conv)
  have l: "length (content_files recs1) < 2 ^ 32" "length (content_files recs2) < 2 ^ 32"
    using assms(7,8) by (simp_all add: files_ok_def)
  from disk.build_inv [OF assms(2) l(1) [unfolded assms(5)] apart assms(9)] have o: "concat old = content_files recs1" "[] \<notin> set old"
    "shards_stored now1 ?dir old d1" "reads d1 ?out = finish Z (filename_builder U now1 recs1)"
    "reads d1 (join_dir ?dir (lit ''MANIFEST'')) = Some (manifest_encode
      \<lparr>build_time = now1, total_content_docs = of_nat (length (concat old)), shards = entries_of old\<rparr>)"
    unfolding assms(5) [symmetric] assms(14) [symmetric] by (simp_all add: Let_def)
  have wf1: "disk_wf d1" using disk.build_wf [OF assms(2) l(1) [unfolded assms(5)] assms(9)] .
  from disk.build_failed [OF wf1 l(2) [unfolded assms(6)] apart assms(10,11), of new] obtain m where m: "m \<le> length new"
    "shards_stored now2 ?dir (take m new) d2"
    "\<forall>i. m \<le> i \<longrightarrow> i < 2 ^ 32 \<longrightarrow> reads d2 (join_dir ?dir (shard_name (of_nat i))) = reads d1 (join_dir ?dir (shard_name (of_nat i)))"
    "reads d2 (join_dir ?dir (lit ''MANIFEST'')) = reads d1 (join_dir ?dir (lit ''MANIFEST''))"
    "reads d2 ?out = reads d1 ?out \<or> m = length new \<and> reads d2 ?out = finish Z (filename_builder U now2 recs2)"
    unfolding assms(6) [symmetric] using assms(15) by blast
  have nold: "length old < 2 ^ 32" using parts_length [OF o(2)] l(1) by (simp add: o(1))
  let ?docs = "take (length old) (take m new) @ drop m old"
  define S where "S i = the (reads d2 (join_dir ?dir (shard_name (of_nat i))))" for i
  have S: "reads d2 (join_dir ?dir (shard_name (of_nat i))) = Some (S i) \<and> shard_holds (en_memmem E) (S i) (?docs ! i)"
    if "i < length old" for i
    using mixed_shard [OF assms(1,7,12,14,8,13,15) o(3) m(1-3) that nold] by (auto simp: S_def)
  let ?snap = "map S [0..<length old]"
  have "load_shard_set (\<lambda>p. reads d2 (components p)) (entry_dir (a @ slash # n)) = Ok ?snap"
    using S by (intro load_listed [OF assms(3,4) nold m(4) [unfolded o(5)]]) blast
  moreover have "list_all2 (shard_holds (en_memmem E)) ?snap ?docs"
    using S m(1) by (auto simp: list_all2_conv_all_nth min_def)
  note fs = found_in_shards [OF this, of q cs]
  moreover obtain hits where "shards_query E ?snap (fold_bytes q) q cs scope None = Ok hits"
    "fst ` set hits = {p. content_found ?snap q cs p \<and> in_scope p scope}"
    using shards_query_good [of E ?snap q cs scope] fs by blast
  ultimately show ?thesis using m(1,5) o(4) fs by (intro exI [of _ m] conjI exI [of _ ?snap] exI [of _ hits]) (auto simp: conj_commute)
qed

abbreviation demo_out :: bytes where "demo_out \<equiv> lit ''d'' @ slash # lit ''index.dfdb''"

lemma demo_out_paths: "clean_dir (lit ''d'')" "plain_name (lit ''index.dfdb'')" "name_of (components demo_out) \<noteq> None"
  by code_simp+

lemma demo_build:
  "disk_wf d \<Longrightarrow> \<exists>d' report. build_content_index_with_progress stored_zstd ascii_tables demo_gitignore (\<lambda>vs. vs)
      (file_save (\<lambda>op. True) 0) True 5 [0x2E] demo_tree (components demo_out) (components (entry_dir demo_out))
      default_content_options d = Some (d', Ok report)"
  "disk_wf d \<Longrightarrow> \<exists>d' r. build_content_index_with_progress stored_zstd ascii_tables demo_gitignore (\<lambda>vs. vs)
      (file_save (\<lambda>op. False) 0) True 5 [0x2E] demo_tree (components demo_out) (components (entry_dir demo_out))
      default_content_options d = Some (d', r) \<and> (\<nexists>x. r = Ok x)"
proof -
  have r: "disk.returns s 0 (build_content_index_with_progress stored_zstd ascii_tables demo_gitignore (\<lambda>vs. vs)
      (file_save s 0) True 5 [0x2E] demo_tree (components demo_out) (components (entry_dir demo_out))
      default_content_options d)" if "disk_wf d" for s
    by (rule disk.build_returns [OF that demo_out_paths(3)]) (simp_all add: demo_records valid_ascii)
  show "disk_wf d \<Longrightarrow> \<exists>d' report. build_content_index_with_progress stored_zstd ascii_tables demo_gitignore (\<lambda>vs. vs)
      (file_save (\<lambda>op. True) 0) True 5 [0x2E] demo_tree (components demo_out) (components (entry_dir demo_out))
      default_content_options d = Some (d', Ok report)"
    using r reliable_disk unfolding disk.returns_def by blast
  show "disk_wf d \<Longrightarrow> \<exists>d' r. build_content_index_with_progress stored_zstd ascii_tables demo_gitignore (\<lambda>vs. vs)
      (file_save (\<lambda>op. False) 0) True 5 [0x2E] demo_tree (components demo_out) (components (entry_dir demo_out))
      default_content_options d = Some (d', r) \<and> (\<nexists>x. r = Ok x)"
    using r [of "\<lambda>op. False"] failing_build unfolding disk.returns_def by (metis not_None_eq surj_pair)
qed

theorem shards_bounded_witness:
  "\<exists>parts d' report. build_content_index_with_progress stored_zstd ascii_tables demo_gitignore (\<lambda>vs. vs)
      (file_save (\<lambda>op. True) 0) True 5 [0x2E] demo_tree (components demo_out) (components (entry_dir demo_out))
      default_content_options demo_disk = Some (d', Ok report) \<and> concat parts = content_files demo_recs \<and> length parts \<le> 1"
proof -
  obtain d' report where run: "build_content_index_with_progress stored_zstd ascii_tables demo_gitignore (\<lambda>vs. vs)
      (file_save (\<lambda>op. True) 0) True 5 [0x2E] demo_tree (components demo_out) (components (entry_dir demo_out))
      default_content_options demo_disk = Some (d', Ok report)" using demo_build(1) [OF demo_disk_wf] by blast
  have "butlast (components demo_out) \<noteq> components (entry_dir demo_out)" by code_simp
  moreover have "length (content_files demo_recs) < 2 ^ 32" "corpus_size (content_files demo_recs) div SHARD_FLUSH_BYTES = 0"
    by (simp_all add: demo_content file_content_def SHARD_FLUSH_BYTES_def)
  ultimately show ?thesis using shards_bounded [OF demo_disk_wf order_refl refl _ _ run] run by auto
qed

theorem failed_build_mixes_witness:
  "\<exists>d1 report d2 r snap hits. build_content_index_with_progress stored_zstd ascii_tables demo_gitignore (\<lambda>vs. vs)
      (file_save (\<lambda>op. True) 0) True 5 [0x2E] demo_tree (components demo_out) (components (entry_dir demo_out))
      default_content_options demo_disk = Some (d1, Ok report) \<and>
    build_content_index_with_progress stored_zstd ascii_tables demo_gitignore (\<lambda>vs. vs)
      (file_save (\<lambda>op. False) 0) True 5 [0x2E] demo_tree (components demo_out) (components (entry_dir demo_out))
      default_content_options d1 = Some (d2, r) \<and> (\<nexists>x. r = Ok x) \<and>
    load_shard_set (\<lambda>p. reads d2 (components p)) (entry_dir demo_out) = Ok snap \<and>
    shards_query demo_engines snap (fold_bytes (lit ''abc'')) (lit ''abc'') False None None = Ok hits \<and> fst ` set hits = {lit ''a''}"
proof -
  have small: "length (content_files demo_recs) < 2 ^ 32" by (simp add: demo_content)
  have ok: "files_ok (content_files demo_recs)" by (simp add: demo_content files_ok_def valid_ascii)
  have mem: "memmem_ok (en_memmem demo_engines)" by (simp add: demo_engines_def naive_find_ok)
  obtain d1 report where run1: "build_content_index_with_progress stored_zstd ascii_tables demo_gitignore (\<lambda>vs. vs)
      (file_save (\<lambda>op. True) 0) True 5 [0x2E] demo_tree (components demo_out) (components (entry_dir demo_out))
      default_content_options demo_disk = Some (d1, Ok report)" using demo_build(1) [OF demo_disk_wf] by blast
  obtain d2 r where run2: "build_content_index_with_progress stored_zstd ascii_tables demo_gitignore (\<lambda>vs. vs)
      (file_save (\<lambda>op. False) 0) True 5 [0x2E] demo_tree (components demo_out) (components (entry_dir demo_out))
      default_content_options d1 = Some (d2, r)" "\<nexists>x. r = Ok x"
    using demo_build(2) [OF disk.build_wf [OF demo_disk_wf small run1]] by blast
  have p: "all_parts (content_files demo_recs) = [content_files demo_recs]"
    by (simp add: demo_content all_parts_def cut_shards_def cut_step_def SHARD_FLUSH_BYTES_def file_content_def)
  from failed_build_mixes [OF mem demo_disk_wf demo_out_paths(1,2) refl refl ok ok run1 run2 demo_fits demo_fits refl refl,
      of "lit ''abc''" False None, unfolded p]
  obtain m snap hits where m: "m \<le> length [content_files demo_recs]"
    "load_shard_set (\<lambda>p. reads d2 (components p)) (entry_dir demo_out) = Ok snap"
    "shards_query demo_engines snap (fold_bytes (lit ''abc'')) (lit ''abc'') False None None = Ok hits"
    "fst ` set hits = {p. in_scope p None \<and> (\<exists>f\<in>set (concat (take (length [content_files demo_recs]) (take m [content_files demo_recs]) @
      drop m [content_files demo_recs])). fst f = p \<and> content_hit (file_content f) (if False then lit ''abc'' else fold_bytes (lit ''abc'')) False)}"
    by (elim exE conjE) (rule that)
  have "set (concat (take (length [content_files demo_recs]) (take m [content_files demo_recs]) @ drop m [content_files demo_recs])) =
      {([0x61], False, 4, 7, [0x41, 0x62, 0x43, 0x0A])}"
    using m(1) by (cases m) (simp_all add: demo_content)
  moreover have "content_hit [0x41, 0x62, 0x43, 0x0A] (fold_bytes (lit ''abc'')) False" "lit ''a'' = [0x61]" by code_simp+
  ultimately have "fst ` set hits = {lit ''a''}" unfolding m(4) by (auto simp: in_scope_def file_content_def)
  then show ?thesis using run1 run2 m(2,3) by blast
qed

end
