(* ===== verification/Lifecycle.thy ===== *)
theory Lifecycle
  imports Client
begin

section \<open>The life of a daemon (crates/deepfindd/src/lib.rs, singleton.rs)\<close>

text \<open>
  Processes that run \<open>serve\<close> share the lock file and the socket file of a directory. Each goes through
  the stages of \<open>serve\<close>; an event is what happens between two of its waits, with the answer of the
  system where it can differ. The processes take their steps in any order, and any of them can be
  killed at any point: the system then gives back its lock, and the socket file stays.
\<close>

subsection \<open>The lock\<close>

datatype acquire_result = Acquired | WouldBlock | LockFailed

text \<open>\<open>flock\<close> without blocking; the lock belongs to the open file, so nobody gets it twice.\<close>

definition acquire :: "bytes \<Rightarrow> bool \<Rightarrow> bool \<Rightarrow> nat \<Rightarrow> (bytes \<Rightarrow> nat option) \<Rightarrow> acquire_result \<times> (bytes \<Rightarrow> nat option)" where
  "acquire lock mkdir_ok open_ok p locks =
     (if path_parent lock \<noteq> None \<and> \<not> mkdir_ok then (LockFailed, locks)
      else if \<not> open_ok then (LockFailed, locks)
      else case locks lock of
        Some q \<Rightarrow> (WouldBlock, locks)
      | None \<Rightarrow> (Acquired, locks(lock \<mapsto> p)))"

subsection \<open>The stages of \<open>serve\<close>\<close>

datatype stage =
    Acquiring
  | Opening
  | Clearing
  | Binding
  | Serving
  | Draining
  | Aborting
  | Removing
  | Returned "string + unit"
  | Exited

text \<open>\<open>p_tasks\<close> is the join set: the connections accepted and not joined; \<open>p_running\<close> those not finished.\<close>

record process =
  p_socket :: bytes
  p_stage :: stage
  p_tasks :: "nat set"
  p_running :: "nat set"

record system =
  s_procs :: "nat \<Rightarrow> process option"
  s_locks :: "bytes \<Rightarrow> nat option"
  s_socks :: "bytes \<Rightarrow> nat option"

datatype event =
    TryLock bool bool
  | SocketDir bool
  | RemoveStale bool
  | Bind bool
  | AcceptOk nat
  | AcceptFails
  | ConnEnds nat
  | Shutdown
  | AllJoined
  | DrainTimeout
  | AbortAll
  | RemoveSocket bool
  | Exit
  | Killed

fun lock_held :: "stage \<Rightarrow> bool" where
  "lock_held Acquiring = False"
| "lock_held (Returned r) = False"
| "lock_held Exited = False"
| "lock_held st = True"

fun socket_bound :: "stage \<Rightarrow> bool" where
  "socket_bound Serving = True"
| "socket_bound Draining = True"
| "socket_bound Aborting = True"
| "socket_bound Removing = True"
| "socket_bound st = False"

definition goto :: "stage \<Rightarrow> process \<Rightarrow> process" where
  "goto st pr = pr\<lparr>p_stage := st\<rparr>"

text \<open>\<open>serve\<close> returns: its locals are dropped, the lock with them. The join set aborts its tasks.\<close>

definition leave :: "stage \<Rightarrow> process \<Rightarrow> system \<Rightarrow> process \<times> system" where
  "leave st pr s = (pr\<lparr>p_stage := st, p_tasks := {}, p_running := {}\<rparr>,
     if lock_held (p_stage pr) then s\<lparr>s_locks := (s_locks s)(lock_path (p_socket pr) := None)\<rparr> else s)"

definition unlink_socket :: "bool \<Rightarrow> bytes \<Rightarrow> system \<Rightarrow> system" where
  "unlink_socket ok sock s = (if ok then s\<lparr>s_socks := (s_socks s)(sock := None)\<rparr> else s)"

type_synonym transition = "(process \<times> system) option"

definition lock_step :: "nat \<Rightarrow> event \<Rightarrow> process \<Rightarrow> system \<Rightarrow> transition" where
  "lock_step p ev pr s = (case ev of
     TryLock mkdir_ok open_ok \<Rightarrow>
       (case acquire (lock_path (p_socket pr)) mkdir_ok open_ok p (s_locks s) of
          (Acquired, locks) \<Rightarrow> Some (goto Opening pr, s\<lparr>s_locks := locks\<rparr>)
        | (WouldBlock, locks) \<Rightarrow> Some (leave (Returned (Inl ''deepfindd already running (singleton lock held)'')) pr s)
        | (LockFailed, locks) \<Rightarrow> Some (leave (Returned (Inl ''lock'')) pr s))
   | _ \<Rightarrow> None)"

text \<open>The databases are opened and the threads started before the socket is made.\<close>

definition open_step :: "event \<Rightarrow> process \<Rightarrow> system \<Rightarrow> transition" where
  "open_step ev pr s = (case ev of
     SocketDir ok \<Rightarrow> Some (if ok then (goto Clearing pr, s) else leave (Returned (Inl ''create_dir_all'')) pr s)
   | _ \<Rightarrow> None)"

definition clear_step :: "event \<Rightarrow> process \<Rightarrow> system \<Rightarrow> transition" where
  "clear_step ev pr s = (case ev of
     RemoveStale ok \<Rightarrow> Some (goto Binding pr, unlink_socket ok (p_socket pr) s) | _ \<Rightarrow> None)"

definition bind_step :: "nat \<Rightarrow> event \<Rightarrow> process \<Rightarrow> system \<Rightarrow> transition" where
  "bind_step p ev pr s = (case ev of
     Bind ok \<Rightarrow> Some (if ok \<and> s_socks s (p_socket pr) = None
       then (goto Serving pr, s\<lparr>s_socks := (s_socks s)(p_socket pr \<mapsto> p)\<rparr>)
       else leave (Returned (Inl ''bind'')) pr s)
   | _ \<Rightarrow> None)"

definition end_task :: "nat \<Rightarrow> process \<Rightarrow> process" where
  "end_task c pr = pr\<lparr>p_running := p_running pr - {c}\<rparr>"

text \<open>A connection that ends stays in the join set: nothing joins it while the loop runs.\<close>

definition accept_step :: "event \<Rightarrow> process \<Rightarrow> system \<Rightarrow> transition" where
  "accept_step ev pr s = (case ev of
     AcceptOk c \<Rightarrow> if c \<in> p_tasks pr then None
       else Some (pr\<lparr>p_tasks := insert c (p_tasks pr), p_running := insert c (p_running pr)\<rparr>, s)
   | AcceptFails \<Rightarrow> Some (pr, s)
   | ConnEnds c \<Rightarrow> if c \<in> p_running pr then Some (end_task c pr, s) else None
   | Shutdown \<Rightarrow> Some (goto Draining pr, s)
   | _ \<Rightarrow> None)"

definition drain_step :: "event \<Rightarrow> process \<Rightarrow> system \<Rightarrow> transition" where
  "drain_step ev pr s = (case ev of
     ConnEnds c \<Rightarrow> if c \<in> p_running pr then Some (end_task c pr, s) else None
   | AllJoined \<Rightarrow> if p_running pr = {} then Some (goto Aborting (pr\<lparr>p_tasks := {}\<rparr>), s) else None
   | DrainTimeout \<Rightarrow> Some (goto Aborting pr, s)
   | _ \<Rightarrow> None)"

definition abort_step :: "event \<Rightarrow> process \<Rightarrow> system \<Rightarrow> transition" where
  "abort_step ev pr s = (case ev of
     AbortAll \<Rightarrow> Some (goto Removing (pr\<lparr>p_tasks := {}, p_running := {}\<rparr>), s) | _ \<Rightarrow> None)"

definition remove_step :: "event \<Rightarrow> process \<Rightarrow> system \<Rightarrow> transition" where
  "remove_step ev pr s = (case ev of
     RemoveSocket ok \<Rightarrow> Some (leave (Returned (Inr ())) pr (unlink_socket ok (p_socket pr) s)) | _ \<Rightarrow> None)"

definition serve_step :: "nat \<Rightarrow> event \<Rightarrow> process \<Rightarrow> system \<Rightarrow> transition" where
  "serve_step p ev pr s = (case p_stage pr of
     Acquiring \<Rightarrow> lock_step p ev pr s
   | Opening \<Rightarrow> open_step ev pr s
   | Clearing \<Rightarrow> clear_step ev pr s
   | Binding \<Rightarrow> bind_step p ev pr s
   | Serving \<Rightarrow> accept_step ev pr s
   | Draining \<Rightarrow> drain_step ev pr s
   | Aborting \<Rightarrow> abort_step ev pr s
   | Removing \<Rightarrow> remove_step ev pr s
   | Returned r \<Rightarrow> if ev = Exit then Some (goto Exited pr, s) else None
   | Exited \<Rightarrow> None)"

text \<open>A process can be killed at every stage.\<close>

definition process_step :: "nat \<Rightarrow> event \<Rightarrow> system \<Rightarrow> system option" where
  "process_step p ev s = (case s_procs s p of
     None \<Rightarrow> None
   | Some pr \<Rightarrow> map_option (\<lambda>(pr', s'). s'\<lparr>s_procs := (s_procs s')(p \<mapsto> pr')\<rparr>)
       (if ev = Killed then (if p_stage pr = Exited then None else Some (leave Exited pr s)) else serve_step p ev pr s))"

definition launch :: "nat \<Rightarrow> bytes \<Rightarrow> system \<Rightarrow> system" where
  "launch p sock s = s\<lparr>s_procs := (s_procs s)(p \<mapsto>
     \<lparr>p_socket = sock, p_stage = Acquiring, p_tasks = {}, p_running = {}\<rparr>)\<rparr>"

fun run_events :: "(nat \<times> event) list \<Rightarrow> system \<Rightarrow> system option" where
  "run_events [] s = Some s"
| "run_events ((p, ev) # evs) s = Option.bind (process_step p ev s) (run_events evs)"

text \<open>Any interleaving, from a directory in which a socket file may have been left behind.\<close>

inductive reachable :: "system \<Rightarrow> bool" where
  initially: "reachable \<lparr>s_procs = (\<lambda>p. None), s_locks = (\<lambda>l. None), s_socks = left_over\<rparr>"
| launched: "reachable s \<Longrightarrow> s_procs s p = None \<Longrightarrow> reachable (launch p sock s)"
| stepped: "reachable s \<Longrightarrow> process_step p ev s = Some s' \<Longrightarrow> reachable s'"

text \<open>What can happen next in the directory: a process is started, or one takes a step.\<close>

datatype happening = Started bytes | Took event

fun happens :: "nat \<times> happening \<Rightarrow> system \<Rightarrow> system option" where
  "happens (p, Started sock) s = (if s_procs s p = None then Some (launch p sock s) else None)"
| "happens (p, Took ev) s = process_step p ev s"

fun run_world :: "(nat \<times> happening) list \<Rightarrow> system \<Rightarrow> system option" where
  "run_world [] s = Some s"
| "run_world (h # hs) s = Option.bind (happens h s) (run_world hs)"

text \<open>What a client that connects gets: the process that listens, or the error of the system.\<close>

definition connect_to :: "bytes \<Rightarrow> system \<Rightarrow> str + nat" where
  "connect_to sock s = (case s_socks s sock of
     None \<Rightarrow> Inl (lit ''No such file or directory (os error 2)'')
   | Some p \<Rightarrow> if (\<exists>pr. s_procs s p = Some pr \<and> p_stage pr = Serving \<and> p_socket pr = sock) then Inr p
       else Inl (lit ''Connection refused (os error 61)''))"

subsection \<open>The invariant\<close>

text \<open>
  A lock file is locked by exactly the process whose stage holds the lock; a socket that a process has
  bound is its own; running connections are in the join set, which is empty unless connections are
  accepted or drained.
\<close>

definition process_ok :: "system \<Rightarrow> nat \<Rightarrow> process \<Rightarrow> bool" where
  "process_ok s p pr \<longleftrightarrow>
     (lock_held (p_stage pr) \<longrightarrow> s_locks s (lock_path (p_socket pr)) = Some p) \<and>
     (socket_bound (p_stage pr) \<longrightarrow> s_socks s (p_socket pr) = Some p) \<and>
     p_running pr \<subseteq> p_tasks pr \<and> finite (p_tasks pr) \<and> (p_tasks pr \<noteq> {} \<longrightarrow> p_stage pr \<in> {Serving, Draining, Aborting})"

definition system_ok :: "system \<Rightarrow> bool" where
  "system_ok s \<longleftrightarrow> (\<forall>p pr. s_procs s p = Some pr \<longrightarrow> process_ok s p pr) \<and>
     (\<forall>l p. s_locks s l = Some p \<longrightarrow> (\<exists>pr. s_procs s p = Some pr \<and> lock_held (p_stage pr) \<and> lock_path (p_socket pr) = l))"

lemma socket_bound_held: "socket_bound st \<Longrightarrow> lock_held st"
  by (cases st) auto

lemma system_ok_step:
  assumes "system_ok s" "s_procs s p = Some pr" "p_socket pr' = p_socket pr"
    and "s_procs s' = (s_procs s)(p \<mapsto> pr')"
    and "s_locks s' = (if lock_held (p_stage pr') then (s_locks s)(lock_path (p_socket pr) \<mapsto> p)
      else if lock_held (p_stage pr) then (s_locks s)(lock_path (p_socket pr) := None) else s_locks s)"
    and "lock_held (p_stage pr') \<Longrightarrow> \<not> lock_held (p_stage pr) \<Longrightarrow> s_locks s (lock_path (p_socket pr)) = None"
    and "\<And>q. q \<noteq> p_socket pr \<Longrightarrow> s_socks s' q = s_socks s q"
    and "s_socks s' (p_socket pr) \<noteq> s_socks s (p_socket pr) \<Longrightarrow> lock_held (p_stage pr)"
    and "process_ok s' p pr'"
  shows "system_ok s'"
proof -
  have own: "q = p" if "s_procs s q = Some r" "lock_held (p_stage r)" "lock_held (p_stage pr)"
      "lock_path (p_socket r) = lock_path (p_socket pr)" for q r
  proof -
    have "s_locks s (lock_path (p_socket r)) = Some q" "s_locks s (lock_path (p_socket pr)) = Some p"
      using assms(1,2) that(1-3) unfolding system_ok_def process_ok_def by blast+
    then show ?thesis using that(4) by simp
  qed
  have "process_ok s' q r" if q: "s_procs s' q = Some r" for q r
  proof (cases "q = p")
    case False
    then have r: "s_procs s q = Some r" "process_ok s q r" using q assms(1,4) by (auto simp: system_ok_def)
    have "s_locks s' (lock_path (p_socket r)) = Some q" if h: "lock_held (p_stage r)"
    proof -
      have l: "s_locks s (lock_path (p_socket r)) = Some q" using r(2) h by (simp add: process_ok_def)
      then have "lock_path (p_socket r) \<noteq> lock_path (p_socket pr) \<or> (\<not> lock_held (p_stage pr') \<and> \<not> lock_held (p_stage pr))"
        using own [OF r(1) h] False assms(6) by (metis option.distinct(1))
      then show ?thesis using l assms(5) by auto
    qed
    moreover have "s_socks s' (p_socket r) = Some q" if b: "socket_bound (p_stage r)"
    proof -
      have "s_socks s (p_socket r) = Some q" using r(2) b by (simp add: process_ok_def)
      moreover have "s_socks s' (p_socket r) = s_socks s (p_socket r)"
        using own [OF r(1) socket_bound_held [OF b]] False assms(7) [of "p_socket r"] assms(8) by metis
      ultimately show ?thesis by simp
    qed
    ultimately show ?thesis using r(2) by (simp add: process_ok_def)
  qed (use q assms(4,9) in simp)
  moreover have "\<exists>r. s_procs s' q = Some r \<and> lock_held (p_stage r) \<and> lock_path (p_socket r) = l"
    if "s_locks s' l = Some q" for l q
  proof (cases "l = lock_path (p_socket pr) \<and> (lock_held (p_stage pr') \<or> lock_held (p_stage pr))")
    case True
    then have "q = p \<and> lock_held (p_stage pr')" using that assms(5) by (auto split: if_splits)
    then show ?thesis using True assms(3,4) by simp
  next
    case False
    then have "s_locks s l = Some q" using that assms(5) by (auto split: if_splits)
    then obtain r where r: "s_procs s q = Some r" "lock_held (p_stage r)" "lock_path (p_socket r) = l"
      using assms(1) unfolding system_ok_def by blast
    then have "q \<noteq> p" using False assms(2) by auto
    then show ?thesis using r assms(4) by simp
  qed
  ultimately show ?thesis unfolding system_ok_def by blast
qed

lemma leave_simps [simp]:
  "p_stage (fst (leave st pr s)) = st" "p_socket (fst (leave st pr s)) = p_socket pr"
  "p_tasks (fst (leave st pr s)) = {}" "p_running (fst (leave st pr s)) = {}"
  "s_procs (snd (leave st pr s)) = s_procs s" "s_socks (snd (leave st pr s)) = s_socks s"
  "s_locks (snd (leave st pr s)) = (if lock_held (p_stage pr) then (s_locks s)(lock_path (p_socket pr) := None) else s_locks s)"
  by (simp_all add: leave_def)

lemma goto_simps [simp]:
  "p_stage (goto st pr) = st" "p_socket (goto st pr) = p_socket pr" "p_tasks (goto st pr) = p_tasks pr"
  "p_running (goto st pr) = p_running pr"
  by (simp_all add: goto_def)

lemma unlink_simps [simp]:
  "s_procs (unlink_socket ok sock s) = s_procs s" "s_locks (unlink_socket ok sock s) = s_locks s"
  "s_socks (unlink_socket ok sock s) = (if ok then (s_socks s)(sock := None) else s_socks s)"
  by (simp_all add: unlink_socket_def)

lemmas stage_steps = lock_step_def open_step_def clear_step_def bind_step_def accept_step_def drain_step_def
  abort_step_def remove_step_def

text \<open>What a step does to the shared files, and to the process that takes it.\<close>

lemma serve_step_shape:
  assumes "serve_step p ev pr s = Some (pr', s')" "process_ok s p pr"
  shows "p_socket pr' = p_socket pr \<and> s_procs s' = s_procs s \<and>
    s_locks s' = (if lock_held (p_stage pr') then (s_locks s)(lock_path (p_socket pr) \<mapsto> p)
      else if lock_held (p_stage pr) then (s_locks s)(lock_path (p_socket pr) := None) else s_locks s) \<and>
    (lock_held (p_stage pr') \<longrightarrow> \<not> lock_held (p_stage pr) \<longrightarrow> s_locks s (lock_path (p_socket pr)) = None) \<and>
    (\<forall>q. q \<noteq> p_socket pr \<longrightarrow> s_socks s' q = s_socks s q) \<and>
    (s_socks s' (p_socket pr) \<noteq> s_socks s (p_socket pr) \<longrightarrow> lock_held (p_stage pr)) \<and> process_ok s' p pr'"
  using assms
  by (cases "p_stage pr"; cases ev)
    (auto simp: serve_step_def stage_steps process_ok_def acquire_def end_task_def leave_def
      split: if_splits option.splits)

lemma process_step_ok:
  assumes "system_ok s" "process_step p ev s = Some s'"
  shows "system_ok s'"
proof -
  obtain pr where pr: "s_procs s p = Some pr" using assms(2) by (auto simp: process_step_def split: option.splits)
  have ok: "process_ok s p pr" using assms(1) pr by (simp add: system_ok_def)
  obtain pr' t where t: "(if ev = Killed then (if p_stage pr = Exited then None else Some (leave Exited pr s)) else serve_step p ev pr s) = Some (pr', t)"
    and s': "s' = t\<lparr>s_procs := (s_procs t)(p \<mapsto> pr')\<rparr>"
    using assms(2) pr by (auto simp: process_step_def)
  have sh: "p_socket pr' = p_socket pr \<and> s_procs t = s_procs s \<and>
    s_locks t = (if lock_held (p_stage pr') then (s_locks s)(lock_path (p_socket pr) \<mapsto> p)
      else if lock_held (p_stage pr) then (s_locks s)(lock_path (p_socket pr) := None) else s_locks s) \<and>
    (lock_held (p_stage pr') \<longrightarrow> \<not> lock_held (p_stage pr) \<longrightarrow> s_locks s (lock_path (p_socket pr)) = None) \<and>
    (\<forall>q. q \<noteq> p_socket pr \<longrightarrow> s_socks t q = s_socks s q) \<and>
    (s_socks t (p_socket pr) \<noteq> s_socks s (p_socket pr) \<longrightarrow> lock_held (p_stage pr)) \<and> process_ok t p pr'"
  proof (cases "ev = Killed")
    case True
    then have "(pr', t) = leave Exited pr s" using t by (simp split: if_splits)
    then have "pr' = fst (leave Exited pr s)" "t = snd (leave Exited pr s)" by (metis fst_conv, metis snd_conv)
    then show ?thesis by (simp add: process_ok_def)
  next
    case False
    then show ?thesis using serve_step_shape [OF _ ok] t by simp
  qed
  show ?thesis
    by (rule system_ok_step [OF assms(1) pr, of pr']) (use sh in \<open>auto simp: s' process_ok_def\<close>)
qed

lemma reachable_ok: "reachable s \<Longrightarrow> system_ok s"
proof (induction rule: reachable.induct)
  case (launched s p sock)
  then have "s_locks s l \<noteq> Some p" for l unfolding system_ok_def by (metis option.distinct(1))
  with launched show ?case by (auto simp: system_ok_def launch_def process_ok_def)
qed (auto simp: process_step_ok, simp add: system_ok_def)

lemma run_events_reachable: "reachable s \<Longrightarrow> run_events evs s = Some s' \<Longrightarrow> reachable s'"
proof (induction evs s rule: run_events.induct)
  case (2 p ev evs s)
  then show ?case using stepped by (auto simp: bind_eq_Some_conv)
qed simp

lemma run_events_append: "run_events (xs @ ys) s = Option.bind (run_events xs s) (run_events ys)"
  by (induction xs s rule: run_events.induct) (auto split: bind_split)

lemmas run_simps = process_step_def serve_step_def stage_steps acquire_def launch_def goto_def leave_def
  unlink_socket_def end_task_def

subsection \<open>Stopping\<close>

definition stopping :: "stage \<Rightarrow> bool" where
  "stopping st \<longleftrightarrow> st \<in> {Draining, Aborting, Removing, Returned (Inr ()), Exited}"

text \<open>How many steps a process that stops can still take.\<close>

definition steps_left :: "process \<Rightarrow> nat" where
  "steps_left pr = (case p_stage pr of Draining \<Rightarrow> card (p_running pr) + 4 | Aborting \<Rightarrow> 3 | Removing \<Rightarrow> 2 | Returned r \<Rightarrow> 1 | _ \<Rightarrow> 0)"

fun own_steps :: "nat \<Rightarrow> (nat \<times> happening) list \<Rightarrow> nat" where
  "own_steps p [] = 0"
| "own_steps p ((q, h) # hs) = (if q = p then 1 else 0) + own_steps p hs"

definition stops :: "nat \<Rightarrow> process \<Rightarrow> nat \<Rightarrow> bool \<Rightarrow> system \<Rightarrow> bool" where
  "stops p pr n removed s \<longleftrightarrow> (\<exists>a. s_procs s p = Some a \<and> stopping (p_stage a) \<and> p_tasks a \<subseteq> p_tasks pr \<and>
     p_socket a = p_socket pr \<and> steps_left a \<le> n \<and>
     (p_stage a = Returned (Inr ()) \<longrightarrow> removed \<longrightarrow> s_socks s (p_socket pr) \<noteq> Some p))"

lemma own_step_stops:
  assumes "process_step p ev s = Some s'" "stops p pr n removed s" "system_ok s"
  shows "0 < n \<and> stops p pr (n - 1) (removed \<and> ev \<noteq> RemoveSocket False) s'"
proof -
  obtain a where a: "s_procs s p = Some a" "stopping (p_stage a)" "p_tasks a \<subseteq> p_tasks pr" "p_socket a = p_socket pr"
    "steps_left a \<le> n" "p_stage a = Returned (Inr ()) \<longrightarrow> removed \<longrightarrow> s_socks s (p_socket pr) \<noteq> Some p"
    using assms(2) by (auto simp: stops_def)
  have "process_ok s p a" using assms(3) a(1) by (simp add: system_ok_def)
  then have fin: "finite (p_running a)" by (auto simp: process_ok_def intro: finite_subset)
  have card: "c \<in> p_running a \<Longrightarrow> Suc (card (p_running a - {c})) = card (p_running a)" for c
    using fin by (rule card_Suc_Diff1)
  consider "ev = Killed" "p_stage a \<noteq> Exited" | "ev \<noteq> Killed" "p_stage a = Draining" | "ev \<noteq> Killed" "p_stage a = Aborting"
    | "ev \<noteq> Killed" "p_stage a = Removing" | "ev \<noteq> Killed" "p_stage a = Returned (Inr ())"
    using assms(1) a(1,2) by (cases "p_stage a") (auto simp: stopping_def process_step_def serve_step_def split: if_splits)
  then show ?thesis
  proof cases
    case 1
    let ?a = "fst (leave Exited a s)"
    have "s' = (snd (leave Exited a s))\<lparr>s_procs := (s_procs s)(p \<mapsto> ?a)\<rparr>"
      using assms(1) 1 a(1) by (simp add: process_step_def split_beta)
    then have "stops p pr (n - 1) (removed \<and> ev \<noteq> RemoveSocket False) s'"
      unfolding stops_def using a(3,4) by (intro exI [of _ ?a]) (simp add: stopping_def steps_left_def)
    moreover have "0 < n" using a(2,5) 1(2) by (auto simp: stopping_def steps_left_def)
    ultimately show ?thesis by simp
  next
    case 2
    have "steps_left a = card (p_running a) + 4" using 2 by (simp add: steps_left_def)
    then show ?thesis using assms(1) a 2 card
      by (cases ev) (simp_all add: process_step_def serve_step_def drain_step_def stops_def stopping_def steps_left_def end_task_def
          card_gt_0_iff split: if_splits, fastforce+)
  next
    case 3
    then show ?thesis using assms(1) a
      by (cases ev) (auto simp: process_step_def serve_step_def abort_step_def stops_def stopping_def steps_left_def)
  next
    case 4
    then show ?thesis using assms(1) a
      by (cases ev) (auto simp: process_step_def serve_step_def remove_step_def stops_def stopping_def steps_left_def leave_def)
  next
    case 5
    then show ?thesis using assms(1) a
      by (cases ev) (auto simp: process_step_def serve_step_def stops_def stopping_def steps_left_def split: if_splits)
  qed
qed

text \<open>Nobody else gives a process its socket back.\<close>

lemma other_step:
  assumes "process_step q ev s = Some s'" "q \<noteq> p"
  shows "s_procs s' p = s_procs s p \<and> (s_socks s sock \<noteq> Some p \<longrightarrow> s_socks s' sock \<noteq> Some p)"
proof -
  obtain a where a: "s_procs s q = Some a" using assms(1) by (auto simp: process_step_def split: option.splits)
  show ?thesis using assms a
    by (cases "p_stage a"; cases ev)
      (auto simp: process_step_def serve_step_def stage_steps acquire_def leave_def goto_def unlink_socket_def end_task_def
        split: if_splits option.splits)
qed

lemma other_step_stops:
  "process_step q ev s = Some s' \<Longrightarrow> q \<noteq> p \<Longrightarrow> stops p pr n removed s \<Longrightarrow> stops p pr n removed s'"
  using other_step [of q ev s s' p "p_socket pr"] unfolding stops_def by metis

lemma started_stops:
  "s_procs s q = None \<Longrightarrow> stops p pr n removed s \<Longrightarrow> q \<noteq> p \<and> stops p pr n removed (launch q sock s)"
  by (auto simp: stops_def launch_def)

lemma stops_mono: "stops p pr n removed s \<Longrightarrow> (removed' \<Longrightarrow> removed) \<Longrightarrow> stops p pr n removed' s"
  unfolding stops_def by blast

lemma run_world_stops:
  assumes "run_world hs s = Some s'" "reachable s" "stops p pr n removed s"
  shows "reachable s' \<and> own_steps p hs \<le> n \<and> stops p pr (n - own_steps p hs) (removed \<and> (p, Took (RemoveSocket False)) \<notin> set hs) s'"
  using assms
proof (induction hs arbitrary: s n removed)
  case (Cons h hs)
  obtain q e where h: "h = (q, e)" by (cases h)
  obtain s1 where s1: "happens h s = Some s1" "run_world hs s1 = Some s'" using Cons.prems(1) by (auto simp: bind_eq_Some_conv)
  show ?case
  proof (cases e)
    case (Started sock)
    then have l: "s_procs s q = None" "s1 = launch q sock s" using s1(1) by (simp_all add: h split: if_splits)
    from started_stops [OF l(1) Cons.prems(3)] have "q \<noteq> p" "stops p pr n removed s1" by (simp_all add: l(2))
    then show ?thesis using Cons.IH [OF s1(2) launched [OF Cons.prems(2) l(1), of sock, folded l(2)]] by (simp add: h Started)
  next
    case (Took ev)
    then have st: "process_step q ev s = Some s1" using s1(1) by (simp add: h)
    have r: "reachable s1" by (rule stepped [OF Cons.prems(2) st])
    show ?thesis
    proof (cases "q = p")
      case True
      from own_step_stops [OF st[unfolded True] Cons.prems(3) reachable_ok [OF Cons.prems(2)]]
      have "0 < n" "stops p pr (n - 1) (removed \<and> ev \<noteq> RemoveSocket False) s1" by simp_all
      from Cons.IH [OF s1(2) r this(2)] \<open>0 < n\<close> show ?thesis
        by (auto simp: h Took True elim!: stops_mono)
    next
      case False
      then show ?thesis using Cons.IH [OF s1(2) r other_step_stops [OF st False Cons.prems(3)]] by (simp add: h Took)
    qed
  qed
qed simp

lemma stopping_goes_on:
  assumes "s_procs s p = Some pr" "p_stage pr \<in> {Draining, Aborting, Removing}"
  shows "\<exists>ev\<in>{DrainTimeout, AbortAll, RemoveSocket True}. process_step p ev s \<noteq> None"
  using assms by (auto simp: process_step_def serve_step_def drain_step_def abort_step_def remove_step_def)

lemma returned_has_nothing:
  assumes "reachable s" "s_procs s p = Some pr" "\<not> lock_held (p_stage pr)"
  shows "p_running pr = {} \<and> s_locks s l \<noteq> Some p"
  using reachable_ok [OF assms(1)] assms(2,3) unfolding system_ok_def process_ok_def by fastforce

subsection \<open>Properties\<close>

text \<open>
  C13. One daemon at a time. Whatever processes start, end, fail or are killed, no two of them hold the
  lock of a socket directory; a client that connects reaches the one daemon that serves the socket;
  and when there is none, it gets an error that it takes for an unreachable daemon.
\<close>

theorem daemon_single:
  assumes "reachable s" and "s_procs s p = Some a" and "s_procs s q = Some b" and "lock_held (p_stage a)" and "lock_held (p_stage b)"
    and "lock_path (p_socket a) = lock_path (p_socket b)"
  shows "p = q \<and> (p_stage a = Serving \<longrightarrow> connect_to (p_socket a) s = Inr p) \<and>
    (\<forall>sock msg. connect_to sock s = Inl msg \<longrightarrow> is_daemon_unreachable msg)"
proof (intro conjI allI impI)
  have ok: "process_ok s p a" "process_ok s q b" using reachable_ok [OF assms(1)] assms(2,3) by (auto simp: system_ok_def)
  then have "s_locks s (lock_path (p_socket a)) = Some p" "s_locks s (lock_path (p_socket b)) = Some q"
    using assms(4,5) by (auto simp: process_ok_def)
  then show "p = q" using assms(6) by simp
  show "connect_to (p_socket a) s = Inr p" if "p_stage a = Serving"
    using ok(1) that assms(2) by (auto simp: connect_to_def process_ok_def)
  have "is_daemon_unreachable (lit ''No such file or directory (os error 2)'')"
    "is_daemon_unreachable (lit ''Connection refused (os error 61)'')" by code_simp+
  then show "is_daemon_unreachable msg" if "connect_to sock s = Inl msg" for sock msg
    using that by (auto simp: connect_to_def split: option.splits if_splits)
qed

text \<open>
  C29. A daemon can always be started again. From every reachable state in which no process holds the
  lock, a new process that runs undisturbed serves the socket, whatever socket file was left behind;
  if another process holds the lock, it reports so and changes nothing.
\<close>

theorem daemon_restarts:
  assumes "reachable s" and "s_procs s p = None"
  shows "if \<forall>q pr. s_procs s q = Some pr \<longrightarrow> lock_held (p_stage pr) \<longrightarrow> lock_path (p_socket pr) \<noteq> lock_path sock
    then \<exists>s'. run_events (map (Pair p) [TryLock True True, SocketDir True, RemoveStale True, Bind True]) (launch p sock s) = Some s' \<and>
      connect_to sock s' = Inr p
    else \<exists>s' pr. run_events [(p, TryLock True True)] (launch p sock s) = Some s' \<and> s_procs s' p = Some pr \<and>
      p_stage pr = Returned (Inl ''deepfindd already running (singleton lock held)'') \<and>
      s_locks s' = s_locks s \<and> s_socks s' = s_socks s"
proof -
  note ok = reachable_ok [OF assms(1)]
  have "s_locks s (lock_path sock) = None \<longleftrightarrow>
      (\<forall>q pr. s_procs s q = Some pr \<longrightarrow> lock_held (p_stage pr) \<longrightarrow> lock_path (p_socket pr) \<noteq> lock_path sock)"
    using ok unfolding system_ok_def process_ok_def by (metis not_Some_eq)
  then show ?thesis by (auto simp: run_simps connect_to_def)
qed

text \<open>
  C30. A daemon that is told to stop stops. It can always be told; and then, whatever its connections
  and the other processes do, what else is started, and in whatever order, it accepts no connection and
  never serves again; it takes at most four steps more than it has connections running; until it has
  returned one of its own steps can be taken, the time limit of the drain if no other; and when it has
  returned, it has done so without an error, with no connection running, its lock given back and,
  unless the removal failed, without its socket file.
\<close>

theorem shutdown_drains:
  assumes "reachable s" and "s_procs s p = Some pr" and "p_stage pr = Serving"
  shows "\<exists>s1. process_step p Shutdown s = Some s1 \<and> (\<forall>hs s2. run_world hs s1 = Some s2 \<longrightarrow>
    (\<exists>pr2. s_procs s2 p = Some pr2 \<and> p_tasks pr2 \<subseteq> p_tasks pr \<and>
      p_stage pr2 \<in> {Draining, Aborting, Removing, Returned (Inr ()), Exited} \<and>
      own_steps p hs \<le> card (p_running pr) + 4 \<and>
      (p_stage pr2 \<in> {Draining, Aborting, Removing} \<longrightarrow>
        (\<exists>ev\<in>{DrainTimeout, AbortAll, RemoveSocket True}. process_step p ev s2 \<noteq> None)) \<and>
      (p_stage pr2 = Returned (Inr ()) \<longrightarrow> p_running pr2 = {} \<and> s_locks s2 (lock_path (p_socket pr)) \<noteq> Some p \<and>
        ((p, Took (RemoveSocket False)) \<notin> set hs \<longrightarrow> s_socks s2 (p_socket pr) \<noteq> Some p))))"
proof -
  obtain s1 where s1: "process_step p Shutdown s = Some s1" "s_procs s1 p = Some (goto Draining pr)"
    using assms(2,3) by (simp add: process_step_def serve_step_def accept_step_def)
  have r1: "reachable s1" by (rule stepped [OF assms(1) s1(1)])
  have start: "stops p (goto Draining pr) (card (p_running pr) + 4) True s1" using s1(2) by (simp add: stops_def steps_left_def stopping_def)
  have "\<exists>pr2. s_procs s2 p = Some pr2 \<and> p_tasks pr2 \<subseteq> p_tasks pr \<and>
      p_stage pr2 \<in> {Draining, Aborting, Removing, Returned (Inr ()), Exited} \<and>
      own_steps p hs \<le> card (p_running pr) + 4 \<and>
      (p_stage pr2 \<in> {Draining, Aborting, Removing} \<longrightarrow>
        (\<exists>ev\<in>{DrainTimeout, AbortAll, RemoveSocket True}. process_step p ev s2 \<noteq> None)) \<and>
      (p_stage pr2 = Returned (Inr ()) \<longrightarrow> p_running pr2 = {} \<and> s_locks s2 (lock_path (p_socket pr)) \<noteq> Some p \<and>
        ((p, Took (RemoveSocket False)) \<notin> set hs \<longrightarrow> s_socks s2 (p_socket pr) \<noteq> Some p))"
    if "run_world hs s1 = Some s2" for hs s2
  proof -
    have r2: "reachable s2" and st: "own_steps p hs \<le> card (p_running pr) + 4"
      "stops p (goto Draining pr) (card (p_running pr) + 4 - own_steps p hs) ((p, Took (RemoveSocket False)) \<notin> set hs) s2"
      using run_world_stops [OF that r1 start] by auto
    then obtain pr2 where pr2: "s_procs s2 p = Some pr2" "stopping (p_stage pr2)" "p_tasks pr2 \<subseteq> p_tasks pr" "p_socket pr2 = p_socket pr"
      "p_stage pr2 = Returned (Inr ()) \<longrightarrow> (p, Took (RemoveSocket False)) \<notin> set hs \<longrightarrow> s_socks s2 (p_socket pr) \<noteq> Some p"
      by (auto simp: stops_def)
    have "p_running pr2 = {} \<and> s_locks s2 (lock_path (p_socket pr)) \<noteq> Some p" if "p_stage pr2 = Returned (Inr ())"
      using returned_has_nothing [OF r2 pr2(1)] that by simp
    then show ?thesis using pr2 st(1) stopping_goes_on [OF pr2(1)] by (auto simp: stopping_def)
  qed
  then show ?thesis using s1(1) by blast
qed

text \<open>
  The join set is not joined while the loop runs: it keeps an entry for every connection ever made.
\<close>

theorem join_set_grows:
  assumes "s_procs s p = Some pr" and "p_stage pr = Serving" and "p_running pr = {}" and "finite (p_tasks pr)"
  shows "\<exists>evs s' pr'. run_events (map (Pair p) evs) s = Some s' \<and> s_procs s' p = Some pr' \<and> p_stage pr' = Serving \<and>
    p_running pr' = {} \<and> finite (p_tasks pr') \<and> card (p_tasks pr') = card (p_tasks pr) + n"
proof (induction n)
  case 0
  show ?case by (rule exI [of _ "[]"]) (use assms in simp)
next
  case (Suc n)
  then obtain evs s' pr' where 1: "run_events (map (Pair p) evs) s = Some s'" "s_procs s' p = Some pr'" "p_stage pr' = Serving"
    "p_running pr' = {}" and fin: "finite (p_tasks pr')" and card: "card (p_tasks pr') = card (p_tasks pr) + n" by blast
  obtain c where c: "c \<notin> p_tasks pr'" using fin ex_new_if_finite infinite_UNIV_nat by blast
  show ?case
    by (rule exI [of _ "evs @ [AcceptOk c, ConnEnds c]"]) (use 1 c fin card in \<open>auto simp: run_events_append run_simps\<close>)
qed

text \<open>
  The lock is not held for the life of the process. \<open>serve\<close> gives it back when it returns; the
  threads that build and watch run until the process exits, and leaving \<open>main\<close> waits for the queries
  that were aborted. So a new daemon can serve while threads of the old one still write the index.
\<close>

definition threads_alive :: "stage \<Rightarrow> bool" where
  "threads_alive st \<longleftrightarrow> lock_held st \<or> st = Returned (Inr ())"

theorem returned_threads_overlap:
  "\<exists>s a b. reachable s \<and> s_procs s 0 = Some a \<and> s_procs s 1 = Some b \<and> p_socket a = sock \<and> p_socket b = sock \<and>
    threads_alive (p_stage a) \<and> threads_alive (p_stage b) \<and> p_stage b = Serving"
proof -
  define s0 where "s0 = launch 1 sock (launch 0 sock \<lparr>s_procs = (\<lambda>p. None), s_locks = (\<lambda>l. None), s_socks = (\<lambda>q. None)\<rparr>)"
  have r0: "reachable s0" unfolding s0_def by (intro launched initially) (simp_all add: launch_def)
  have "\<exists>s. run_events (map (Pair 0) [TryLock True True, SocketDir True, RemoveStale True, Bind True, AcceptOk 0, Shutdown,
      DrainTimeout, AbortAll, RemoveSocket True] @ map (Pair 1) [TryLock True True, SocketDir True, RemoveStale True, Bind True]) s0 = Some s \<and>
    (\<exists>a b. s_procs s 0 = Some a \<and> s_procs s 1 = Some b \<and> p_socket a = sock \<and> p_socket b = sock \<and>
      p_stage a = Returned (Inr ()) \<and> p_stage b = Serving)"
    by (simp add: s0_def run_simps)
  then show ?thesis using run_events_reachable [OF r0] by (fastforce simp: threads_alive_def)
qed

subsection \<open>Witnesses\<close>

definition quiet :: system where
  "quiet = \<lparr>s_procs = (\<lambda>p. None), s_locks = (\<lambda>l. None), s_socks = (\<lambda>q. Some 7)\<rparr>"

lemma quiet_reachable: "reachable quiet"
  unfolding quiet_def by (rule initially)

text \<open>A daemon started over the socket file of an earlier one.\<close>

definition one_up :: system where
  "one_up = the (run_events (map (Pair 0) [TryLock True True, SocketDir True, RemoveStale True, Bind True, AcceptOk 3])
     (launch 0 (lit ''s'') quiet))"

lemma one_up_reachable: "reachable one_up"
proof -
  have "run_events (map (Pair 0) [TryLock True True, SocketDir True, RemoveStale True, Bind True, AcceptOk 3])
      (launch 0 (lit ''s'') quiet) = Some one_up"
    unfolding one_up_def by (simp add: quiet_def run_simps)
  then show ?thesis
    by (rule run_events_reachable [rotated]) (rule launched [OF quiet_reachable], simp add: quiet_def)
qed

lemma one_up_proc: "s_procs one_up 0 = Some \<lparr>p_socket = lit ''s'', p_stage = Serving, p_tasks = {3}, p_running = {3}\<rparr>"
  unfolding one_up_def by (simp add: quiet_def run_simps)

lemma one_up_next: "s_procs one_up (Suc 0) = None"
  unfolding one_up_def by (simp add: quiet_def run_simps)

theorem daemon_single_witness: "connect_to (lit ''s'') one_up = Inr 0"
  using daemon_single [OF one_up_reachable one_up_proc one_up_proc] by simp

theorem daemon_restarts_witness:
  "\<exists>s'. run_events (map (Pair 1) [TryLock True True, SocketDir True, RemoveStale True, Bind True]) (launch 1 (lit ''s'') quiet) = Some s' \<and>
    connect_to (lit ''s'') s' = Inr 1"
  using daemon_restarts [OF quiet_reachable, of 1 "lit ''s''"] by (simp add: quiet_def)

theorem shutdown_drains_witness:
  "\<exists>s1 s2 pr2. process_step 0 Shutdown one_up = Some s1 \<and>
    run_world [(0, Took (ConnEnds 3)), (1, Started (lit ''s'')), (0, Took AllJoined), (0, Took AbortAll), (0, Took (RemoveSocket True))] s1 = Some s2 \<and>
    s_procs s2 0 = Some pr2 \<and> p_tasks pr2 \<subseteq> {3} \<and> s_locks s2 (lock_path (lit ''s'')) \<noteq> Some 0"
proof -
  let ?hs = "[(0, Took (ConnEnds 3)), (1, Started (lit ''s'')), (0, Took AllJoined), (0, Took AbortAll), (0, Took (RemoveSocket True))]"
  have "p_stage \<lparr>p_socket = lit ''s'', p_stage = Serving, p_tasks = {3}, p_running = {3}\<rparr> = Serving" by simp
  from shutdown_drains [OF one_up_reachable one_up_proc this] show ?thesis unfolding process.select_convs
  proof (elim exE conjE, goal_cases)
    case (1 s1)
    have "s1 = one_up\<lparr>s_procs := (s_procs one_up)(0 \<mapsto> \<lparr>p_socket = lit ''s'', p_stage = Draining, p_tasks = {3}, p_running = {3}\<rparr>)\<rparr>"
      using 1(1) by (simp add: process_step_def one_up_proc serve_step_def accept_step_def goto_def)
    then have "\<exists>s2 pr2. run_world ?hs s1 = Some s2 \<and> s_procs s2 0 = Some pr2 \<and> p_stage pr2 = Returned (Inr ())"
      by (simp add: run_simps one_up_next)
    then obtain s2 pr2 where r: "run_world ?hs s1 = Some s2" "s_procs s2 0 = Some pr2" "p_stage pr2 = Returned (Inr ())" by blast
    from 1(2) [rule_format, OF r(1)] r(2,3) have "p_tasks pr2 \<subseteq> {3}" "s_locks s2 (lock_path (lit ''s'')) \<noteq> Some 0" by simp_all
    then show ?case using 1(1) r(1,2) by blast
  qed
qed

theorem join_set_grows_witness:
  "\<exists>evs s' pr'. run_events (map (Pair 0) (ConnEnds 3 # evs)) one_up = Some s' \<and> s_procs s' 0 = Some pr' \<and> card (p_tasks pr') = 101"
proof -
  let ?s = "one_up\<lparr>s_procs := (s_procs one_up)(0 \<mapsto> \<lparr>p_socket = lit ''s'', p_stage = Serving, p_tasks = {3}, p_running = {}\<rparr>)\<rparr>"
  have "process_step 0 (ConnEnds 3) one_up = Some ?s"
    unfolding process_step_def by (simp add: one_up_proc serve_step_def accept_step_def end_task_def)
  then show ?thesis using join_set_grows [of ?s 0 "\<lparr>p_socket = lit ''s'', p_stage = Serving, p_tasks = {3}, p_running = {}\<rparr>" 100] by auto
qed

end
