(* ===== verification/Commands.thy ===== *)
theory Commands
  imports Client Interrupted Live
begin

section \<open>The other commands of the client (crates/deepfind/src/main.rs, launchd.rs)\<close>

text \<open>
  What \<open>db\<close>, \<open>config\<close>, \<open>install\<close>, \<open>uninstall\<close>, \<open>status\<close> and \<open>doctor\<close> do to the files, what they print
  and their exit status. The files are the disk of the builds; what else the system answers are
  arguments. \<open>println\<close> and \<open>eprintln\<close> are the lines of two streams.
\<close>

datatype printed = Stdout str | Stderr str

type_synonym ended = "disk \<times> printed list \<times> nat"

fun show_index :: "index_error \<Rightarrow> str" where
  "show_index (IndexIoError e) = lit ''index io error: '' @ lit e"
| "show_index (IndexOther e) = lit ''index error: '' @ lit e"

definition show_path :: "bytes \<Rightarrow> str" where
  "show_path p = from_utf8_lossy p"

abbreviation disk_files :: "disk \<Rightarrow> files" where
  "disk_files d \<equiv> \<lambda>p. reads d (components p)"

definition in_quotes :: "str \<Rightarrow> str" where
  "in_quotes s = lit [CHR 0x27] @ s @ lit [CHR 0x27]"

definition right_arrow :: str where "right_arrow = [0xE2, 0x86, 0x92]"
definition em_dash :: str where "em_dash = [0xE2, 0x80, 0x94]"
definition ellipsis :: str where "ellipsis = [0xE2, 0x80, 0xA6]"

subsection \<open>\<open>deepfind db\<close>\<close>

definition db_dir :: "bytes \<Rightarrow> str \<Rightarrow> bytes" where
  "db_dir data name = path_join (path_join data (lit ''db'')) name"

definition db_record_of :: "bytes \<Rightarrow> str \<Rightarrow> bytes \<Rightarrow> db_record" where
  "db_record_of data name root = \<lparr>db_name = name, db_root = root,
     db_path = path_join (db_dir data name) (lit ''index.dfdb''), content_dir = path_join (db_dir data name) (lit ''content'')\<rparr>"

datatype db_action = DbAdd str bytes u64 | DbRemove str | DbList

text \<open>What a command takes from outside: the crates, the outcomes of the system calls, the clock. The tree
  of a root is what the walker visits, with or without hidden files, on one file system or on all.\<close>

record world =
  wo_zstd :: zstd
  wo_unicode :: unicode
  wo_gitignore :: gitignore_crate
  wo_schedule :: "(build_rec option \<times> tally) list \<Rightarrow> (build_rec option \<times> tally) list"
  wo_toml :: "db_record list text_format"
  wo_json :: "settings text_format"
  wo_succeeds :: "fs_op \<Rightarrow> bool"
  wo_partial :: nat
  wo_mkdir :: bool
  wo_now :: u64
  wo_doc_schedule :: "(doc_rec option \<times> u32) list \<Rightarrow> (doc_rec option \<times> u32) list"
  wo_tree :: "bytes \<Rightarrow> bool \<Rightarrow> bool \<Rightarrow> walk_tree"
  wo_survives :: "file_id \<Rightarrow> bool"

definition loaded_registry :: "world \<Rightarrow> bytes \<Rightarrow> disk \<Rightarrow> registry" where
  "loaded_registry W data d = registry_load (wo_toml W) (disk_files d) data"

definition save_registry :: "world \<Rightarrow> registry \<Rightarrow> disk \<Rightarrow> disk \<times> (index_error, unit) outcome" where
  "save_registry W reg d = (case registry_save (wo_toml W) (wo_succeeds W) (wo_partial W) reg d of (trace, r) \<Rightarrow> (last trace, r))"

definition unsaved_warning :: "(index_error, unit) outcome \<Rightarrow> printed list" where
  "unsaved_warning r = (case r of Err e \<Rightarrow> [Stderr (lit ''warning: could not save registry: '' @ show_index e)] | _ \<Rightarrow> [])"

definition add_options :: "world \<Rightarrow> bytes \<Rightarrow> u64 \<Rightarrow> disk \<Rightarrow> content_options" where
  "add_options W data mfs d = \<lparr>co_max_file_size = mfs, co_extra_skip = [], co_one_file_system = False, co_hidden = False,
     co_ignore_patterns = ignore_patterns (settings_load (wo_json W) (disk_files d) data)\<rparr>"

text \<open>The directory of the database is deleted with what is in it, apart from what cannot be.\<close>

definition remove_dir_all :: "(file_id \<Rightarrow> bool) \<Rightarrow> file_id \<Rightarrow> disk \<Rightarrow> disk" where
  "remove_dir_all survives dir d = d\<lparr>entries := (\<lambda>p. if prefix dir p \<and> \<not> survives p then None else entries d p)\<rparr>"

definition db_line :: "db_record \<Rightarrow> str" where
  "db_line r = db_name r @ [9] @ from_utf8_lossy (db_root r) @ [9] @ from_utf8_lossy (db_path r)"

definition db_add :: "world \<Rightarrow> bytes \<Rightarrow> str \<Rightarrow> bytes \<Rightarrow> u64 \<Rightarrow> disk \<Rightarrow> ended option" where
  "db_add W data name root mfs d =
     (let rec = db_record_of data name root in
      map_option (\<lambda>(d, r). case r of
          Ok r \<Rightarrow> (case save_registry W (registry_upsert rec (loaded_registry W data d)) d of (d, saved) \<Rightarrow>
            (d, unsaved_warning saved @ [Stdout (lit ''db '' @ in_quotes name @ lit '': '' @ lit (show_nat (unat (cr_filename_docs r))) @
              lit '' filename / '' @ lit (show_nat (unat (cr_content_docs r))) @ lit '' content docs -> '' @ show_path (db_path rec))], 0))
        | Err e \<Rightarrow> (d, [Stderr (lit ''db add failed: '' @ show_index e)], 1)
        | Panic \<Rightarrow> (d, [], 101))
      (build_content_index (wo_zstd W) (wo_unicode W) (wo_gitignore W) (wo_schedule W)
        (file_save (wo_succeeds W) (wo_partial W)) (wo_mkdir W) (wo_now W) root (wo_tree W root False False)
        (components (db_path rec)) (components (content_dir rec)) (add_options W data mfs d) d))"

definition db_remove :: "world \<Rightarrow> bytes \<Rightarrow> str \<Rightarrow> disk \<Rightarrow> ended" where
  "db_remove W data name d =
     (case registry_remove name (loaded_registry W data d) of (reg, removed) \<Rightarrow>
        if removed then
          (remove_dir_all (wo_survives W) (components (db_dir data name)) (fst (save_registry W reg d)),
           [Stdout (lit ''removed db '' @ in_quotes name)], 0)
        else (d, [Stderr (lit ''no such db: '' @ name)], 1))"

definition db_list :: "registry \<Rightarrow> printed list" where
  "db_list reg = (if db_records reg = [] then [Stdout (lit ''(no named DBs registered)'')] else []) @
     map (\<lambda>r. Stdout (db_line r)) (db_records reg)"

definition cmd_db :: "world \<Rightarrow> bytes \<Rightarrow> db_action \<Rightarrow> disk \<Rightarrow> ended option" where
  "cmd_db W data act d = (case act of
     DbAdd name root mfs \<Rightarrow> db_add W data name root mfs d
   | DbRemove name \<Rightarrow> Some (db_remove W data name d)
   | DbList \<Rightarrow> Some (d, db_list (loaded_registry W data d), 0))"

subsection \<open>\<open>deepfind config\<close>\<close>

datatype ignore_action = IgnoreAdd str | IgnoreRemove str | IgnoreList
datatype config_action = ConfigShow | ConfigIgnore ignore_action

definition save_settings :: "world \<Rightarrow> bytes \<Rightarrow> settings \<Rightarrow> disk \<Rightarrow> disk \<times> (index_error, unit) outcome" where
  "save_settings W data conf d =
     (case settings_save (wo_json W) (wo_succeeds W) (wo_partial W) data conf d of (trace, r) \<Rightarrow> (last trace, r))"

text \<open>The lines after a save, or the complaint.\<close>

definition if_saved :: "string \<Rightarrow> printed list \<Rightarrow> disk \<times> (index_error, unit) outcome \<Rightarrow> ended" where
  "if_saved what lines = (\<lambda>(d, r). case r of
     Err e \<Rightarrow> (d, [Stderr (lit what @ lit '' failed: '' @ show_index e)], 1) | _ \<Rightarrow> (d, lines, 0))"

text \<open>\<open>pretty\<close> is \<open>serde_json::to_string_pretty\<close>.\<close>

definition cmd_config :: "world \<Rightarrow> (settings \<Rightarrow> str + str) \<Rightarrow> bytes \<Rightarrow> config_action \<Rightarrow> disk \<Rightarrow> ended" where
  "cmd_config W pretty data act d =
     (let conf = settings_load (wo_json W) (disk_files d) data in
      case act of
        ConfigShow \<Rightarrow> (case pretty conf of
            Inr json \<Rightarrow> (d, [Stdout json], 0)
          | Inl e \<Rightarrow> (d, [Stderr (lit ''config show failed: '' @ e)], 1))
      | ConfigIgnore (IgnoreAdd p) \<Rightarrow> if_saved ''config ignore add''
          [Stdout (lit ''added: '' @ p),
           Stdout (lit ''note: existing indexed files matching '' @ in_quotes p @
             lit '' are dropped on the next index rebuild / daemon compaction'')]
          (save_settings W data (add_ignore p conf) d)
      | ConfigIgnore (IgnoreRemove p) \<Rightarrow> (case remove_ignore p conf of
            (conf', True) \<Rightarrow> if_saved ''config ignore remove'' [Stdout (lit ''removed: '' @ p)] (save_settings W data conf' d)
          | (conf', False) \<Rightarrow> (d, [Stderr (lit ''no such pattern: '' @ p)], 1))
      | ConfigIgnore IgnoreList \<Rightarrow> (d, map Stdout (ignore_patterns conf), 0))"

subsection \<open>\<open>deepfind install\<close> and \<open>uninstall\<close>\<close>

definition ensure_default_root :: "(bytes \<Rightarrow> registry) \<Rightarrow> bytes \<Rightarrow> (str \<times> bytes) option" where
  "ensure_default_root load h = (if db_records (load (path_join h (lit ''.deep-find''))) = [] then Some (lit ''home'', h) else None)"

text \<open>What the system answers: the text of an error, if there is one. A failed write of the plist may have
  opened the file and written some bytes. \<open>launchctl\<close>: whether it could be started, whether it
  succeeded, and its exit code as text.\<close>

record agent_system =
  ag_exe :: "str + bytes"
  ag_agents_dir :: "str option"
  ag_logs_dir :: "str option"
  ag_write :: "(nat option \<times> str) option"
  ag_launchctl :: "str + bool \<times> str"
  ag_remove :: "str option"

definition fs_write :: "file_id \<Rightarrow> bytes \<Rightarrow> disk \<Rightarrow> disk" where
  "fs_write p bs d = effect (WriteAll p bs) (effect (CreateFile p) d)"

definition launchd_install :: "agent_system \<Rightarrow> bytes \<Rightarrow> bytes \<Rightarrow> bool \<Rightarrow> bool \<Rightarrow> disk \<Rightarrow> disk \<times> (str + unit)" where
  "launchd_install A h exe watch load d =
     (case ag_agents_dir A of Some e \<Rightarrow> (d, Inl (lit ''create LaunchAgents dir: '' @ e)) | None \<Rightarrow>
      case ag_logs_dir A of Some e \<Rightarrow> (d, Inl (lit ''create log dir: '' @ e)) | None \<Rightarrow>
      let path = components (plist_path h); plist = render_plist exe h watch in
      case ag_write A of
        Some (k, e) \<Rightarrow> (case k of None \<Rightarrow> d | Some k \<Rightarrow> fs_write path (take k plist) d, Inl (lit ''write plist: '' @ e))
      | None \<Rightarrow>
      let d = fs_write path plist d in
      if \<not> load then (d, Inr ())
      else case ag_launchctl A of
        Inl e \<Rightarrow> (d, Inl (lit ''spawn launchctl load: '' @ e))
      | Inr (success, code) \<Rightarrow> (d, if success then Inr () else Inl (lit ''launchctl load failed (exit '' @ code @ lit '')'')))"

text \<open>Unloading is tried and its result ignored.\<close>

definition launchd_uninstall :: "agent_system \<Rightarrow> bytes \<Rightarrow> disk \<Rightarrow> disk \<times> (str + unit)" where
  "launchd_uninstall A h d =
     (let path = components (plist_path h) in
      if entries d path = None then (d, Inr ())
      else case ag_remove A of
        Some e \<Rightarrow> (d, Inl (lit ''remove plist: '' @ e))
      | None \<Rightarrow> (d\<lparr>entries := (entries d)(path := None)\<rparr>, Inr ()))"

text \<open>Nothing is built: the daemon builds what is registered when it starts.\<close>

definition register_default :: "world \<Rightarrow> bytes \<Rightarrow> disk \<Rightarrow> disk \<times> printed list" where
  "register_default W h d =
     (case ensure_default_root (\<lambda>dir. loaded_registry W dir d) h of
        None \<Rightarrow> (d, [])
      | Some (name, root) \<Rightarrow>
          (case save_registry W (registry_upsert (db_record_of (data_dir h) name root) (loaded_registry W (data_dir h) d)) d of (d, saved) \<Rightarrow>
            (d, unsaved_warning saved @
              [Stdout (lit ''No DB registered '' @ em_dash @ lit '' auto-registered '' @ in_quotes name @ lit '' '' @ right_arrow @
                lit '' '' @ show_path root @ lit '' (the daemon will index it on start).'')])))"

definition install_notes :: "bool \<Rightarrow> printed list" where
  "install_notes watch =
     [Stdout (lit ''Installed LaunchAgent '' @ LABEL @ lit '' (auto-start at login, KeepAlive on).'')] @
     (if watch then [Stdout (lit ''df-watch incremental hot-swap is enabled in the agent.'')] else []) @
     map (\<lambda>s. Stdout (lit s)) ['''',
       ''The daemon starts shortly. Index a root once so searches hit the index:'', ''  deepfind index --root <path>'', '''',
       ''Status: deepfind status'', ''Stop:   deepfind uninstall'']"

definition cmd_install :: "world \<Rightarrow> agent_system \<Rightarrow> bytes \<Rightarrow> bool \<Rightarrow> disk \<Rightarrow> ended" where
  "cmd_install W A h watch d =
     (case ag_exe A of
        Inl e \<Rightarrow> (d, [Stderr (lit ''install: cannot resolve current executable: '' @ e)], 1)
      | Inr exe \<Rightarrow> (case register_default W h d of (d, lines) \<Rightarrow>
          (case launchd_install A h exe watch True d of
             (d, Inl e) \<Rightarrow> (d, lines @ [Stderr (lit ''install failed: '' @ e)], 1)
           | (d, Inr _) \<Rightarrow> (d, lines @ install_notes watch, 0))))"

definition cmd_uninstall :: "agent_system \<Rightarrow> bytes \<Rightarrow> disk \<Rightarrow> ended" where
  "cmd_uninstall A h d = (case launchd_uninstall A h d of
     (d, Inl e) \<Rightarrow> (d, [Stderr (lit ''uninstall failed: '' @ e)], 1)
   | (d, Inr _) \<Rightarrow> (d, [Stdout (lit ''Uninstalled LaunchAgent '' @ LABEL @ lit ''.'')], 0))"

subsection \<open>Status\<close>

definition fda_status_word :: "fda_state \<Rightarrow> str" where
  "fda_status_word st = (case st of Granted \<Rightarrow> lit ''granted'' | Denied \<Rightarrow> lit ''missing'' | Unknown \<Rightarrow> lit ''unknown'')"

definition should_open_panel :: "fda_state \<Rightarrow> bool \<Rightarrow> bool" where
  "should_open_panel st is_tty \<longleftrightarrow> st = Denied \<and> is_tty"

text \<open>\<open>modified\<close>: missing, or the modification time if there is one, in nanoseconds.\<close>

definition index_state :: "bool \<Rightarrow> nat option option \<Rightarrow> nat \<Rightarrow> str" where
  "index_state indexing modified now =
     (if indexing then lit ''indexing''
      else case modified of
        None \<Rightarrow> lit ''missing''
      | Some None \<Rightarrow> lit ''stale''
      | Some (Some t) \<Rightarrow> if now - t < 24 * 60 * 60 * 10 ^ 9 then lit ''fresh'' else lit ''stale'')"

definition db_state_line :: "bytes set \<Rightarrow> files \<Rightarrow> nat option option \<Rightarrow> nat \<Rightarrow> bytes \<Rightarrow> str" where
  "db_state_line marks fs modified now path =
     (let st = index_state (is_indexing path marks) modified now in
      if st = lit ''indexing''
      then (case read_progress fs path of Some p \<Rightarrow> lit ''indexing: '' @ p | None \<Rightarrow> lit ''indexing'')
      else st)"

text \<open>\<open>reachable\<close>: whether the socket could be connected; \<open>modified\<close>: of each index file.\<close>

definition index_line :: "files \<Rightarrow> nat option \<Rightarrow> bytes \<Rightarrow> str" where
  "index_line fs now db = (case open_reader fs db of
     Some r \<Rightarrow> lit ''db: '' @ show_path db @ lit '' | '' @ lit (show_nat (unat (r_num_docs r))) @ lit '' docs | built '' @
       (case index_build_age now (Some r) of Some s \<Rightarrow> lit (show_nat s) @ lit ''s ago'' | None \<Rightarrow> lit ''unknown'')
   | None \<Rightarrow> lit ''db: '' @ show_path db @ lit '' (missing/unreadable)'')"

definition cmd_status ::
  "bool \<Rightarrow> fda_state \<Rightarrow> bytes \<Rightarrow> bytes set \<Rightarrow> files \<Rightarrow> (bytes \<Rightarrow> nat option option) \<Rightarrow> nat option \<Rightarrow> nat \<Rightarrow> registry \<Rightarrow> printed list" where
  "cmd_status reached st h marks fs modified now clock reg =
     (let sock = default_socket h; db = default_db h; state = (\<lambda>p. db_state_line marks fs (modified p) clock p) in
      map Stdout
        ([lit ''daemon: '' @ (if reached then [] else lit ''NOT '') @ lit ''reachable ('' @ show_path sock @ lit '')'',
          lit ''full disk access: '' @ fda_status_word st,
          index_line fs now db,
          lit ''db default: '' @ state db @ lit ''   ('' @ show_path db @ lit '')''] @
         map (\<lambda>r. lit ''db '' @ db_name r @ lit '': '' @ state (db_path r) @ lit ''   ('' @ show_path (db_path r) @ lit '')'')
           (db_records reg)))"

text \<open>The lines, and whether the settings pane is opened. \<open>exe\<close>: the path of the program, if known.\<close>

definition denied_advice :: "bytes option \<Rightarrow> bool \<Rightarrow> printed list" where
  "denied_advice exe opened = map Stdout
     [[], lit ''Without it, protected dirs (~/Library/Mail, Messages, Safari, '' @ ellipsis @ lit '') are skipped.'',
      lit ''Binary to authorize: '' @ (case exe of Some p \<Rightarrow> show_path p
        | None \<Rightarrow> lit ''deepfind (run `which deepfind` to locate)''),
      (if opened then lit ''Opening Full Disk Access settings'' @ ellipsis
       else lit ''Open: System Settings '' @ right_arrow @ lit '' Privacy & Security '' @ right_arrow @ lit '' Full Disk Access''),
      [], lit ''After granting, restart the daemon:'',
      lit ''    launchctl kickstart -k gui/$(id -u)/'' @ LABEL]"

definition cmd_doctor :: "fda_state \<Rightarrow> bytes option \<Rightarrow> bool \<Rightarrow> printed list \<times> bool" where
  "cmd_doctor st exe is_tty =
     (let access = (\<lambda>mark. Stdout (mark @ lit '' Full Disk Access: '' @ fda_status_word st)); opened = should_open_panel st is_tty in
      case st of
        Granted \<Rightarrow> ([access [0xE2, 0x9C, 0x85]], False)
      | Denied \<Rightarrow> (access [0xE2, 0x9D, 0x8C] # denied_advice exe opened, opened)
      | Unknown \<Rightarrow> ([access [0xE2, 0x9D, 0x93], Stdout (lit ''If searches miss files under ~/Library, grant Full Disk Access.'')], False))"

text \<open>\<open>deepfind daemon\<close> ends when \<open>serve\<close> returns.\<close>

definition cmd_daemon :: "string + unit \<Rightarrow> printed list \<times> nat" where
  "cmd_daemon r = (case r of Inl e \<Rightarrow> ([Stderr (lit ''daemon error: '' @ lit e)], 1) | Inr _ \<Rightarrow> ([], 0))"

subsection \<open>The paths of a named database\<close>

lemma named_lits: "plain_name (lit ''db'')" "plain_name (lit ''index.dfdb'')" "plain_name (lit ''dbs.toml'')" "plain_name (lit ''.deep-find'')"
  by code_simp+

lemma named_paths:
  assumes "clean_dir data" "plain_name k"
  shows "clean_dir (db_dir data k)" "components (db_dir data k) = components data @ [Normal (lit ''db''), Normal k]"
    "db_path (db_record_of data k root) = db_dir data k @ slash # lit ''index.dfdb''"
    "content_dir (db_record_of data k root) = entry_dir (db_path (db_record_of data k root))"
    "components (db_path (db_record_of data k root)) = components data @ [Normal (lit ''db''), Normal k, Normal (lit ''index.dfdb'')]"
    "components (content_dir (db_record_of data k root)) = components data @ [Normal (lit ''db''), Normal k, Normal (lit ''content'')]"
proof -
  let ?b = "data @ slash # lit ''db''"
  have b: "path_join data (lit ''db'') = ?b" "clean_dir ?b" "?b \<noteq> []" "data \<noteq> []"
    using join_clean [OF assms(1) named_lits(1)] clean_child [of data] assms(1) named_lits(1) by (auto simp: clean_dir_def)
  have dir: "db_dir data k = ?b @ slash # k" "db_dir data k \<noteq> []"
    using join_clean [OF b(2) assms(2)] by (simp_all add: db_dir_def b(1))
  show c: "clean_dir (db_dir data k)" using clean_child [OF b(3) assms(2)] dir(1) by simp
  show comp: "components (db_dir data k) = components data @ [Normal (lit ''db''), Normal k]"
    unfolding dir(1) components_snoc [OF b(3) assms(2)] components_snoc [OF b(4) named_lits(1)] by simp
  show p: "db_path (db_record_of data k root) = db_dir data k @ slash # lit ''index.dfdb''"
    using join_clean [OF c named_lits(2)] by (simp add: db_record_of_def)
  have "entry_dir (db_dir data k @ slash # lit ''index.dfdb'') = db_dir data k @ slash # lit ''content''"
    by (rule index_paths(1) [OF c named_lits(2)])
  then show "content_dir (db_record_of data k root) = entry_dir (db_path (db_record_of data k root))"
    unfolding p using join_clean [OF c plain_lits(1)] by (simp add: db_record_of_def)
  show "components (db_path (db_record_of data k root)) = components data @ [Normal (lit ''db''), Normal k, Normal (lit ''index.dfdb'')]"
    unfolding p components_snoc [OF dir(2) named_lits(2)] comp by simp
  show "components (content_dir (db_record_of data k root)) = components data @ [Normal (lit ''db''), Normal k, Normal (lit ''content'')]"
    using join_clean [OF c plain_lits(1)] components_snoc [OF dir(2) plain_lits(1)] comp by (simp add: db_record_of_def)
qed

lemma registry_file:
  "clean_dir data \<Longrightarrow> components (path_join data (lit ''dbs.toml'')) = components data @ [Normal (lit ''dbs.toml'')]"
  using join_clean [OF _ named_lits(3)] components_snoc [OF _ named_lits(3), of data] by (simp add: clean_dir_def)

lemma default_registry_dir:
  assumes "clean_dir (data_dir h)"
  shows "registry_dir (default_db h) = data_dir h"
proof -
  let ?b = "data_dir h @ slash # lit ''db''"
  have ne: "data_dir h \<noteq> []" using assms by (simp add: clean_dir_def)
  have b: "path_join (data_dir h) (lit ''db'') = ?b" "clean_dir ?b"
    using join_clean [OF assms named_lits(1)] clean_child [OF ne named_lits(1)] by simp_all
  have "default_db h = ?b @ slash # lit ''index.dfdb''"
    unfolding default_db_def b(1) by (rule join_clean [OF b(2) named_lits(2)])
  then show ?thesis
    using parent_child [OF b(2) named_lits(2)] parent_child [OF assms named_lits(1)] by (simp add: registry_dir_def parent_or_def)
qed

subsection \<open>Saving and loading the registry\<close>

definition format_ok :: "'a text_format \<Rightarrow> bool" where
  "format_ok fmt \<longleftrightarrow> (\<forall>x s. to_text fmt x = Inr s \<longrightarrow> (\<exists>t. from_utf8 s = Some t \<and> from_text fmt t = Some x))"

lemma loaded_path [simp]: "registry_path (loaded_registry W data d) = path_join data (lit ''dbs.toml'')"
  by (simp add: loaded_registry_def registry_load_def Let_def)

lemma upsert_path [simp]: "registry_path (registry_upsert rec reg) = registry_path reg"
  by (simp add: registry_upsert_def split: option.split)

lemma remove_path [simp]: "registry_path (fst (registry_remove name reg)) = registry_path reg"
  by (simp add: registry_remove_def Let_def)

lemma upsert_member: "rec \<in> set (db_records (registry_upsert rec reg))"
proof -
  have "replace_first rec rs = Some rs' \<Longrightarrow> rec \<in> set rs'" for rs rs'
    by (induction rs arbitrary: rs') (auto split: if_splits)
  then show ?thesis by (auto simp: registry_upsert_def split: option.split)
qed

lemma save_registry_effect:
  assumes "clean_dir data" "disk_wf d" "registry_path reg = path_join data (lit ''dbs.toml'')" "save_registry W reg d = (d', r)"
  shows "disk_wf d' \<and> (\<forall>q. butlast q \<noteq> components data \<longrightarrow> reads d' q = reads d q) \<and>
    (r = Ok () \<longrightarrow> format_ok (wo_toml W) \<longrightarrow> db_records (loaded_registry W data d') = db_records reg)"
proof (cases "to_text (wo_toml W) (db_records reg)")
  case (Inl e)
  then show ?thesis using assms(2,4) by (auto simp: save_registry_def registry_save_def)
next
  case (Inr s)
  let ?p = "components data @ [Normal (lit ''dbs.toml'')]"
  have save: "file_save (wo_succeeds W) (wo_partial W) ?p s d = (d', r)"
    using assms(4) Inr by (simp add: save_registry_def registry_save_def file_save_def assms(3) registry_file [OF assms(1)] split: prod.splits)
  have tmp: "temporary ?p = Some t \<Longrightarrow> butlast t = components data" for t by (auto simp: temporary_def tmp_of_def)
  have "reads d' q = reads d q" if "butlast q \<noteq> components data" for q
    by (rule disk.save_frame [OF assms(2) save]) (use that tmp in auto)
  moreover have "db_records (loaded_registry W data d') = db_records reg" if saved: "r = Ok ()" and fmt: "format_ok (wo_toml W)"
  proof -
    have "reads d' ?p = Some s" using disk.save_done [OF assms(2)] save saved by simp
    moreover obtain t where "from_utf8 s = Some t" "from_text (wo_toml W) t = Some (db_records reg)"
      using fmt Inr unfolding format_ok_def by blast
    ultimately show ?thesis using registry_file [OF assms(1)]
      by (simp add: loaded_registry_def registry_load_def read_to_string_def Let_def)
  qed
  ultimately show ?thesis using disk.save_wf [OF assms(2) save] by blast
qed

subsection \<open>What a reload serves\<close>

definition opened_as :: "files \<Rightarrow> str \<Rightarrow> bytes \<Rightarrow> bytes option \<Rightarrow> daemon \<Rightarrow> live_entry \<Rightarrow> bool" where
  "opened_as fs name path root d e \<longleftrightarrow> l_name e = name \<and> l_db_path e = path \<and> l_root e = root \<and> served_from fs e \<and>
     l_shards e < d_next d \<and> load_shard_set fs (entry_dir path) = Ok (snd (d_shards d (l_shards e)))"

lemma opened_as_grows: "grows d d' \<Longrightarrow> opened_as fs name path root d e \<Longrightarrow> opened_as fs name path root d' e"
  by (auto simp: opened_as_def grows_def)

lemma open_entry_as:
  assumes "open_entry bc readable opens fs name path root d = Ok (Some e, d')"
  shows "opened_as fs name path root d' e"
  using assms by (auto simp: open_entry_def opened_as_def served_from_def Let_def bind_o_eq_Ok split: option.splits outcome.splits)

lemma open_records_as:
  assumes "open_records bc readable opens fs recs es d = Ok (es', d')" "within n d" "n < 2 ^ 32"
  shows "\<forall>rec\<in>set recs. openable fs (db_path rec) \<longrightarrow>
    (\<exists>e\<in>set es'. opened_as fs (db_name rec) (db_path rec) (Some (db_root rec)) d' e)"
  using assms(1,2)
proof (induction recs arbitrary: es d)
  case (Cons rec recs)
  obtain e d1 where e: "open_entry bc readable opens fs (db_name rec) (db_path rec) (Some (db_root rec)) d = Ok (e, d1)"
    "within n d1" "openable fs (db_path rec) \<longrightarrow> e \<noteq> None"
    using open_entry_small [OF Cons.prems(2) assms(3), of bc readable opens fs "db_name rec" "db_path rec" "Some (db_root rec)"]
    by (elim exE conjE) (rule that)
  let ?es = "case e of Some e \<Rightarrow> es @ [e] | None \<Rightarrow> es"
  have r: "open_records bc readable opens fs recs ?es d1 = Ok (es', d')" using Cons.prems(1) by (simp add: e(1))
  obtain new where n: "es' = ?es @ new" "grows d1 d'"
    using open_records_small [OF e(2) assms(3), of bc readable opens fs recs ?es] r by auto
  have "\<exists>x\<in>set es'. opened_as fs (db_name rec) (db_path rec) (Some (db_root rec)) d' x" if "openable fs (db_path rec)"
  proof -
    obtain x where "e = Some x" using e(3) \<open>openable fs (db_path rec)\<close> by blast
    then show ?thesis using open_entry_as [of bc readable opens fs "db_name rec" "db_path rec" "Some (db_root rec)" d x d1]
        e(1) opened_as_grows [OF n(2)] n(1) by auto
  qed
  then show ?case using Cons.IH [OF r e(2)] by simp
qed simp

lemma open_again_as:
  assumes "within n d" "n < 2 ^ 32" "rec \<in> set (db_records (ev_registry ev (registry_dir (ev_default ev))))"
    and "openable (ev_files ev) (db_path rec)"
  shows "\<exists>es d' e. open_again bc ev d = Ok (es, d') \<and> e \<in> set es \<and>
    opened_as (ev_files ev) (db_name rec) (db_path rec) (Some (db_root rec)) d' e"
proof -
  obtain es d' where o: "open_again bc ev d = Ok (es, d')" using open_again_small [OF assms(1,2)] by blast
  then obtain e d1 where e: "open_entry bc (ev_readable ev) (ev_opens ev) (ev_files ev) (lit ''default'') (ev_default ev) None d = Ok (e, d1)"
    "open_records bc (ev_readable ev) (ev_opens ev) (ev_files ev) (db_records (ev_registry ev (registry_dir (ev_default ev))))
      (case e of Some e \<Rightarrow> [e] | None \<Rightarrow> []) d1 = Ok (es, d')"
    by (auto simp: open_again_def open_dbset_def bind_o_eq_Ok)
  then have "within n d1"
    using open_entry_small [OF assms(1,2), of bc "ev_readable ev" "ev_opens ev" "ev_files ev" "lit ''default''" "ev_default ev" None] by auto
  from open_records_as [OF e(2) this assms(2)] show ?thesis using o assms(3,4) by blast
qed

subsection \<open>What the commands leave\<close>

lemma db_add_done:
  assumes "db_add W data name root mfs d = Some (d', [Stdout line], 0)"
  shows "\<exists>d1 x. build_content_index_with_progress (wo_zstd W) (wo_unicode W) (wo_gitignore W) (wo_schedule W)
      (file_save (wo_succeeds W) (wo_partial W)) (wo_mkdir W) (wo_now W) root (wo_tree W root False False)
      (components (db_path (db_record_of data name root))) (components (content_dir (db_record_of data name root)))
      (add_options W data mfs d) d = Some (d1, Ok x) \<and>
    save_registry W (registry_upsert (db_record_of data name root) (loaded_registry W data d1)) d1 = (d', Ok ())"
proof -
  have never: "save_registry W reg d1 \<noteq> (d2, Panic)" for reg d1 d2
    by (auto simp: save_registry_def registry_save_def atomic_write_def Let_def split: sum.splits option.splits prod.splits if_splits)
  let ?rec = "db_record_of data name root"
  obtain d1 r where b: "build_content_index (wo_zstd W) (wo_unicode W) (wo_gitignore W) (wo_schedule W)
      (file_save (wo_succeeds W) (wo_partial W)) (wo_mkdir W) (wo_now W) root (wo_tree W root False False)
      (components (db_path ?rec)) (components (content_dir ?rec)) (add_options W data mfs d) d = Some (d1, r)"
    using assms by (auto simp: db_add_def Let_def)
  moreover from this obtain x where x: "r = Ok x" using assms by (cases r) (simp_all add: db_add_def Let_def)
  moreover obtain d2 y where "save_registry W (registry_upsert ?rec (loaded_registry W data d1)) d1 = (d2, y)" by fastforce
  moreover from this never have "y \<noteq> Panic" by blast
  ultimately show ?thesis using assms
    by (cases y) (auto simp: db_add_def Let_def unsaved_warning_def build_content_index_def bind_o_eq_Ok)
qed

lemma db_apart:
  assumes "clean_dir data" "plain_name k"
    and "q = components (db_path (db_record_of data k root)) \<or> butlast q = components (content_dir (db_record_of data k root))"
  shows "butlast q \<noteq> components data"
  using assms(3) named_paths(5,6) [OF assms(1,2), of root] by (auto simp: butlast_append)

lemma db_inside:
  "clean_dir data \<Longrightarrow> plain_name k \<Longrightarrow> prefix (components (db_dir data k)) q \<Longrightarrow> butlast q \<noteq> components data"
  by (auto simp: named_paths(2) prefix_def butlast_append)

lemma db_disjoint:
  assumes "clean_dir data" "plain_name k" "plain_name m" "m \<noteq> k" "prefix (components (db_dir data m)) q"
  shows "\<not> prefix (components (db_dir data k)) q"
  using assms(4,5) by (auto simp: named_paths(2) [OF assms(1,2)] named_paths(2) [OF assms(1,3)] prefix_def)

text \<open>A database that is registered and whose index and shards open is opened with them.\<close>

lemma registered_opened:
  assumes "clean_dir (data_dir h)" "plain_name name" "within n dm" "n < 2 ^ 32"
    and "db_record_of (data_dir h) name root \<in> set (db_records (loaded_registry W (data_dir h) d))"
    and "ev_files ev = disk_files d" "ev_registry ev = (\<lambda>dir. loaded_registry W dir d)" "ev_default ev = default_db h"
    and "disk_files d (db_dir (data_dir h) name @ slash # lit ''index.dfdb'') = Some F" "open_db F = Ok db"
    and "load_shard_set (disk_files d) (entry_dir (db_dir (data_dir h) name @ slash # lit ''index.dfdb'')) = Ok snap"
    and "index_of Z U memmem recs db snap"
  shows "\<exists>es dm' e. open_again bc ev dm = Ok (es, dm') \<and> grows dm dm' \<and> e \<in> set es \<and> l_name e = name \<and> l_root e = Some root \<and>
    l_db_path e = db_path (db_record_of (data_dir h) name root) \<and>
    index_of Z U memmem recs (l_db e) (snd (d_shards dm' (l_shards e)))"
proof -
  let ?rec = "db_record_of (data_dir h) name root"
  note paths = named_paths [OF assms(1,2)]
  have "?rec \<in> set (db_records (ev_registry ev (registry_dir (ev_default ev))))"
    using assms(5) by (simp add: assms(7,8) default_registry_dir [OF assms(1)])
  moreover have "openable (ev_files ev) (db_path ?rec)" using assms(9,10) by (simp add: openable_def assms(6) paths(3))
  ultimately obtain es dm' e where o: "open_again bc ev dm = Ok (es, dm')" "e \<in> set es"
    "opened_as (disk_files d) (db_name ?rec) (db_path ?rec) (Some (db_root ?rec)) dm' e"
    using open_again_as [OF assms(3,4), of ?rec ev bc] unfolding assms(6) by blast
  moreover have "grows dm dm'" using open_again_small [OF assms(3,4), of bc ev] o(1) by auto
  ultimately show ?thesis using assms(9-12) unfolding paths(3)
    by (intro exI [of _ es] exI [of _ dm'] exI [of _ e]) (auto simp: opened_as_def served_from_def db_record_of_def)
qed

lemma registered_served:
  assumes "clean_dir (data_dir h)" "plain_name name" "within n dm" "n < 2 ^ 32"
    and "db_record_of (data_dir h) name root \<in> set (db_records (loaded_registry W (data_dir h) d))"
    and "ev_files ev = disk_files d" "ev_registry ev = (\<lambda>dir. loaded_registry W dir d)" "ev_default ev = default_db h"
    and "disk_files d (db_dir (data_dir h) name @ slash # lit ''index.dfdb'') = Some F" "open_db F = Ok db"
    and "load_shard_set (disk_files d) (entry_dir (db_dir (data_dir h) name @ slash # lit ''index.dfdb'')) = Ok snap"
    and "index_of Z U memmem recs db snap"
  shows "\<exists>es dm' e. open_again bc ev dm = Ok (es, dm') \<and> e \<in> set es \<and> l_name e = name \<and> l_root e = Some root \<and>
    index_of Z U memmem recs (l_db e) (snd (d_shards dm' (l_shards e)))"
  using registered_opened [OF assms, of bc] by blast

text \<open>A reload gives an opened entry the handles of the entry that was served at its path, if any.\<close>

lemma reload_keeps_handles:
  assumes "open_again bc ev dm = Ok (es, dm')" "grows dm dm'" "e \<in> set es"
    and "\<forall>x\<in>set (d_entries dm). l_shards x < d_next dm \<and> l_overlay x < d_next dm"
  shows "\<exists>dm2 e2. reload_reusing bc ev dm = Ok dm2 \<and> e2 \<in> set (d_entries dm2) \<and> l_name e2 = l_name e \<and> l_root e2 = l_root e \<and>
    l_db e2 = l_db e \<and> (case List.find (\<lambda>x. l_db_path x = l_db_path e) (d_entries dm) of
      None \<Rightarrow> d_shards dm2 (l_shards e2) = d_shards dm' (l_shards e)
    | Some x \<Rightarrow> l_shards e2 = l_shards x \<and> l_overlay e2 = l_overlay x \<and> d_shards dm2 (l_shards e2) = d_shards dm (l_shards x) \<and>
        d_overlays dm2 (l_overlay e2) = d_overlays dm (l_overlay x))"
proof -
  let ?find = "List.find (\<lambda>x. l_db_path x = l_db_path e) (d_entries dm)"
  let ?e = "case ?find of Some x \<Rightarrow> e\<lparr>l_shards := l_shards x, l_overlay := l_overlay x\<rparr> | None \<Rightarrow> e"
  let ?dm = "dm'\<lparr>d_entries := reuse_handles_from (d_entries dm) es\<rparr>"
  have "reload_reusing bc ev dm = Ok ?dm" by (simp add: reload_reusing_def assms(1))
  moreover have "?e \<in> set (d_entries ?dm)" using assms(3) by (force simp: reuse_handles_from_def)
  moreover have "d_shards dm' (l_shards x) = d_shards dm (l_shards x) \<and> d_overlays dm' (l_overlay x) = d_overlays dm (l_overlay x)"
    if "?find = Some x" for x
    using assms(2,4) that by (auto simp: grows_def find_Some_iff)
  ultimately show ?thesis by (intro exI [of _ ?dm] exI [of _ ?e]) (auto split: option.splits)
qed

text \<open>
  C6. A named database that \<open>db add\<close> reports is served. When the command ends with its one line and
  status 0, a daemon that starts then has an entry of that name for that root, whose filename database
  has the paths of the walk and whose shards answer every content query with the files of the walk that
  have a match. A running daemon that reloads its databases then has such an entry too, unless it
  serves an entry with that index file already: of such a database, added again, it has the new name
  database, root and name, but goes on with the shards and the overlay it had opened before, as they
  were. This needs a TOML crate that reads back what it writes and files that fit the formats.
\<close>

theorem db_add_served:
  assumes "db_add W (data_dir h) name root mfs d = Some (d', [Stdout line], 0)"
    and "clean_dir (data_dir h)" and "plain_name name" and "disk_wf d"
    and "zstd_ok (wo_zstd W)" and "memmem_ok memmem" and "format_ok (wo_toml W)"
    and "recs = build_records (wo_schedule W) (wo_gitignore W) root (add_options W (data_dir h) mfs d) (wo_tree W root False False)"
    and "length recs < 2 ^ 31" and "\<forall>r\<in>set recs. valid_utf8 (br_path r) \<and> length (br_path r) < 2 ^ 32"
    and "build_fits (wo_zstd W) (wo_unicode W) (wo_now W) recs"
    and "ev_files ev = disk_files d'" and "ev_registry ev = (\<lambda>dir. loaded_registry W dir d')" and "ev_default ev = default_db h"
    and "within n dm" and "n < 2 ^ 32" and "\<forall>x\<in>set (d_entries dm). l_shards x < d_next dm \<and> l_overlay x < d_next dm"
  shows "(\<exists>dm1 ws e. serve_start bc ev watch dm = Ok (dm1, ws) \<and> e \<in> set (d_entries dm1) \<and> l_name e = name \<and> l_root e = Some root \<and>
      index_of (wo_zstd W) (wo_unicode W) memmem recs (l_db e) (snd (d_shards dm1 (l_shards e)))) \<and>
    (\<exists>dm2 e. reload_reusing bc ev dm = Ok dm2 \<and> e \<in> set (d_entries dm2) \<and> l_name e = name \<and> l_root e = Some root \<and>
      (case List.find (\<lambda>x. l_db_path x = db_path (db_record_of (data_dir h) name root)) (d_entries dm) of
        None \<Rightarrow> index_of (wo_zstd W) (wo_unicode W) memmem recs (l_db e) (snd (d_shards dm2 (l_shards e)))
      | Some x \<Rightarrow> (\<exists>snap. index_of (wo_zstd W) (wo_unicode W) memmem recs (l_db e) snap) \<and>
          l_shards e = l_shards x \<and> l_overlay e = l_overlay x \<and> d_shards dm2 (l_shards e) = d_shards dm (l_shards x) \<and>
          d_overlays dm2 (l_overlay e) = d_overlays dm (l_overlay x)))"
proof -
  let ?rec = "db_record_of (data_dir h) name root" and ?a = "db_dir (data_dir h) name"
  note paths = named_paths [OF assms(2,3)]
  obtain d1 x where b: "build_content_index_with_progress (wo_zstd W) (wo_unicode W) (wo_gitignore W) (wo_schedule W)
      (file_save (wo_succeeds W) (wo_partial W)) (wo_mkdir W) (wo_now W) root (wo_tree W root False False)
      (components (?a @ slash # lit ''index.dfdb'')) (components (entry_dir (?a @ slash # lit ''index.dfdb'')))
      (add_options W (data_dir h) mfs d) d = Some (d1, Ok x)"
    and s: "save_registry W (registry_upsert ?rec (loaded_registry W (data_dir h) d1)) d1 = (d', Ok ())"
    using db_add_done [OF assms(1)] unfolding paths(4) paths(3) by blast
  have "length (content_files recs) < 2 ^ 32"
    using disk.content_files_ok [OF _ assms(10)] assms(9) by (simp add: files_ok_def)
  then have wf: "disk_wf d1" using disk.build_wf [OF assms(4) _ b] unfolding assms(8) by blast
  obtain report progress where x: "x = (report, progress)" by (cases x)
  have reg: "registry_path (registry_upsert ?rec (loaded_registry W (data_dir h) d1)) = path_join (data_dir h) (lit ''dbs.toml'')" by simp
  note saved = save_registry_effect [OF assms(2) wf reg s]
  have same: "reads d' q = reads d1 q"
    if "q = components (?a @ slash # lit ''index.dfdb'') \<or> butlast q = components (entry_dir (?a @ slash # lit ''index.dfdb''))" for q
    using saved db_apart [OF assms(2,3), of q root] that unfolding paths(4) paths(3) by blast
  from built_index [OF paths(1) named_lits(2) assms(5,6,4,9,10,8) b assms(11) same] obtain F db snap where f:
    "disk_files d' (?a @ slash # lit ''index.dfdb'') = Some F" "open_db F = Ok db"
    "load_shard_set (disk_files d') (entry_dir (?a @ slash # lit ''index.dfdb'')) = Ok snap"
    "index_of (wo_zstd W) (wo_unicode W) memmem recs db snap" by blast
  have "?rec \<in> set (db_records (loaded_registry W (data_dir h) d'))"
    using saved assms(7) upsert_member [of ?rec] by simp
  from registered_opened [OF assms(2,3,15,16) this assms(12-14) f, of bc] obtain es dm' e where
    o: "open_again bc ev dm = Ok (es, dm')" "grows dm dm'" "e \<in> set es" and e: "l_name e = name" "l_root e = Some root"
      "l_db_path e = db_path ?rec" "index_of (wo_zstd W) (wo_unicode W) memmem recs (l_db e) (snd (d_shards dm' (l_shards e)))" by blast
  have "\<exists>dm1 ws. serve_start bc ev watch dm = Ok (dm1, ws) \<and> e \<in> set (d_entries dm1) \<and> d_shards dm1 = d_shards dm'"
    using o(3) by (simp add: serve_start_def o(1))
  then have start: "\<exists>dm1 ws e. serve_start bc ev watch dm = Ok (dm1, ws) \<and> e \<in> set (d_entries dm1) \<and> l_name e = name \<and> l_root e = Some root \<and>
      index_of (wo_zstd W) (wo_unicode W) memmem recs (l_db e) (snd (d_shards dm1 (l_shards e)))"
    using e(1,2,4) by metis
  from reload_keeps_handles [OF o assms(17), unfolded e(1-3)] show ?thesis using start e(4) by (fastforce split: option.splits)
qed

text \<open>The files of the default database: its index and its shards stand where those of databases
  called ``index.dfdb'' and ``content'' would have their directories.\<close>

lemma base_paths:
  assumes "clean_dir data"
  shows "components (path_join (path_join data (lit ''db'')) (lit ''index.dfdb'')) =
      components data @ [Normal (lit ''db''), Normal (lit ''index.dfdb'')]"
    "components (entry_dir (path_join (path_join data (lit ''db'')) (lit ''index.dfdb''))) =
      components data @ [Normal (lit ''db''), Normal (lit ''content'')]"
proof -
  let ?b = "data @ slash # lit ''db''"
  have ne: "data \<noteq> []" using assms by (simp add: clean_dir_def)
  have b: "path_join data (lit ''db'') = ?b" "clean_dir ?b"
    using join_clean [OF assms named_lits(1)] clean_child [OF ne named_lits(1)] by simp_all
  have d: "path_join ?b (lit ''index.dfdb'') = ?b @ slash # lit ''index.dfdb''" by (rule join_clean [OF b(2) named_lits(2)])
  show "components (path_join (path_join data (lit ''db'')) (lit ''index.dfdb'')) =
      components data @ [Normal (lit ''db''), Normal (lit ''index.dfdb'')]"
    "components (entry_dir (path_join (path_join data (lit ''db'')) (lit ''index.dfdb''))) =
      components data @ [Normal (lit ''db''), Normal (lit ''content'')]"
    unfolding b(1) d index_paths(2,3) [OF b(2) named_lits(2)] components_snoc [OF ne named_lits(1)] by simp_all
qed

lemma default_index_apart:
  assumes "clean_dir data" "plain_name name" "name \<noteq> lit ''index.dfdb''"
  defines "q \<equiv> components (path_join (path_join data (lit ''db'')) (lit ''index.dfdb''))"
  shows "\<not> prefix (components (db_dir data name)) q \<and> butlast q \<noteq> components data"
  using assms(3) unfolding q_def base_paths [OF assms(1)] named_paths(2) [OF assms(1,2)] by (auto simp: prefix_def butlast_append)

lemma default_shards_apart:
  assumes "clean_dir data" "plain_name name"
    and "prefix (components (entry_dir (path_join (path_join data (lit ''db'')) (lit ''index.dfdb'')))) q"
  shows "if name = lit ''content'' then prefix (components (db_dir data name)) q
    else \<not> prefix (components (db_dir data name)) q \<and> butlast q \<noteq> components data"
  using assms(3) unfolding base_paths [OF assms(1)] named_paths(2) [OF assms(1,2)] by (auto simp: prefix_def butlast_append)

text \<open>
  C38. What \<open>db remove\<close> deletes. For a registered name every file in the directory of that database is
  gone, except what could not be deleted, every file elsewhere, the databases of other names among them,
  is as before, and once the registry is saved the records are the old ones without that name. The
  default database is not safe from every name: its index file is as before unless the name is that of
  the file, and its shards are as before unless the name is ``content''; with that name every file
  below the directory of its shards is gone that could be deleted. For an unknown name nothing changes
  and the status is 1.
\<close>

theorem db_remove_exact:
  assumes "clean_dir data" and "plain_name name" and "disk_wf d" and "db_remove W data name d = (d', lines, code)"
  shows "if name \<in> db_name ` set (db_records (loaded_registry W data d)) then
      code = 0 \<and> lines = [Stdout (lit ''removed db '' @ in_quotes name)] \<and>
      (\<forall>q. prefix (components (db_dir data name)) q \<longrightarrow> reads d' q = (if wo_survives W q then reads d q else None)) \<and>
      (\<forall>q. \<not> prefix (components (db_dir data name)) q \<longrightarrow> butlast q \<noteq> components data \<longrightarrow> reads d' q = reads d q) \<and>
      (\<forall>m q. plain_name m \<longrightarrow> m \<noteq> name \<longrightarrow> prefix (components (db_dir data m)) q \<longrightarrow> reads d' q = reads d q) \<and>
      (let db = path_join (path_join data (lit ''db'')) (lit ''index.dfdb'') in
        (name \<noteq> lit ''index.dfdb'' \<longrightarrow> reads d' (components db) = reads d (components db)) \<and>
        (\<forall>q. prefix (components (entry_dir db)) q \<longrightarrow> reads d' q =
          (if name = lit ''content'' \<and> \<not> wo_survives W q then None else reads d q))) \<and>
      (snd (save_registry W (fst (registry_remove name (loaded_registry W data d))) d) = Ok () \<longrightarrow> format_ok (wo_toml W) \<longrightarrow>
        db_records (loaded_registry W data d') = filter (\<lambda>r. db_name r \<noteq> name) (db_records (loaded_registry W data d)))
    else d' = d \<and> code = 1 \<and> lines = [Stderr (lit ''no such db: '' @ name)]"
proof -
  let ?dir = "components (db_dir data name)" and ?reg = "loaded_registry W data d"
  let ?db = "path_join (path_join data (lit ''db'')) (lit ''index.dfdb'')"
  have removed: "snd (registry_remove name ?reg) \<longleftrightarrow> name \<in> db_name ` set (db_records ?reg)"
    by (auto simp: registry_remove_def Let_def filter_shorter list_all_iff image_iff)
  obtain reg r where reg: "registry_remove name ?reg = (reg, r)" by fastforce
  show ?thesis
  proof (cases r)
    case True
    obtain d1 saved where s: "save_registry W reg d = (d1, saved)" by fastforce
    have p: "registry_path reg = path_join data (lit ''dbs.toml'')" using remove_path [of name ?reg] reg by simp
    note effect = save_registry_effect [OF assms(1,3) p s]
    have d': "d' = remove_dir_all (wo_survives W) ?dir d1" "code = 0" "lines = [Stdout (lit ''removed db '' @ in_quotes name)]"
      using assms(4) reg True s by (simp_all add: db_remove_def)
    have reads: "reads d' q = (if prefix ?dir q \<and> \<not> wo_survives W q then None else reads d1 q)" for q
      by (simp add: d'(1) reads_def remove_dir_all_def)
    have here: "reads d' q = (if wo_survives W q then reads d q else None)" if q: "prefix ?dir q" for q
      using effect db_inside [OF assms(1,2) q] q by (simp add: reads)
    have there: "reads d' q = reads d q" if "\<not> prefix ?dir q" "butlast q \<noteq> components data" for q
      using effect that by (simp add: reads)
    have others: "reads d' q = reads d q" if "plain_name m" "m \<noteq> name" and q: "prefix (components (db_dir data m)) q" for m q
      using db_inside [OF assms(1) that(1) q] db_disjoint [OF assms(1,2) that(1,2) q] by (simp add: there)
    have names: "name \<noteq> lit ''index.dfdb'' \<longrightarrow> reads d' (components ?db) = reads d (components ?db)"
      using there default_index_apart [OF assms(1,2)] by blast
    have default: "reads d' q = (if name = lit ''content'' \<and> \<not> wo_survives W q then None else reads d q)"
      if "prefix (components (entry_dir ?db)) q" for q
      using here there default_shards_apart [OF assms(1,2) that] by (auto split: if_splits)
    have "\<not> prefix ?dir (components (path_join data (lit ''dbs.toml'')))"
      unfolding registry_file [OF assms(1)] named_paths(2) [OF assms(1,2)] by (simp add: prefix_def)
    then have "loaded_registry W data d' = loaded_registry W data d1"
      unfolding loaded_registry_def registry_load_def Let_def read_to_string_def reads by simp
    moreover have "db_records reg = filter (\<lambda>r. db_name r \<noteq> name) (db_records ?reg)"
      using reg by (auto simp: registry_remove_def Let_def)
    ultimately show ?thesis using effect removed reg True s d'(2,3) here there others names default by (simp add: Let_def del: split_paired_All)
  next
    case False
    then show ?thesis using assms(4) reg removed by (simp add: db_remove_def)
  qed
qed

lemma fs_write_reads:
  assumes "disk_wf d"
  shows "reads (fs_write p bs d) q = (if q = p then Some bs else reads d q)"
proof (cases "entries d p")
  case None
  then show ?thesis using assms
    by (auto simp: fs_write_def reads_def set_inode_def disk_wf_def map_option_case split: option.splits)
next
  case (Some k)
  then show ?thesis using assms
    by (auto simp: fs_write_def reads_def set_inode_def disk_wf_def map_option_case split: option.splits)
qed

lemma plist_file:
  assumes "clean_dir h"
  shows "components (plist_path h) = components h @ [Normal (lit ''Library''), Normal (lit ''LaunchAgents''), Normal (LABEL @ lit ''.plist'')]"
proof -
  have n: "plain_name (lit ''Library'')" "plain_name (lit ''LaunchAgents'')" "plain_name (LABEL @ lit ''.plist'')"
    unfolding LABEL_def by code_simp+
  have c: "components (path_join a k) = components a @ [Normal k] \<and> clean_dir (path_join a k)" if "clean_dir a" "plain_name k" for a k
    using that join_clean [OF that] components_snoc [OF _ that(2), of a] clean_child [OF _ that(2), of a]
    by (simp add: clean_dir_def)
  show ?thesis unfolding plist_path_def using c [OF assms n(1)] c [OF _ n(2)] c [OF _ n(3)] by simp
qed

lemma data_dir_clean: "clean_dir h \<Longrightarrow> clean_dir (data_dir h) \<and> components (data_dir h) = components h @ [Normal (lit ''.deep-find'')]"
  using join_clean [OF _ named_lits(4)] components_snoc [OF _ named_lits(4), of h] clean_child [OF _ named_lits(4), of h]
  by (auto simp: data_dir_def clean_dir_def)

text \<open>
  A first installation has the home directory indexed. When \<open>install\<close> ends with status 0, without
  a complaint and with no database registered before, the registry has exactly the database of the
  home directory, its index is what the daemon finds missing when it starts, and the property list
  names the program. No index is written.
\<close>

theorem install_registers_home:
  assumes "cmd_install W A h watch d = (d', map Stdout lines, 0)" and "db_records (loaded_registry W (data_dir h) d) = []"
    and "clean_dir h" and "disk_wf d" and "format_ok (wo_toml W)" and "ag_exe A = Inr exe"
    and "reads d (components (db_path rec)) = None" and "rec = db_record_of (data_dir h) (lit ''home'') h"
    and "ev_files ev = disk_files d'" and "ev_registry ev = (\<lambda>dir. loaded_registry W dir d')"
  shows "db_records (loaded_registry W (data_dir h) d') = [rec] \<and> missing_builds ev (data_dir h) = [rec] \<and>
    reads d' (components (plist_path h)) = Some (render_plist exe h watch)"
proof -
  let ?reg = "registry_upsert rec (loaded_registry W (data_dir h) d)" and ?plist = "components (plist_path h)"
  note data = data_dir_clean [OF assms(3)]
  have plain: "plain_name (lit ''home'')" by code_simp
  have p: "registry_path ?reg = path_join (data_dir h) (lit ''dbs.toml'')" by simp
  obtain d1 saved where s: "save_registry W ?reg d = (d1, saved)" by fastforce
  have reg: "register_default W h d = (d1, unsaved_warning saved @ [Stdout (lit ''No DB registered '' @ em_dash @
      lit '' auto-registered '' @ in_quotes (lit ''home'') @ lit '' '' @ right_arrow @ lit '' '' @ show_path h @
      lit '' (the daemon will index it on start).'')])"
    using s assms(2) by (simp add: register_default_def ensure_default_root_def assms(8) flip: data_dir_def)
  obtain d2 r where l: "launchd_install A h exe watch True d1 = (d2, r)" by fastforce
  have run: "d' = d2" "r = Inr ()"
    using assms(1,6) reg l by (auto simp: cmd_install_def split: sum.splits)
  have "\<exists>xs. unsaved_warning saved @ xs = map Stdout lines"
    using assms(1,6) reg l by (auto simp: cmd_install_def split: sum.splits)
  then have quiet: "\<nexists>e. saved = Err e" by (auto simp: unsaved_warning_def Cons_eq_map_conv)
  have d2: "d2 = fs_write ?plist (render_plist exe h watch) d1"
    using l run(2) by (auto simp: launchd_install_def Let_def split: option.splits sum.splits if_splits prod.splits)
  have "saved \<noteq> Panic" using s
    by (auto simp: save_registry_def registry_save_def atomic_write_def Let_def split: sum.splits option.splits prod.splits if_splits)
  then have ok: "saved = Ok ()" using quiet by (cases saved) simp_all
  note effect = save_registry_effect [OF conjunct1 [OF data] assms(4) p s]
  have reads: "reads d' q = (if q = ?plist then Some (render_plist exe h watch) else reads d1 q)" for q
    using fs_write_reads effect unfolding run(1) d2 by blast
  have apart: "components (path_join (data_dir h) (lit ''dbs.toml'')) \<noteq> ?plist" "components (db_path rec) \<noteq> ?plist"
    using data unfolding plist_file [OF assms(3)] assms(8) by (simp_all add: registry_file named_paths(5) [OF _ plain])
  have "db_records (loaded_registry W (data_dir h) d1) = [rec]"
    using effect ok assms(2,5) by (simp add: registry_upsert_def)
  then have r: "db_records (loaded_registry W (data_dir h) d') = [rec]"
    using apart(1) by (simp add: loaded_registry_def registry_load_def read_to_string_def reads)
  moreover have "reads d' (components (db_path rec)) = None"
    using effect apart(2) db_apart [OF _ plain, of "data_dir h" "components (db_path rec)" h] assms(7,8) data by (simp add: reads)
  ultimately show ?thesis by (simp add: missing_builds_def assms(9,10) reads)
qed

text \<open>
  Removing a named database deletes its files and none of another named database, for names that
  are plain file names. The default database is not safe from every such name: the directory of a
  database called ``content'' is the directory of its shards.
\<close>

theorem db_dirs_apart:
  assumes "clean_dir data" and "plain_name n" and "plain_name m" and "m \<noteq> n"
  shows "starts_with_path (db_path (db_record_of data n root)) (db_dir data n) \<and>
    starts_with_path (content_dir (db_record_of data n root)) (db_dir data n) \<and>
    \<not> starts_with_path (db_path (db_record_of data m root')) (db_dir data n) \<and>
    \<not> starts_with_path (content_dir (db_record_of data m root')) (db_dir data n) \<and>
    (let db = path_join (path_join data (lit ''db'')) (lit ''index.dfdb'') in
      (starts_with_path db (db_dir data n) \<longleftrightarrow> n = lit ''index.dfdb'') \<and>
      (starts_with_path (entry_dir db) (db_dir data n) \<longleftrightarrow> n = lit ''content''))"
proof -
  note p = named_paths [OF assms(1)]
  have base: "path_join (path_join data (lit ''db'')) (lit ''index.dfdb'') = db_dir data (lit ''index.dfdb'')" by (simp add: db_dir_def)
  have b: "clean_dir (path_join data (lit ''db''))"
    using join_clean [OF assms(1) named_lits(1)] clean_child [of data] assms(1) named_lits(1) by (simp add: clean_dir_def)
  have "components (entry_dir (db_dir data (lit ''index.dfdb''))) = butlast (components (db_dir data (lit ''index.dfdb''))) @ [Normal (lit ''content'')]"
    using index_paths(2,3) [OF b named_lits(2)] join_clean [OF b named_lits(2)] by (simp add: db_dir_def)
  then show ?thesis unfolding starts_with_path_def Let_def base p(2) [OF named_lits(2)] p(2) [OF assms(2)]
      p(5,6) [OF assms(2)] p(5,6) [OF assms(3)] using assms(4) by (auto simp: prefix_def butlast_append)
qed

subsection \<open>One database, added, listed and removed\<close>

definition demo_toml :: "db_record list \<Rightarrow> db_record list text_format" where
  "demo_toml rs = \<lparr>to_text = (\<lambda>x. if x = rs then Inr (lit ''x'') else if x = [] then Inr [] else Inl ''unsupported''),
     from_text = (\<lambda>s. if s = lit ''x'' then Some rs else if s = [] then Some [] else None)\<rparr>"

definition demo_world :: "db_record list \<Rightarrow> world" where
  "demo_world rs = \<lparr>wo_zstd = stored_zstd, wo_unicode = ascii_tables, wo_gitignore = demo_gitignore, wo_schedule = (\<lambda>vs. vs),
     wo_toml = demo_toml rs, wo_json = \<lparr>to_text = (\<lambda>x. Inl ''unsupported''), from_text = (\<lambda>s. None)\<rparr>,
     wo_succeeds = (\<lambda>op. True), wo_partial = 0, wo_mkdir = True, wo_now = 5, wo_doc_schedule = (\<lambda>vs. vs),
     wo_tree = (\<lambda>root hidden one_fs. demo_tree), wo_survives = (\<lambda>p. False)\<rparr>"

abbreviation demo_rec :: db_record where
  "demo_rec \<equiv> db_record_of (data_dir (lit ''h'')) (lit ''w'') [0x2E]"

lemma demo_world_fields [simp]:
  "wo_zstd (demo_world rs) = stored_zstd" "wo_unicode (demo_world rs) = ascii_tables"
  "wo_gitignore (demo_world rs) = demo_gitignore" "wo_schedule (demo_world rs) = (\<lambda>vs. vs)"
  "wo_toml (demo_world rs) = demo_toml rs" "wo_succeeds (demo_world rs) = (\<lambda>op. True)" "wo_partial (demo_world rs) = 0"
  "wo_mkdir (demo_world rs) = True" "wo_now (demo_world rs) = 5" "wo_tree (demo_world rs) = (\<lambda>root hidden one_fs. demo_tree)"
  "wo_doc_schedule (demo_world rs) = (\<lambda>vs. vs)"
  "wo_survives (demo_world rs) = (\<lambda>p. False)"
  by (simp_all add: demo_world_def)

lemma demo_text: "from_utf8 (lit ''x'') = Some (lit ''x'')" "from_utf8 [] = Some []" "lit ''x'' \<noteq> []" "[] \<noteq> lit ''x''"
  by code_simp+

lemma demo_format: "format_ok (wo_toml (demo_world rs))"
  by (simp add: format_ok_def demo_toml_def demo_text)

lemma demo_home: "clean_dir (lit ''h'')" "clean_dir (data_dir (lit ''h''))" "plain_name (lit ''w'')"
  by code_simp+

lemma saved_ok:
  assumes "clean_dir data" "registry_path reg = path_join data (lit ''dbs.toml'')" "db_records reg = rs"
  shows "\<exists>d'. save_registry (demo_world rs) reg d = (d', Ok ())"
proof -
  have n: "name_of (components data @ [Normal (lit ''dbs.toml'')]) = Some (lit ''dbs.toml'')"
    using name_of_join [of "components data" "lit ''dbs.toml''"] by (simp add: join_dir_def)
  from file_save_succeeds [OF this, of 0 "lit ''x''" d] show ?thesis
    by (auto simp: save_registry_def registry_save_def demo_toml_def assms(2,3) registry_file [OF assms(1)]
        file_save_def split: prod.splits)
qed

lemma demo_empty: "reads d (components data @ [Normal (lit ''dbs.toml'')]) = None \<Longrightarrow> clean_dir data \<Longrightarrow>
    db_records (loaded_registry W data d) = []"
  by (simp add: loaded_registry_def registry_load_def read_to_string_def registry_file Let_def)

lemma demo_reads: "reads demo_disk q = None"
  by (simp add: reads_def demo_disk_def)

theorem db_dirs_apart_witness:
  "\<not> starts_with_path (db_path (db_record_of (lit ''/d'') (lit ''b'') [])) (db_dir (lit ''/d'') (lit ''a'')) \<and>
   starts_with_path (entry_dir (path_join (path_join (lit ''/d'') (lit ''db'')) (lit ''index.dfdb''))) (db_dir (lit ''/d'') (lit ''content''))"
proof -
  have n: "clean_dir (lit ''/d'')" "plain_name (lit ''a'')" "plain_name (lit ''b'')" "plain_name (lit ''content'')"
    "lit ''b'' \<noteq> lit ''a''" "lit ''b'' \<noteq> lit ''content''" by code_simp+
  show ?thesis using db_dirs_apart [OF n(1-3) n(5)] db_dirs_apart [OF n(1) n(4) n(3) n(6)] by (simp add: Let_def)
qed

lemma demo_index_found:
  assumes "index_of Z U memmem demo_recs db snap"
  shows "content_found snap (lit ''abc'') False (lit ''a'')"
proof -
  have "content_hit [0x41, 0x62, 0x43, 0x0A] (fold_bytes (lit ''abc'')) False" "lit ''a'' = [0x61]" by code_simp+
  then show ?thesis using assms unfolding index_of_def demo_records by simp
qed

lemma demo_added: "\<exists>d' line. db_add (demo_world [demo_rec]) (data_dir (lit ''h'')) (lit ''w'') [0x2E] DEFAULT_MAX_FILE_SIZE demo_disk =
    Some (d', [Stdout line], 0) \<and> disk_wf d' \<and>
    db_records (loaded_registry (demo_world [demo_rec]) (data_dir (lit ''h'')) d') = [demo_rec]"
proof -
  let ?W = "demo_world [demo_rec]" and ?data = "data_dir (lit ''h'')"
  have opts: "add_options ?W ?data DEFAULT_MAX_FILE_SIZE demo_disk = default_content_options"
    by (simp add: add_options_def settings_load_def read_to_string_def demo_reads default_content_options_def default_settings_def)
  have name: "name_of (components (db_path demo_rec)) \<noteq> None" by code_simp
  have ok: "length demo_recs < 2 ^ 32" "\<forall>r\<in>set demo_recs. valid_utf8 (br_path r) \<and> length (br_path r) < 2 ^ 32"
    by (simp_all add: demo_records valid_ascii)
  have "disk.returns (\<lambda>op. True) 0 (build_content_index_with_progress stored_zstd ascii_tables demo_gitignore (\<lambda>vs. vs)
      (file_save (\<lambda>op. True) 0) True 5 [0x2E] demo_tree (components (db_path demo_rec)) (components (content_dir demo_rec))
      default_content_options demo_disk)"
    by (rule disk.build_returns [OF demo_disk_wf name ok])
  then obtain d1 r progress where run: "build_content_index_with_progress stored_zstd ascii_tables demo_gitignore (\<lambda>vs. vs)
      (file_save (\<lambda>op. True) 0) True 5 [0x2E] demo_tree (components (db_path demo_rec)) (components (content_dir demo_rec))
      default_content_options demo_disk = Some (d1, Ok (r, progress))"
    using reliable_disk unfolding disk.returns_def by (metis prod.exhaust)
  let ?file = "components ?data @ [Normal (lit ''dbs.toml'')]"
  have small: "length (content_files demo_recs) < 2 ^ 32" by (simp add: demo_content)
  have out: "butlast ?file \<noteq> components (content_dir demo_rec)" "butlast ?file \<noteq> butlast (components (db_path demo_rec))"
    using named_paths(5,6) [OF demo_home(2,3)] by (simp_all add: butlast_append)
  have "reads d1 ?file = None"
    using disk.build_frame [OF demo_disk_wf small run out] by (simp add: demo_reads)
  then have "db_records (registry_upsert demo_rec (loaded_registry ?W ?data d1)) = [demo_rec]"
    using demo_empty [OF _ demo_home(2)] by (simp add: registry_upsert_def)
  note new = this
  obtain d' where saved: "save_registry ?W (registry_upsert demo_rec (loaded_registry ?W ?data d1)) d1 = (d', Ok ())"
    using saved_ok [OF demo_home(2) _ new] by fastforce
  have path: "registry_path (registry_upsert demo_rec (loaded_registry ?W ?data d1)) = path_join ?data (lit ''dbs.toml'')" by simp
  show ?thesis using run saved save_registry_effect [OF demo_home(2) disk.build_wf [OF demo_disk_wf small run] path saved] new demo_format
    by (simp add: db_add_def build_content_index_def opts bind_o_def unsaved_warning_def Let_def)
qed

theorem db_add_served_witness:
  "\<exists>d' line dm ws e. db_add (demo_world [demo_rec]) (data_dir (lit ''h'')) (lit ''w'') [0x2E] DEFAULT_MAX_FILE_SIZE demo_disk =
      Some (d', [Stdout line], 0) \<and>
    serve_start demo_bincode \<lparr>ev_readable = True, ev_opens = True, ev_files = disk_files d',
      ev_registry = (\<lambda>dir. loaded_registry (demo_world [demo_rec]) dir d'), ev_default = default_db (lit ''h'')\<rparr> False demo_daemon = Ok (dm, ws) \<and>
    e \<in> set (d_entries dm) \<and> l_name e = lit ''w'' \<and> content_found (snd (d_shards dm (l_shards e))) (lit ''abc'') False (lit ''a'')"
proof -
  let ?W = "demo_world [demo_rec]" and ?data = "data_dir (lit ''h'')"
  obtain d' line where added: "db_add ?W ?data (lit ''w'') [0x2E] DEFAULT_MAX_FILE_SIZE demo_disk = Some (d', [Stdout line], 0)"
    using demo_added by blast
  let ?ev = "\<lparr>ev_readable = True, ev_opens = True, ev_files = disk_files d',
      ev_registry = (\<lambda>dir. loaded_registry ?W dir d'), ev_default = default_db (lit ''h'')\<rparr>"
  have opts: "add_options ?W ?data DEFAULT_MAX_FILE_SIZE demo_disk = default_content_options"
    by (simp add: add_options_def settings_load_def read_to_string_def demo_reads default_content_options_def default_settings_def)
  have ok: "length demo_recs < 2 ^ 31" "\<forall>r\<in>set demo_recs. valid_utf8 (br_path r) \<and> length (br_path r) < 2 ^ 32"
    by (simp_all add: demo_records valid_ascii)
  have "o_paths empty_overlay = []" by (simp add: empty_overlay_def)
  then have dm: "within 0 demo_daemon" "\<forall>x\<in>set (d_entries demo_daemon). l_shards x < d_next demo_daemon \<and> l_overlay x < d_next demo_daemon"
    by (simp_all add: within_def demo_daemon_def)
  have env: "ev_files ?ev = disk_files d'" "ev_registry ?ev = (\<lambda>dir. loaded_registry ?W dir d')" "ev_default ?ev = default_db (lit ''h'')"
    by simp_all
  have n: "(0::nat) < 2 ^ 32" by simp
  from db_add_served [OF added demo_home(2,3) demo_disk_wf _ naive_find_ok demo_format _ _ _ _ env dm(1) n dm(2), unfolded demo_world_fields opts,
      OF stored_zstd_ok refl ok demo_fits, of demo_bincode False]
  obtain dm' ws e where e: "serve_start demo_bincode ?ev False demo_daemon = Ok (dm', ws)" "e \<in> set (d_entries dm')" "l_name e = lit ''w''"
    "index_of stored_zstd ascii_tables naive_find demo_recs (l_db e) (snd (d_shards dm' (l_shards e)))" by blast
  show ?thesis using added e(1-3) demo_index_found [OF e(4)] by blast
qed

theorem db_remove_exact_witness:
  "\<exists>d1 line d2 lines. db_add (demo_world [demo_rec]) (data_dir (lit ''h'')) (lit ''w'') [0x2E] DEFAULT_MAX_FILE_SIZE demo_disk =
      Some (d1, [Stdout line], 0) \<and>
    db_remove (demo_world [demo_rec]) (data_dir (lit ''h'')) (lit ''w'') d1 = (d2, lines, 0) \<and>
    reads d2 (components (db_path demo_rec)) = None"
proof -
  let ?W = "demo_world [demo_rec]" and ?data = "data_dir (lit ''h'')"
  obtain d1 line where d1: "db_add ?W ?data (lit ''w'') [0x2E] DEFAULT_MAX_FILE_SIZE demo_disk = Some (d1, [Stdout line], 0)"
    "disk_wf d1" "db_records (loaded_registry ?W ?data d1) = [demo_rec]" using demo_added by blast
  obtain d2 lines code where r: "db_remove ?W ?data (lit ''w'') d1 = (d2, lines, code)" by (metis prod_cases3)
  have "lit ''w'' \<in> db_name ` set (db_records (loaded_registry ?W ?data d1))" unfolding d1(3) by (simp add: db_record_of_def)
  moreover have "prefix (components (db_dir ?data (lit ''w''))) (components (db_path demo_rec))"
    unfolding named_paths(2,5) [OF demo_home(2,3)] by simp
  ultimately show ?thesis using db_remove_exact [OF demo_home(2,3) d1(2) r] d1(1) r by auto
qed

theorem install_registers_home_witness:
  "\<exists>d' lines. cmd_install (demo_world [db_record_of (data_dir (lit ''h'')) (lit ''home'') (lit ''h'')])
      \<lparr>ag_exe = Inr (lit ''e''), ag_agents_dir = None, ag_logs_dir = None, ag_write = None, ag_launchctl = Inr (True, []), ag_remove = None\<rparr>
      (lit ''h'') True demo_disk = (d', map Stdout lines, 0) \<and>
    db_records (loaded_registry (demo_world [db_record_of (data_dir (lit ''h'')) (lit ''home'') (lit ''h'')]) (data_dir (lit ''h'')) d') =
      [db_record_of (data_dir (lit ''h'')) (lit ''home'') (lit ''h'')]"
proof -
  let ?rec = "db_record_of (data_dir (lit ''h'')) (lit ''home'') (lit ''h'')"
  let ?W = "demo_world [?rec]" and ?data = "data_dir (lit ''h'')"
  let ?A = "\<lparr>ag_exe = Inr (lit ''e''), ag_agents_dir = None, ag_logs_dir = None, ag_write = None, ag_launchctl = Inr (True, []), ag_remove = None\<rparr>"
  have none: "db_records (loaded_registry ?W ?data demo_disk) = []" by (rule demo_empty [OF demo_reads demo_home(2)])
  then have "db_records (registry_upsert ?rec (loaded_registry ?W ?data demo_disk)) = [?rec]" by (simp add: registry_upsert_def)
  from saved_ok [OF demo_home(2) _ this] obtain d1 where "save_registry ?W (registry_upsert ?rec (loaded_registry ?W ?data demo_disk)) demo_disk = (d1, Ok ())"
    by fastforce
  then have reg: "\<exists>line. register_default ?W (lit ''h'') demo_disk = (d1, [Stdout line])"
    using none by (simp add: register_default_def ensure_default_root_def unsaved_warning_def flip: data_dir_def)
  have printed: "\<exists>ls. install_notes True = map Stdout ls"
    by (simp add: install_notes_def Cons_eq_map_conv)
  have run: "\<exists>d' lines. cmd_install ?W ?A (lit ''h'') True demo_disk = (d', map Stdout lines, 0)"
    using reg printed by (auto simp: cmd_install_def launchd_install_def Let_def Cons_eq_map_conv)
  then obtain d' lines where run: "cmd_install ?W ?A (lit ''h'') True demo_disk = (d', map Stdout lines, 0)" by blast
  let ?ev = "\<lparr>ev_readable = True, ev_opens = True, ev_files = disk_files d',
      ev_registry = (\<lambda>dir. loaded_registry ?W dir d'), ev_default = default_db (lit ''h'')\<rparr>"
  have "ag_exe ?A = Inr (lit ''e'')" "ev_files ?ev = disk_files d'" "ev_registry ?ev = (\<lambda>dir. loaded_registry ?W dir d')" by simp_all
  from install_registers_home [OF run none demo_home(1) demo_disk_wf demo_format this(1) demo_reads refl this(2,3)] run
  show ?thesis by blast
qed

end
