(* ===== verification/Frontend.thy ===== *)
theory Frontend
  imports Commands
begin

section \<open>Searching and indexing from the command line (crates/deepfind/src/main.rs)\<close>

text \<open>
  The commands \<open>search\<close> and \<open>index\<close> as a whole: which of the daemon, the direct scan and the build in the
  foreground they use, what they print on both streams, the commands \<open>-x\<close> runs, the exit status, and the
  files an index leaves. The connection to the daemon and the scan are arguments; \<open>Client\<close> has them.
\<close>

subsection \<open>\<open>deepfind search\<close>\<close>

definition show_count :: "nat \<Rightarrow> str" where
  "show_count n = lit (show_nat n)"

definition warn_if_stale :: "nat option \<Rightarrow> str list" where
  "warn_if_stale age = (case stale_days age of None \<Rightarrow> []
   | Some days \<Rightarrow> [lit ''warning: index is '' @ show_count days @
       lit '' days old; results may be stale. Run '' @ in_quotes (lit ''deepfind index'') @ lit '' to refresh.''])"

definition mismatch_warning :: "found \<Rightarrow> u32 \<Rightarrow> str list" where
  "mismatch_warning r n = (if total_mismatch r n
     then [lit ''warning: daemon reported '' @ show_count (unat n) @ lit '' results but delivered '' @
       show_count (length (fst r)) @ lit '' paths / '' @ show_count (length (snd r)) @ lit '' lines''] else [])"

text \<open>\<open>run\<close>: the error of starting a shell with the command, or whether the command succeeded.\<close>

definition exec_on :: "(str \<Rightarrow> str + bool) \<Rightarrow> hit list \<Rightarrow> str \<Rightarrow> str list" where
  "exec_on run results template = concat (map (\<lambda>cmd. case run cmd of
       Inr True \<Rightarrow> []
     | Inr False \<Rightarrow> [lit ''deepfind: command failed: '' @ cmd]
     | Inl e \<Rightarrow> [lit ''deepfind: could not run '' @ cmd @ lit '': '' @ e]) (exec_commands results template))"

text \<open>How a search ends: the output, the lines of complaint, the commands that were run, the status. A
  panic of the highlighting ends the program.\<close>

record search_end =
  se_out :: str
  se_err :: "str list"
  se_ran :: "str list"
  se_status :: nat

definition show_found ::
  "unicode \<Rightarrow> (i64 \<Rightarrow> str) \<Rightarrow> bool \<Rightarrow> (str \<Rightarrow> str + bool) \<Rightarrow> str option \<Rightarrow> output_mode \<Rightarrow> str \<Rightarrow> str list \<Rightarrow> found \<Rightarrow> search_end res" where
  "show_found U humansize is_tty run template mode pattern err r = (case template of
     Some t \<Rightarrow> Ok \<lparr>se_out = [], se_err = err @ exec_on run (fst r) t, se_ran = exec_commands (fst r) t, se_status = 0\<rparr>
   | None \<Rightarrow> bind_o (print_results U humansize is_tty r mode pattern) (\<lambda>text.
       Ok \<lparr>se_out = text, se_err = err, se_ran = [], se_status = 0\<rparr>))"

definition search_fails :: "str list \<Rightarrow> str \<Rightarrow> search_end" where
  "search_fails err msg = \<lparr>se_out = [], se_err = err @ [msg], se_ran = [], se_status = 1\<rparr>"

definition cmd_search ::
  "(str list \<Rightarrow> found \<Rightarrow> search_end res) \<Rightarrow> nat option \<Rightarrow> (search_request \<Rightarrow> str + found \<times> u32) \<Rightarrow>
   (search_request \<Rightarrow> str + found) \<Rightarrow> search_request \<Rightarrow> search_end res" where
  "cmd_search finish_with age daemon direct req =
     (let stale = warn_if_stale age;
          scan = (\<lambda>err. case direct req of
            Inr r \<Rightarrow> finish_with err r
          | Inl e \<Rightarrow> Ok (search_fails err (lit ''direct scan failed: '' @ e))) in
      if so_direct (sr_opts req) then scan []
      else case daemon req of
        Inr (r, n) \<Rightarrow> finish_with (stale @ mismatch_warning r n) r
      | Inl e \<Rightarrow> if is_daemon_unreachable e
          then scan (stale @ [lit ''(daemon unavailable: '' @ e @ lit ''; falling back to --direct)''])
          else Ok (search_fails stale (lit ''error: '' @ e)))"

subsection \<open>\<open>deepfind index\<close>\<close>

definition index_names :: "world \<Rightarrow> bytes \<Rightarrow> str option \<Rightarrow> index_args \<Rightarrow> disk \<Rightarrow> ended option" where
  "index_names W h var a d = map_option (\<lambda>(d, r). case r of
       Ok n \<Rightarrow> (d, [Stdout (lit ''indexed '' @ show_count (unat n) @ lit '' entries (filename only) -> '' @ show_path (default_db h))], 0)
     | Err e \<Rightarrow> (d, [Stderr (lit ''index failed: '' @ show_index e)], 1)
     | Panic \<Rightarrow> (d, [], 101))
     (build_index_with (wo_zstd W) (wo_unicode W) (wo_gitignore W) (wo_doc_schedule W)
       (file_save (wo_succeeds W) (wo_partial W)) (wo_now W) (ia_root a) (wo_tree W (ia_root a) (ia_hidden a) False)
       (components (default_db h)) (skip_of_args var a)
       (ignore_patterns (settings_load (wo_json W) (disk_files d) (data_dir h))) d)"

definition index_lines :: "bytes \<Rightarrow> content_report \<Rightarrow> printed list" where
  "index_lines db r =
     [Stdout (lit ''indexed '' @ show_count (unat (cr_filename_docs r)) @ lit '' entries ('' @ show_count (unat (cr_content_docs r)) @
       lit '' content docs, '' @ show_count (unat (cr_shards r)) @ lit '' shards) -> '' @ show_path db)] @
     (if cr_denied r > 0 then [Stderr (lit ''warning: '' @ show_count (unat (cr_denied r)) @
       lit '' entries skipped (permission denied). Grant Full Disk Access in System Settings '' @ right_arrow @
       lit '' Privacy & Security.'')] else []) @
     (if cr_skipped_binary r + cr_skipped_large r > 0 then [Stderr (lit ''note: '' @ show_count (unat (cr_skipped_binary r)) @
       lit '' files content-skipped (binary), '' @ show_count (unat (cr_skipped_large r)) @ lit '' (oversized).'')] else [])"

definition index_content :: "world \<Rightarrow> bytes \<Rightarrow> str option \<Rightarrow> index_args \<Rightarrow> disk \<Rightarrow> ended option" where
  "index_content W h var a d = (case path_parent (default_db h) of
     None \<Rightarrow> Some (d, [], 101)
   | Some dir \<Rightarrow> map_option (\<lambda>(d, r). case r of
         Ok r \<Rightarrow> (d, index_lines (default_db h) r, 0)
       | Err e \<Rightarrow> (d, [Stderr (lit ''index failed: '' @ show_index e)], 1)
       | Panic \<Rightarrow> (d, [], 101))
       (build_content_index (wo_zstd W) (wo_unicode W) (wo_gitignore W) (wo_schedule W)
         (file_save (wo_succeeds W) (wo_partial W)) (wo_mkdir W) (wo_now W) (ia_root a)
         (wo_tree W (ia_root a) (ia_hidden a) (ia_one_file_system a)) (components (default_db h))
         (components (path_join dir (lit ''content'')))
         (own_options (settings_load (wo_json W) (disk_files d) (data_dir h)) var a) d))"

definition index_here :: "world \<Rightarrow> bytes \<Rightarrow> str option \<Rightarrow> index_args \<Rightarrow> disk \<Rightarrow> ended option" where
  "index_here W h var a d = (if ia_no_content a then index_names W h var a d else index_content W h var a d)"

definition index_submit ::
  "world \<Rightarrow> bytes \<Rightarrow> str option \<Rightarrow> (index_request \<Rightarrow> str + bool \<times> str) \<Rightarrow> index_args \<Rightarrow> disk \<Rightarrow> ended option" where
  "index_submit W h var submit a d =
     (if \<not> ia_foreground a \<and> \<not> ia_no_content a
      then case submit (submitted var a) of
          Inr (accepted, message) \<Rightarrow> Some (d, [Stdout message], 0)
        | Inl e \<Rightarrow> if is_daemon_unreachable e
            then map_option (\<lambda>(d, lines, code). (d, Stderr (lit ''(daemon unavailable: '' @ e @ lit ''; building in foreground)'') # lines, code))
              (index_here W h var a d)
            else Some (d, [Stderr (lit ''error: '' @ e)], 1)
      else index_here W h var a d)"

definition cmd_index ::
  "world \<Rightarrow> bytes \<Rightarrow> nat option \<Rightarrow> str option \<Rightarrow> (index_request \<Rightarrow> str + bool \<times> str) \<Rightarrow> index_args \<Rightarrow> disk \<Rightarrow> ended option" where
  "cmd_index W h now var submit a d =
     (case if ia_force a then None else index_build_age now (open_reader (disk_files d) (default_db h)) of
        Some age \<Rightarrow> if age < FRESH_THRESHOLD_SECS
          then Some (d, [Stdout (lit ''index is fresh (built '' @ show_count age @ lit ''s ago), skipping. Use --force to rebuild.'')], 0)
          else index_submit W h var submit a d
      | None \<Rightarrow> index_submit W h var submit a d)"

subsection \<open>A search, printed\<close>

lemma split_on_ended: "\<forall>p\<in>set ps. c \<notin> set p \<Longrightarrow> split_on c (concat (map (\<lambda>p. p @ [c]) ps)) = ps @ [[]]"
  by (induction ps) (simp_all add: split_on_append split_on_free)

text \<open>
  C39. The printed paths are the results. A search that the daemon answers ends with status 0, and what it
  prints, plainly or with \<open>-0\<close>, splits at the line ends or at the null bytes into exactly the paths of the
  answer in their order, as long as no path contains the separator.
\<close>

theorem search_prints_results:
  assumes "\<not> so_direct (sr_opts req)" and "daemon req = Inr (r, n)" and "\<not> out_count mode"
    and "snd r = [] \<or> \<not> out_line_number mode \<and> out_context mode = None"
    and "out_null mode \<or> \<not> out_long mode \<and> out_color mode = lit ''never''"
    and "sep = (if out_null mode then 0 else 10)" and "\<forall>p\<in>set (map fst (fst r)). sep \<notin> set p"
  shows "\<exists>e. cmd_search (show_found U humansize is_tty run None mode pattern) age daemon direct req = Ok e \<and>
    se_status e = 0 \<and> se_ran e = [] \<and> split_on sep (se_out e) = map fst (fst r) @ [[]]"
proof -
  let ?ps = "map fst (fst r)"
  have plain: "result_line U humansize mode False pattern h = Ok (fst h @ [10])" if "\<not> out_long mode" for h
    using that by (cases h) (simp add: result_line_def highlight_def)
  have null: "map (\<lambda>(path, _, _). path @ [0]) hs = map ((\<lambda>p. p @ [0]) \<circ> fst) hs" for hs :: "hit list"
    by (induction hs) auto
  have off: "lit ''never'' \<noteq> lit ''always''" by code_simp
  have lines: "\<not> ((out_line_number mode \<or> out_context mode \<noteq> None) \<and> snd r \<noteq> [])" using assms(4) by auto
  have "print_results U humansize is_tty r mode pattern = Ok (concat (map (\<lambda>p. p @ [sep]) ?ps))"
  proof (cases "out_null mode")
    case True
    then show ?thesis using lines assms(3,6) by (cases r) (auto simp: print_results_def null)
  next
    case False
    then have "map_o (result_line U humansize mode False pattern) (fst r) = Ok (map (\<lambda>h. fst h @ [10]) (fst r))"
      using assms(5) plain by (intro map_o_Ok) simp
    then show ?thesis using False lines assms(3,5,6) off by (cases r) (auto simp: print_results_def comp_def)
  qed
  then show ?thesis using assms(1,2) split_on_ended [OF assms(7)]
    by (simp add: cmd_search_def show_found_def)
qed

theorem search_prints_results_witness:
  "\<exists>e. cmd_search (show_found ascii_tables (\<lambda>n. []) False (\<lambda>c. Inr True) None
      \<lparr>out_long = False, out_color = lit ''never'', out_null = True, out_count = False, out_line_number = False,
        out_context = None, out_case_sensitive = False\<rparr> (lit ''abc'')) None
      (\<lambda>req. Inr (([(lit ''a b'', \<lparr>is_dir = False, file_size = 0, mtime = 0\<rparr>, Filename),
        (lit ''c'', \<lparr>is_dir = False, file_size = 0, mtime = 0\<rparr>, Content)], []), 2)) (\<lambda>req. Inl []) demo_request = Ok e \<and>
    split_on 0 (se_out e) = [lit ''a b'', lit ''c'', []]"
proof -
  let ?mode = "\<lparr>out_long = False, out_color = lit ''never'', out_null = True, out_count = False, out_line_number = False,
        out_context = None, out_case_sensitive = False\<rparr>"
  let ?r = "([(lit ''a b'', \<lparr>is_dir = False, file_size = 0, mtime = 0\<rparr>, Filename),
        (lit ''c'', \<lparr>is_dir = False, file_size = 0, mtime = 0\<rparr>, Content)], []) :: found"
  have d: "\<not> so_direct (sr_opts demo_request)" by (simp add: demo_request_def default_options_def)
  have m: "\<not> out_count ?mode" "snd ?r = [] \<or> \<not> out_line_number ?mode \<and> out_context ?mode = None"
    "out_null ?mode \<or> \<not> out_long ?mode \<and> out_color ?mode = lit ''never''" "0 = (if out_null ?mode then 0 else (10 :: u8))"
    by simp_all
  have "0 \<notin> set (lit ''a b'')" "0 \<notin> set (lit ''c'')" by code_simp+
  then have f: "\<forall>p\<in>set (map fst (fst ?r)). 0 \<notin> set p" by simp
  from search_prints_results [where daemon = "\<lambda>req. Inr (?r, 2)" and direct = "\<lambda>req. Inl []" and age = None and U = ascii_tables
      and humansize = "\<lambda>n. []" and is_tty = False and run = "\<lambda>c. Inr True" and pattern = "lit ''abc''", OF d refl m f]
  show ?thesis by auto
qed

subsection \<open>An index of names only\<close>

lemma default_db_path:
  assumes "clean_dir (data_dir h)"
  shows "components (default_db h) = components (data_dir h) @ [Normal (lit ''db''), Normal (lit ''index.dfdb'')]"
    "components (entry_dir (default_db h)) = components (data_dir h) @ [Normal (lit ''db''), Normal (lit ''content'')]"
  using base_paths [OF assms] by (simp_all add: default_db_def)

text \<open>
  \<open>deepfind index --no-content\<close> replaces the names and nothing else. When it ends with status 0 the
  index file holds the database of the walk, and every file below the shard directory is the one that
  was there: the shards of an earlier build stay, and content queries go on answering from them.
\<close>

theorem names_only_keeps_shards:
  assumes "cmd_index W h now var submit a d = Some (d', lines, 0)" and "ia_no_content a" and "ia_force a"
    and "clean_dir (data_dir h)" and "disk_wf d"
  shows "reads d' (components (default_db h)) = finish (wo_zstd W)
      (fold (\<lambda>r B. fst (insert_with (wo_unicode W) (dr_path r) (dr_dir r) (dr_size r) (dr_mtime r) B))
        (fst (collect_records (wo_doc_schedule W) (skip_list (skip_of_args var a))
          (compile_ignore_matcher (wo_gitignore W) (ia_root a)
            (ignore_patterns (settings_load (wo_json W) (disk_files d) (data_dir h))))
          (wo_tree W (ia_root a) (ia_hidden a) False)))
        (set_build_time (wo_now W) new_builder)) \<and>
    (\<forall>q. strict_prefix (components (entry_dir (default_db h))) q \<longrightarrow> reads d' q = reads d q)"
proof -
  let ?db = "components (default_db h)"
  note p = default_db_path [OF assms(4)]
  let ?B = "fold (\<lambda>r B. fst (insert_with (wo_unicode W) (dr_path r) (dr_dir r) (dr_size r) (dr_mtime r) B))
        (fst (collect_records (wo_doc_schedule W) (skip_list (skip_of_args var a))
          (compile_ignore_matcher (wo_gitignore W) (ia_root a)
            (ignore_patterns (settings_load (wo_json W) (disk_files d) (data_dir h))))
          (wo_tree W (ia_root a) (ia_hidden a) False)))
        (set_build_time (wo_now W) new_builder)"
  obtain d1 r where b: "build_index_with (wo_zstd W) (wo_unicode W) (wo_gitignore W) (wo_doc_schedule W)
       (file_save (wo_succeeds W) (wo_partial W)) (wo_now W) (ia_root a) (wo_tree W (ia_root a) (ia_hidden a) False)
       ?db (skip_of_args var a) (ignore_patterns (settings_load (wo_json W) (disk_files d) (data_dir h))) d = Some (d1, r)"
    using assms(1-3) by (auto simp: cmd_index_def index_submit_def index_here_def index_names_def)
  then obtain k where k: "r = Ok k" "d1 = d'"
    using assms(1-3) by (cases r) (auto simp: cmd_index_def index_submit_def index_here_def index_names_def)
  obtain F where F: "finish (wo_zstd W) ?B = Some F" "file_save (wo_succeeds W) (wo_partial W) ?db F d = (d', Ok ())"
    using b unfolding k by (auto simp: build_index_with_def build_index_report_def Let_def bind_o_eq_Ok split: option.splits prod.splits)
  note s = F(2)
  have "reads d' q = reads d q" if "strict_prefix (components (entry_dir (default_db h))) q" for q
  proof (rule disk.save_frame [OF assms(5) s])
    have q: "butlast q \<noteq> butlast ?db" "q \<noteq> ?db" using that unfolding p by (auto simp: strict_prefix_def prefix_def butlast_append split: if_splits)
    then show "q \<noteq> ?db" by blast
    show "temporary ?db \<noteq> Some q" using q(1) by (auto simp: temporary_def tmp_of_def)
  qed
  then show ?thesis using disk.save_done [OF assms(5) s] F(1) by simp
qed

theorem names_only_keeps_shards_witness:
  "\<exists>d' lines. cmd_index (demo_world []) (lit ''h'') None None (\<lambda>req. Inl [])
      \<lparr>ia_root = [0x2E], ia_force = True, ia_skip = [], ia_max_file_size = 0, ia_no_content = True,
        ia_one_file_system = False, ia_hidden = False, ia_foreground = False\<rparr> demo_disk = Some (d', lines, 0) \<and>
    reads d' (components (path_join (entry_dir (default_db (lit ''h''))) (lit ''MANIFEST''))) = None"
proof -
  let ?W = "demo_world []" and ?a = "\<lparr>ia_root = [0x2E], ia_force = True, ia_skip = [], ia_max_file_size = 0, ia_no_content = True,
        ia_one_file_system = False, ia_hidden = False, ia_foreground = False\<rparr>"
  have none: "ignore_patterns (settings_load (wo_json ?W) (disk_files demo_disk) (data_dir (lit ''h''))) = []"
    by (simp add: settings_load_def read_to_string_def demo_reads default_settings_def)
  have utf: "from_utf8 [0x61] = Some [0x61]" by (simp add: from_utf8_def valid_ascii)
  have recs: "fst (collect_records (\<lambda>vs. vs) (skip_list []) (compile_ignore_matcher demo_gitignore [0x2E] []) demo_tree) =
      [\<lparr>dr_path = [0x61], dr_dir = False, dr_size = 4, dr_mtime = 7\<rparr>]"
    by (simp add: collect_records_def demo_tree_def visit_doc_def pruned_name_def matched_ignored_def compile_ignore_matcher_def
        entry_size_mtime_def List.map_filter_simps utf Let_def)
  let ?B = "fst (insert_with ascii_tables [0x61] False 4 7 (set_build_time 5 new_builder))"
  have "wf_builder ascii_tables ?B"
    by (rule wf_insert) (simp_all add: valid_ascii, simp add: set_build_time_def new_builder_def)
  then obtain F where F: "finish stored_zstd ?B = Some F" using finish_finished by blast
  have "name_of (components (default_db (lit ''h''))) = Some (lit ''index.dfdb'')" by code_simp
  from file_save_succeeds [OF this] obtain d' where s: "file_save (\<lambda>op. True) 0 (components (default_db (lit ''h''))) F demo_disk = (d', Ok ())"
    by blast
  obtain denied where c: "collect_records (\<lambda>vs. vs) (skip_list []) (compile_ignore_matcher demo_gitignore [0x2E] []) demo_tree =
      ([\<lparr>dr_path = [0x61], dr_dir = False, dr_size = 4, dr_mtime = 7\<rparr>], denied)" using recs by (cases "collect_records (\<lambda>vs. vs) (skip_list [])
      (compile_ignore_matcher demo_gitignore [0x2E] []) demo_tree") simp
  have run: "\<exists>lines. cmd_index ?W (lit ''h'') None None (\<lambda>req. Inl []) ?a demo_disk = Some (d', lines, 0)"
    by (simp add: cmd_index_def index_submit_def index_here_def index_names_def build_index_with_def build_index_report_def
        none skip_of_args_def c F s Let_def)
  have a: "ia_no_content ?a" "ia_force ?a" by simp_all
  have "strict_prefix (components (entry_dir (default_db (lit ''h''))))
      (components (path_join (entry_dir (default_db (lit ''h''))) (lit ''MANIFEST'')))" by code_simp
  note below = this
  obtain lines where r: "cmd_index ?W (lit ''h'') None None (\<lambda>req. Inl []) ?a demo_disk = Some (d', lines, 0)" using run by blast
  have "reads d' (components (path_join (entry_dir (default_db (lit ''h''))) (lit ''MANIFEST''))) = None"
    using conjunct2 [OF names_only_keeps_shards [OF r a demo_home(2) demo_disk_wf], THEN spec, THEN mp, OF below]
    unfolding demo_reads .
  then show ?thesis using r by blast
qed

end
