(* ===== verification/Transport.thy ===== *)
theory Transport
  imports Client
begin

section \<open>Messages on the socket (crates/df-ipc/src/wire.rs; handle_conn of crates/deepfindd/src/lib.rs)\<close>

text \<open>
  Both ends put each message in a frame with its length and read frames until the stream ends. The
  framing is tokio's: it refuses a message that is longer than its limit (8 MiB, which \<open>framed\<close> leaves
  as it is), at both ends. The daemon gives up a connection at the first message that cannot be encoded
  or framed; what it has sent by then stays on the stream.
\<close>

subsection \<open>Framing\<close>

text \<open>\<open>fr_take\<close>: the end of the stream, or the next item and what is left.\<close>

record framing =
  fr_put :: "bytes \<Rightarrow> str + bytes"
  fr_take :: "bytes \<Rightarrow> ((str + bytes) \<times> bytes) option"

definition framing_ok :: "framing \<Rightarrow> nat \<Rightarrow> bool" where
  "framing_ok F limit \<longleftrightarrow>
     (\<forall>b. length b \<le> limit \<longrightarrow> (\<exists>w. fr_put F b = Inr w \<and> (\<forall>rest. fr_take F (w @ rest) = Some (Inr b, rest)))) \<and>
     (\<forall>b. limit < length b \<longrightarrow> (\<exists>e. fr_put F b = Inl e)) \<and>
     fr_take F [] = None \<and> (\<forall>w x rest. fr_take F w = Some (x, rest) \<longrightarrow> length rest < length w)"

text \<open>The items a reader gets; every frame takes at least one byte of the fuel.\<close>

fun read_items :: "framing \<Rightarrow> nat \<Rightarrow> bytes \<Rightarrow> (str + bytes) list" where
  "read_items F 0 w = []"
| "read_items F (Suc n) w = (case fr_take F w of None \<Rightarrow> [] | Some (x, rest) \<Rightarrow> x # read_items F n rest)"

subsection \<open>The two ends\<close>

fun send_all :: "framing \<Rightarrow> response_frame codec \<Rightarrow> response_frame list \<Rightarrow> bytes" where
  "send_all F c [] = []"
| "send_all F c (f # fs) = (case ipc_result (encode_frame c f) of
     Inl e \<Rightarrow> []
   | Inr b \<Rightarrow> (case fr_put F b of Inl e \<Rightarrow> [] | Inr w \<Rightarrow> w @ send_all F c fs))"

text \<open>Exactly one request is read. A stream that ends, a broken frame and a request that does not decode
  are answered with nothing, and so is one whose handler panics.\<close>

definition handle_conn ::
  "framing \<Rightarrow> request codec \<Rightarrow> response_frame codec \<Rightarrow> (request \<Rightarrow> response_frame list res) \<Rightarrow> bytes \<Rightarrow> bytes" where
  "handle_conn F qc fc handle w = (case fr_take F w of
     Some (Inr b, rest) \<Rightarrow> (case decode_request qc b of
         Ok req \<Rightarrow> (case handle req of Ok fs \<Rightarrow> send_all F fc fs | _ \<Rightarrow> [])
       | _ \<Rightarrow> [])
   | _ \<Rightarrow> [])"

definition framed :: "framing \<Rightarrow> (bytes \<Rightarrow> bytes) \<Rightarrow> connection" where
  "framed F peer = Inr (\<lambda>b. and_next (fr_put F b) (\<lambda>w. Inr (read_items F (length (peer w)) (peer w))))"

subsection \<open>What arrives\<close>

text \<open>The messages that are sent: those before the first that cannot be.\<close>

fun sendable :: "nat \<Rightarrow> response_frame codec \<Rightarrow> response_frame list \<Rightarrow> bytes list" where
  "sendable limit c [] = []"
| "sendable limit c (f # fs) = (case ipc_result (encode_frame c f) of
     Inl e \<Rightarrow> [] | Inr b \<Rightarrow> if length b \<le> limit then b # sendable limit c fs else [])"

lemma fr_put_cases:
  assumes "framing_ok F limit"
  obtains (fits) w where "length b \<le> limit" "fr_put F b = Inr w" "\<And>rest. fr_take F (w @ rest) = Some (Inr b, rest)" "w \<noteq> []"
  | (long) e where "limit < length b" "fr_put F b = Inl e"
proof (cases "length b \<le> limit")
  case True
  then obtain w where w: "fr_put F b = Inr w" "\<And>rest. fr_take F (w @ rest) = Some (Inr b, rest)"
    using assms unfolding framing_ok_def by blast
  moreover have "w \<noteq> []" using w(2) [of "[]"] assms by (auto simp: framing_ok_def)
  ultimately show thesis using True fits by blast
next
  case False
  then show thesis using assms long unfolding framing_ok_def by (meson not_le)
qed

lemma read_items_done: "framing_ok F limit \<Longrightarrow> read_items F n [] = []"
  by (cases n) (simp_all add: framing_ok_def)

lemma read_sent:
  assumes "framing_ok F limit" "length (send_all F c fs) \<le> n"
  shows "read_items F n (send_all F c fs) = map Inr (sendable limit c fs)"
  using assms(2)
proof (induction fs arbitrary: n)
  case Nil
  then show ?case using read_items_done [OF assms(1)] by simp
next
  case (Cons f fs)
  show ?case
  proof (cases "ipc_result (encode_frame c f)")
    case (Inl e)
    then show ?thesis using read_items_done [OF assms(1)] by simp
  next
    case (Inr b)
    show ?thesis using assms(1)
    proof (cases rule: fr_put_cases [where b = b])
      case (fits w)
      then obtain m where n: "n = Suc m" "length (send_all F c fs) \<le> m" using Cons.prems Inr by (cases n; cases w) auto
      then show ?thesis using fits Inr Cons.IH [of m] by simp
    next
      case (long e)
      then show ?thesis using Inr read_items_done [OF assms(1)] by simp
    qed
  qed
qed

lemma sendable_all:
  "\<forall>f\<in>set fs. \<exists>b. encode_frame c f = Ok b \<and> length b \<le> limit \<Longrightarrow>
     map Inr (sendable limit c fs) = map (\<lambda>f. ipc_result (encode_frame c f)) fs"
  by (induction fs) auto

lemma sendable_prefix:
  assumes "\<forall>f\<in>set fs. \<exists>b. encode_frame c f = Ok b" "f \<in> set fs" "encode_frame c f = Ok b" "limit < length b"
  shows "\<exists>pre f' post. fs = pre @ f' # post \<and> map Inr (sendable limit c fs) = map (\<lambda>f. ipc_result (encode_frame c f)) pre"
  using assms(1,2)
proof (induction fs)
  case (Cons g fs)
  obtain b' where b': "encode_frame c g = Ok b'" using Cons.prems(1) by auto
  show ?case
  proof (cases "length b' \<le> limit")
    case True
    then have "f \<in> set fs" using Cons.prems(2) b' assms(3,4) by auto
    then obtain pre f' post where "fs = pre @ f' # post" "map Inr (sendable limit c fs) = map (\<lambda>f. ipc_result (encode_frame c f)) pre"
      using Cons.IH Cons.prems(1) by auto
    then show ?thesis using True b' by (intro exI [of _ "g # pre"] exI [of _ f'] exI [of _ post]) simp
  next
    case False
    then show ?thesis using b' by (intro exI [of _ "[]"] exI [of _ g] exI [of _ fs]) simp
  qed
qed simp

text \<open>
  C25. The client gets the answer of the daemon over the socket, if no message is too long. When every
  message of the answer fits the limit of the framing, the client ends up with exactly the results and
  lines of the answer and their number, or the message of its error. When one does not, the daemon drops
  the connection, and the client reports a stream that ended early, whatever it has received: for a
  search with line numbers 512 lines share a message, and a line can be as long as an indexed file.
\<close>

theorem answer_over_socket:
  assumes "framing_ok F limit" and "codec_ok qc" and "codec_ok fc" and "encode_request qc req = Ok b" and "length b \<le> limit"
    and "\<forall>f\<in>set fs. \<exists>b. encode_frame fc f = Ok b" and "handle_search E shuffle file_mtime snapshot req = Ok fs"
  shows "daemon_search qc fc
      (framed F (handle_conn F qc fc (handle_request E shuffle file_mtime spawn reg h path parent snapshot))) req =
    (if \<forall>f\<in>set fs. \<forall>b. encode_frame fc f = Ok b \<longrightarrow> length b \<le> limit
     then case fs of [Error msg] \<Rightarrow> Inl msg
       | _ \<Rightarrow> Inr ((answer_hits fs, answer_lines fs), of_nat (length (answer_hits fs) + length (answer_lines fs)))
     else Inl (lit ''daemon stream ended early''))"
proof -
  obtain w where w: "fr_put F b = Inr w" "\<And>rest. fr_take F (w @ rest) = Some (Inr b, rest)"
    using fr_put_cases [OF assms(1), of b] assms(5) by (metis not_le)
  have "decode_request qc b = Ok (Search req)"
    using decode_encode_with [OF assms(2), of "''encode request: ''" "Search req" b "''decode request: ''"] assms(4)
    by (simp add: encode_request_def encode_request_enum_def decode_request_def)
  then have "handle_conn F qc fc (handle_request E shuffle file_mtime spawn reg h path parent snapshot) w = send_all F fc fs"
    using w(2) [of "[]"] by (simp add: handle_conn_def handle_request_def assms(7))
  then have got: "daemon_search qc fc (framed F (handle_conn F qc fc
      (handle_request E shuffle file_mtime spawn reg h path parent snapshot))) req =
    receive fc (map Inr (sendable limit fc fs)) ([], [])"
    using w(1) assms(4) read_sent [OF assms(1) order_refl] by (simp add: daemon_search_def framed_def)
  have ok: "answer_ok fs"
    using search_frames [OF assms(7)] line_frames_ok batch_frames_ok by (auto simp: answer_ok_def)
  show ?thesis
  proof (cases "\<forall>f\<in>set fs. \<forall>b. encode_frame fc f = Ok b \<longrightarrow> length b \<le> limit")
    case True
    then have "\<forall>f\<in>set fs. \<exists>b. encode_frame fc f = Ok b \<and> length b \<le> limit" using assms(6) by fastforce
    from sendable_all [OF this] show ?thesis using True receive_answer [OF assms(3) ok assms(6)] got by simp
  next
    case False
    then obtain f c where f: "f \<in> set fs" "encode_frame fc f = Ok c" "limit < length c" by fastforce
    obtain pre f' post where pre: "fs = pre @ f' # post" "map Inr (sendable limit fc fs) = map (\<lambda>f. ipc_result (encode_frame fc f)) pre"
      using sendable_prefix [OF assms(6) f] by blast
    have "batch_ok g \<or> lines_ok g" if "g \<in> set pre" for g
      using ok that unfolding answer_ok_def pre(1)
      by (auto simp: list_all_iff append_eq_append_conv2 Cons_eq_append_conv append_eq_Cons_conv)
    then have "\<forall>g\<in>set pre. (\<exists>b. encode_frame fc g = Ok b) \<and> (batch_ok g \<or> lines_ok g)" using assms(6) pre(1) by simp
    from receive_body [OF assms(3) this, of "[]" "[]" "[]"] show ?thesis
      unfolding got pre(2) if_not_P [OF False] by simp
  qed
qed

subsection \<open>A length before each message\<close>

definition length_framing :: "nat \<Rightarrow> framing" where
  "length_framing limit = \<lparr>
     fr_put = (\<lambda>b. if length b \<le> limit then Inr (rev (to_le (of_nat (length b) :: u32)) @ b) else Inl (lit ''frame size too big'')),
     fr_take = (\<lambda>w. if w = [] then None
       else if length w < 4 then Some (Inl (lit ''bytes remaining on stream''), [])
       else let n = unat (from_le (rev (take 4 w)) :: u32) in
         if n > limit then Some (Inl (lit ''frame size too big''), [])
         else if length w < 4 + n then Some (Inl (lit ''bytes remaining on stream''), [])
         else Some (Inr (take n (drop 4 w)), drop (4 + n) w))\<rparr>"

lemma length_framing_ok:
  assumes "limit < 2 ^ 32"
  shows "framing_ok (length_framing limit) limit"
proof -
  have "\<exists>w. fr_put (length_framing limit) b = Inr w \<and> (\<forall>rest. fr_take (length_framing limit) (w @ rest) = Some (Inr b, rest))"
    if "length b \<le> limit" for b
  proof -
    let ?n = "of_nat (length b) :: u32"
    have n: "unat ?n = length b" using that assms by (intro unat_of_nat_u32) simp
    have l: "length (to_le ?n) = 4" by simp
    have "rev (to_le ?n) \<noteq> []" using l by (metis length_rev list.size(3) zero_neq_numeral)
    then show ?thesis using that n l by (simp add: length_framing_def Let_def)
  qed
  moreover have "length rest < length w" if "fr_take (length_framing limit) w = Some (x, rest)" for w x rest
    using that by (cases w) (auto simp: length_framing_def Let_def split: if_splits)
  ultimately show ?thesis unfolding framing_ok_def by (simp add: length_framing_def)
qed

theorem answer_over_socket_witness:
  "daemon_search demo_request_codec demo_frame_codec (framed (length_framing (8 * 1024 * 1024))
      (handle_conn (length_framing (8 * 1024 * 1024)) demo_request_codec demo_frame_codec
      (handle_request demo_engines rev (\<lambda>f. None) (\<lambda>b. True) \<lparr>registry_path = [], db_records = []\<rparr> [] [] [] []))) demo_request =
    Inr (([], []), 0)"
proof -
  have c: "codec_ok demo_request_codec" "codec_ok demo_frame_codec"
    by (auto simp: codec_ok_def demo_request_codec_def demo_frame_codec_def split: request.splits response_frame.splits if_splits)
  have F: "framing_ok (length_framing (8 * 1024 * 1024)) (8 * 1024 * 1024)" by (rule length_framing_ok) simp
  have q: "encode_request demo_request_codec demo_request = Ok [1]" "length [1 :: u8] \<le> 8 * 1024 * 1024"
    by (simp_all add: encode_request_def encode_request_enum_def encode_with_def demo_request_codec_def)
  have f: "\<forall>f\<in>set [Done 0]. \<exists>b. encode_frame demo_frame_codec f = Ok b"
    by (simp add: encode_frame_def encode_with_def demo_frame_codec_def)
  have s: "\<forall>f\<in>set [Done 0]. \<forall>b. encode_frame demo_frame_codec f = Ok b \<longrightarrow> length b \<le> 8 * 1024 * 1024"
    by (auto simp: encode_frame_def encode_with_def demo_frame_codec_def)
  have h: "handle_search demo_engines rev (\<lambda>f. None) [] demo_request = Ok [Done 0]"
    by (simp add: handle_search_def demo_request_def default_options_def compile_regex_def select_def select_named_def
        merge_entries_def batch_frames_def chunks.simps STREAM_CHUNK_def)
  show ?thesis
    using answer_over_socket [OF F c q f h, of "\<lambda>b. True"] unfolding if_P [OF s] by (simp add: answer_hits_def answer_lines_def)
qed

end
