(* ===== verification/Watching.thy ===== *)
theory Watching
  imports Jobs
begin

section \<open>The loop of a watcher (watch::run of crates/deepfindd/src/lib.rs)\<close>

text \<open>
  The notifications of the file system arrive in a channel; the loop takes a batch, sleeps, takes what
  has arrived meanwhile, and reads every path of the batch anew, one after the other. Files change at
  any time, also while a batch is read. What the overlay says once the channel is empty is nevertheless
  what is on disk, for every path whose last change was announced.
\<close>

subsection \<open>The loop\<close>

datatype loop_stage =
    Waiting
  | Draining "bytes list"
  | Sleeping "bytes list"
  | Settling "bytes list"
  | Recording "bytes list" "wal_record list"

text \<open>\<open>wl_view\<close> is what the overlay holds, which \<open>record_and_apply\<close> implements. \<open>wl_touched\<close> are the
  paths whose last change was announced, since the overlay was emptied.\<close>

record watch_loop =
  wl_stat :: stats
  wl_entry :: "bytes \<Rightarrow> walk_entry"
  wl_queue :: "bytes list"
  wl_stage :: loop_stage
  wl_view :: view
  wl_touched :: "bytes set"

text \<open>A change of the files under the paths of one notification, or a step of the loop.\<close>

datatype watch_event =
    Changes "(bytes \<times> (bool \<times> u64 \<times> nat option) option \<times> walk_entry) list"
  | Takes
  | Wakes
  | Reads
  | Applies
  | Compacts

record watch_setup =
  wt_gitignore :: gitignore_crate
  wt_settings :: settings
  wt_max_file_size :: u64
  wt_root :: bytes
  wt_canon_root :: bytes
  wt_data_dir :: bytes

definition local_path :: "watch_setup \<Rightarrow> bytes \<Rightarrow> bytes" where
  "local_path c e = lexify e (wt_root c) (wt_canon_root c)"

definition change_file :: "watch_setup \<Rightarrow> bytes \<times> (bool \<times> u64 \<times> nat option) option \<times> walk_entry \<Rightarrow> watch_loop \<Rightarrow> watch_loop" where
  "change_file c x w = (case x of (e, st, en) \<Rightarrow>
     w\<lparr>wl_stat := (wl_stat w)(local_path c e := st), wl_entry := (wl_entry w)(local_path c e := en)\<rparr>)"

definition changed :: "watch_setup \<Rightarrow> (bytes \<times> (bool \<times> u64 \<times> nat option) option \<times> walk_entry) list \<Rightarrow> watch_loop \<Rightarrow> watch_loop" where
  "changed c xs w =
     (let w = fold (change_file c) xs w;
          sent = sent_paths False (map fst xs) (wt_data_dir c);
          paths = local_path c ` fst ` set xs in
      w\<lparr>wl_queue := wl_queue w @ sent,
        wl_touched := if sent = [] then wl_touched w - paths else wl_touched w \<union> paths\<rparr>)"

definition take_step :: "watch_loop \<Rightarrow> watch_loop option" where
  "take_step w = (case wl_stage w of
     Waiting \<Rightarrow> (case wl_queue w of [] \<Rightarrow> None | e # q \<Rightarrow> Some (w\<lparr>wl_queue := q, wl_stage := Draining [e]\<rparr>))
   | Draining b \<Rightarrow> (case wl_queue w of
         [] \<Rightarrow> Some (w\<lparr>wl_stage := Sleeping b\<rparr>) | e # q \<Rightarrow> Some (w\<lparr>wl_queue := q, wl_stage := Draining (b @ [e])\<rparr>))
   | Settling b \<Rightarrow> (case wl_queue w of
         [] \<Rightarrow> Some (w\<lparr>wl_stage := Recording b []\<rparr>) | e # q \<Rightarrow> Some (w\<lparr>wl_queue := q, wl_stage := Settling (b @ [e])\<rparr>))
   | _ \<Rightarrow> None)"

text \<open>One path is read: filtered by the ignore patterns, then by its metadata and text.\<close>

definition read_step :: "watch_setup \<Rightarrow> watch_loop \<Rightarrow> watch_loop option" where
  "read_step c w = (case wl_stage w of
     Recording (e # b) recs \<Rightarrow> Some (w\<lparr>wl_stage := Recording b (recs @
       batch_records (wt_gitignore c) (wl_stat w) (wl_entry w) (wt_max_file_size c) (wt_settings c) (wt_root c) (wt_canon_root c) [e])\<rparr>)
   | _ \<Rightarrow> None)"

definition apply_step :: "watch_loop \<Rightarrow> watch_loop option" where
  "apply_step w = (case wl_stage w of
     Recording [] recs \<Rightarrow> Some (w\<lparr>wl_stage := Waiting, wl_view := fold record_spec recs (wl_view w)\<rparr>) | _ \<Rightarrow> None)"

text \<open>A compaction comes after a batch; the paths in the channel are recorded again behind it.\<close>

definition watch_step :: "watch_setup \<Rightarrow> watch_event \<Rightarrow> watch_loop \<Rightarrow> watch_loop option" where
  "watch_step c ev w = (case ev of
     Changes xs \<Rightarrow> Some (changed c xs w)
   | Takes \<Rightarrow> take_step w
   | Wakes \<Rightarrow> (case wl_stage w of Sleeping b \<Rightarrow> Some (w\<lparr>wl_stage := Settling b\<rparr>) | _ \<Rightarrow> None)
   | Reads \<Rightarrow> read_step c w
   | Applies \<Rightarrow> apply_step w
   | Compacts \<Rightarrow> if wl_stage w = Waiting
       then Some (w\<lparr>wl_view := (Map.empty, {}), wl_touched := local_path c ` set (wl_queue w)\<rparr>) else None)"

fun run_watch :: "watch_setup \<Rightarrow> watch_event list \<Rightarrow> watch_loop \<Rightarrow> watch_loop option" where
  "run_watch c [] w = Some w"
| "run_watch c (ev # evs) w = Option.bind (watch_step c ev w) (run_watch c evs)"

definition watch_start :: "stats \<Rightarrow> (bytes \<Rightarrow> walk_entry) \<Rightarrow> watch_loop" where
  "watch_start stat entry_at = \<lparr>wl_stat = stat, wl_entry = entry_at, wl_queue = [], wl_stage = Waiting,
     wl_view = (Map.empty, {}), wl_touched = {}\<rparr>"

subsection \<open>What is recorded and what is still to be\<close>

fun in_hand :: "loop_stage \<Rightarrow> bytes list" where
  "in_hand Waiting = []"
| "in_hand (Draining b) = b"
| "in_hand (Sleeping b) = b"
| "in_hand (Settling b) = b"
| "in_hand (Recording b recs) = b"

fun recorded :: "loop_stage \<Rightarrow> wal_record list" where
  "recorded (Recording b recs) = recs"
| "recorded st = []"

definition outstanding :: "watch_setup \<Rightarrow> watch_loop \<Rightarrow> bytes set" where
  "outstanding c w = local_path c ` (set (wl_queue w) \<union> set (in_hand (wl_stage w)))"

definition skipped :: "watch_setup \<Rightarrow> watch_loop \<Rightarrow> bytes \<Rightarrow> bool" where
  "skipped c w p = path_ignored (wl_stat w) (compile_ignore_matcher (wt_gitignore c) (wt_root c) (ignore_patterns (wt_settings c))) p"

text \<open>The view has of a path what the file system has.\<close>

definition up_to_date :: "watch_setup \<Rightarrow> watch_loop \<Rightarrow> view \<Rightarrow> bytes \<Rightarrow> bool" where
  "up_to_date c w v p \<longleftrightarrow> (let x = on_disk (wl_stat w) (wl_entry w) (wt_max_file_size c) p in
     fst v p = x \<and> (p \<in> snd v \<longleftrightarrow> x = None))"

definition watch_inv :: "watch_setup \<Rightarrow> watch_loop \<Rightarrow> bool" where
  "watch_inv c w \<longleftrightarrow>
     (\<forall>e \<in> set (wl_queue w) \<union> set (in_hand (wl_stage w)). valid_utf8 (local_path c e)) \<and>
     (\<forall>p \<in> wl_touched w. \<not> skipped c w p \<longrightarrow> p \<in> outstanding c w \<or>
        up_to_date c w (fold record_spec (recorded (wl_stage w)) (wl_view w)) p)"

definition announced :: "watch_setup \<Rightarrow> watch_event \<Rightarrow> bool" where
  "announced c ev \<longleftrightarrow> (case ev of Changes xs \<Rightarrow> \<forall>x\<in>set xs. valid_utf8 (local_path c (fst x)) | _ \<Rightarrow> True)"

lemma fold_change:
  "wl_queue (fold (change_file c) xs w) = wl_queue w" "wl_stage (fold (change_file c) xs w) = wl_stage w"
  "wl_view (fold (change_file c) xs w) = wl_view w" "wl_touched (fold (change_file c) xs w) = wl_touched w"
  "p \<notin> local_path c ` fst ` set xs \<Longrightarrow> wl_stat (fold (change_file c) xs w) p = wl_stat w p"
  "p \<notin> local_path c ` fst ` set xs \<Longrightarrow> wl_entry (fold (change_file c) xs w) p = wl_entry w p"
  by (induction xs arbitrary: w) (auto simp: change_file_def)

lemma changed_simps [simp]:
  "wl_stage (changed c xs w) = wl_stage w" "wl_view (changed c xs w) = wl_view w"
  "wl_queue (changed c xs w) = wl_queue w @ sent_paths False (map fst xs) (wt_data_dir c)"
  "p \<notin> local_path c ` fst ` set xs \<Longrightarrow> wl_stat (changed c xs w) p = wl_stat w p"
  "p \<notin> local_path c ` fst ` set xs \<Longrightarrow> wl_entry (changed c xs w) p = wl_entry w p"
  by (auto simp: changed_def Let_def fold_change)

lemma same_file:
  assumes "wl_stat w' p = wl_stat w p" "wl_entry w' p = wl_entry w p"
  shows "skipped c w' p = skipped c w p" "up_to_date c w' v p = up_to_date c w v p"
  unfolding skipped_def path_ignored_def up_to_date_def on_disk_def assms by (rule refl)+

lemma changed_inv:
  assumes "watch_inv c w" "\<forall>x\<in>set xs. valid_utf8 (local_path c (fst x))"
  shows "watch_inv c (changed c xs w)"
proof -
  let ?w = "changed c xs w" and ?P = "local_path c ` fst ` set xs" and ?sent = "sent_paths False (map fst xs) (wt_data_dir c)"
  have sent: "set ?sent \<subseteq> fst ` set xs" "?sent \<noteq> [] \<Longrightarrow> set ?sent = fst ` set xs" by (auto simp: sent_paths_def)
  have "p \<in> outstanding c ?w \<or> up_to_date c ?w (fold record_spec (recorded (wl_stage ?w)) (wl_view ?w)) p"
    if p: "p \<in> wl_touched ?w" "\<not> skipped c ?w p" for p
  proof (cases "p \<in> ?P")
    case True
    then have "?sent \<noteq> []" using p(1) by (auto simp: changed_def Let_def fold_change split: if_splits)
    then show ?thesis using True sent(2) by (auto simp: outstanding_def)
  next
    case False
    note same = same_file [of ?w p w, OF changed_simps(4,5) [OF False]]
    have "p \<in> wl_touched w" using p(1) False by (auto simp: changed_def Let_def fold_change split: if_splits)
    then show ?thesis using assms(1) p(2) same by (auto simp: watch_inv_def outstanding_def)
  qed
  then show ?thesis using assms sent(1) by (auto simp: watch_inv_def)
qed

lemma read_inv:
  assumes "watch_inv c w" "read_step c w = Some w'"
  shows "watch_inv c w'"
proof -
  obtain e b recs where st: "wl_stage w = Recording (e # b) recs"
    using assms(2) by (auto simp: read_step_def split: loop_stage.splits list.splits)
  let ?rs = "batch_records (wt_gitignore c) (wl_stat w) (wl_entry w) (wt_max_file_size c) (wt_settings c) (wt_root c) (wt_canon_root c) [e]"
  let ?v = "fold record_spec recs (wl_view w)" and ?p = "local_path c e"
  have w': "w' = w\<lparr>wl_stage := Recording b (recs @ ?rs)\<rparr>" using assms(2) st by (simp add: read_step_def)
  have utf8: "from_utf8_lossy ?p = ?p" using assms(1) st by (simp add: watch_inv_def lossy_valid)
  have rs: "?rs = map (build_record (wl_stat w) (wl_entry w) (wt_max_file_size c)) (if skipped c w ?p then [] else [?p])"
    by (simp add: batch_records_def skipped_def local_path_def Let_def)
  have "\<forall>q\<in>set (if skipped c w ?p then [] else [?p]). from_utf8_lossy q = q" using utf8 by simp
  note now = records_of_disk [OF this, of "wl_stat w" "wl_entry w" "wt_max_file_size c" ?v]
  have "p \<in> outstanding c w' \<or> up_to_date c w' (fold record_spec (recs @ ?rs) (wl_view w)) p"
    if p: "p \<in> wl_touched w" "\<not> skipped c w p" for p
  proof (cases "p = ?p")
    case True
    then show ?thesis using now [of p] p(2) by (simp add: up_to_date_def w' rs Let_def)
  next
    case False
    have "p \<in> outstanding c w \<or> up_to_date c w ?v p" using assms(1) p st by (auto simp: watch_inv_def)
    then show ?thesis using now [of p] False by (auto simp: up_to_date_def outstanding_def w' st rs Let_def)
  qed
  then show ?thesis using assms(1) by (auto simp: watch_inv_def w' st skipped_def)
qed

lemma watch_step_inv:
  assumes "watch_inv c w" "announced c ev" "watch_step c ev w = Some w'"
  shows "watch_inv c w'"
proof (cases ev)
  case (Changes xs)
  then show ?thesis using changed_inv [OF assms(1)] assms(2,3) by (auto simp: watch_step_def announced_def)
next
  case Takes
  then show ?thesis using assms(1,3)
    by (auto simp: watch_step_def take_step_def watch_inv_def outstanding_def skipped_def up_to_date_def
        split: loop_stage.splits list.splits)
next
  case Wakes
  then show ?thesis using assms(1,3)
    by (auto simp: watch_step_def watch_inv_def outstanding_def skipped_def up_to_date_def split: loop_stage.splits)
next
  case Reads
  then show ?thesis using read_inv [OF assms(1)] assms(3) by (simp add: watch_step_def)
next
  case Applies
  then show ?thesis using assms(1,3)
    by (auto simp: watch_step_def apply_step_def watch_inv_def outstanding_def skipped_def up_to_date_def
        split: loop_stage.splits list.splits)
next
  case Compacts
  then show ?thesis using assms(1,3)
    by (auto simp: watch_step_def watch_inv_def outstanding_def split: if_splits)
qed

lemma run_watch_append: "run_watch c (xs @ ys) w = Option.bind (run_watch c xs w) (run_watch c ys)"
  by (induction xs arbitrary: w) (auto split: Option.bind_split)

lemma run_watch_inv:
  "watch_inv c w \<Longrightarrow> \<forall>ev\<in>set evs. announced c ev \<Longrightarrow> run_watch c evs w = Some w' \<Longrightarrow> watch_inv c w'"
proof (induction evs arbitrary: w)
  case (Cons ev evs)
  then obtain w1 where "watch_step c ev w = Some w1" "run_watch c evs w1 = Some w'" by (auto simp: bind_eq_Some_conv)
  then show ?case using Cons watch_step_inv [of c w ev w1] by simp
qed simp

subsection \<open>The loop catches up\<close>

text \<open>The loop runs on while nothing changes.\<close>

definition runs_on :: "watch_setup \<Rightarrow> watch_loop \<Rightarrow> watch_loop \<Rightarrow> bool" where
  "runs_on c w w' \<longleftrightarrow> (\<exists>evs. set evs \<subseteq> {Takes, Wakes, Reads, Applies} \<and> run_watch c evs w = Some w') \<and>
     wl_stat w' = wl_stat w \<and> wl_entry w' = wl_entry w \<and> wl_touched w' = wl_touched w"

lemma runs_on_refl [simp]: "runs_on c w w"
  unfolding runs_on_def by (intro conjI exI [of _ "[]"]) simp_all

lemma runs_on_trans:
  assumes "runs_on c w w1" "runs_on c w1 w2"
  shows "runs_on c w w2"
proof -
  obtain xs ys where "set xs \<subseteq> {Takes, Wakes, Reads, Applies}" "run_watch c xs w = Some w1"
    "set ys \<subseteq> {Takes, Wakes, Reads, Applies}" "run_watch c ys w1 = Some w2"
    using assms unfolding runs_on_def by blast
  then have "set (xs @ ys) \<subseteq> {Takes, Wakes, Reads, Applies} \<and> run_watch c (xs @ ys) w = Some w2" by (simp add: run_watch_append)
  then show ?thesis using assms unfolding runs_on_def by metis
qed

lemma runs_on_step:
  assumes "watch_step c ev w = Some w1" "ev \<in> {Takes, Wakes, Reads, Applies}"
    and "wl_stat w1 = wl_stat w" "wl_entry w1 = wl_entry w" "wl_touched w1 = wl_touched w" "runs_on c w1 w2"
  shows "runs_on c w w2"
proof -
  have "runs_on c w w1" unfolding runs_on_def using assms(1-5) by (intro conjI exI [of _ "[ev]"]) simp_all
  then show ?thesis using assms(6) runs_on_trans by blast
qed

lemma recording_ends:
  "wl_stage w = Recording b recs \<Longrightarrow> \<exists>w'. runs_on c w w' \<and> wl_stage w' = Waiting \<and> wl_queue w' = wl_queue w"
proof (induction b arbitrary: w recs)
  case Nil
  let ?w = "w\<lparr>wl_stage := Waiting, wl_view := fold record_spec recs (wl_view w)\<rparr>"
  have "runs_on c w ?w" by (rule runs_on_step [of c Applies w ?w]) (simp_all add: watch_step_def apply_step_def Nil)
  then show ?case by (intro exI [of _ ?w]) simp
next
  case (Cons e b)
  let ?rs = "batch_records (wt_gitignore c) (wl_stat w) (wl_entry w) (wt_max_file_size c) (wt_settings c) (wt_root c) (wt_canon_root c) [e]"
  let ?w = "w\<lparr>wl_stage := Recording b (recs @ ?rs)\<rparr>"
  obtain w' where w': "runs_on c ?w w'" "wl_stage w' = Waiting" "wl_queue w' = wl_queue ?w" using Cons.IH [of ?w] by auto
  have "runs_on c w w'" by (rule runs_on_step [of c Reads w ?w]) (simp_all add: watch_step_def read_step_def Cons.prems w'(1))
  then show ?case using w' by auto
qed

lemma settling_ends:
  "wl_stage w = Settling b \<Longrightarrow> \<exists>w'. runs_on c w w' \<and> wl_stage w' = Waiting \<and> wl_queue w' = []"
proof (induction "wl_queue w" arbitrary: w b)
  case Nil
  let ?w = "w\<lparr>wl_stage := Recording b []\<rparr>"
  obtain w' where w': "runs_on c ?w w'" "wl_stage w' = Waiting" "wl_queue w' = wl_queue ?w" using recording_ends [of ?w] by auto
  have "runs_on c w w'"
    by (rule runs_on_step [of c Takes w ?w]) (simp_all add: watch_step_def take_step_def Nil.prems Nil.hyps [symmetric] w'(1))
  then show ?case using w' Nil.hyps by auto
next
  case (Cons e q)
  let ?w = "w\<lparr>wl_queue := q, wl_stage := Settling (b @ [e])\<rparr>"
  obtain w' where w': "runs_on c ?w w'" "wl_stage w' = Waiting" "wl_queue w' = []" using Cons.hyps(1) [of ?w] by auto
  have "runs_on c w w'"
    by (rule runs_on_step [of c Takes w ?w]) (simp_all add: watch_step_def take_step_def Cons.prems Cons.hyps(2) [symmetric] w'(1))
  then show ?case using w' by auto
qed

lemma sleeping_ends:
  assumes "wl_stage w = Sleeping b"
  shows "\<exists>w'. runs_on c w w' \<and> wl_stage w' = Waiting \<and> wl_queue w' = []"
proof -
  let ?w = "w\<lparr>wl_stage := Settling b\<rparr>"
  obtain w' where w': "runs_on c ?w w'" "wl_stage w' = Waiting" "wl_queue w' = []" using settling_ends [of ?w] by auto
  have "runs_on c w w'" by (rule runs_on_step [of c Wakes w ?w]) (simp_all add: watch_step_def assms w'(1))
  then show ?thesis using w' by auto
qed

lemma draining_ends:
  "wl_stage w = Draining b \<Longrightarrow> \<exists>w'. runs_on c w w' \<and> wl_stage w' = Waiting \<and> wl_queue w' = []"
proof (induction "wl_queue w" arbitrary: w b)
  case Nil
  let ?w = "w\<lparr>wl_stage := Sleeping b\<rparr>"
  obtain w' where w': "runs_on c ?w w'" "wl_stage w' = Waiting" "wl_queue w' = []" using sleeping_ends [of ?w] by auto
  have "runs_on c w w'"
    by (rule runs_on_step [of c Takes w ?w]) (simp_all add: watch_step_def take_step_def Nil.prems Nil.hyps [symmetric] w'(1))
  then show ?case using w' by auto
next
  case (Cons e q)
  let ?w = "w\<lparr>wl_queue := q, wl_stage := Draining (b @ [e])\<rparr>"
  obtain w' where w': "runs_on c ?w w'" "wl_stage w' = Waiting" "wl_queue w' = []" using Cons.hyps(1) [of ?w] by auto
  have "runs_on c w w'"
    by (rule runs_on_step [of c Takes w ?w]) (simp_all add: watch_step_def take_step_def Cons.prems Cons.hyps(2) [symmetric] w'(1))
  then show ?case using w' by auto
qed

lemma catches_up: "\<exists>w'. runs_on c w w' \<and> wl_stage w' = Waiting \<and> wl_queue w' = []"
proof -
  have waiting: "\<exists>w'. runs_on c w w' \<and> wl_stage w' = Waiting \<and> wl_queue w' = []" if "wl_stage w = Waiting" for w
  proof (cases "wl_queue w")
    case (Cons e q)
    let ?w = "w\<lparr>wl_queue := q, wl_stage := Draining [e]\<rparr>"
    obtain w' where w': "runs_on c ?w w'" "wl_stage w' = Waiting" "wl_queue w' = []" using draining_ends [of ?w] by auto
    have "runs_on c w w'" by (rule runs_on_step [of c Takes w ?w]) (simp_all add: watch_step_def take_step_def that Cons w'(1))
    then show ?thesis using w' by auto
  qed (use that runs_on_refl in blast)
  show ?thesis
  proof (cases "wl_stage w")
    case (Recording b recs)
    then obtain w1 where "runs_on c w w1" "wl_stage w1 = Waiting" using recording_ends by blast
    then show ?thesis using waiting [of w1] runs_on_trans by blast
  qed (use waiting draining_ends sleeping_ends settling_ends in blast)+
qed

subsection \<open>Properties\<close>

text \<open>
  C28. The watcher catches up. Whatever files change and whenever, also while a batch is being read, a path
  whose last change was announced is either still in the channel or in the batch, or the records built so
  far say of it what is on disk. And when the changes stop, the loop comes to wait at an empty channel:
  then the overlay has for each such path that is not ignored the metadata and text of the file, or a
  tombstone. This holds for paths that are valid UTF-8.
\<close>

theorem watcher_catches_up:
  assumes "run_watch c evs (watch_start stat entry_at) = Some w" and "\<forall>ev\<in>set evs. announced c ev"
  shows "(\<forall>p\<in>wl_touched w. \<not> skipped c w p \<longrightarrow> p \<in> outstanding c w \<or>
      up_to_date c w (fold record_spec (recorded (wl_stage w)) (wl_view w)) p) \<and>
    (\<exists>w'. runs_on c w w' \<and> wl_stage w' = Waiting \<and> wl_queue w' = [] \<and>
      (\<forall>p\<in>wl_touched w. \<not> skipped c w p \<longrightarrow> up_to_date c w (wl_view w') p))"
proof -
  have "watch_inv c (watch_start stat entry_at)" by (simp add: watch_inv_def watch_start_def)
  from run_watch_inv [OF this assms(2,1)] have inv: "watch_inv c w" .
  obtain w' where w': "runs_on c w w'" "wl_stage w' = Waiting" "wl_queue w' = []" using catches_up by blast
  then obtain more where "set more \<subseteq> {Takes, Wakes, Reads, Applies}" "run_watch c more w = Some w'" unfolding runs_on_def by blast
  moreover from this have "\<forall>ev\<in>set more. announced c ev" by (fastforce simp: announced_def)
  ultimately have inv': "watch_inv c w'" using run_watch_inv [OF inv, of more w'] by blast
  have same: "wl_stat w' = wl_stat w" "wl_entry w' = wl_entry w" "wl_touched w' = wl_touched w" using w'(1) by (simp_all add: runs_on_def)
  have "up_to_date c w (wl_view w') p" if "p \<in> wl_touched w" "\<not> skipped c w p" for p
  proof -
    have "skipped c w' p = skipped c w p" "up_to_date c w' (wl_view w') p = up_to_date c w (wl_view w') p"
      using same by (intro same_file; simp)+
    then show ?thesis using inv' that w'(2,3) same(3) by (auto simp: watch_inv_def outstanding_def)
  qed
  then show ?thesis using inv w' unfolding watch_inv_def by blast
qed

theorem watcher_catches_up_witness:
  "\<exists>w w'. run_watch \<lparr>wt_gitignore = demo_gitignore, wt_settings = default_settings, wt_max_file_size = 9, wt_root = lit ''/v'',
      wt_canon_root = lit ''/p/v'', wt_data_dir = lit ''/d''\<rparr> [Changes [(lit ''/p/v/a'', None, gone (lit ''/v/a''))], Takes]
      (watch_start (\<lambda>p. Some (False, 1, None)) gone) = Some w \<and>
    runs_on \<lparr>wt_gitignore = demo_gitignore, wt_settings = default_settings, wt_max_file_size = 9, wt_root = lit ''/v'',
      wt_canon_root = lit ''/p/v'', wt_data_dir = lit ''/d''\<rparr> w w' \<and> lit ''/v/a'' \<in> snd (wl_view w')"
proof -
  let ?c = "\<lparr>wt_gitignore = demo_gitignore, wt_settings = default_settings, wt_max_file_size = 9, wt_root = lit ''/v'',
      wt_canon_root = lit ''/p/v'', wt_data_dir = lit ''/d''\<rparr>"
  let ?evs = "[Changes [(lit ''/p/v/a'', None, gone (lit ''/v/a''))], Takes]"
  have l: "local_path ?c (lit ''/p/v/a'') = lit ''/v/a''" "\<not> starts_with_path (lit ''/p/v/a'') (lit ''/d'')"
    "valid_utf8 (lit ''/v/a'')" by code_simp+
  obtain w where w: "run_watch ?c ?evs (watch_start (\<lambda>p. Some (False, 1, None)) gone) = Some w"
    "wl_touched w = {lit ''/v/a''}" "wl_stat w (lit ''/v/a'') = None"
    by (simp add: watch_step_def take_step_def changed_def change_file_def sent_paths_def is_self_write_def watch_start_def l Let_def)
  have a: "\<forall>ev\<in>set ?evs. announced ?c ev" by (simp add: announced_def l)
  have "\<not> skipped ?c w (lit ''/v/a'')"
    by (simp add: skipped_def path_ignored_def compile_ignore_matcher_def default_settings_def)
  then obtain w' where "runs_on ?c w w'" "up_to_date ?c w (wl_view w') (lit ''/v/a'')"
    using watcher_catches_up [OF w(1) a] unfolding w(2) by blast
  then show ?thesis using w(1,3) by (auto simp: up_to_date_def on_disk_def)
qed

end
