(* ===== verification/Spawned.thy ===== *)
theory Spawned
  imports Commands
begin

section \<open>A build in the background (crates/deepfindd/src/index_job.rs)\<close>

text \<open>
  The thread of a build from its files to the databases that are served: the build with the patterns of
  the settings, the swap of the set when it succeeds, and the daemon as it was when it does not. The
  marker that keeps a second build away is in \<open>Jobs\<close>.
\<close>

definition tracked_build ::
  "world \<Rightarrow> bytes \<Rightarrow> bytes \<Rightarrow> bytes \<Rightarrow> bytes \<Rightarrow> content_options \<Rightarrow> disk \<Rightarrow> (content_report \<times> snapshot) building" where
  "tracked_build W h root path dir opts d =
     (let opts = tracked_options (settings_load (wo_json W) (disk_files d) (data_dir h)) opts in
      build_content_index_with_progress (wo_zstd W) (wo_unicode W) (wo_gitignore W) (wo_schedule W)
        (file_save (wo_succeeds W) (wo_partial W)) (wo_mkdir W) (wo_now W) root
        (wo_tree W root (co_hidden opts) (co_one_file_system opts)) (components path) (components dir) opts d)"

text \<open>What the daemon finds when it opens the databases at a moment.\<close>

definition env_at :: "world \<Rightarrow> bytes \<Rightarrow> bool \<Rightarrow> bool \<Rightarrow> disk \<Rightarrow> env" where
  "env_at W h readable opens d = \<lparr>ev_readable = readable, ev_opens = opens, ev_files = disk_files d,
     ev_registry = (\<lambda>dir. loaded_registry W dir d), ev_default = default_db h\<rparr>"

definition spawn_run ::
  "world \<Rightarrow> bytes \<Rightarrow> bincode \<Rightarrow> bool \<Rightarrow> bool \<Rightarrow> bool \<Rightarrow> db_record \<Rightarrow> content_options \<Rightarrow> disk \<Rightarrow> daemon \<Rightarrow>
   (disk \<times> (daemon \<times> watcher option) res) option" where
  "spawn_run W h bc readable opens watch rec opts d dm =
     map_option (\<lambda>(d, r). (d, finish_spawned bc (env_at W h readable opens d) (case r of Ok x \<Rightarrow> True | _ \<Rightarrow> False) watch (db_path rec) dm))
       (tracked_build W h (db_root rec) (db_path rec) (content_dir rec) opts d)"

text \<open>
  C7. A registered database without an index gets one and is served. The build that the daemon spawns at
  its start for such a database, once it succeeds, makes it serve an entry of that name and root over
  exactly the names and contents of the walk; with watching on, the entry has a watcher; and the database
  is not missing any more. The registry is as it was.
\<close>

theorem missing_gets_served:
  assumes "rec \<in> set (missing_builds (env_at W h readable opens d) (data_dir h))" and "rec = db_record_of (data_dir h) name root"
    and "clean_dir (data_dir h)" and "plain_name name" and "disk_wf d" and "zstd_ok (wo_zstd W)" and "memmem_ok memmem"
    and "tracked_build W h root (db_path rec) (content_dir rec) default_content_options d = Some (d', Ok x)"
    and "recs = build_records (wo_schedule W) (wo_gitignore W) root
      (tracked_options (settings_load (wo_json W) (disk_files d) (data_dir h)) default_content_options) (wo_tree W root False False)"
    and "length recs < 2 ^ 31" and "\<forall>r\<in>set recs. valid_utf8 (br_path r) \<and> length (br_path r) < 2 ^ 32"
    and "build_fits (wo_zstd W) (wo_unicode W) (wo_now W) recs" and "within n dm" and "n < 2 ^ 32"
  shows "\<exists>dm' v e. spawn_run W h bc readable opens watch rec default_content_options d dm = Some (d', Ok (dm', v)) \<and>
    e \<in> set (d_entries dm') \<and> l_name e = name \<and> l_root e = Some root \<and>
    index_of (wo_zstd W) (wo_unicode W) memmem recs (l_db e) (snd (d_shards dm' (l_shards e))) \<and>
    db_records (loaded_registry W (data_dir h) d') = db_records (loaded_registry W (data_dir h) d) \<and>
    rec \<notin> set (missing_builds (env_at W h readable opens d') (data_dir h))"
proof -
  let ?a = "db_dir (data_dir h) name" and ?file = "components (data_dir h) @ [Normal (lit ''dbs.toml'')]"
  let ?opts = "tracked_options (settings_load (wo_json W) (disk_files d) (data_dir h)) default_content_options"
  note paths = named_paths [OF assms(3,4)]
  have b: "build_content_index_with_progress (wo_zstd W) (wo_unicode W) (wo_gitignore W) (wo_schedule W)
      (file_save (wo_succeeds W) (wo_partial W)) (wo_mkdir W) (wo_now W) root (wo_tree W root False False)
      (components (?a @ slash # lit ''index.dfdb'')) (components (entry_dir (?a @ slash # lit ''index.dfdb''))) ?opts d = Some (d', Ok x)"
    using assms(8) unfolding assms(2) paths(4) paths(3) tracked_build_def
    by (simp add: tracked_options_def default_content_options_def Let_def)
  obtain report progress where x: "x = (report, progress)" by (cases x)
  have small: "length (content_files recs) < 2 ^ 32"
    using disk.content_files_ok [OF _ assms(11)] assms(10) by (simp add: files_ok_def)
  from built_index [OF paths(1) named_lits(2) assms(6,7,5,10,11,9) b assms(12) refl] obtain F db snap where f:
    "disk_files d' (?a @ slash # lit ''index.dfdb'') = Some F" "open_db F = Ok db"
    "load_shard_set (disk_files d') (entry_dir (?a @ slash # lit ''index.dfdb'')) = Ok snap"
    "index_of (wo_zstd W) (wo_unicode W) memmem recs db snap" by blast
  have out: "butlast ?file \<noteq> components (entry_dir (?a @ slash # lit ''index.dfdb''))"
    "butlast ?file \<noteq> butlast (components (?a @ slash # lit ''index.dfdb''))"
    using paths(5,6) [of root] unfolding paths(4) paths(3) by (simp_all add: butlast_append)
  have "reads d' ?file = reads d ?file" by (rule disk.build_frame [OF assms(5) small [unfolded assms(9)] b out])
  then have reg: "db_records (loaded_registry W (data_dir h) d') = db_records (loaded_registry W (data_dir h) d)"
    by (simp add: loaded_registry_def registry_load_def read_to_string_def registry_file [OF assms(3)] Let_def)
  have "rec \<in> set (db_records (loaded_registry W (data_dir h) d'))"
    using assms(1) reg by (simp add: missing_builds_def env_at_def)
  from registered_served [OF assms(3,4,13,14) this [unfolded assms(2)] _ _ _ f, of "env_at W h readable opens d'" bc]
  obtain es dm1 e where e: "open_again bc (env_at W h readable opens d') dm = Ok (es, dm1)" "e \<in> set es" "l_name e = name"
    "l_root e = Some root" "index_of (wo_zstd W) (wo_unicode W) memmem recs (l_db e) (snd (d_shards dm1 (l_shards e)))"
    by (auto simp: env_at_def)
  have "\<exists>v. spawn_run W h bc readable opens watch rec default_content_options d dm = Some (d', Ok (dm1\<lparr>d_entries := es\<rparr>, v))"
    using assms(8) e(1) by (simp add: spawn_run_def finish_spawned_def bind_o_def assms(2) db_record_of_def)
  moreover have "rec \<notin> set (missing_builds (env_at W h readable opens d') (data_dir h))"
    using f(1) by (simp add: missing_builds_def env_at_def assms(2) paths(3))
  ultimately show ?thesis using e(2-5) reg by fastforce
qed

theorem missing_gets_served_witness:
  "\<exists>d0 dm v e. spawn_run (demo_world [demo_rec]) (lit ''h'') demo_bincode True True False demo_rec default_content_options
      \<lparr>entries = (\<lambda>p. if p = components (data_dir (lit ''h'')) @ [Normal (lit ''dbs.toml'')] then Some 0 else None),
        inode_data = (\<lambda>n. lit ''x''), inode_synced = (\<lambda>n. True), next_inode = 1\<rparr> demo_daemon = Some (d0, Ok (dm, v)) \<and>
    e \<in> set (d_entries dm) \<and> l_name e = lit ''w'' \<and> content_found (snd (d_shards dm (l_shards e))) (lit ''abc'') False (lit ''a'')"
proof -
  let ?W = "demo_world [demo_rec]" and ?data = "data_dir (lit ''h'')"
  let ?d = "\<lparr>entries = (\<lambda>p. if p = components ?data @ [Normal (lit ''dbs.toml'')] then Some 0 else None),
        inode_data = (\<lambda>n. lit ''x''), inode_synced = (\<lambda>n. True), next_inode = 1\<rparr> :: disk"
  have wf: "disk_wf ?d" by (auto simp: disk_wf_def split: if_splits)
  have "reads ?d (components ?data @ [Normal (lit ''dbs.toml'')]) = Some (lit ''x'')" by (simp add: reads_def)
  then have reg: "db_records (loaded_registry ?W ?data ?d) = [demo_rec]"
    by (simp add: loaded_registry_def registry_load_def read_to_string_def registry_file [OF demo_home(2)] demo_text demo_toml_def Let_def)
  have "reads ?d (components (db_path demo_rec)) = None"
    unfolding named_paths(5) [OF demo_home(2,3)] by (simp add: reads_def)
  then have missing: "demo_rec \<in> set (missing_builds (env_at ?W (lit ''h'') True True ?d) ?data)"
    using reg by (simp add: missing_builds_def env_at_def)
  have "components (settings_path ?data) \<noteq> components ?data @ [Normal (lit ''dbs.toml'')]" by code_simp
  then have "settings_load (wo_json ?W) (disk_files ?d) ?data = default_settings"
    by (simp add: settings_load_def read_to_string_def reads_def)
  then have opts: "tracked_options (settings_load (wo_json ?W) (disk_files ?d) ?data) default_content_options = default_content_options"
    by (simp add: tracked_options_def default_settings_def default_content_options_def)
  have name: "name_of (components (db_path demo_rec)) \<noteq> None" by code_simp
  have ok: "length demo_recs < 2 ^ 31" "\<forall>r\<in>set demo_recs. valid_utf8 (br_path r) \<and> length (br_path r) < 2 ^ 32"
    by (simp_all add: demo_records valid_ascii)
  have "disk.returns (\<lambda>op. True) 0 (tracked_build ?W (lit ''h'') [0x2E] (db_path demo_rec) (content_dir demo_rec) default_content_options ?d)"
    unfolding tracked_build_def Let_def opts demo_world_fields
    by (rule disk.build_returns [OF wf name _ ok(2)]) (use ok(1) in simp)
  then obtain d0 x where run: "tracked_build ?W (lit ''h'') [0x2E] (db_path demo_rec) (content_dir demo_rec) default_content_options ?d =
      Some (d0, Ok x)" using reliable_disk unfolding disk.returns_def by blast
  have "o_paths empty_overlay = []" by (simp add: empty_overlay_def)
  then have dm: "within 0 demo_daemon" by (simp add: within_def demo_daemon_def)
  have n: "(0::nat) < 2 ^ 32" by simp
  from missing_gets_served [OF missing refl demo_home(2,3) wf _ naive_find_ok run _ _ _ _ dm n, unfolded demo_world_fields opts,
      OF stored_zstd_ok refl ok demo_fits, of demo_bincode False]
  obtain dm' v e where e: "spawn_run ?W (lit ''h'') demo_bincode True True False demo_rec default_content_options ?d demo_daemon =
      Some (d0, Ok (dm', v))" "e \<in> set (d_entries dm')" "l_name e = lit ''w''"
    "index_of stored_zstd ascii_tables naive_find demo_recs (l_db e) (snd (d_shards dm' (l_shards e)))" by blast
  show ?thesis using e(1-3) demo_index_found [OF e(4)] by blast
qed

end
